(* ===== verification/Prelude.thy ===== *)
theory Prelude
  imports "HOL-Library.Word"
begin

text \<open>
  The vocabulary shared by every component: the machine integers of the kernel's C code, the
  outcomes a kernel routine can have, the macros of \<^verbatim>\<open>src/src/include/defs.h\<close> and
  \<^verbatim>\<open>src/src/include/util.h\<close>, and the generic facts on words, alignment and
  results that the component theories build on.
\<close>

unbundle bit_operations_syntax

section \<open>Machine integers and outcomes\<close>

type_synonym u8 = "8 word"
type_synonym u16 = "16 word"
type_synonym u32 = "32 word"
type_synonym u64 = "64 word"

text \<open>
  \<open>Panic\<close> is a call of \<^verbatim>\<open>panic\<close> (\<^verbatim>\<open>src/src/lib/util.c\<close>), which prints its message and
  never returns. \<open>Undefined\<close> is an access the C language does not define (an array index out of
  range, a null dereference), named by what goes wrong. \<open>Diverges\<close> stands for a call that never
  returns because a loop in it does not end.
\<close>

datatype kerror = Panic string | Undefined string | Diverges

type_synonym 'a res = "kerror + 'a"

definition rbind :: "'a res \<Rightarrow> ('a \<Rightarrow> 'b res) \<Rightarrow> 'b res" where
  "rbind r f = (case r of Inl e \<Rightarrow> Inl e | Inr x \<Rightarrow> f x)"

text \<open>A loop over memory that may not end is a partial function; a call of it ends or diverges.\<close>

definition ends :: "'a option \<Rightarrow> 'a res" where
  "ends r = (case r of None \<Rightarrow> Inl Diverges | Some x \<Rightarrow> Inr x)"

lemma ends_simps [simp]: "ends (Some x) = Inr x" "ends None = Inl Diverges"
  by (simp_all add: ends_def)

named_theorems page_simps \<open>page-size arithmetic and alignment\<close>
named_theorems mem_simps \<open>reading memory after writing it\<close>

lemma rbind_Inr [simp]: "rbind (Inr x) f = f x"
  by (simp add: rbind_def)

lemma rbind_Inl [simp]: "rbind (Inl e) f = Inl e"
  by (simp add: rbind_def)

lemma rbind_eq_Inr: "rbind r f = Inr y \<longleftrightarrow> (\<exists>x. r = Inr x \<and> f x = Inr y)"
  by (cases r) auto

lemma rbind_eq_Inl: "rbind r f = Inl e \<longleftrightarrow> r = Inl e \<or> (\<exists>x. r = Inr x \<and> f x = Inl e)"
  by (cases r) auto

section \<open>Constants and macros\<close>

text \<open>\<^verbatim>\<open>defs.h\<close>: the page size and the mask of the offset bits of an address.\<close>

abbreviation PAGE_SIZE :: u64 where
  "PAGE_SIZE \<equiv> 4096"

abbreviation PAGE_MASK :: u64 where
  "PAGE_MASK \<equiv> 0xFFF"

text \<open>
  \<^verbatim>\<open>util.h\<close>: \<^verbatim>\<open>(val + (align - 1)) & -align\<close>, \<^verbatim>\<open>val & ~(align - 1)\<close> and
  \<^verbatim>\<open>(x + y - 1) / y\<close>; every use in the kernel is on 64-bit unsigned values.
\<close>

definition ALIGNUP :: "u64 \<Rightarrow> u64 \<Rightarrow> u64" where
  "ALIGNUP val align = (val + (align - 1)) AND (- align)"

definition ALIGNDOWN :: "u64 \<Rightarrow> u64 \<Rightarrow> u64" where
  "ALIGNDOWN val align = val AND NOT (align - 1)"

definition DIV_CEIL :: "u64 \<Rightarrow> u64 \<Rightarrow> u64" where
  "DIV_CEIL x y = (x + y - 1) div y"

section \<open>Word facts\<close>

lemma unat_add_nowrap:
  fixes a b :: "'a::len word"
  assumes "unat a + unat b < 2 ^ LENGTH('a)"
  shows "unat (a + b) = unat a + unat b"
  using assms by (simp add: unat_word_ariths)

lemma unat_mult_nowrap:
  fixes a b :: "'a::len word"
  assumes "unat a * unat b < 2 ^ LENGTH('a)"
  shows "unat (a * b) = unat a * unat b"
  using assms by (simp add: unat_word_ariths)

lemma unat_sub_le:
  fixes a b :: "'a::len word"
  assumes "unat b \<le> unat a"
  shows "unat (a - b) = unat a - unat b"
  using assms by (simp add: unat_sub_if')

lemma u64_unat_bound [simp]: "unat (a :: u64) < 18446744073709551616"
  using unsigned_less [of a] by simp

lemma unat_of_nat_u64: "n < 2 ^ 64 \<Longrightarrow> unat (of_nat n :: u64) = n"
  by (simp add: unsigned_of_nat take_bit_nat_eq_self)

lemma u64_of_unat: "unat (w :: u64) = n \<Longrightarrow> w = of_nat n"
  by auto

lemma unat_u64_Suc:
  fixes i n :: u64
  assumes "i < n"
  shows "unat (i + 1) = Suc (unat i)"
proof -
  have "unat i < unat n" using assms by (simp add: word_less_nat_alt)
  moreover have "unat n < 2 ^ 64" using unsigned_less [of n] by simp
  ultimately have "unat i + 1 < 2 ^ 64" by linarith
  then show ?thesis by (simp add: unat_word_ariths)
qed

lemma unat_u64_dist_dec:
  fixes i n :: u64
  assumes "i < n"
  shows "unat (n - (i + 1)) < unat (n - i)"
proof -
  from assms have lt: "unat i < unat n" by (simp add: word_less_nat_alt)
  have "unat (n - (i + 1)) = unat n - Suc (unat i)"
    using lt unat_u64_Suc [OF assms] by (simp add: unat_sub_if')
  moreover have "unat (n - i) = unat n - unat i"
    using lt by (simp add: unat_sub_if')
  ultimately show ?thesis using lt by simp
qed

lemma u64_Suc_le_iff:
  fixes i n d :: u64
  assumes "i < n"
  shows "i + 1 \<le> d \<longleftrightarrow> i < d"
  using unat_u64_Suc [OF assms] by (simp add: word_le_nat_alt word_less_nat_alt Suc_le_eq)

section \<open>Alignment\<close>

definition aligned :: "u64 \<Rightarrow> bool" where
  "aligned a \<longleftrightarrow> 4096 dvd unat a"

text \<open>\<^verbatim>\<open>x & PAGE_MASK\<close> and \<^verbatim>\<open>x & ~PAGE_MASK\<close>, which the kernel writes out at each use.\<close>

definition page_off :: "u64 \<Rightarrow> u64" where
  "page_off a = a AND PAGE_MASK"

definition page_base :: "u64 \<Rightarrow> u64" where
  "page_base a = a AND NOT PAGE_MASK"

lemma PAGE_MASK_mask: "(PAGE_MASK :: u64) = mask 12"
  by (simp add: mask_eq_exp_minus_1)

lemma unat_page_off [page_simps]: "unat (page_off a) = unat a mod 4096"
proof -
  have "page_off a = take_bit 12 a"
    by (simp only: page_off_def PAGE_MASK_mask take_bit_eq_mask)
  moreover have "unat (take_bit 12 a) = take_bit 12 (unat a)"
    by (simp only: unsigned_take_bit_eq)
  ultimately show ?thesis
    by (simp add: take_bit_eq_mod)
qed

lemma aligned_iff_page_off: "aligned a \<longleftrightarrow> page_off a = 0"
proof -
  have "page_off a = 0 \<longleftrightarrow> unat (page_off a) = 0"
    by (simp only: unat_eq_0)
  then show ?thesis
    by (simp add: unat_page_off aligned_def dvd_eq_mod_eq_0)
qed

lemma page_base_plus_off: "page_base a + page_off a = a"
proof -
  have "page_base a + page_off a = page_base a OR page_off a"
    unfolding page_base_def page_off_def
    by (rule disjunctive_add) (auto simp only: bit_and_iff bit_not_iff)
  also have "\<dots> = a"
    unfolding page_base_def page_off_def
    by (rule bit_word_eqI) (auto simp only: bit_and_iff bit_not_iff bit_or_iff possible_bit_word)
  finally show ?thesis .
qed

lemma unat_page_base [page_simps]: "unat (page_base a) = unat a - unat a mod 4096"
proof -
  have "page_base a = a - page_off a"
    using page_base_plus_off [of a] by (metis add_diff_cancel_right')
  moreover have "unat (page_off a) \<le> unat a"
    by (simp add: unat_page_off)
  ultimately show ?thesis
    by (simp add: unat_sub_le unat_page_off)
qed

lemma aligned_page_base [simp]: "aligned (page_base a)"
  by (simp add: aligned_def unat_page_base)

lemma aligned_0 [simp]: "aligned 0"
  by (simp add: aligned_def)

lemma page_base_aligned: "aligned a \<Longrightarrow> page_base a = a"
  using page_base_plus_off [of a] by (simp add: aligned_iff_page_off)

text \<open>Flags below the page size can be merged into an aligned address and stripped again.\<close>

lemma page_base_or: "page_base (a OR b) = page_base a OR page_base b"
  by (simp only: page_base_def bit.conj_disj_distrib2)

lemma page_base_small: "unat f < 4096 \<Longrightarrow> page_base f = 0"
  using unat_page_base [of f] by (simp add: unat_eq_0)

lemma page_base_or_flags:
  assumes "aligned a" and "unat f < 4096"
  shows "page_base (a OR f) = a"
  using assms by (simp add: page_base_or page_base_aligned page_base_small)

end
