(* ===== verification/Memory.thy ===== *)
theory Memory
  imports Prelude
begin

text \<open>
  The memory the kernel addresses: a byte for every 64-bit kernel virtual address, with the
  little-endian loads and stores the compiler emits for \<^verbatim>\<open>uint16_t\<close>, \<^verbatim>\<open>uint32_t\<close> and
  \<^verbatim>\<open>uint64_t\<close> objects. Struct fields, page-table entries, allocation bitmaps and heap headers
  all live in this one memory, so a theorem about one of them has to show that the writes of the
  others do not reach it.

  The direct map of physical memory at \<open>PHYS_MAPPING_START\<close> (\<^verbatim>\<open>src/src/include/vmm.h\<close>) is a
  window of this memory: \<open>P_TO_V\<close> turns a physical address into the address the kernel uses.
\<close>

type_synonym memory = "u64 \<Rightarrow> u8"

section \<open>Loads and stores\<close>

primrec ldn :: "nat \<Rightarrow> memory \<Rightarrow> u64 \<Rightarrow> 'a::len word" where
  "ldn 0 m a = 0"
| "ldn (Suc n) m a = ucast (m a) OR push_bit 8 (ldn n m (a + 1))"

primrec stn :: "nat \<Rightarrow> memory \<Rightarrow> u64 \<Rightarrow> 'a::len word \<Rightarrow> memory" where
  "stn 0 m a v = m"
| "stn (Suc n) m a v = stn n (m(a := ucast v)) (a + 1) (drop_bit 8 v)"

definition ld16 :: "memory \<Rightarrow> u64 \<Rightarrow> u16" where "ld16 = ldn 2"
definition ld32 :: "memory \<Rightarrow> u64 \<Rightarrow> u32" where "ld32 = ldn 4"
definition ld64 :: "memory \<Rightarrow> u64 \<Rightarrow> u64" where "ld64 = ldn 8"
definition st16 :: "memory \<Rightarrow> u64 \<Rightarrow> u16 \<Rightarrow> memory" where "st16 = stn 2"
definition st32 :: "memory \<Rightarrow> u64 \<Rightarrow> u32 \<Rightarrow> memory" where "st32 = stn 4"
definition st64 :: "memory \<Rightarrow> u64 \<Rightarrow> u64 \<Rightarrow> memory" where "st64 = stn 8"

section \<open>Address ranges\<close>

text \<open>The addresses of an object of \<open>n\<close> bytes at \<open>a\<close>; membership is decided by one subtraction.\<close>

definition rng :: "u64 \<Rightarrow> nat \<Rightarrow> u64 set" where
  "rng a n = {x. unat (x - a) < n}"

lemma in_rng [simp]: "x \<in> rng a n \<longleftrightarrow> unat (x - a) < n"
  by (simp add: rng_def)

lemma rng_mono: "n \<le> k \<Longrightarrow> rng a n \<subseteq> rng a k"
  by auto

lemma in_rng_nat:
  assumes "unat a + n \<le> 2 ^ 64"
  shows "x \<in> rng a n \<longleftrightarrow> unat a \<le> unat x \<and> unat x < unat a + n"
proof (cases "unat a \<le> unat x")
  case True
  then show ?thesis by (auto simp: unat_sub_le)
next
  case False
  then have "unat (x - a) = 2 ^ 64 + unat x - unat a"
    by (simp add: unat_sub_if')
  with False assms show ?thesis by simp
qed

lemma rng_disjoint_nat:
  assumes "unat a + n \<le> unat b" and "unat b + k \<le> 2 ^ 64"
  shows "rng a n \<inter> rng b k = {}"
proof -
  have a: "unat a + n \<le> 2 ^ 64" using assms by simp
  show ?thesis
    using assms(1) unfolding disjoint_iff in_rng_nat [OF a] in_rng_nat [OF assms(2)] by fastforce
qed

lemma rng_subset_nat:
  assumes "unat b \<le> unat a" and "unat a + n \<le> unat b + k" and "unat b + k \<le> 2 ^ 64"
  shows "rng a n \<subseteq> rng b k"
proof -
  have a: "unat a + n \<le> 2 ^ 64" using assms by simp
  show ?thesis
    using assms(1,2) unfolding subset_iff in_rng_nat [OF a] in_rng_nat [OF assms(3)] by fastforce
qed

lemma rng_shift: "x + d \<in> rng (a + d) n \<longleftrightarrow> x \<in> rng a n"
  by simp

lemma rng_nonempty: "0 < n \<Longrightarrow> a \<in> rng a n"
  by simp

text \<open>Parts of one object, and the slots of a table of \<open>k\<close>-byte entries, by their offsets.\<close>

lemma rng_parts_apart:
  assumes "unat p + n \<le> unat q" "unat q + k \<le> 2 ^ 64" "x \<in> rng (g + p) n"
  shows "x \<notin> rng (g + q) k"
proof -
  have "x - g \<in> rng p n" using assms(3) by (simp add: diff_diff_eq)
  then have "x - g \<notin> rng q k" using rng_disjoint_nat [OF assms(1,2)] by blast
  then show ?thesis by (simp add: diff_diff_eq)
qed

lemma rng_part:
  assumes "unat p + n \<le> k" "k \<le> 2 ^ 64" "x \<in> rng (g + p) n"
  shows "x \<in> rng g k"
proof -
  have "x - g \<in> rng p n" using assms(3) by (simp add: diff_diff_eq)
  then have "x - g \<in> rng 0 k" using rng_subset_nat [of 0 p n k] assms(1,2) by auto
  then show ?thesis by simp
qed

lemma slots_apart_less:
  assumes "i < j" "Suc j * k \<le> 4294967296"
  shows "rng (b + of_nat (i * k)) k \<inter> rng (b + of_nat (j * k)) k = {}"
proof -
  have le: "i * k + k \<le> j * k" "j * k + k \<le> 4294967296"
    using assms mult_le_mono1 [of "Suc i" j k] by simp_all
  define p q where "p = i * k" and "q = j * k"
  have u: "unat (of_nat p :: u64) = p" "unat (of_nat q :: u64) = q"
    using le by (simp_all add: p_def q_def unat_of_nat_u64 del: of_nat_mult)
  have "rng (of_nat p) k \<inter> rng (of_nat q) k = {}"
    by (rule rng_disjoint_nat) (use le in \<open>simp_all only: u, simp_all add: p_def q_def\<close>)
  then have "x - b \<notin> rng (of_nat p) k \<or> x - b \<notin> rng (of_nat q) k" for x by blast
  then show ?thesis unfolding p_def [symmetric] q_def [symmetric] disjoint_iff in_rng diff_diff_eq by blast
qed

lemma slots_apart:
  assumes "i \<noteq> j" "Suc i * k \<le> 4294967296" "Suc j * k \<le> 4294967296"
  shows "rng (b + of_nat (i * k)) k \<inter> rng (b + of_nat (j * k)) k = {}"
proof (cases "i < j")
  case True
  then show ?thesis using assms(3) by (rule slots_apart_less)
next
  case False
  then have "j < i" using assms(1) by simp
  from slots_apart_less [OF this assms(2)] show ?thesis by (simp only: Int_commute)
qed

lemma slots_rest:
  assumes "Suc n * k \<le> 4294967296"
  shows "rng (b + of_nat (Suc i * k)) (n * k) \<subseteq> rng (b + of_nat (i * k)) (Suc n * k)"
proof
  fix x assume "x \<in> rng (b + of_nat (Suc i * k)) (n * k)"
  then have "x \<in> rng (b + of_nat (i * k) + of_nat k) (n * k)" by (simp add: ac_simps)
  then show "x \<in> rng (b + of_nat (i * k)) (Suc n * k)"
  proof (rule rng_part [rotated 2])
    have "k \<le> 4294967296" using assms by simp
    then show "unat (of_nat k :: u64) + n * k \<le> Suc n * k" by (simp add: unat_of_nat_u64)
    show "Suc n * k \<le> 2 ^ 64" using assms by simp
  qed
qed

section \<open>Reading what was written\<close>

lemma notin_rng_Suc:
  assumes "x \<notin> rng a (Suc n)" and "Suc n \<le> 2 ^ 64"
  shows "x \<noteq> a" and "x \<notin> rng (a + 1) n"
proof -
  show ne: "x \<noteq> a" using assms(1) by auto
  define d where "d = x - a"
  have "Suc n \<le> unat d" using assms(1) by (simp add: d_def)
  moreover have "unat (d - 1) = unat d - 1"
    using calculation by (simp add: unat_sub_if')
  moreover have "x - (a + 1) = d - 1" by (simp add: d_def)
  ultimately show "x \<notin> rng (a + 1) n" by (simp only: in_rng)
qed

lemma stn_other:
  "x \<notin> rng a n \<Longrightarrow> n \<le> 2 ^ 64 \<Longrightarrow> stn n m a v x = m x"
proof (induction n arbitrary: m a v)
  case 0
  then show ?case by simp
next
  case (Suc n)
  have "x \<noteq> a" and "x \<notin> rng (a + 1) n" using notin_rng_Suc [OF Suc.prems] by auto
  with Suc show ?case by simp
qed

lemma ldn_cong:
  "(\<And>x. x \<in> rng a n \<Longrightarrow> m x = m' x) \<Longrightarrow> n \<le> 2 ^ 64 \<Longrightarrow> ldn n m a = ldn n m' a"
proof (induction n arbitrary: a)
  case 0
  then show ?case by simp
next
  case (Suc n)
  have sub: "x \<in> rng a (Suc n)" if "x \<in> rng (a + 1) n" for x
    using notin_rng_Suc (2) [of x a n] Suc.prems(2) that by blast
  have "m a = m' a" by (rule Suc.prems(1)) simp
  moreover have "ldn n m (a + 1) = (ldn n m' (a + 1) :: 'a word)"
    by (rule Suc.IH) (use sub Suc.prems in auto)
  ultimately show ?case by simp
qed

lemma ldn_stn_disjoint:
  assumes "rng a n \<inter> rng b k = {}" and "n \<le> 2 ^ 64" and "k \<le> 2 ^ 64"
  shows "ldn k (stn n m a v) b = ldn k m b"
  by (rule ldn_cong) (use assms stn_other in blast)+

lemma ldn_stn_same:
  fixes v :: "'a::len word"
  shows "n < 2 ^ 64 \<Longrightarrow> ldn n (stn n m a v) a = take_bit (8 * n) v"
proof (induction n arbitrary: m a v)
  case 0
  then show ?case by simp
next
  case (Suc n)
  have "a \<notin> rng (a + 1) n"
  proof -
    have "unat (a - (a + 1)) = unat (- 1 :: u64)" by simp
    also have "\<dots> = 2 ^ 64 - 1" by (simp add: unsigned_minus_1_eq_mask mask_eq_exp_minus_1)
    finally show ?thesis using Suc.prems by simp
  qed
  then have hd: "stn n (m(a := ucast v)) (a + 1) (drop_bit 8 v) a = ucast v"
    using Suc.prems by (simp add: stn_other)
  have tl: "ldn n (stn n (m(a := ucast v)) (a + 1) (drop_bit 8 v)) (a + 1)
      = take_bit (8 * n) (drop_bit 8 v)"
    using Suc by simp
  have "ucast (ucast v :: u8) OR push_bit 8 (take_bit (8 * n) (drop_bit 8 v))
      = take_bit (8 * Suc n) v"
    by (rule bit_word_eqI) (auto simp: bit_simps)
  with hd tl show ?case by simp
qed

lemma ld64_st64 [mem_simps]: "ld64 (st64 m a v) a = v"
  by (simp add: ld64_def st64_def ldn_stn_same take_bit_word_eq_self del: ldn.simps stn.simps)

lemma ld32_st32 [mem_simps]: "ld32 (st32 m a v) a = v"
  by (simp add: ld32_def st32_def ldn_stn_same take_bit_word_eq_self del: ldn.simps stn.simps)

lemma ld16_st16 [mem_simps]: "ld16 (st16 m a v) a = v"
  by (simp add: ld16_def st16_def ldn_stn_same take_bit_word_eq_self del: ldn.simps stn.simps)

lemma st64_other: "x \<notin> rng a 8 \<Longrightarrow> st64 m a v x = m x"
  unfolding st64_def by (rule stn_other) simp_all

lemma st32_other: "x \<notin> rng a 4 \<Longrightarrow> st32 m a v x = m x"
  unfolding st32_def by (rule stn_other) simp_all

lemma st16_other: "x \<notin> rng a 2 \<Longrightarrow> st16 m a v x = m x"
  unfolding st16_def by (rule stn_other) simp_all

lemma ld64_cong: "(\<And>x. x \<in> rng a 8 \<Longrightarrow> m x = m' x) \<Longrightarrow> ld64 m a = ld64 m' a"
  unfolding ld64_def by (rule ldn_cong) simp_all

lemma ld32_cong: "(\<And>x. x \<in> rng a 4 \<Longrightarrow> m x = m' x) \<Longrightarrow> ld32 m a = ld32 m' a"
  unfolding ld32_def by (rule ldn_cong) simp_all

lemma ld16_cong: "(\<And>x. x \<in> rng a 2 \<Longrightarrow> m x = m' x) \<Longrightarrow> ld16 m a = ld16 m' a"
  unfolding ld16_def by (rule ldn_cong) simp_all

lemma ld64_st64_disjoint: "rng a 8 \<inter> rng b 8 = {} \<Longrightarrow> ld64 (st64 m a v) b = ld64 m b"
  unfolding ld64_def st64_def by (rule ldn_stn_disjoint) simp_all

lemma ld64_st32_disjoint: "rng a 4 \<inter> rng b 8 = {} \<Longrightarrow> ld64 (st32 m a v) b = ld64 m b"
  unfolding ld64_def st32_def by (rule ldn_stn_disjoint) simp_all

lemma ld32_st64_disjoint: "rng a 8 \<inter> rng b 4 = {} \<Longrightarrow> ld32 (st64 m a v) b = ld32 m b"
  unfolding ld32_def st64_def by (rule ldn_stn_disjoint) simp_all

lemma ld32_st32_disjoint: "rng a 4 \<inter> rng b 4 = {} \<Longrightarrow> ld32 (st32 m a v) b = ld32 m b"
  unfolding ld32_def st32_def by (rule ldn_stn_disjoint) simp_all

lemma ld16_st16_disjoint: "rng a 2 \<inter> rng b 2 = {} \<Longrightarrow> ld16 (st16 m a v) b = ld16 m b"
  unfolding ld16_def st16_def by (rule ldn_stn_disjoint) simp_all

lemma ldn_zero: "(\<And>x. x \<in> rng a n \<Longrightarrow> m x = 0) \<Longrightarrow> n \<le> 2 ^ 64 \<Longrightarrow> ldn n m a = 0"
proof -
  assume z: "\<And>x. x \<in> rng a n \<Longrightarrow> m x = 0" and n: "n \<le> 2 ^ 64"
  have "ldn n m a = (ldn n (\<lambda>_. 0) a :: 'a word)"
    by (rule ldn_cong) (use z n in auto)
  also have "\<dots> = 0" by (induction n arbitrary: a) simp_all
  finally show ?thesis .
qed

lemma ld64_zero: "(\<And>x. x \<in> rng a 8 \<Longrightarrow> m x = 0) \<Longrightarrow> ld64 m a = 0"
  unfolding ld64_def by (rule ldn_zero) simp_all

section \<open>The direct map of physical memory\<close>

definition PHYS_MAPPING_START :: u64 where
  "PHYS_MAPPING_START = 0xffff888000000000"

definition P_TO_V :: "u64 \<Rightarrow> u64" where
  "P_TO_V x = PHYS_MAPPING_START + x"

lemma P_TO_V_diff [simp]: "P_TO_V a - P_TO_V b = a - b"
  by (simp add: P_TO_V_def)

lemma P_TO_V_eq_iff [simp]: "P_TO_V a = P_TO_V b \<longleftrightarrow> a = b"
  by (simp add: P_TO_V_def)

lemma P_TO_V_add: "P_TO_V a + b = P_TO_V (a + b)"
  by (simp add: P_TO_V_def add.assoc)

lemma P_TO_V_in_rng [simp]: "P_TO_V x \<in> rng (P_TO_V a) n \<longleftrightarrow> x \<in> rng a n"
  by simp

lemma P_TO_V_surj: "\<exists>x. v = P_TO_V x"
  by (rule exI [of _ "v - PHYS_MAPPING_START"]) (simp add: P_TO_V_def)

lemma rng_P_TO_V_disjoint:
  "rng (P_TO_V a) n \<inter> rng (P_TO_V b) k = {} \<longleftrightarrow> rng a n \<inter> rng b k = {}"
proof -
  have "rng (P_TO_V c) l = P_TO_V ` rng c l" for c l
    using P_TO_V_surj by (fastforce simp: image_iff)
  moreover have "inj P_TO_V" by (simp add: inj_def)
  ultimately show ?thesis by (simp add: image_Int [symmetric])
qed

text \<open>Two distinct page frames do not overlap.\<close>

lemma aligned_frames_disjoint:
  assumes "aligned a" and "aligned b" and "a \<noteq> b"
  shows "rng a 4096 \<inter> rng b 4096 = {}"
proof -
  have lt: "unat c + 4096 \<le> unat d" if c: "aligned c" and d: "aligned d" and cd: "unat c < unat d" for c d :: u64
  proof -
    obtain i where i: "unat c = 4096 * i" using c by (auto simp: aligned_def)
    obtain j where j: "unat d = 4096 * j" using d by (auto simp: aligned_def)
    show ?thesis using i j cd by simp
  qed
  have top: "unat c + 4096 \<le> 2 ^ 64" if c: "aligned c" for c :: u64
  proof -
    obtain i where i: "unat c = 4096 * i" using c by (auto simp: aligned_def)
    have "unat c < 2 ^ 64" using unsigned_less [of c] by simp
    with i show ?thesis by simp
  qed
  have "unat a \<noteq> unat b" using assms(3) by (simp add: word_unat_eq_iff)
  then consider "unat a < unat b" | "unat b < unat a" by linarith
  then show ?thesis
  proof cases
    case 1
    with assms show ?thesis by (intro rng_disjoint_nat lt top)
  next
    case 2
    with assms have "rng b 4096 \<inter> rng a 4096 = {}" by (intro rng_disjoint_nat lt top)
    then show ?thesis by blast
  qed
qed

end
