(* ===== verification/CString.thy ===== *)
theory CString
  imports Memory
begin

text \<open>
  \<^verbatim>\<open>src/src/lib/string.c\<close>: the kernel's string and memory routines on the byte memory. A loop
  over a counter compared with a bound is a terminating recursion on the counter's distance to the
  bound; a loop that runs until it meets a zero byte need not end, so those are
  \<open>partial_function (option)\<close> with \<open>None\<close> for a loop that never returns, and the
  theorems below say when they return. Characters are bytes; \<open>strcmp\<close> and \<open>strncmp\<close> return the
  C \<^verbatim>\<open>int\<close> difference of two \<^verbatim>\<open>unsigned char\<close>.
\<close>

section \<open>The routines\<close>

function strnlen_loop :: "memory \<Rightarrow> u64 \<Rightarrow> u64 \<Rightarrow> u64 \<Rightarrow> u64" where
  "strnlen_loop m s maxlen len =
     (if m (s + len) \<noteq> 0 \<and> len < maxlen then strnlen_loop m s maxlen (len + 1) else len)"
  by pat_completeness auto
termination
  by (relation "measure (\<lambda>(m, s, maxlen, len). unat (maxlen - len))") (auto simp: unat_u64_dist_dec)

definition strnlen :: "memory \<Rightarrow> u64 \<Rightarrow> u64 \<Rightarrow> u64" where
  "strnlen m s maxlen = strnlen_loop m s maxlen 0"

partial_function (option) strlen_loop :: "memory \<Rightarrow> u64 \<Rightarrow> u64 \<Rightarrow> u64 option" where
  "strlen_loop m s len = (if m (s + len) \<noteq> 0 then strlen_loop m s (len + 1) else Some len)"

definition strlen :: "memory \<Rightarrow> u64 \<Rightarrow> u64 option" where
  "strlen m s = strlen_loop m s 0"

text \<open>\<open>strcpy\<close> evaluates \<^verbatim>\<open>strlen(src)\<close> again in every test of its loop.\<close>

partial_function (option) strcpy_loop :: "memory \<Rightarrow> u64 \<Rightarrow> u64 \<Rightarrow> u64 \<Rightarrow> memory option" where
  "strcpy_loop m dest src i =
     (case strlen m src of
        None \<Rightarrow> None
      | Some n \<Rightarrow> if i < n then strcpy_loop (m(dest + i := m (src + i))) dest src (i + 1)
                  else Some m)"

definition strcpy :: "memory \<Rightarrow> u64 \<Rightarrow> u64 \<Rightarrow> memory option" where
  "strcpy m dest src = strcpy_loop m dest src 0"

function strlcpy_loop :: "memory \<Rightarrow> u64 \<Rightarrow> u64 \<Rightarrow> u64 \<Rightarrow> u64 \<Rightarrow> u64 \<times> memory" where
  "strlcpy_loop m dest src sz i =
     (if i < sz then
        (let m' = m(dest + i := m (src + i)) in
         if m' (src + i) = 0 then (i, m') else strlcpy_loop m' dest src sz (i + 1))
      else (sz, m))"
  by pat_completeness auto
termination
  by (relation "measure (\<lambda>(m, dest, src, sz, i). unat (sz - i))") (auto simp: unat_u64_dist_dec)

definition strlcpy :: "memory \<Rightarrow> u64 \<Rightarrow> u64 \<Rightarrow> u64 \<Rightarrow> u64 \<times> memory" where
  "strlcpy m dest src sz = strlcpy_loop m dest src sz 0"

partial_function (option) strcmp :: "memory \<Rightarrow> u64 \<Rightarrow> u64 \<Rightarrow> int option" where
  "strcmp m s1 s2 =
     (if m s1 \<noteq> 0 \<and> m s1 = m s2 then strcmp m (s1 + 1) (s2 + 1)
      else Some (uint (m s1) - uint (m s2)))"

partial_function (option) strncmp :: "memory \<Rightarrow> u64 \<Rightarrow> u64 \<Rightarrow> u64 \<Rightarrow> int option" where
  "strncmp m s1 s2 n =
     (if m s1 \<noteq> 0 \<and> m s1 = m s2 then strncmp m (s1 + 1) (s2 + 1) (n - 1)
      else Some (if n = 0 then 0 else uint (m s1) - uint (m s2)))"

function memset_loop :: "memory \<Rightarrow> u64 \<Rightarrow> u8 \<Rightarrow> u64 \<Rightarrow> u64 \<Rightarrow> memory" where
  "memset_loop m s c n i = (if i < n then memset_loop (m(s + i := c)) s c n (i + 1) else m)"
  by pat_completeness auto
termination
  by (relation "measure (\<lambda>(m, s, c, n, i). unat (n - i))") (auto simp: unat_u64_dist_dec)

definition memset :: "memory \<Rightarrow> u64 \<Rightarrow> u8 \<Rightarrow> u64 \<Rightarrow> memory" where
  "memset m s c n = memset_loop m s c n 0"

function memcpy_loop :: "memory \<Rightarrow> u64 \<Rightarrow> u64 \<Rightarrow> u64 \<Rightarrow> u64 \<Rightarrow> memory" where
  "memcpy_loop m dest src n i =
     (if i < n then memcpy_loop (m(dest + i := m (src + i))) dest src n (i + 1) else m)"
  by pat_completeness auto
termination
  by (relation "measure (\<lambda>(m, dest, src, n, i). unat (n - i))") (auto simp: unat_u64_dist_dec)

definition memcpy :: "memory \<Rightarrow> u64 \<Rightarrow> u64 \<Rightarrow> u64 \<Rightarrow> memory" where
  "memcpy m dest src n = memcpy_loop m dest src n 0"

declare strnlen_loop.simps [simp del] strlcpy_loop.simps [simp del]
  memset_loop.simps [simp del] memcpy_loop.simps [simp del]

section \<open>Filling and copying\<close>

text \<open>\<open>memset\<close> in closed form: exactly the \<open>n\<close> bytes from \<open>s\<close> become \<open>c\<close>.\<close>

lemma memset_loop_eq:
  "memset_loop m s c n i = (\<lambda>a. if i \<le> a - s \<and> a - s < n then c else m a)"
proof (induction m s c n i rule: memset_loop.induct)
  case (1 m s c n i)
  show ?case
  proof (cases "i < n")
    case True
    have eq: "a = s + i \<longleftrightarrow> a - s = i" for a by (auto simp: algebra_simps)
    have "memset_loop m s c n i = memset_loop (m(s + i := c)) s c n (i + 1)"
      using True by (subst memset_loop.simps) simp
    also have "\<dots> = (\<lambda>a. if i + 1 \<le> a - s \<and> a - s < n then c else (m(s + i := c)) a)"
      by (rule 1 [OF True])
    also have "\<dots> = (\<lambda>a. if i \<le> a - s \<and> a - s < n then c else m a)"
      using True by (auto simp: fun_eq_iff u64_Suc_le_iff [OF True] eq)
    finally show ?thesis .
  next
    case False
    then show ?thesis by (subst memset_loop.simps) (auto simp: fun_eq_iff)
  qed
qed

lemma memset_eq: "memset m s c n = (\<lambda>a. if a - s < n then c else m a)"
  by (simp add: memset_def memset_loop_eq)

lemma memset_in: "a \<in> rng s (unat n) \<Longrightarrow> memset m s c n a = c"
  by (simp add: memset_eq word_less_nat_alt)

lemma memset_out: "a \<notin> rng s (unat n) \<Longrightarrow> memset m s c n a = m a"
  by (simp add: memset_eq word_less_nat_alt)

text \<open>
  \<open>memcpy\<close> copies forwards, one byte at a time: in closed form when source and destination do
  not overlap.
\<close>

lemma memcpy_loop_eq:
  assumes "\<And>j. i \<le> j \<Longrightarrow> j < n \<Longrightarrow> src + j \<notin> rng dest (unat n)"
  shows "memcpy_loop m dest src n i =
    (\<lambda>a. if i \<le> a - dest \<and> a - dest < n then m (src + (a - dest)) else m a)"
  using assms
proof (induction m dest src n i rule: memcpy_loop.induct)
  case (1 m dest src n i)
  show ?case
  proof (cases "i < n")
    case True
    have in_dest: "dest + i \<in> rng dest (unat n)"
      using True by (simp add: word_less_nat_alt)
    have src_ne: "src + j \<noteq> dest + i" if "i \<le> j" "j < n" for j
      using 1(2) [OF that] in_dest by metis
    have eq: "a = dest + i \<longleftrightarrow> a - dest = i" for a by (auto simp: algebra_simps)
    let ?m = "m(dest + i := m (src + i))"
    have "memcpy_loop m dest src n i = memcpy_loop ?m dest src n (i + 1)"
      using True by (subst memcpy_loop.simps) simp
    also have "\<dots> = (\<lambda>a. if i + 1 \<le> a - dest \<and> a - dest < n then ?m (src + (a - dest)) else ?m a)"
      using 1(2) by (intro 1(1) [OF True]) (simp add: u64_Suc_le_iff [OF True] order_less_imp_le)
    also have "\<dots> = (\<lambda>a. if i \<le> a - dest \<and> a - dest < n then m (src + (a - dest)) else m a)"
    proof (rule ext)
      fix a
      show "(if i + 1 \<le> a - dest \<and> a - dest < n then ?m (src + (a - dest)) else ?m a) =
        (if i \<le> a - dest \<and> a - dest < n then m (src + (a - dest)) else m a)"
      proof (cases "a - dest = i")
        case True
        with \<open>i < n\<close> show ?thesis by (simp add: u64_Suc_le_iff [OF \<open>i < n\<close>] eq)
      next
        case False
        then have ne: "a \<noteq> dest + i" by (simp add: eq)
        have src: "?m (src + (a - dest)) = m (src + (a - dest))" if "i < a - dest" "a - dest < n"
          using src_ne [of "a - dest"] that by (intro fun_upd_other) simp
        have le: "i \<le> a - dest \<longleftrightarrow> i < a - dest" using False by auto
        show ?thesis
          unfolding u64_Suc_le_iff [OF \<open>i < n\<close>] le fun_upd_other [OF ne]
          by (intro if_cong refl src) auto
      qed
    qed
    finally show ?thesis .
  next
    case False
    then show ?thesis by (subst memcpy_loop.simps) (auto simp: fun_eq_iff)
  qed
qed

lemma memcpy_eq:
  assumes "rng dest (unat n) \<inter> rng src (unat n) = {}"
  shows "memcpy m dest src n = (\<lambda>a. if a - dest < n then m (src + (a - dest)) else m a)"
proof -
  have "src + j \<notin> rng dest (unat n)" if "j < n" for j
    using assms that by (auto simp: word_less_nat_alt disjoint_iff)
  then show ?thesis
    by (simp add: memcpy_def memcpy_loop_eq)
qed

lemma memcpy_out:
  "a \<notin> rng dest (unat n) \<Longrightarrow> memcpy m dest src n a = m a"
proof -
  have "a \<notin> rng dest (unat n) \<Longrightarrow> memcpy_loop m dest src n i a = m a" for i
  proof (induction m dest src n i rule: memcpy_loop.induct)
    case (1 m dest src n i)
    show ?case
    proof (cases "i < n")
      case True
      then have "a \<noteq> dest + i" using 1(2) by (auto simp: word_less_nat_alt)
      have "memcpy_loop m dest src n i a
          = memcpy_loop (m(dest + i := m (src + i))) dest src n (i + 1) a"
        using True by (subst memcpy_loop.simps) simp
      also have "\<dots> = (m(dest + i := m (src + i))) a"
        by (rule 1(1) [OF True 1(2)])
      finally show ?thesis using \<open>a \<noteq> dest + i\<close> by simp
    next
      case False
      then show ?thesis by (subst memcpy_loop.simps) simp
    qed
  qed
  then show "a \<notin> rng dest (unat n) \<Longrightarrow> memcpy m dest src n a = m a"
    by (simp add: memcpy_def)
qed

section \<open>Strings in memory\<close>

text \<open>\<open>cstr m s xs\<close>: the zero-terminated string at \<open>s\<close> is \<open>xs\<close>.\<close>

fun cstr :: "memory \<Rightarrow> u64 \<Rightarrow> u8 list \<Rightarrow> bool" where
  "cstr m s [] \<longleftrightarrow> m s = 0"
| "cstr m s (x # xs) \<longleftrightarrow> x \<noteq> 0 \<and> m s = x \<and> cstr m (s + 1) xs"

lemma cstr_unique: "cstr m s xs \<Longrightarrow> cstr m s ys \<Longrightarrow> xs = ys"
  by (induction m s xs arbitrary: ys rule: cstr.induct) (case_tac ys; auto)+

lemma cstr_nth: "cstr m s xs \<Longrightarrow> i < length xs \<Longrightarrow> m (s + of_nat i) = xs ! i \<and> xs ! i \<noteq> 0"
proof (induction xs arbitrary: s i)
  case Nil
  then show ?case by simp
next
  case (Cons x xs)
  show ?case
  proof (cases i)
    case 0
    with Cons.prems show ?thesis by simp
  next
    case (Suc k)
    then have "s + of_nat i = s + 1 + of_nat k" by (simp add: ac_simps)
    with Cons.IH [of "s + 1" k] Cons.prems Suc show ?thesis
      by (simp only: cstr.simps nth_Cons_Suc length_Cons Suc_less_eq) simp
  qed
qed

lemma cstr_end: "cstr m s xs \<Longrightarrow> m (s + of_nat (length xs)) = 0"
proof (induction xs arbitrary: s)
  case (Cons x xs)
  have "s + of_nat (length (x # xs)) = s + 1 + of_nat (length xs)" by (simp add: ac_simps)
  with Cons show ?case by (simp only: cstr.simps)
qed simp

lemma cstr_length:
  assumes "cstr m s xs"
  shows "length xs < 2 ^ 64"
proof (rule ccontr)
  assume long: "\<not> length xs < 2 ^ 64"
  define k where "k = length xs mod 2 ^ LENGTH(64)"
  have "k < 2 ^ LENGTH(64)" unfolding k_def by (rule mod_less_divisor) simp
  then have "k < length xs" using long by simp
  moreover have "(of_nat k :: u64) = of_nat (length xs)"
    unfolding k_def by (simp add: word_of_nat_eq_iff take_bit_eq_mod)
  ultimately show False
    using cstr_nth [OF assms, of k] cstr_end [OF assms] by simp
qed

lemma strlen_loop_cstr:
  "cstr m (s + len) xs \<Longrightarrow> strlen_loop m s len = Some (len + of_nat (length xs))"
  by (induction xs arbitrary: len) (subst strlen_loop.simps; auto simp: ac_simps)+

lemma strlen_cstr: "cstr m s xs \<Longrightarrow> strlen m s = Some (of_nat (length xs))"
  using strlen_loop_cstr [of m s 0 xs] by (simp add: strlen_def)

lemma strlen_loop_returns:
  assumes "strlen_loop m s len = Some n"
  shows "\<exists>xs. cstr m (s + len) xs"
proof (rule strlen_loop.raw_induct [where P = "\<lambda>m s len n. \<exists>xs. cstr m (s + len) xs", OF _ assms])
  fix f m s len n
  assume IH: "\<And>m s len n. f m s len = Some n \<Longrightarrow> \<exists>xs. cstr m (s + len) xs"
    and eq: "(if m (s + len) \<noteq> 0 then f m s (len + 1) else Some len) = Some n"
  show "\<exists>xs. cstr m (s + len) xs"
  proof (cases "m (s + len) = 0")
    case True
    then show ?thesis by (intro exI [of _ "[]"]) simp
  next
    case False
    with eq IH [of m s "len + 1" n] obtain xs where "cstr m (s + (len + 1)) xs" by auto
    with False show ?thesis by (intro exI [of _ "m (s + len) # xs"]) (simp add: ac_simps)
  qed
qed

text \<open>\<open>strlen\<close> returns exactly when there is a string to measure.\<close>

lemma strlen_iff: "strlen m s = Some n \<longleftrightarrow> (\<exists>xs. cstr m s xs \<and> n = of_nat (length xs))"
proof
  assume r: "strlen m s = Some n"
  then obtain xs where xs: "cstr m s xs"
    using strlen_loop_returns [of m s 0 n] by (auto simp: strlen_def)
  with r strlen_cstr [OF xs] show "\<exists>xs. cstr m s xs \<and> n = of_nat (length xs)" by auto
qed (auto simp: strlen_cstr)

section \<open>Comparing and copying strings\<close>

text \<open>What \<open>strcmp\<close> computes on two strings: the difference at the first position where they differ.\<close>

fun lex_diff :: "u8 list \<Rightarrow> u8 list \<Rightarrow> int" where
  "lex_diff [] [] = 0"
| "lex_diff [] (y # ys) = - uint y"
| "lex_diff (x # xs) [] = uint x"
| "lex_diff (x # xs) (y # ys) = (if x = y then lex_diff xs ys else uint x - uint y)"

fun common_len :: "u8 list \<Rightarrow> u8 list \<Rightarrow> nat" where
  "common_len (x # xs) (y # ys) = (if x = y then Suc (common_len xs ys) else 0)"
| "common_len xs ys = 0"

lemma lex_diff_eq_0:
  "0 \<notin> set xs \<Longrightarrow> 0 \<notin> set ys \<Longrightarrow> lex_diff xs ys = 0 \<longleftrightarrow> xs = ys"
  by (induction xs ys rule: lex_diff.induct) (auto simp: uint_0_iff unsigned_word_eqI)

lemma cstr_nonzero: "cstr m s xs \<Longrightarrow> 0 \<notin> set xs"
  by (induction xs arbitrary: s) auto

lemma strcmp_cstr:
  "cstr m s1 xs \<Longrightarrow> cstr m s2 ys \<Longrightarrow> strcmp m s1 s2 = Some (lex_diff xs ys)"
  by (induction xs ys arbitrary: s1 s2 rule: lex_diff.induct) (subst strcmp.simps; auto)+

lemma strncmp_cstr:
  "cstr m s1 xs \<Longrightarrow> cstr m s2 ys \<Longrightarrow>
   strncmp m s1 s2 n = Some (if n = of_nat (common_len xs ys) then 0 else lex_diff xs ys)"
proof (induction xs ys arbitrary: s1 s2 n rule: lex_diff.induct)
  case (4 x xs y ys)
  show ?case
  proof (cases "x = y")
    case True
    have "n - 1 = of_nat (common_len xs ys) \<longleftrightarrow> n = of_nat (Suc (common_len xs ys))"
      by (auto simp: algebra_simps)
    with 4 True show ?thesis by (subst strncmp.simps) simp
  next
    case False
    with 4 show ?thesis by (subst strncmp.simps) auto
  qed
qed (subst strncmp.simps; auto)+

lemma cstr_fun_upd:
  assumes "cstr m s xs" and "a \<notin> rng s (Suc (length xs))"
  shows "cstr (m(a := v)) s xs"
  using assms
proof (induction xs arbitrary: s)
  case (Cons x xs)
  have "Suc (length (x # xs)) \<le> 2 ^ 64"
    using cstr_length [OF Cons.prems(1)] by (simp only: Suc_le_eq)
  from notin_rng_Suc [OF Cons.prems(2) this] Cons show ?case by simp
qed auto

text \<open>
  \<open>strcpy\<close> copies the characters of the string and stops: it does not write the terminating zero
  byte.
\<close>

lemma strcpy_loop_cstr:
  assumes "cstr m src xs" and "n = of_nat (length xs)"
    and "rng dest (length xs) \<inter> rng src (Suc (length xs)) = {}"
  shows "strcpy_loop m dest src i = Some (memcpy_loop m dest src n i)"
  using assms
proof (induction m dest src n i rule: memcpy_loop.induct)
  case (1 m dest src n i)
  have len: "strlen m src = Some n" using 1(2,3) by (simp add: strlen_cstr)
  show ?case
  proof (cases "i < n")
    case True
    have "unat n = length xs"
      using cstr_length [OF 1(2)] 1(3) by (simp add: unat_of_nat_u64)
    then have "dest + i \<in> rng dest (length xs)"
      using True by (simp add: word_less_nat_alt)
    then have "dest + i \<notin> rng src (Suc (length xs))"
      using 1(4) by blast
    then have "cstr (m(dest + i := m (src + i))) src xs"
      by (rule cstr_fun_upd [OF 1(2)])
    from 1(1) [OF True this 1(3,4)] True len show ?thesis
      by (subst strcpy_loop.simps, subst memcpy_loop.simps) (simp only: option.case if_True)
  next
    case False
    with len show ?thesis
      by (subst strcpy_loop.simps, subst memcpy_loop.simps) simp
  qed
qed

lemma strcpy_cstr:
  assumes "cstr m src xs" and "rng dest (length xs) \<inter> rng src (Suc (length xs)) = {}"
  shows "strcpy m dest src = Some (memcpy m dest src (of_nat (length xs)))"
  using strcpy_loop_cstr [OF assms(1) refl assms(2)] by (simp add: strcpy_def memcpy_def)

text \<open>
  \<open>strlcpy\<close> copies at most \<open>sz\<close> bytes, the terminator included only if it fits, and returns the
  number of characters copied.
\<close>

lemma strlcpy_loop_cstr:
  assumes "cstr m src xs" and "N = of_nat (length xs)" and "i \<le> N"
    and "rng dest (unat sz) \<inter> rng src (Suc (length xs)) = {}"
  shows "strlcpy_loop m dest src sz i =
    (if N < sz then (N, memcpy_loop m dest src (N + 1) i) else (sz, memcpy_loop m dest src sz i))"
  using assms
proof (induction m dest src sz i rule: strlcpy_loop.induct)
  case (1 m dest src sz i)
  have uN: "unat N = length xs"
    using cstr_length [OF 1(2)] 1(3) by (simp add: unat_of_nat_u64)
  let ?m = "m(dest + i := m (src + i))"
  show ?case
  proof (cases "i < sz")
    case False
    with 1(4) show ?thesis
      by (subst strlcpy_loop.simps, subst (2) memcpy_loop.simps) auto
  next
    case True
    then have "dest + i \<notin> rng src (Suc (length xs))"
      using 1(5) by (auto simp: word_less_nat_alt disjoint_iff)
    then have str: "cstr ?m src xs" by (rule cstr_fun_upd [OF 1(2)])
    have i: "src + of_nat (unat i) = src + i" by simp
    show ?thesis
    proof (cases "i = N")
      case True
      then have zero: "?m (src + i) = 0" using cstr_end [OF str] 1(3) by simp
      have "memcpy_loop m dest src (N + 1) i = ?m"
        using u64_Suc_le_iff [OF \<open>i < sz\<close>] unfolding True
        by (subst memcpy_loop.simps, subst memcpy_loop.simps) (simp add: not_le [symmetric])
      with \<open>i < sz\<close> True zero show ?thesis
        by (subst strlcpy_loop.simps) (simp only: Let_def simp_thms if_True)
    next
      case False
      then have "i < N" using 1(4) by simp
      then have nz: "?m (src + i) \<noteq> 0"
        using cstr_nth [OF str, of "unat i"] uN by (simp add: word_less_nat_alt)
      have step: "memcpy_loop m dest src k i = memcpy_loop ?m dest src k (i + 1)" if "i < k" for k
        using that by (subst memcpy_loop.simps) simp
      have "strlcpy_loop m dest src sz i = strlcpy_loop ?m dest src sz (i + 1)"
        using nz \<open>i < sz\<close> by (subst strlcpy_loop.simps) (simp only: Let_def if_True if_False)
      also have "\<dots> = (if N < sz then (N, memcpy_loop ?m dest src (N + 1) (i + 1))
          else (sz, memcpy_loop ?m dest src sz (i + 1)))"
        using \<open>i < N\<close> by (intro 1(1) \<open>i < sz\<close> refl nz str 1(3,5))
          (simp_all add: u64_Suc_le_iff [OF \<open>i < sz\<close>])
      finally show ?thesis
        using step [of sz] step [of "N + 1"] \<open>i < sz\<close> \<open>i < N\<close>
        by (auto simp: word_less_nat_alt unat_u64_Suc [of N sz])
    qed
  qed
qed

lemma strlcpy_cstr:
  assumes "cstr m src xs" and "rng dest (unat sz) \<inter> rng src (Suc (length xs)) = {}"
  shows "strlcpy m dest src sz =
    (let N = of_nat (length xs) in
     if N < sz then (N, memcpy m dest src (N + 1)) else (sz, memcpy m dest src sz))"
  using strlcpy_loop_cstr [OF assms(1) refl _ assms(2), of 0]
  by (simp add: strlcpy_def memcpy_def Let_def)


section \<open>Properties\<close>

text \<open>
  \<open>strlen\<close> returns exactly when a zero byte ends the string, and then returns its length.
\<close>

theorem strlen_correct: "strlen m s = Some n \<longleftrightarrow> (\<exists>xs. cstr m s xs \<and> n = of_nat (length xs))"
  by (rule strlen_iff)

text \<open>
  C21. On two strings \<open>strcmp\<close> returns, it returns the difference of the first bytes that differ
  (the terminator counting as 0), and 0 exactly for equal strings.
\<close>

theorem strcmp_correct:
  assumes "cstr m s1 xs" and "cstr m s2 ys"
  shows "strcmp m s1 s2 = Some (lex_diff xs ys) \<and> (strcmp m s1 s2 = Some 0 \<longleftrightarrow> xs = ys)"
  using strcmp_cstr [OF assms] lex_diff_eq_0 [OF cstr_nonzero [OF assms(1)] cstr_nonzero [OF assms(2)]] by simp

definition sample_strings :: memory where
  "sample_strings a = (if a < 8 then [97, 98, 99, 0, 97, 98, 100, 0] ! unat a else 0)"

lemma sample_cstrs: "cstr sample_strings 0 [97, 98, 99]" "cstr sample_strings 4 [97, 98, 100]"
  by (simp_all add: sample_strings_def)

theorem strcmp_correct_witness: "strcmp sample_strings 0 4 = Some (- 1)"
  using strcmp_correct [OF sample_cstrs] by simp

text \<open>
  The bound of \<open>strncmp\<close> does not bound the comparison: unless it is exactly the length of the
  common prefix, the result is the one of \<open>strcmp\<close>. (A comparison bounded by \<open>n\<close> would return 0
  whenever the first \<open>n\<close> bytes agree.)
\<close>

theorem strncmp_ignores_bound:
  assumes "cstr m s1 xs" and "cstr m s2 ys" and "n \<noteq> of_nat (common_len xs ys)"
  shows "strncmp m s1 s2 n = strcmp m s1 s2"
  using strncmp_cstr [OF assms(1,2), of n] strcmp_cstr [OF assms(1,2)] assms(3) by simp

theorem strncmp_ignores_bound_witness: "strncmp sample_strings 0 4 1 = strcmp sample_strings 0 4"
  by (rule strncmp_ignores_bound [OF sample_cstrs]) simp

text \<open>
  C23. \<open>strlcpy\<close> into a buffer that does not overlap the source returns the length of the string and
  copies it with its terminator when it fits; otherwise it fills the buffer with the first \<open>sz\<close>
  bytes, without a terminator, and returns \<open>sz\<close>.
\<close>

theorem strlcpy_correct:
  assumes "cstr m src xs" and "rng dest (unat sz) \<inter> rng src (Suc (length xs)) = {}"
  shows "strlcpy m dest src sz =
    (let N = of_nat (length xs) in
     if N < sz then (N, \<lambda>a. if a - dest < N + 1 then m (src + (a - dest)) else m a)
     else (sz, \<lambda>a. if a - dest < sz then m (src + (a - dest)) else m a))"
proof -
  let ?N = "of_nat (length xs) :: u64"
  have uN: "unat ?N = length xs" by (rule unat_of_nat_u64 [OF cstr_length [OF assms(1)]])
  have "rng dest (unat (?N + 1)) \<inter> rng src (unat (?N + 1)) = {}" if "?N < sz"
  proof -
    have "unat (?N + 1) = Suc (length xs)" "Suc (length xs) \<le> unat sz"
      using unat_u64_Suc [OF that] uN that by (simp_all add: word_less_nat_alt)
    then show ?thesis using assms(2) rng_mono [of "Suc (length xs)" "unat sz" dest] by auto
  qed
  moreover have "rng dest (unat sz) \<inter> rng src (unat sz) = {}" if "\<not> ?N < sz"
  proof -
    have "unat sz \<le> Suc (length xs)" using that uN by (simp add: word_less_nat_alt)
    then show ?thesis using assms(2) rng_mono [of "unat sz" "Suc (length xs)" src] by blast
  qed
  ultimately show ?thesis
    unfolding strlcpy_cstr [OF assms] Let_def using memcpy_eq [of dest "?N + 1" src m] memcpy_eq [of dest sz src m]
    by simp
qed

theorem strlcpy_correct_witness:
  "fst (strlcpy sample_strings 16 0 8) = 3 \<and> cstr sample_strings 0 [97, 98, 99]"
proof -
  have "rng 16 (unat (8 :: u64)) \<inter> rng 0 (Suc (length [97, 98, 99 :: u8])) = {}"
    by (rule rng_disjoint_nat [of 0 _ 16, THEN trans [OF Int_commute]]) simp_all
  from strlcpy_correct [OF sample_cstrs(1) this] show ?thesis using sample_cstrs(1) by (simp add: Let_def)
qed

end
