(* ===== verification/Frame_Alloc.thy ===== *)
theory Frame_Alloc
  imports Memory
begin

text \<open>
  The contract between the page-frame allocator (\<^verbatim>\<open>src/src/mm/pmm.c\<close>) and the code that builds
  page tables and address spaces on top of it: \<open>alloc\<close> and \<open>release\<close> move whole frames between
  the allocator and its clients, and neither touches the contents of a frame a client owns. The
  consequences a client relies on are proved here once, from the contract alone.
\<close>

text \<open>The frames returned by \<open>n\<close> calls of an allocation function, one after the other.\<close>

primrec alloc_frames :: "('s \<Rightarrow> u64 \<times> 's) \<Rightarrow> nat \<Rightarrow> 's \<Rightarrow> u64 list \<times> 's" where
  "alloc_frames alloc 0 s = ([], s)"
| "alloc_frames alloc (Suc n) s =
     (case alloc s of (a, s1) \<Rightarrow> case alloc_frames alloc n s1 of (as, s2) \<Rightarrow> (a # as, s2))"

text \<open>The kernel-virtual addresses of the bytes of a set of frames.\<close>

definition frame_bytes :: "u64 set \<Rightarrow> u64 set" where
  "frame_bytes F = (\<Union>f \<in> F. rng (P_TO_V f) 4096)"

lemma frame_bytes_insert: "frame_bytes (insert f F) = rng (P_TO_V f) 4096 \<union> frame_bytes F"
  by (simp add: frame_bytes_def)

lemma in_frame_bytes: "f \<in> F \<Longrightarrow> x \<in> rng (P_TO_V f) 4096 \<Longrightarrow> x \<in> frame_bytes F"
  by (auto simp: frame_bytes_def)

locale frame_allocator =
  fixes alloc :: "'s \<Rightarrow> u64 \<times> 's"
    and release :: "u64 \<Rightarrow> 's \<Rightarrow> 's res"
    and inv :: "'s \<Rightarrow> bool"
    and avail :: "'s \<Rightarrow> u64 set"
    and owned :: "'s \<Rightarrow> u64 set"
    and read :: "'s \<Rightarrow> memory"
    and put :: "memory \<Rightarrow> 's \<Rightarrow> 's"
  assumes read_put: "read (put m s) = m"
    and avail_frame: "inv s \<Longrightarrow> f \<in> avail s \<Longrightarrow> aligned f \<and> f \<noteq> 0"
    and owned_frame: "inv s \<Longrightarrow> f \<in> owned s \<Longrightarrow> aligned f \<and> f \<noteq> 0"
    and owned_not_avail: "inv s \<Longrightarrow> owned s \<inter> avail s = {}"
    and alloc_frame: "inv s \<Longrightarrow> avail s \<noteq> {} \<Longrightarrow> alloc s = (a, s') \<Longrightarrow>
      a \<in> avail s \<and> inv s' \<and> avail s' = avail s - {a} \<and> owned s' = insert a (owned s)"
    and alloc_zeroed: "inv s \<Longrightarrow> avail s \<noteq> {} \<Longrightarrow> alloc s = (a, s') \<Longrightarrow>
      x \<in> rng (P_TO_V a) 4096 \<Longrightarrow> read s' x = 0"
    and alloc_keeps: "inv s \<Longrightarrow> avail s \<noteq> {} \<Longrightarrow> alloc s = (a, s') \<Longrightarrow>
      x \<in> frame_bytes (owned s) \<Longrightarrow> read s' x = read s x"
    and release_frame: "inv s \<Longrightarrow> a \<in> owned s \<Longrightarrow>
      \<exists>s'. release a s = Inr s' \<and> inv s' \<and> avail s' = insert a (avail s)
         \<and> owned s' = owned s - {a} \<and> (\<forall>x \<in> frame_bytes (owned s). read s' x = read s x)"
    and put_owned: "inv s \<Longrightarrow> (\<And>x. x \<notin> frame_bytes (owned s) \<Longrightarrow> m x = read s x) \<Longrightarrow>
      inv (put m s) \<and> avail (put m s) = avail s \<and> owned (put m s) = owned s"
begin

lemma alloc_fresh:
  assumes "inv s" "avail s \<noteq> {}" "alloc s = (a, s')"
  shows "a \<notin> owned s" and "rng (P_TO_V a) 4096 \<inter> frame_bytes (owned s) = {}"
proof -
  have a: "a \<in> avail s" using alloc_frame [OF assms] by blast
  then show fresh: "a \<notin> owned s" using owned_not_avail [OF assms(1)] by blast
  show "rng (P_TO_V a) 4096 \<inter> frame_bytes (owned s) = {}"
  proof -
    have "rng (P_TO_V a) 4096 \<inter> rng (P_TO_V f) 4096 = {}" if "f \<in> owned s" for f
      unfolding rng_P_TO_V_disjoint
      using avail_frame [OF assms(1) a] owned_frame [OF assms(1) that] that fresh
      by (intro aligned_frames_disjoint) auto
    then show ?thesis by (auto simp: frame_bytes_def)
  qed
qed

lemma alloc_release:
  assumes "inv s" "avail s \<noteq> {}" "alloc s = (a, s')"
  shows "\<exists>s''. release a s' = Inr s'' \<and> inv s'' \<and> avail s'' = avail s \<and> owned s'' = owned s"
proof -
  have s': "inv s'" "avail s' = avail s - {a}" "owned s' = insert a (owned s)" "a \<in> avail s"
    using alloc_frame [OF assms] by auto
  with release_frame [OF s'(1), of a] alloc_fresh(1) [OF assms] show ?thesis by auto
qed

lemma store_owned:
  assumes "inv s" "f \<in> owned s" "rng a 8 \<subseteq> rng (P_TO_V f) 4096"
  shows "inv (put (st64 (read s) a v) s)" and "avail (put (st64 (read s) a v) s) = avail s"
    and "owned (put (st64 (read s) a v) s) = owned s"
proof -
  have "st64 (read s) a v x = read s x" if "x \<notin> frame_bytes (owned s)" for x
    using that assms(2,3) by (intro st64_other) (auto simp: frame_bytes_def)
  from put_owned [OF assms(1) this]
  show "inv (put (st64 (read s) a v) s)" and "avail (put (st64 (read s) a v) s) = avail s"
    and "owned (put (st64 (read s) a v) s) = owned s" by auto
qed

text \<open>No frame is handed out twice: \<open>n\<close> allocations from at least \<open>n\<close> free frames are distinct.\<close>

lemma alloc_frames_distinct:
  "inv s \<Longrightarrow> finite (avail s) \<Longrightarrow> n \<le> card (avail s) \<Longrightarrow> alloc_frames alloc n s = (as, s') \<Longrightarrow>
   length as = n \<and> distinct as \<and> set as \<subseteq> avail s \<and> inv s' \<and> avail s' = avail s - set as
   \<and> owned s' = owned s \<union> set as"
proof (induction n arbitrary: s as s')
  case 0
  then show ?case by simp
next
  case (Suc n)
  obtain a s1 where a: "alloc s = (a, s1)" by (cases "alloc s")
  obtain bs s2 where bs: "alloc_frames alloc n s1 = (bs, s2)" by (cases "alloc_frames alloc n s1")
  have ne: "avail s \<noteq> {}" using Suc.prems(3) by auto
  have s1: "a \<in> avail s" "inv s1" "avail s1 = avail s - {a}" "owned s1 = insert a (owned s)"
    using alloc_frame [OF Suc.prems(1) ne a] by auto
  have "length bs = n \<and> distinct bs \<and> set bs \<subseteq> avail s1 \<and> inv s2
      \<and> avail s2 = avail s1 - set bs \<and> owned s2 = owned s1 \<union> set bs"
    using Suc.prems(2,3) s1 by (intro Suc.IH [OF s1(2) _ _ bs]) auto
  with Suc.prems(4) s1 a bs show ?case by auto
qed

end

end
