(* ===== verification/Pmm.thy ===== *)
theory Pmm
  imports CString Frame_Alloc
begin

text \<open>
  \<^verbatim>\<open>src/src/mm/pmm.c\<close>: the physical page-frame allocator. Every available region of physical
  memory carries its own allocation bitmap in its first bytes; the bitmap is read and written
  through the direct map, in the same memory the frames themselves live in. The state is the
  kernel's memory and the global array of regions; the linker symbols
  \<^verbatim>\<open>__kernel_start_phys\<close> and \<^verbatim>\<open>__kernel_end_phys\<close> are the arguments \<open>ks\<close> and \<open>ke\<close>.
\<close>

section \<open>State and operations\<close>

definition MAX_REGIONS :: nat where
  "MAX_REGIONS = 64"

record mmap_region =
  region_start :: u64
  region_pages :: u64

record machine =
  mem :: memory

record pmm_state = machine +
  n_regions :: u64
  regions :: "mmap_region list"

subsection \<open>The multiboot2 information structure\<close>

definition MULTIBOOT_TAG_TYPE_END :: u32 where "MULTIBOOT_TAG_TYPE_END = 0"
definition MULTIBOOT_TAG_TYPE_MMAP :: u32 where "MULTIBOOT_TAG_TYPE_MMAP = 6"
definition MULTIBOOT_MEMORY_AVAILABLE :: u32 where "MULTIBOOT_MEMORY_AVAILABLE = 1"

text \<open>Field accesses: the offsets of the packed structs of \<^verbatim>\<open>multiboot2.h\<close>.\<close>

definition tag_type :: "memory \<Rightarrow> u64 \<Rightarrow> u32" where "tag_type m t = ld32 m t"
definition tag_size :: "memory \<Rightarrow> u64 \<Rightarrow> u32" where "tag_size m t = ld32 m (t + 4)"
definition mmap_entry_size :: "memory \<Rightarrow> u64 \<Rightarrow> u32" where "mmap_entry_size m t = ld32 m (t + 8)"
definition entry_addr :: "memory \<Rightarrow> u64 \<Rightarrow> u64" where "entry_addr m e = ld64 m e"
definition entry_len :: "memory \<Rightarrow> u64 \<Rightarrow> u64" where "entry_len m e = ld64 m (e + 8)"
definition entry_type :: "memory \<Rightarrow> u64 \<Rightarrow> u32" where "entry_type m e = ld32 m (e + 16)"

text \<open>\<open>None\<close>: the walk over the tags never ends. The null pointer is 0.\<close>

partial_function (option) mboot_find_tag_loop :: "memory \<Rightarrow> u32 \<Rightarrow> u64 \<Rightarrow> u64 option" where
  "mboot_find_tag_loop m tag cur =
     (if tag_type m cur = tag \<or> tag_type m cur = MULTIBOOT_TAG_TYPE_END
      then Some (if tag_type m cur = MULTIBOOT_TAG_TYPE_END then 0 else cur)
      else mboot_find_tag_loop m tag (ALIGNUP (cur + ucast (tag_size m cur)) 8))"

definition mboot_find_tag :: "memory \<Rightarrow> u64 \<Rightarrow> u32 \<Rightarrow> u64 option" where
  "mboot_find_tag m mboot tag = mboot_find_tag_loop m tag (mboot + 8)"

subsection \<open>Bitmap accesses\<close>

definition region_get_bit :: "memory \<Rightarrow> mmap_region \<Rightarrow> u64 \<Rightarrow> bool" where
  "region_get_bit m region i =
     (let start = P_TO_V (region_start region)
      in (m (start + i div 8) AND push_bit (unat (i mod 8)) 1) \<noteq> 0)"

definition region_set_bit :: "memory \<Rightarrow> mmap_region \<Rightarrow> u64 \<Rightarrow> memory" where
  "region_set_bit m region i =
     (let start = P_TO_V (region_start region)
      in m(start + i div 8 := m (start + i div 8) OR push_bit (unat (i mod 8)) 1))"

definition region_unset_bit :: "memory \<Rightarrow> mmap_region \<Rightarrow> u64 \<Rightarrow> memory" where
  "region_unset_bit m region i =
     (let start = P_TO_V (region_start region)
      in m(start + i div 8 := m (start + i div 8) AND NOT (push_bit (unat (i mod 8)) 1)))"

subsection \<open>Reading the memory map\<close>

definition OVERLAPS_KERNEL :: "u64 \<Rightarrow> u64 \<Rightarrow> u64 \<Rightarrow> bool" where
  "OVERLAPS_KERNEL ks ke x \<longleftrightarrow> x \<ge> ks \<and> x < ke"

text \<open>The two tests of the loop body that cut the kernel image out; \<open>None\<close> is \<^verbatim>\<open>goto next\<close>.\<close>

definition poke_hole :: "u64 \<Rightarrow> u64 \<Rightarrow> u64 \<Rightarrow> u64 \<Rightarrow> (u64 \<times> u64) option" where
  "poke_hole ks ke start end' =
     (let start1 = (if OVERLAPS_KERNEL ks ke start then ALIGNUP ke PAGE_SIZE else start) in
      if OVERLAPS_KERNEL ks ke start \<and> start1 \<ge> end' then None
      else
        (let end1 = (if OVERLAPS_KERNEL ks ke end' then ALIGNDOWN ks PAGE_SIZE else end') in
         if OVERLAPS_KERNEL ks ke end' \<and> start1 \<ge> end1 then None
         else Some (start1, end1)))"

text \<open>
  The loop over the entries: \<open>i\<close> regions have been stored. \<open>None\<close> is a loop that never ends;
  storing past the array is undefined.
\<close>

partial_function (option) set_mmap_loop ::
    "memory \<Rightarrow> u64 \<Rightarrow> u64 \<Rightarrow> u64 \<Rightarrow> u64 \<Rightarrow> nat \<Rightarrow> mmap_region list
     \<Rightarrow> (nat \<times> mmap_region list) res option" where
  "set_mmap_loop m ks ke mmap entry i regs =
     (if entry < mmap + ucast (tag_size m mmap) then
        (let nxt = entry + ucast (mmap_entry_size m mmap) in
         if entry_type m entry \<noteq> MULTIBOOT_MEMORY_AVAILABLE
         then set_mmap_loop m ks ke mmap nxt i regs
         else
           (case poke_hole ks ke (entry_addr m entry) (entry_addr m entry + entry_len m entry) of
              None \<Rightarrow> set_mmap_loop m ks ke mmap nxt i regs
            | Some (start, end') \<Rightarrow>
                if i < length regs
                then set_mmap_loop m ks ke mmap nxt (Suc i)
                       (regs[i := \<lparr>region_start = start,
                                   region_pages = (end' - start) div PAGE_SIZE\<rparr>])
                else Some (Inl (Undefined ''store past regions[MAX_REGIONS]''))))
      else Some (Inr (i, regs)))"

definition pmm_set_mmap ::
    "u64 \<Rightarrow> u64 \<Rightarrow> u64 \<Rightarrow> 'a pmm_state_scheme \<Rightarrow> 'a pmm_state_scheme res option" where
  "pmm_set_mmap ks ke mmap s =
     map_option (\<lambda>r. rbind r (\<lambda>(i, regs). Inr (s\<lparr>n_regions := of_nat i, regions := regs\<rparr>)))
       (set_mmap_loop (mem s) ks ke mmap (mmap + 16) 0
          (replicate MAX_REGIONS \<lparr>region_start = 0, region_pages = 0\<rparr>))"

subsection \<open>Setting up the bitmaps\<close>

definition active_regions :: "'a pmm_state_scheme \<Rightarrow> mmap_region list" where
  "active_regions s = take (unat (n_regions s)) (regions s)"

function set_bits_loop :: "memory \<Rightarrow> mmap_region \<Rightarrow> u64 \<Rightarrow> u64 \<Rightarrow> memory" where
  "set_bits_loop m region n j =
     (if j < n then set_bits_loop (region_set_bit m region j) region n (j + 1) else m)"
  by pat_completeness auto
termination
  by (relation "measure (\<lambda>(m, region, n, j). unat (n - j))") (auto simp: unat_u64_dist_dec)

definition bmap_size :: "mmap_region \<Rightarrow> u64" where
  "bmap_size region = (region_pages region + 8 - 1) div 8"

definition init_region :: "mmap_region \<Rightarrow> memory \<Rightarrow> memory" where
  "init_region region m =
     (let start = P_TO_V (region_start region);
          m1 = memset m start 0 (bmap_size region)
      in set_bits_loop m1 region (DIV_CEIL (bmap_size region) PAGE_SIZE) 0)"

definition pmm_init_regions :: "'a pmm_state_scheme \<Rightarrow> 'a pmm_state_scheme" where
  "pmm_init_regions s = s\<lparr>mem := fold init_region (active_regions s) (mem s)\<rparr>"

definition pmm_init :: "u64 \<Rightarrow> u64 \<Rightarrow> u64 \<Rightarrow> 'a pmm_state_scheme \<Rightarrow> 'a pmm_state_scheme res option" where
  "pmm_init ks ke mboot s =
     (case mboot_find_tag (mem s) mboot MULTIBOOT_TAG_TYPE_MMAP of
        None \<Rightarrow> None
      | Some mmap \<Rightarrow>
          if mmap = 0 then Some (Inl (Panic ''Could not find multiboot2 mmap tag''))
          else map_option (\<lambda>r. rbind r (\<lambda>s'. Inr (pmm_init_regions s'))) (pmm_set_mmap ks ke mmap s))"

subsection \<open>Allocating and freeing\<close>

function find_free_page_loop :: "memory \<Rightarrow> mmap_region \<Rightarrow> u64 \<Rightarrow> u64 \<times> memory" where
  "find_free_page_loop m region i =
     (if i < region_pages region then
        (if region_get_bit m region i then find_free_page_loop m region (i + 1)
         else (region_start region + i * PAGE_SIZE, region_set_bit m region i))
      else (0, m))"
  by pat_completeness auto
termination
  by (relation "measure (\<lambda>(m, region, i). unat (region_pages region - i))")
     (auto simp: unat_u64_dist_dec)

definition find_free_page :: "memory \<Rightarrow> mmap_region \<Rightarrow> u64 \<times> memory" where
  "find_free_page m region = find_free_page_loop m region 0"

fun pmm_alloc_loop :: "memory \<Rightarrow> mmap_region list \<Rightarrow> u64 \<times> memory" where
  "pmm_alloc_loop m [] = (0, m)"
| "pmm_alloc_loop m (region # rest) =
     (case find_free_page m region of
        (addr, m') \<Rightarrow> if addr \<noteq> 0 then (addr, m') else pmm_alloc_loop m' rest)"

definition pmm_alloc :: "'a pmm_state_scheme \<Rightarrow> u64 \<times> 'a pmm_state_scheme" where
  "pmm_alloc s =
     (case pmm_alloc_loop (mem s) (active_regions s) of
        (addr, m) \<Rightarrow> (addr, s\<lparr>mem := memset m (P_TO_V addr) 0 PAGE_SIZE\<rparr>))"

definition free_in_region :: "u64 \<Rightarrow> mmap_region \<Rightarrow> memory \<Rightarrow> memory" where
  "free_in_region phys region m =
     (if phys < region_start region
         \<or> phys > region_start region + region_pages region * PAGE_SIZE
      then m
      else region_unset_bit m region ((phys - region_start region) div PAGE_SIZE))"

definition pmm_free :: "u64 \<Rightarrow> 'a pmm_state_scheme \<Rightarrow> 'a pmm_state_scheme res" where
  "pmm_free phys s =
     (if page_off phys \<noteq> 0 then Inl (Panic ''attempting to free non-paged-aligned region'')
      else Inr (s\<lparr>mem := fold (free_in_region phys) (active_regions s) (mem s)\<rparr>))"

declare set_bits_loop.simps [simp del] find_free_page_loop.simps [simp del]

section \<open>Bits of a bitmap\<close>

lemma get_bit_iff:
  "region_get_bit m r i \<longleftrightarrow> bit (m (P_TO_V (region_start r) + i div 8)) (unat i mod 8)"
  by (simp add: region_get_bit_def Let_def bit_iff_and_push_bit_not_eq_0 unat_mod)

lemma div_mod_8_inject: "i div 8 = j div 8 \<Longrightarrow> unat i mod 8 = unat j mod 8 \<Longrightarrow> i = (j :: u64)"
proof -
  assume d: "i div 8 = j div 8" and m: "unat i mod 8 = unat j mod 8"
  have "unat i div 8 = unat j div 8" using arg_cong [OF d, of unat] by (simp add: unat_div)
  with m have "unat i = unat j" by (metis div_mult_mod_eq)
  then show "i = j" by (simp add: word_unat_eq_iff)
qed

lemma get_set_bit:
  "region_get_bit (region_set_bit m r i) r j \<longleftrightarrow> j = i \<or> region_get_bit m r j"
proof (cases "i div 8 = j div 8")
  case True
  then have "unat i mod 8 = unat j mod 8 \<longleftrightarrow> j = i"
    using div_mod_8_inject by blast
  then show ?thesis
    using True by (auto simp: get_bit_iff region_set_bit_def Let_def bit_simps unat_mod)
next
  case False
  then show ?thesis
    by (auto simp: get_bit_iff region_set_bit_def Let_def)
qed

lemma get_unset_bit:
  "region_get_bit (region_unset_bit m r i) r j \<longleftrightarrow> j \<noteq> i \<and> region_get_bit m r j"
proof (cases "i div 8 = j div 8")
  case True
  then have "unat i mod 8 = unat j mod 8 \<longleftrightarrow> j = i"
    using div_mod_8_inject by blast
  then show ?thesis
    using True by (auto simp: get_bit_iff region_unset_bit_def Let_def bit_simps unat_mod)
next
  case False
  then show ?thesis
    by (auto simp: get_bit_iff region_unset_bit_def Let_def)
qed

section \<open>The geometry of regions\<close>

definition frame :: "mmap_region \<Rightarrow> nat \<Rightarrow> u64" where
  "frame r i = region_start r + of_nat i * PAGE_SIZE"

definition region_end :: "mmap_region \<Rightarrow> nat" where
  "region_end r = unat (region_start r) + unat (region_pages r) * 4096"

definition bitmap_bytes :: "mmap_region \<Rightarrow> nat" where
  "bitmap_bytes r = (unat (region_pages r) + 7) div 8"

definition bitmap_pages :: "mmap_region \<Rightarrow> nat" where
  "bitmap_pages r = (bitmap_bytes r + 4095) div 4096"

definition bitmap_rng :: "mmap_region \<Rightarrow> u64 set" where
  "bitmap_rng r = rng (P_TO_V (region_start r)) (bitmap_bytes r)"

definition region_ok :: "mmap_region \<Rightarrow> bool" where
  "region_ok r \<longleftrightarrow> aligned (region_start r) \<and> region_end r < 2 ^ 64"

text \<open>Disjoint and not adjacent, as the ranges of a firmware memory map are.\<close>

definition separated :: "mmap_region \<Rightarrow> mmap_region \<Rightarrow> bool" where
  "separated r r' \<longleftrightarrow> region_end r < unat (region_start r') \<or> region_end r' < unat (region_start r)"

lemma separated_sym: "separated r r' \<longleftrightarrow> separated r' r"
  by (auto simp: separated_def)

lemma unat_frame:
  assumes "region_ok r" and "i \<le> unat (region_pages r)"
  shows "unat (frame r i) = unat (region_start r) + i * 4096"
proof -
  have "i * 4096 \<le> unat (region_pages r) * 4096" using assms(2) by simp
  then have le: "unat (region_start r) + i * 4096 < 2 ^ 64"
    using assms(1) by (simp add: region_ok_def region_end_def)
  then have i: "unat (of_nat i :: u64) = i"
    by (intro unat_of_nat_u64) linarith
  have "unat (of_nat i * PAGE_SIZE :: u64) = i * 4096"
    using le by (subst unat_mult_nowrap) (simp_all add: i)
  then show ?thesis
    using le by (simp add: frame_def unat_add_nowrap)
qed

lemma aligned_frame:
  "region_ok r \<Longrightarrow> i \<le> unat (region_pages r) \<Longrightarrow> aligned (frame r i)"
  unfolding aligned_def by (simp add: unat_frame region_ok_def aligned_def)

lemma frame_in_region:
  assumes "region_ok r" and "i < unat (region_pages r)"
  shows "unat (frame r i) + 4096 \<le> region_end r"
proof -
  have "(i + 1) * 4096 \<le> unat (region_pages r) * 4096"
    using assms(2) by (intro mult_le_mono1) simp
  then show ?thesis using assms by (simp add: unat_frame region_end_def)
qed

lemma frame_inject:
  assumes "region_ok r" "region_ok r'" and "i < unat (region_pages r)" "i' < unat (region_pages r')"
    and "r = r' \<or> separated r r'" and "frame r i = frame r' i'"
  shows "r = r' \<and> i = i'"
proof -
  have u: "unat (frame r i) = unat (frame r' i')" using assms(6) by simp
  have "\<not> separated r r'"
    using u frame_in_region [OF assms(1,3)] frame_in_region [OF assms(2,4)]
      unat_frame [of r i] unat_frame [of r' i'] assms(1-4)
    by (auto simp: separated_def)
  with assms(5) have "r = r'" by simp
  with u assms(1-4) show ?thesis by (simp add: unat_frame)
qed

lemma bitmap_bytes_le_pages: "bitmap_bytes r \<le> bitmap_pages r * 4096"
  by (simp add: bitmap_pages_def)

lemma bitmap_bytes_le: "bitmap_bytes r \<le> unat (region_pages r) * 4096"
  by (simp add: bitmap_bytes_def)

lemma bitmap_pages_le: "bitmap_pages r \<le> unat (region_pages r)"
  by (simp add: bitmap_pages_def bitmap_bytes_def)

lemma bit_addr_in_bitmap:
  assumes "unat i < unat (region_pages r)"
  shows "P_TO_V (region_start r) + i div 8 \<in> bitmap_rng r"
  using assms by (simp add: bitmap_rng_def bitmap_bytes_def unat_div)

lemma bitmap_rng_nat:
  assumes "region_ok r"
  shows "P_TO_V x \<in> bitmap_rng r \<longleftrightarrow>
    unat (region_start r) \<le> unat x \<and> unat x < unat (region_start r) + bitmap_bytes r"
proof -
  have "unat (region_start r) + bitmap_bytes r \<le> 2 ^ 64"
    using assms bitmap_bytes_le [of r] by (simp add: region_ok_def region_end_def)
  then show ?thesis unfolding bitmap_rng_def P_TO_V_in_rng by (rule in_rng_nat)
qed

lemma frame_rng_nat:
  assumes "region_ok r" and "i < unat (region_pages r)"
  shows "P_TO_V x \<in> rng (P_TO_V (frame r i)) 4096 \<longleftrightarrow>
    unat (frame r i) \<le> unat x \<and> unat x < unat (frame r i) + 4096"
proof -
  have "unat (frame r i) + 4096 \<le> 2 ^ 64"
    using frame_in_region [OF assms] assms(1) by (simp add: region_ok_def)
  then show ?thesis unfolding P_TO_V_in_rng by (rule in_rng_nat)
qed

lemma disjoint_P_TO_V:
  "A \<inter> B = {} \<longleftrightarrow> (\<forall>x. \<not> (P_TO_V x \<in> A \<and> P_TO_V x \<in> B))"
  using P_TO_V_surj by (metis disjoint_iff)

lemma bitmaps_disjoint:
  assumes "region_ok r" "region_ok r'" "separated r r'"
  shows "bitmap_rng r \<inter> bitmap_rng r' = {}"
  unfolding disjoint_P_TO_V bitmap_rng_nat [OF assms(1)] bitmap_rng_nat [OF assms(2)]
  using assms(3) bitmap_bytes_le [of r] bitmap_bytes_le [of r']
  by (auto simp: separated_def region_end_def)

text \<open>A frame whose index is past the bitmap holds no bitmap byte of any region.\<close>

lemma frame_bitmap_disjoint:
  assumes "region_ok r" "region_ok r'" and "i < unat (region_pages r)" and "bitmap_pages r \<le> i"
    and "r = r' \<or> separated r r'"
  shows "rng (P_TO_V (frame r i)) 4096 \<inter> bitmap_rng r' = {}"
proof -
  have "bitmap_bytes r \<le> i * 4096"
    using bitmap_bytes_le_pages [of r] mult_le_mono1 [OF assms(4), of 4096] by linarith
  then show ?thesis
    unfolding disjoint_P_TO_V bitmap_rng_nat [OF assms(2)] frame_rng_nat [OF assms(1,3)]
    using assms(5) frame_in_region [OF assms(1,3)] bitmap_bytes_le [of r']
      unat_frame [OF assms(1) less_imp_le [OF assms(3)]]
    by (auto simp: separated_def region_end_def)
qed

section \<open>Well-formed allocator states\<close>

definition regions_ok :: "mmap_region list \<Rightarrow> bool" where
  "regions_ok rs \<longleftrightarrow> (\<forall>r \<in> set rs. region_ok r) \<and> sorted_wrt separated rs"

text \<open>The pages that hold a bitmap are marked as allocated in it.\<close>

definition bitmaps_reserved :: "memory \<Rightarrow> mmap_region list \<Rightarrow> bool" where
  "bitmaps_reserved m rs \<longleftrightarrow>
     (\<forall>r \<in> set rs. \<forall>i < bitmap_pages r. region_get_bit m r (of_nat i))"

definition pmm_inv :: "'a pmm_state_scheme \<Rightarrow> bool" where
  "pmm_inv s \<longleftrightarrow> regions_ok (active_regions s) \<and> bitmaps_reserved (mem s) (active_regions s)"

text \<open>The frames the regions hold, those marked free, and those marked allocated for clients.\<close>

definition frames_in :: "mmap_region list \<Rightarrow> u64 set" where
  "frames_in rs = {frame r i | r i. r \<in> set rs \<and> i < unat (region_pages r)}"

definition free_in :: "memory \<Rightarrow> mmap_region list \<Rightarrow> u64 set" where
  "free_in m rs = {frame r i | r i. r \<in> set rs \<and> i < unat (region_pages r)
                     \<and> \<not> region_get_bit m r (of_nat i)}"

definition used_in :: "memory \<Rightarrow> mmap_region list \<Rightarrow> u64 set" where
  "used_in m rs = {frame r i | r i. r \<in> set rs \<and> bitmap_pages r \<le> i \<and> i < unat (region_pages r)
                     \<and> region_get_bit m r (of_nat i)}"

definition bitmaps :: "mmap_region list \<Rightarrow> u64 set" where
  "bitmaps rs = (\<Union>r \<in> set rs. bitmap_rng r)"

definition free_frames :: "'a pmm_state_scheme \<Rightarrow> u64 set" where
  "free_frames s = free_in (mem s) (active_regions s)"

definition used_frames :: "'a pmm_state_scheme \<Rightarrow> u64 set" where
  "used_frames s = used_in (mem s) (active_regions s)"

lemma regions_ok_Cons:
  "regions_ok (r # rs) \<longleftrightarrow> region_ok r \<and> regions_ok rs \<and> (\<forall>r' \<in> set rs. separated r r')"
  by (auto simp: regions_ok_def)

lemma regions_ok_ok: "regions_ok rs \<Longrightarrow> r \<in> set rs \<Longrightarrow> region_ok r"
  by (simp add: regions_ok_def)

lemma regions_ok_separated:
  "regions_ok rs \<Longrightarrow> r \<in> set rs \<Longrightarrow> r' \<in> set rs \<Longrightarrow> r = r' \<or> separated r r'"
proof (induction rs)
  case (Cons a rs)
  then show ?case by (auto simp: regions_ok_Cons separated_sym)
qed simp

lemma frame_unique:
  assumes "regions_ok rs" and "r \<in> set rs" "r' \<in> set rs"
    and "i < unat (region_pages r)" "i' < unat (region_pages r')" and "frame r i = frame r' i'"
  shows "r = r' \<and> i = i'"
  using assms regions_ok_separated regions_ok_ok by (intro frame_inject) blast+

lemma free_inI:
  "r \<in> set rs \<Longrightarrow> i < unat (region_pages r) \<Longrightarrow> \<not> region_get_bit m r (of_nat i) \<Longrightarrow>
   frame r i \<in> free_in m rs"
  by (auto simp: free_in_def)

lemma free_in_frame_iff:
  assumes "regions_ok rs" "r \<in> set rs" "i < unat (region_pages r)"
  shows "frame r i \<in> free_in m rs \<longleftrightarrow> \<not> region_get_bit m r (of_nat i)"
  using assms frame_unique unfolding free_in_def by blast

lemma used_in_frame_iff:
  assumes "regions_ok rs" "r \<in> set rs" "i < unat (region_pages r)"
  shows "frame r i \<in> used_in m rs \<longleftrightarrow> bitmap_pages r \<le> i \<and> region_get_bit m r (of_nat i)"
  using assms frame_unique unfolding used_in_def by blast

lemma used_free_disjoint:
  "regions_ok rs \<Longrightarrow> used_in m rs \<inter> free_in m rs = {}"
  using free_in_frame_iff by (fastforce simp: used_in_def)

text \<open>Which bits two memories agree on.\<close>

lemma get_bit_cong:
  assumes "\<And>x. x \<in> bitmap_rng r \<Longrightarrow> m x = m' x" and "i < unat (region_pages r)"
  shows "region_get_bit m r (of_nat i) \<longleftrightarrow> region_get_bit m' r (of_nat i)"
proof -
  have "i < 2 ^ 64" by (rule less_trans [OF assms(2)]) simp
  then have "unat (of_nat i :: u64) = i" by (rule unat_of_nat_u64)
  then have "P_TO_V (region_start r) + of_nat i div 8 \<in> bitmap_rng r"
    using assms(2) by (intro bit_addr_in_bitmap) simp
  from assms(1) [OF this] show ?thesis by (simp add: get_bit_iff)
qed

lemma bitmaps_agree:
  assumes "\<And>x. x \<in> bitmaps rs \<Longrightarrow> m x = m' x"
  shows "free_in m rs = free_in m' rs" and "used_in m rs = used_in m' rs"
    and "bitmaps_reserved m rs = bitmaps_reserved m' rs"
proof -
  have bit: "region_get_bit m r (of_nat i) = region_get_bit m' r (of_nat i)"
    if "r \<in> set rs" "i < unat (region_pages r)" for r i
    using assms that by (intro get_bit_cong) (auto simp: bitmaps_def)
  then show "free_in m rs = free_in m' rs" and "used_in m rs = used_in m' rs"
    unfolding free_in_def used_in_def by blast+
  show "bitmaps_reserved m rs = bitmaps_reserved m' rs"
    unfolding bitmaps_reserved_def
    using bit bitmap_pages_le by (meson order_less_le_trans)
qed

lemma set_bit_other:
  assumes "unat i < unat (region_pages r)" and "x \<notin> bitmap_rng r"
  shows "region_set_bit m r i x = m x"
  using bit_addr_in_bitmap [OF assms(1)] assms(2) by (auto simp: region_set_bit_def Let_def)

lemma unset_bit_other:
  assumes "unat i < unat (region_pages r)" and "x \<notin> bitmap_rng r"
  shows "region_unset_bit m r i x = m x"
  using bit_addr_in_bitmap [OF assms(1)] assms(2) by (auto simp: region_unset_bit_def Let_def)

lemma of_nat_index_inject:
  assumes "i < unat (p :: u64)" and "j < unat (q :: u64)"
  shows "(of_nat i :: u64) = of_nat j \<longleftrightarrow> i = j"
proof -
  have "i < 2 ^ 64" by (rule less_trans [OF assms(1)]) simp
  moreover have "j < 2 ^ 64" by (rule less_trans [OF assms(2)]) simp
  ultimately show ?thesis by (metis unat_of_nat_u64)
qed

lemma unat_index: "i < unat (p :: u64) \<Longrightarrow> unat (of_nat i :: u64) = i"
  by (rule unat_of_nat_u64, erule less_trans) simp

lemma bits_after_set:
  assumes ok: "regions_ok rs" and r: "r \<in> set rs" "i < unat (region_pages r)"
    and r': "r' \<in> set rs" "j < unat (region_pages r')"
  shows "region_get_bit (region_set_bit m r (of_nat i)) r' (of_nat j) \<longleftrightarrow>
    (r' = r \<and> j = i) \<or> region_get_bit m r' (of_nat j)"
proof (cases "r = r'")
  case True
  then show ?thesis
    using of_nat_index_inject [OF r(2) r'(2)] by (auto simp: get_set_bit)
next
  case False
  then have "bitmap_rng r \<inter> bitmap_rng r' = {}"
    using ok r r' regions_ok_separated regions_ok_ok by (intro bitmaps_disjoint) blast+
  then have "region_get_bit (region_set_bit m r (of_nat i)) r' (of_nat j) = region_get_bit m r' (of_nat j)"
    using r(2) unat_index [OF r(2)] by (intro get_bit_cong r'(2) set_bit_other) auto
  with False show ?thesis by auto
qed

lemma bits_after_unset:
  assumes ok: "regions_ok rs" and r: "r \<in> set rs" "i < unat (region_pages r)"
    and r': "r' \<in> set rs" "j < unat (region_pages r')"
  shows "region_get_bit (region_unset_bit m r (of_nat i)) r' (of_nat j) \<longleftrightarrow>
    \<not> (r' = r \<and> j = i) \<and> region_get_bit m r' (of_nat j)"
proof (cases "r = r'")
  case True
  then show ?thesis
    using of_nat_index_inject [OF r(2) r'(2)] by (auto simp: get_unset_bit)
next
  case False
  then have "bitmap_rng r \<inter> bitmap_rng r' = {}"
    using ok r r' regions_ok_separated regions_ok_ok by (intro bitmaps_disjoint) blast+
  then have "region_get_bit (region_unset_bit m r (of_nat i)) r' (of_nat j) = region_get_bit m r' (of_nat j)"
    using r(2) unat_index [OF r(2)] by (intro get_bit_cong r'(2) unset_bit_other) auto
  with False show ?thesis by auto
qed

section \<open>Allocation\<close>

text \<open>\<open>find_free_page\<close> takes the lowest page of the region whose bit is clear.\<close>

lemma find_free_page_loop_spec:
  "find_free_page_loop m r i =
    (if \<exists>k. unat i \<le> k \<and> k < unat (region_pages r) \<and> \<not> region_get_bit m r (of_nat k)
     then (let k = LEAST k. unat i \<le> k \<and> k < unat (region_pages r) \<and> \<not> region_get_bit m r (of_nat k)
           in (frame r k, region_set_bit m r (of_nat k)))
     else (0, m))"
proof (induction m r i rule: find_free_page_loop.induct)
  case (1 m r i)
  let ?P = "\<lambda>i k. unat i \<le> k \<and> k < unat (region_pages r) \<and> \<not> region_get_bit m r (of_nat k)"
  show ?case
  proof (cases "i < region_pages r")
    case False
    then have "\<not> (\<exists>k. ?P i k)" by (auto simp: word_less_nat_alt)
    then show ?thesis
      using False by (subst find_free_page_loop.simps) (simp only: if_False)
  next
    case True
    then have lt: "unat i < unat (region_pages r)" by (simp add: word_less_nat_alt)
    show ?thesis
    proof (cases "region_get_bit m r i")
      case False
      then have p: "?P i (unat i)" using lt by simp
      then have "(LEAST k. ?P i k) = unat i" by (intro Least_equality) auto
      with p False \<open>i < region_pages r\<close> show ?thesis
        by (subst find_free_page_loop.simps) (auto simp: frame_def Let_def)
    next
      case set: True
      have "?P (i + 1) k \<longleftrightarrow> ?P i k" for k
        using set by (auto simp: unat_u64_Suc [OF True] Suc_le_eq order_le_less)
      then have eq: "?P (i + 1) = ?P i" by blast
      have "find_free_page_loop m r i = find_free_page_loop m r (i + 1)"
        using True set by (subst find_free_page_loop.simps) simp
      also have "\<dots> = (if \<exists>k. ?P i k
          then (let k = LEAST k. ?P i k in (frame r k, region_set_bit m r (of_nat k))) else (0, m))"
        using 1 [OF True set] unfolding eq .
      finally show ?thesis .
    qed
  qed
qed

lemma find_free_page_some:
  assumes "k < unat (region_pages r)" and "\<not> region_get_bit m r (of_nat k)"
  obtains i where "i < unat (region_pages r)" and "\<not> region_get_bit m r (of_nat i)"
    and "find_free_page m r = (frame r i, region_set_bit m r (of_nat i))"
proof -
  let ?P = "\<lambda>k. k < unat (region_pages r) \<and> \<not> region_get_bit m r (of_nat k)"
  have ex: "\<exists>k. ?P k" using assms by blast
  then have "?P (LEAST k. ?P k)" by (rule LeastI_ex)
  moreover have "find_free_page m r =
      (frame r (LEAST k. ?P k), region_set_bit m r (of_nat (LEAST k. ?P k)))"
    using ex by (simp add: find_free_page_def find_free_page_loop_spec Let_def)
  ultimately show thesis using that by blast
qed

lemma find_free_page_none:
  assumes "\<And>k. k < unat (region_pages r) \<Longrightarrow> region_get_bit m r (of_nat k)"
  shows "find_free_page m r = (0, m)"
  using assms unfolding find_free_page_def find_free_page_loop_spec
  by (intro if_not_P) blast

text \<open>A free frame of a region with a reserved bitmap never has address 0.\<close>

lemma free_frame_index:
  assumes "bitmaps_reserved m rs" "r \<in> set rs" "i < unat (region_pages r)"
    and "\<not> region_get_bit m r (of_nat i)"
  shows "bitmap_pages r \<le> i"
  using assms by (auto simp: bitmaps_reserved_def not_less [symmetric])

lemma bitmap_pages_pos: "0 < unat (region_pages r) \<Longrightarrow> 0 < bitmap_pages r"
  by (simp add: bitmap_pages_def bitmap_bytes_def)

lemma frame_nonzero:
  assumes "region_ok r" "i < unat (region_pages r)" "bitmap_pages r \<le> i"
  shows "frame r i \<noteq> 0"
proof -
  have "0 < i" using assms(2,3) bitmap_pages_pos [of r] by linarith
  then have "0 < unat (frame r i)" using assms(1,2) by (simp add: unat_frame)
  then show ?thesis by auto
qed

lemma pmm_alloc_loop_spec:
  assumes "regions_ok rs" and "bitmaps_reserved m rs"
  shows "(free_in m rs = {} \<and> pmm_alloc_loop m rs = (0, m)) \<or>
    (\<exists>r \<in> set rs. \<exists>i < unat (region_pages r). bitmap_pages r \<le> i \<and> \<not> region_get_bit m r (of_nat i)
       \<and> pmm_alloc_loop m rs = (frame r i, region_set_bit m r (of_nat i)))"
  using assms
proof (induction rs)
  case Nil
  then show ?case by (simp add: free_in_def)
next
  case (Cons r rs)
  have res: "bitmaps_reserved m rs" using Cons.prems(2) by (simp add: bitmaps_reserved_def)
  have ok: "region_ok r" "regions_ok rs" using Cons.prems(1) by (auto simp: regions_ok_Cons)
  show ?case
  proof (cases "\<forall>k < unat (region_pages r). region_get_bit m r (of_nat k)")
    case True
    then have eq: "pmm_alloc_loop m (r # rs) = pmm_alloc_loop m rs"
      by (simp add: find_free_page_none)
    moreover have "free_in m (r # rs) = free_in m rs"
      using True by (auto simp: free_in_def)
    ultimately show ?thesis using Cons.IH [OF ok(2) res] by (simp only: list.set) blast
  next
    case False
    then obtain k where "k < unat (region_pages r)" "\<not> region_get_bit m r (of_nat k)" by blast
    then obtain i where i: "i < unat (region_pages r)" "\<not> region_get_bit m r (of_nat i)"
      and eq: "find_free_page m r = (frame r i, region_set_bit m r (of_nat i))"
      by (rule find_free_page_some)
    have b: "bitmap_pages r \<le> i"
      using free_frame_index [OF Cons.prems(2) _ i] by simp
    from frame_nonzero [OF ok(1) i(1) b] eq
    have "pmm_alloc_loop m (r # rs) = (frame r i, region_set_bit m r (of_nat i))" by simp
    with i b show ?thesis by auto
  qed
qed

text \<open>
  Marking a client frame allocated and clearing it: the bits of all other frames, and the memory
  outside that frame and the bitmaps, stay as they are.
\<close>

lemma frames_in_subsets: "free_in m rs \<subseteq> frames_in rs" "used_in m rs \<subseteq> frames_in rs"
  by (auto simp: free_in_def used_in_def frames_in_def)

lemma frames_in_frame:
  "r \<in> set rs \<Longrightarrow> i < unat (region_pages r) \<Longrightarrow> frame r i \<in> frames_in rs"
  by (auto simp: frames_in_def)

lemma frames_eqI:
  assumes "A \<subseteq> frames_in rs" "B \<subseteq> frames_in rs"
    and "\<And>r j. r \<in> set rs \<Longrightarrow> j < unat (region_pages r) \<Longrightarrow> frame r j \<in> A \<longleftrightarrow> frame r j \<in> B"
  shows "A = B"
  using assms unfolding frames_in_def by blast

lemma frame_eq_iff:
  assumes "regions_ok rs" and "r \<in> set rs" "r' \<in> set rs"
    and "i < unat (region_pages r)" "i' < unat (region_pages r')"
  shows "frame r i = frame r' i' \<longleftrightarrow> r = r' \<and> i = i'"
  using frame_unique [OF assms] by blast

lemma free_in_set_bit:
  assumes "regions_ok rs" "r \<in> set rs" "i < unat (region_pages r)"
  shows "free_in (region_set_bit m r (of_nat i)) rs = free_in m rs - {frame r i}"
  using frames_in_subsets assms
  by (intro frames_eqI [where rs = rs])
     (auto simp: free_in_frame_iff bits_after_set [OF assms] frame_eq_iff [OF assms(1) _ assms(2)])

lemma used_in_set_bit:
  assumes "regions_ok rs" "r \<in> set rs" "i < unat (region_pages r)" "bitmap_pages r \<le> i"
  shows "used_in (region_set_bit m r (of_nat i)) rs = insert (frame r i) (used_in m rs)"
  using frames_in_subsets frames_in_frame assms
  by (intro frames_eqI [where rs = rs])
     (auto simp: used_in_frame_iff bits_after_set [OF assms(1-3)] frame_eq_iff [OF assms(1) _ assms(2)])

lemma free_in_unset_bit:
  assumes "regions_ok rs" "r \<in> set rs" "i < unat (region_pages r)"
  shows "free_in (region_unset_bit m r (of_nat i)) rs = insert (frame r i) (free_in m rs)"
  using frames_in_subsets frames_in_frame assms
  by (intro frames_eqI [where rs = rs])
     (auto simp: free_in_frame_iff bits_after_unset [OF assms] frame_eq_iff [OF assms(1) _ assms(2)])

lemma used_in_unset_bit:
  assumes "regions_ok rs" "r \<in> set rs" "i < unat (region_pages r)"
  shows "used_in (region_unset_bit m r (of_nat i)) rs = used_in m rs - {frame r i}"
  using assms
  by (intro frames_eqI [where rs = rs])
     (auto simp: used_in_frame_iff bits_after_unset [OF assms] frame_eq_iff [OF assms(1) _ assms(2)]
           dest: frames_in_subsets [THEN subsetD])

lemma reserved_set_bit:
  assumes "regions_ok rs" "r \<in> set rs" "i < unat (region_pages r)" "bitmaps_reserved m rs"
  shows "bitmaps_reserved (region_set_bit m r (of_nat i)) rs"
  unfolding bitmaps_reserved_def
proof (intro ballI allI impI)
  fix r' j assume r': "r' \<in> set rs" and j: "j < bitmap_pages r'"
  have "j < unat (region_pages r')" using j bitmap_pages_le [of r'] by simp
  from bits_after_set [OF assms(1-3) r' this] assms(4) r' j
  show "region_get_bit (region_set_bit m r (of_nat i)) r' (of_nat j)"
    by (simp add: bitmaps_reserved_def)
qed

lemma reserved_unset_bit:
  assumes "regions_ok rs" "r \<in> set rs" "i < unat (region_pages r)" "bitmaps_reserved m rs"
    and "bitmap_pages r \<le> i"
  shows "bitmaps_reserved (region_unset_bit m r (of_nat i)) rs"
  unfolding bitmaps_reserved_def
proof (intro ballI allI impI)
  fix r' j assume r': "r' \<in> set rs" and j: "j < bitmap_pages r'"
  have "j < unat (region_pages r')" using j bitmap_pages_le [of r'] by simp
  from bits_after_unset [OF assms(1-3) r' this] assms(4,5) r' j
  show "region_get_bit (region_unset_bit m r (of_nat i)) r' (of_nat j)"
    by (auto simp: bitmaps_reserved_def)
qed

lemma client_frame_bitmaps:
  assumes "regions_ok rs" "r \<in> set rs" "i < unat (region_pages r)" "bitmap_pages r \<le> i"
  shows "rng (P_TO_V (frame r i)) 4096 \<inter> bitmaps rs = {}"
proof -
  have "rng (P_TO_V (frame r i)) 4096 \<inter> bitmap_rng r' = {}" if r': "r' \<in> set rs" for r'
    using assms r' regions_ok_separated [OF assms(1,2) r'] regions_ok_ok
    by (intro frame_bitmap_disjoint) blast+
  then show ?thesis by (auto simp: bitmaps_def)
qed

lemma active_regions_mem [simp]: "active_regions (s\<lparr>mem := m\<rparr>) = active_regions s"
  by (simp add: active_regions_def)

text \<open>
  The outcome of \<open>pmm_alloc\<close>. With no free frame it returns 0 and clears the page at physical
  address 0. Otherwise it returns a frame that was free, zero-filled and now allocated; no other
  frame changes hands, and the only memory written is that frame and the bitmaps.
\<close>

lemma pmm_alloc_empty:
  assumes "pmm_inv s" and "free_frames s = {}"
  shows "pmm_alloc s = (0, s\<lparr>mem := memset (mem s) (P_TO_V 0) 0 PAGE_SIZE\<rparr>)"
  using pmm_alloc_loop_spec [of "active_regions s" "mem s"] assms free_inI
  by (fastforce simp: pmm_inv_def free_frames_def pmm_alloc_def)

lemma pmm_alloc_cases:
  assumes inv: "pmm_inv s" and ne: "free_frames s \<noteq> {}"
  obtains r i where "r \<in> set (active_regions s)" "i < unat (region_pages r)" "bitmap_pages r \<le> i"
    "\<not> region_get_bit (mem s) r (of_nat i)"
    "pmm_alloc s = (frame r i,
       s\<lparr>mem := memset (region_set_bit (mem s) r (of_nat i)) (P_TO_V (frame r i)) 0 PAGE_SIZE\<rparr>)"
  using pmm_alloc_loop_spec [of "active_regions s" "mem s"] assms that
  by (fastforce simp: pmm_inv_def free_frames_def pmm_alloc_def)

lemma pmm_alloc_spec:
  assumes inv: "pmm_inv s" and ne: "free_frames s \<noteq> {}" and call: "pmm_alloc s = (a, s')"
  shows "a \<in> free_frames s" and "a \<noteq> 0" and "aligned a"
    and "pmm_inv s'" and "free_frames s' = free_frames s - {a}"
    and "used_frames s' = insert a (used_frames s)"
    and "\<And>x. x \<in> rng (P_TO_V a) 4096 \<Longrightarrow> mem s' x = 0"
    and "\<And>x. x \<notin> rng (P_TO_V a) 4096 \<Longrightarrow> x \<notin> bitmaps (active_regions s) \<Longrightarrow> mem s' x = mem s x"
    and "rng (P_TO_V a) 4096 \<inter> bitmaps (active_regions s) = {}"
    and "active_regions s' = active_regions s"
proof -
  let ?rs = "active_regions s"
  from inv have ok: "regions_ok ?rs" and res: "bitmaps_reserved (mem s) ?rs"
    by (auto simp: pmm_inv_def)
  from inv ne obtain r i where ri: "r \<in> set ?rs" "i < unat (region_pages r)" "bitmap_pages r \<le> i"
    and clear: "\<not> region_get_bit (mem s) r (of_nat i)"
    and eq: "pmm_alloc s = (frame r i,
       s\<lparr>mem := memset (region_set_bit (mem s) r (of_nat i)) (P_TO_V (frame r i)) 0 PAGE_SIZE\<rparr>)"
    by (rule pmm_alloc_cases)
  let ?m = "region_set_bit (mem s) r (of_nat i)"
  from eq call have a: "a = frame r i" and s': "s' = s\<lparr>mem := memset ?m (P_TO_V a) 0 PAGE_SIZE\<rparr>"
    by auto
  show disj: "rng (P_TO_V a) 4096 \<inter> bitmaps ?rs = {}"
    unfolding a by (rule client_frame_bitmaps [OF ok ri])
  have agree: "mem s' x = ?m x" if "x \<in> bitmaps ?rs" for x
  proof -
    have "x \<notin> rng (P_TO_V a) 4096" using disj that by blast
    then show ?thesis by (simp add: s' memset_out)
  qed
  show "active_regions s' = ?rs" by (simp add: s')
  show "a \<in> free_frames s" unfolding a free_frames_def by (rule free_inI [OF ri(1,2) clear])
  show "a \<noteq> 0" unfolding a using regions_ok_ok [OF ok ri(1)] ri(2,3) by (rule frame_nonzero)
  show "aligned a" unfolding a
    using regions_ok_ok [OF ok ri(1)] ri(2) by (intro aligned_frame) simp_all
  show "pmm_inv s'"
    using bitmaps_agree(3) [OF agree] reserved_set_bit [OF ok ri(1,2) res] ok
    by (simp add: pmm_inv_def s')
  show "free_frames s' = free_frames s - {a}"
    using bitmaps_agree(1) [OF agree] free_in_set_bit [OF ok ri(1,2)] a
    by (simp add: free_frames_def s')
  show "used_frames s' = insert a (used_frames s)"
    using bitmaps_agree(2) [OF agree] used_in_set_bit [OF ok ri] a
    by (simp add: used_frames_def s')
  show "mem s' x = 0" if "x \<in> rng (P_TO_V a) 4096" for x
    using that by (simp add: s' memset_in)
  show "mem s' x = mem s x" if "x \<notin> rng (P_TO_V a) 4096" "x \<notin> bitmaps ?rs" for x
  proof -
    have "x \<notin> bitmap_rng r" using that(2) ri(1) by (auto simp: bitmaps_def)
    then have "?m x = mem s x"
      using unat_index [OF ri(2)] ri(2) by (intro set_bit_other) simp_all
    with that(1) show ?thesis by (simp add: s' memset_out)
  qed
qed

section \<open>Freeing\<close>

lemma unat_region_end:
  assumes "region_ok r"
  shows "unat (region_start r + region_pages r * PAGE_SIZE) = region_end r"
proof -
  have lt: "unat (region_start r) + unat (region_pages r) * 4096 < 2 ^ 64"
    using assms by (simp add: region_ok_def region_end_def)
  then have "unat (region_pages r * PAGE_SIZE) = unat (region_pages r) * 4096"
    by (subst unat_mult_nowrap) simp_all
  with lt show ?thesis by (simp add: unat_add_nowrap region_end_def)
qed

lemma free_in_own_region:
  assumes "region_ok r" and "i < unat (region_pages r)"
  shows "free_in_region (frame r i) r m = region_unset_bit m r (of_nat i)"
proof -
  have f: "unat (frame r i) = unat (region_start r) + i * 4096"
    using assms by (intro unat_frame) simp_all
  then have "unat (frame r i - region_start r) = i * 4096"
    by (simp add: unat_sub_le)
  then have "unat ((frame r i - region_start r) div PAGE_SIZE) = i"
    by (simp add: unat_div)
  then have "(frame r i - region_start r) div PAGE_SIZE = of_nat i"
    by (rule u64_of_unat)
  moreover have "\<not> frame r i < region_start r" using f by (simp add: word_less_nat_alt)
  moreover have "\<not> frame r i > region_start r + region_pages r * PAGE_SIZE"
    using frame_in_region [OF assms] by (simp add: word_less_nat_alt unat_region_end [OF assms(1)])
  ultimately show ?thesis by (simp add: free_in_region_def)
qed

lemma free_in_other_region:
  assumes "region_ok r" "region_ok r'" and "i < unat (region_pages r)" and "separated r r'"
  shows "free_in_region (frame r i) r' m = m"
  using assms frame_in_region [OF assms(1,3)] unat_frame [OF assms(1) less_imp_le [OF assms(3)]]
  by (auto simp: free_in_region_def word_less_nat_alt unat_region_end separated_def)

lemma fold_free_in_region:
  "regions_ok rs \<Longrightarrow> r \<in> set rs \<Longrightarrow> i < unat (region_pages r) \<Longrightarrow>
   fold (free_in_region (frame r i)) rs m = region_unset_bit m r (of_nat i)"
proof (induction rs arbitrary: m)
  case (Cons a rs)
  have ok: "region_ok a" "region_ok r" "regions_ok rs"
    using Cons.prems regions_ok_ok [OF Cons.prems(1,2)] by (auto simp: regions_ok_Cons)
  show ?case
  proof (cases "r = a")
    case True
    have "fold (free_in_region (frame r i)) rs m' = m'" for m'
      using Cons.prems(1,3) ok unfolding True regions_ok_Cons
    proof (induction rs)
      case (Cons b rs)
      then show ?case by (simp add: free_in_other_region regions_ok_Cons)
    qed simp
    with True ok Cons.prems(3) show ?thesis by (simp add: free_in_own_region)
  next
    case False
    then have mem: "r \<in> set rs" and sep: "separated r a"
      using Cons.prems by (auto simp: regions_ok_Cons separated_sym)
    with Cons.IH [OF ok(3) mem Cons.prems(3)] ok Cons.prems(3) show ?thesis
      by (simp add: free_in_other_region)
  qed
qed simp

text \<open>
  Freeing an allocated client frame succeeds, makes exactly that frame free again, and writes
  nothing but the bitmaps.
\<close>

lemma pmm_free_spec:
  assumes inv: "pmm_inv s" and used: "a \<in> used_frames s"
  shows "\<exists>s'. pmm_free a s = Inr s' \<and> pmm_inv s'
    \<and> free_frames s' = insert a (free_frames s) \<and> used_frames s' = used_frames s - {a}
    \<and> (\<forall>x. x \<notin> bitmaps (active_regions s) \<longrightarrow> mem s' x = mem s x) \<and> s' = s\<lparr>mem := mem s'\<rparr>"
proof -
  let ?rs = "active_regions s"
  from inv have ok: "regions_ok ?rs" and res: "bitmaps_reserved (mem s) ?rs"
    by (auto simp: pmm_inv_def)
  from used obtain r i where a: "a = frame r i" and r: "r \<in> set ?rs" "i < unat (region_pages r)"
    and b: "bitmap_pages r \<le> i"
    by (auto simp: used_frames_def used_in_def)
  let ?m = "region_unset_bit (mem s) r (of_nat i)"
  have al: "aligned a" unfolding a
    using regions_ok_ok [OF ok r(1)] r(2) by (intro aligned_frame) simp_all
  have eq: "pmm_free a s = Inr (s\<lparr>mem := ?m\<rparr>)"
    using al fold_free_in_region [OF ok r]
    by (simp add: pmm_free_def aligned_iff_page_off a)
  have "?m x = mem s x" if "x \<notin> bitmaps ?rs" for x
    using that r unat_index [OF r(2)] by (intro unset_bit_other) (auto simp: bitmaps_def)
  with eq show ?thesis
    using free_in_unset_bit [OF ok r] used_in_unset_bit [OF ok r] reserved_unset_bit [OF ok r res b] ok
    by (intro exI [of _ "s\<lparr>mem := ?m\<rparr>"])
       (simp add: pmm_inv_def free_frames_def used_frames_def a)
qed

section \<open>Initialisation\<close>

lemma set_bits_loop_other:
  "unat n \<le> unat (region_pages r) \<Longrightarrow> x \<notin> bitmap_rng r \<Longrightarrow> set_bits_loop m r n j x = m x"
proof (induction m r n j rule: set_bits_loop.induct)
  case (1 m r n j)
  show ?case
  proof (cases "j < n")
    case True
    then have "unat j < unat (region_pages r)" using 1(2) by (simp add: word_less_nat_alt)
    with 1(1) [OF True 1(2,3)] True 1(3) show ?thesis
      by (subst set_bits_loop.simps) (simp add: set_bit_other)
  qed (subst set_bits_loop.simps, simp)
qed

lemma set_bits_loop_bits:
  "region_get_bit (set_bits_loop m r n j) r k \<longleftrightarrow> (j \<le> k \<and> k < n) \<or> region_get_bit m r k"
proof (induction m r n j rule: set_bits_loop.induct)
  case (1 m r n j)
  show ?case
  proof (cases "j < n")
    case True
    have "region_get_bit (set_bits_loop m r n j) r k
        = region_get_bit (set_bits_loop (region_set_bit m r j) r n (j + 1)) r k"
      using True by (subst set_bits_loop.simps) simp
    also have "\<dots> \<longleftrightarrow> (j + 1 \<le> k \<and> k < n) \<or> region_get_bit (region_set_bit m r j) r k"
      by (rule 1 [OF True])
    finally show ?thesis
      using True by (auto simp: get_set_bit u64_Suc_le_iff [OF True])
  next
    case False
    then show ?thesis by (subst set_bits_loop.simps) auto
  qed
qed

lemma unat_bitmap_size:
  assumes "region_ok r"
  shows "unat (bmap_size r) = bitmap_bytes r"
    and "unat (DIV_CEIL (bmap_size r) PAGE_SIZE) = bitmap_pages r"
proof -
  have p: "unat (region_pages r) * 4096 < 2 ^ 64"
    using assms by (simp add: region_ok_def region_end_def)
  have "unat (region_pages r + 7) = unat (region_pages r) + 7"
    using p by (subst unat_add_nowrap) simp_all
  moreover have "region_pages r + 8 - 1 = region_pages r + 7" by simp
  ultimately show b: "unat (bmap_size r) = bitmap_bytes r"
    by (simp only: bmap_size_def unat_div bitmap_bytes_def) simp
  have "bitmap_bytes r + 4095 < 2 ^ 64" using p by (simp add: bitmap_bytes_def)
  then have "unat (bmap_size r + 4095) = bitmap_bytes r + 4095"
    using b by (subst unat_add_nowrap) simp_all
  moreover have "bmap_size r + PAGE_SIZE - 1 = bmap_size r + 4095" by simp
  ultimately show "unat (DIV_CEIL (bmap_size r) PAGE_SIZE) = bitmap_pages r"
    by (simp only: DIV_CEIL_def unat_div bitmap_pages_def) simp
qed

lemma init_region_other:
  assumes "region_ok r" and "x \<notin> bitmap_rng r"
  shows "init_region r m x = m x"
proof -
  have "bitmap_pages r \<le> unat (region_pages r)" by (rule bitmap_pages_le)
  with assms show ?thesis
    unfolding init_region_def Let_def
    by (subst set_bits_loop_other)
       (simp_all add: unat_bitmap_size memset_out bitmap_rng_def del: in_rng)
qed

lemma init_region_bits:
  assumes "region_ok r" and "k < unat (region_pages r)"
  shows "region_get_bit (init_region r m) r (of_nat k) \<longleftrightarrow> k < bitmap_pages r"
proof -
  let ?m = "memset m (P_TO_V (region_start r)) 0 (bmap_size r)"
  have k: "unat (of_nat k :: u64) = k" by (rule unat_index [OF assms(2)])
  have "P_TO_V (region_start r) + of_nat k div 8 \<in> bitmap_rng r"
    using assms(2) k by (intro bit_addr_in_bitmap) simp
  then have "?m (P_TO_V (region_start r) + of_nat k div 8) = 0"
    using unat_bitmap_size(1) [OF assms(1)] by (intro memset_in) (simp add: bitmap_rng_def)
  then have "\<not> region_get_bit ?m r (of_nat k)" by (simp add: get_bit_iff)
  then show ?thesis
    unfolding init_region_def Let_def set_bits_loop_bits
    by (simp add: word_less_nat_alt unat_bitmap_size [OF assms(1)] k)
qed

lemma init_regions_bits:
  "regions_ok rs \<Longrightarrow> r \<in> set rs \<Longrightarrow> k < unat (region_pages r) \<Longrightarrow>
   region_get_bit (fold init_region rs m) r (of_nat k) \<longleftrightarrow> k < bitmap_pages r"
proof (induction rs rule: rev_induct)
  case (snoc a rs)
  have ok: "regions_ok rs" "region_ok a" "\<forall>r \<in> set rs. separated r a"
    using snoc.prems(1) by (auto simp: regions_ok_def sorted_wrt_append)
  show ?case
  proof (cases "r = a")
    case True
    with ok snoc.prems show ?thesis by (simp add: init_region_bits)
  next
    case False
    with snoc.prems have r: "r \<in> set rs" by simp
    then have "bitmap_rng a \<inter> bitmap_rng r = {}"
      using ok regions_ok_ok [OF ok(1) r] by (intro bitmaps_disjoint) (auto simp: separated_sym)
    then have "region_get_bit (init_region a (fold init_region rs m)) r (of_nat k)
        = region_get_bit (fold init_region rs m) r (of_nat k)"
      using ok snoc.prems(3) by (intro get_bit_cong init_region_other) auto
    with snoc.IH [OF ok(1) r snoc.prems(3)] show ?thesis by simp
  qed
qed simp

lemma init_regions_other:
  "\<forall>r \<in> set rs. region_ok r \<Longrightarrow> x \<notin> bitmaps rs \<Longrightarrow> fold init_region rs m x = m x"
  by (induction rs arbitrary: m) (auto simp: bitmaps_def init_region_other)

text \<open>
  After \<open>pmm_init_regions\<close> the allocator is well-formed and exactly the frames that do not hold
  a bitmap are free.
\<close>

lemma pmm_init_regions_inv:
  assumes "regions_ok (active_regions s)"
  shows "pmm_inv (pmm_init_regions s)"
proof -
  let ?rs = "active_regions s"
  have "region_get_bit (fold init_region ?rs (mem s)) r (of_nat i)"
    if "r \<in> set ?rs" "i < bitmap_pages r" for r i
    using that bitmap_pages_le [of r] by (subst init_regions_bits [OF assms]) simp_all
  with assms show ?thesis
    by (simp add: pmm_inv_def pmm_init_regions_def bitmaps_reserved_def)
qed

lemma pmm_init_regions_free:
  assumes "regions_ok (active_regions s)"
  shows "free_frames (pmm_init_regions s) =
    {frame r i | r i. r \<in> set (active_regions s) \<and> bitmap_pages r \<le> i \<and> i < unat (region_pages r)}"
proof -
  have "free_frames (pmm_init_regions s) =
      free_in (fold init_region (active_regions s) (mem s)) (active_regions s)"
    by (simp add: free_frames_def pmm_init_regions_def)
  also have "\<dots> = {frame r i | r i. r \<in> set (active_regions s) \<and> bitmap_pages r \<le> i
      \<and> i < unat (region_pages r)}"
    unfolding free_in_def not_less [symmetric] using init_regions_bits [OF assms] by blast
  finally show ?thesis .
qed

section \<open>The memory map\<close>

lemma unat_ALIGNUP_PAGE:
  assumes "unat x + 4095 < 2 ^ 64"
  shows "unat (ALIGNUP x PAGE_SIZE) = (unat x + 4095) div 4096 * 4096"
proof -
  have "ALIGNUP x PAGE_SIZE = page_base (x + 4095)"
    by (simp add: ALIGNUP_def page_base_def)
  moreover have "unat (x + 4095) = unat x + 4095"
    using assms by (subst unat_add_nowrap) simp_all
  ultimately show ?thesis
    by (simp add: unat_page_base minus_mod_eq_div_mult)
qed

lemma unat_ALIGNDOWN_PAGE: "unat (ALIGNDOWN x PAGE_SIZE) = unat x div 4096 * 4096"
proof -
  have "ALIGNDOWN x PAGE_SIZE = page_base x"
    by (simp add: ALIGNDOWN_def page_base_def)
  then show ?thesis by (simp add: unat_page_base minus_mod_eq_div_mult)
qed

text \<open>
  What is left of an available range does not meet the kernel image, unless the range contains the
  whole image with room before it.
\<close>

lemma poke_hole_avoids_kernel:
  assumes "poke_hole ks ke start end' = Some (a, b)"
    and "unat ke + 4095 < 2 ^ 64" and "\<not> (start < ks \<and> ke \<le> end')"
  shows "b \<le> ks \<or> ke \<le> a"
proof -
  have up: "ke \<le> ALIGNUP ke PAGE_SIZE"
    using assms(2) by (simp add: word_le_nat_alt unat_ALIGNUP_PAGE)
  have down: "ALIGNDOWN ks PAGE_SIZE \<le> ks"
    by (simp add: word_le_nat_alt unat_ALIGNDOWN_PAGE)
  show ?thesis
    using assms(1,3) up down
    by (auto simp: poke_hole_def Let_def OVERLAPS_KERNEL_def not_le not_less split: if_splits)
qed

lemma poke_hole_contained:
  assumes "start < ks" and "ke \<le> end'"
  shows "poke_hole ks ke start end' = Some (start, end')"
  using assms by (auto simp: poke_hole_def Let_def OVERLAPS_KERNEL_def)

lemma poke_hole_nonempty:
  assumes "poke_hole ks ke start end' = Some (a, b)" and "start < end'"
  shows "a < b"
  using assms by (auto simp: poke_hole_def Let_def OVERLAPS_KERNEL_def split: if_splits)

text \<open>The region the loop stores for an entry, if it stores one.\<close>

definition entry_region :: "u64 \<Rightarrow> u64 \<Rightarrow> memory \<Rightarrow> u64 \<Rightarrow> mmap_region option" where
  "entry_region ks ke m e =
     (if entry_type m e \<noteq> MULTIBOOT_MEMORY_AVAILABLE then None
      else map_option (\<lambda>(a, b). \<lparr>region_start = a, region_pages = (b - a) div PAGE_SIZE\<rparr>)
             (poke_hole ks ke (entry_addr m e) (entry_addr m e + entry_len m e)))"

definition mmap_entries :: "u64 \<Rightarrow> u64 \<Rightarrow> nat \<Rightarrow> u64 list" where
  "mmap_entries entry esz n = map (\<lambda>j. entry + of_nat j * esz) [0..<n]"

definition map_regions :: "u64 \<Rightarrow> u64 \<Rightarrow> memory \<Rightarrow> u64 list \<Rightarrow> mmap_region list" where
  "map_regions ks ke m es = List.map_filter (entry_region ks ke m) es"

lemma mmap_entries_Suc:
  "mmap_entries entry esz (Suc n) = entry # mmap_entries (entry + esz) esz n"
  unfolding mmap_entries_def upt_conv_Cons [OF zero_less_Suc] list.map
  by (simp add: map_Suc_upt [symmetric] algebra_simps del: upt_Suc)

lemma map_regions_Cons:
  "map_regions ks ke m (e # es) =
    (case entry_region ks ke m e of None \<Rightarrow> map_regions ks ke m es
     | Some r \<Rightarrow> r # map_regions ks ke m es)"
  by (simp add: map_regions_def split: option.split)

text \<open>An entry list of \<open>n\<close> entries: the first \<open>n\<close> start below the limit, the next one does not.\<close>

definition entries_end :: "u64 \<Rightarrow> u64 \<Rightarrow> u64 \<Rightarrow> nat \<Rightarrow> bool" where
  "entries_end entry esz lim n \<longleftrightarrow>
     (\<forall>j < n. entry + of_nat j * esz < lim) \<and> \<not> entry + of_nat n * esz < lim"

lemma entries_end_Suc:
  "entries_end entry esz lim (Suc n) \<longleftrightarrow> entry < lim \<and> entries_end (entry + esz) esz lim n"
proof -
  have eq: "entry + of_nat (Suc j) * esz = entry + esz + of_nat j * esz" for j
    by (simp add: algebra_simps)
  show ?thesis
    unfolding entries_end_def All_less_Suc2 eq by simp
qed

lemma set_mmap_loop_eq:
  assumes "esz = ucast (mmap_entry_size m mmap)" and "lim = mmap + ucast (tag_size m mmap)"
    and "entries_end entry esz lim n"
    and "rs = map_regions ks ke m (mmap_entries entry esz n)" and "i \<le> length regs"
  shows "set_mmap_loop m ks ke mmap entry i regs =
    Some (if i + length rs \<le> length regs
          then Inr (i + length rs, take i regs @ rs @ drop (i + length rs) regs)
          else Inl (Undefined ''store past regions[MAX_REGIONS]''))"
  using assms
proof (induction n arbitrary: entry i regs rs)
  case 0
  then show ?case
    by (subst set_mmap_loop.simps)
       (simp add: entries_end_def mmap_entries_def map_regions_def)
next
  case (Suc n)
  let ?next = "entry + esz"
  let ?rest = "map_regions ks ke m (mmap_entries ?next esz n)"
  have lt: "entry < lim" and ends: "entries_end ?next esz lim n"
    using Suc.prems(3) by (auto simp: entries_end_Suc)
  have IH: "set_mmap_loop m ks ke mmap ?next i' regs' =
      Some (if i' + length ?rest \<le> length regs'
          then Inr (i' + length ?rest, take i' regs' @ ?rest @ drop (i' + length ?rest) regs')
          else Inl (Undefined ''store past regions[MAX_REGIONS]''))"
    if "i' \<le> length regs'" for i' regs'
    using Suc.IH [OF Suc.prems(1,2) ends refl that] .
  show ?case
  proof (cases "entry_region ks ke m entry")
    case None
    then have "rs = ?rest" using Suc.prems(4) by (simp add: mmap_entries_Suc map_regions_Cons)
    moreover have "set_mmap_loop m ks ke mmap entry i regs = set_mmap_loop m ks ke mmap ?next i regs"
      using None lt Suc.prems(1,2)
      by (subst set_mmap_loop.simps)
         (auto simp: entry_region_def Let_def split: if_splits option.splits)
    ultimately show ?thesis using IH [OF Suc.prems(5)] by simp
  next
    case (Some r)
    then have rs: "rs = r # ?rest"
      using Suc.prems(4) by (simp add: mmap_entries_Suc map_regions_Cons)
    have step: "set_mmap_loop m ks ke mmap entry i regs =
        (if i < length regs then set_mmap_loop m ks ke mmap ?next (Suc i) (regs[i := r])
         else Some (Inl (Undefined ''store past regions[MAX_REGIONS]'')))"
      using Some lt Suc.prems(1,2)
      by (subst set_mmap_loop.simps)
         (auto simp: entry_region_def Let_def split: if_splits option.splits)
    show ?thesis
    proof (cases "i < length regs")
      case True
      then have "take (Suc i) (regs[i := r]) = take i regs @ [r]"
        by (simp add: take_Suc_conv_app_nth)
      with True step IH [of "Suc i" "regs[i := r]"] rs show ?thesis by simp
    next
      case False
      with Suc.prems(5) step rs show ?thesis by simp
    qed
  qed
qed

lemma pmm_set_mmap_eq:
  assumes "entries_end (mmap + 16) esz (mmap + ucast (tag_size (mem s) mmap)) n"
    and "esz = ucast (mmap_entry_size (mem s) mmap)"
    and "rs = map_regions ks ke (mem s) (mmap_entries (mmap + 16) esz n)"
  shows "pmm_set_mmap ks ke mmap s =
    Some (if length rs \<le> MAX_REGIONS
          then Inr (s\<lparr>n_regions := of_nat (length rs),
                      regions := rs @ replicate (MAX_REGIONS - length rs)
                                        \<lparr>region_start = 0, region_pages = 0\<rparr>\<rparr>)
          else Inl (Undefined ''store past regions[MAX_REGIONS]''))"
  unfolding pmm_set_mmap_def
  by (subst set_mmap_loop_eq [OF assms(2) refl assms(1,3)]) simp_all

lemma active_after_set_mmap:
  assumes "pmm_set_mmap ks ke mmap s = Some (Inr s')"
    and "entries_end (mmap + 16) esz (mmap + ucast (tag_size (mem s) mmap)) n"
    and "esz = ucast (mmap_entry_size (mem s) mmap)"
  shows "active_regions s' = map_regions ks ke (mem s) (mmap_entries (mmap + 16) esz n)"
  using pmm_set_mmap_eq [OF assms(2,3) refl, of ks ke] assms(1)
  by (auto simp: active_regions_def unat_of_nat_u64 MAX_REGIONS_def split: if_splits)

section \<open>The allocator keeps its contract\<close>

lemma used_frames_bitmaps_disjoint:
  assumes "pmm_inv s"
  shows "frame_bytes (used_frames s) \<inter> bitmaps (active_regions s) = {}"
proof -
  have "rng (P_TO_V f) 4096 \<inter> bitmaps (active_regions s) = {}" if f: "f \<in> used_frames s" for f
  proof -
    from f obtain r i where "f = frame r i" "r \<in> set (active_regions s)"
      "i < unat (region_pages r)" "bitmap_pages r \<le> i"
      by (auto simp: used_frames_def used_in_def)
    with assms show ?thesis by (simp add: pmm_inv_def client_frame_bitmaps)
  qed
  then show ?thesis unfolding frame_bytes_def by blast
qed

lemma client_frame_props:
  assumes "regions_ok rs" "r \<in> set rs" "i < unat (region_pages r)" "bitmap_pages r \<le> i"
  shows "aligned (frame r i) \<and> frame r i \<noteq> 0"
  using assms regions_ok_ok [OF assms(1,2)] by (simp add: aligned_frame frame_nonzero)

lemma used_frame_props:
  assumes "pmm_inv s" and "f \<in> used_frames s"
  shows "aligned f \<and> f \<noteq> 0"
proof -
  from assms obtain r i where "f = frame r i" "r \<in> set (active_regions s)"
    "i < unat (region_pages r)" "bitmap_pages r \<le> i"
    by (auto simp: used_frames_def used_in_def)
  with assms(1) client_frame_props [of "active_regions s" r i] show ?thesis
    by (simp add: pmm_inv_def)
qed

lemma free_frame_props:
  assumes "pmm_inv s" and "f \<in> free_frames s"
  shows "aligned f \<and> f \<noteq> 0"
proof -
  from assms(2) obtain r i where f: "f = frame r i" "r \<in> set (active_regions s)"
    "i < unat (region_pages r)" "\<not> region_get_bit (mem s) r (of_nat i)"
    by (auto simp: free_frames_def free_in_def)
  with assms(1) have "bitmap_pages r \<le> i"
    by (intro free_frame_index [OF _ f(2-4)]) (simp add: pmm_inv_def)
  with f assms(1) client_frame_props [of "active_regions s" r i] show ?thesis
    by (simp add: pmm_inv_def)
qed

lemma used_free_frames_disjoint: "pmm_inv s \<Longrightarrow> used_frames s \<inter> free_frames s = {}"
  by (simp add: pmm_inv_def used_frames_def free_frames_def used_free_disjoint)

text \<open>Every page that holds no bitmap is free or in use.\<close>

definition client_frames :: "mmap_region list \<Rightarrow> u64 set" where
  "client_frames rs = {frame r i | r i. r \<in> set rs \<and> bitmap_pages r \<le> i \<and> i < unat (region_pages r)}"

lemma frames_partition:
  assumes "pmm_inv s"
  shows "free_frames s \<union> used_frames s = client_frames (active_regions s)"
proof -
  have "bitmap_pages r \<le> i"
    if "r \<in> set (active_regions s)" "\<not> region_get_bit (mem s) r (of_nat i)" for r i
    using assms that by (auto simp: pmm_inv_def bitmaps_reserved_def intro: leI)
  then show ?thesis
    unfolding free_frames_def used_frames_def free_in_def used_in_def client_frames_def by blast
qed

text \<open>The kernel-virtual addresses of all memory the allocator manages.\<close>

definition phys_bytes :: "mmap_region list \<Rightarrow> u64 set" where
  "phys_bytes rs = bitmaps rs \<union> frame_bytes (client_frames rs)"

lemma frame_in_phys_bytes:
  assumes "pmm_inv s" "f \<in> used_frames s \<or> f \<in> free_frames s" "x \<notin> phys_bytes (active_regions s)"
  shows "x \<notin> rng (P_TO_V f) 4096" and "x \<notin> bitmaps (active_regions s)"
proof -
  have "f \<in> client_frames (active_regions s)" using frames_partition [OF assms(1)] assms(2) by auto
  with assms(3) show "x \<notin> rng (P_TO_V f) 4096" "x \<notin> bitmaps (active_regions s)"
    unfolding phys_bytes_def frame_bytes_def by blast+
qed

lemma free_frames_antimono:
  assumes "pmm_inv s" "pmm_inv s'" "active_regions s' = active_regions s" "used_frames s \<subseteq> used_frames s'"
  shows "free_frames s' \<subseteq> free_frames s"
  using frames_partition [OF assms(1)] frames_partition [OF assms(2)] assms(3,4)
    used_free_frames_disjoint [OF assms(2)] by auto

lemma pmm_alloc_keeps_used:
  assumes "pmm_inv s" "free_frames s \<noteq> {}" "pmm_alloc s = (a, s')"
    and "x \<in> frame_bytes (used_frames s)"
  shows "mem s' x = mem s x"
proof -
  obtain f where f: "f \<in> used_frames s" "x \<in> rng (P_TO_V f) 4096"
    using assms(4) unfolding frame_bytes_def by blast
  have "a \<noteq> f"
    using pmm_alloc_spec(1) [OF assms(1-3)] used_free_frames_disjoint [OF assms(1)] f(1) by blast
  then have "rng (P_TO_V a) 4096 \<inter> rng (P_TO_V f) 4096 = {}"
    unfolding rng_P_TO_V_disjoint
    using used_frame_props [OF assms(1) f(1)] pmm_alloc_spec(3) [OF assms(1-3)]
    by (intro aligned_frames_disjoint) auto
  then have "x \<notin> rng (P_TO_V a) 4096" using f(2) by blast
  moreover have "x \<notin> bitmaps (active_regions s)"
    using used_frames_bitmaps_disjoint [OF assms(1)] assms(4) by blast
  ultimately show ?thesis by (rule pmm_alloc_spec(8) [OF assms(1-3)])
qed

lemma pmm_inv_put:
  assumes "pmm_inv s" and "\<And>x. x \<notin> frame_bytes (used_frames s) \<Longrightarrow> m x = mem s x"
  shows "pmm_inv (s\<lparr>mem := m\<rparr>) \<and> free_frames (s\<lparr>mem := m\<rparr>) = free_frames s
    \<and> used_frames (s\<lparr>mem := m\<rparr>) = used_frames s"
proof -
  have "m x = mem s x" if "x \<in> bitmaps (active_regions s)" for x
    using assms(2) used_frames_bitmaps_disjoint [OF assms(1)] that by blast
  from bitmaps_agree [OF this] assms(1) show ?thesis
    by (simp add: pmm_inv_def free_frames_def used_frames_def)
qed

interpretation pmm: frame_allocator pmm_alloc pmm_free pmm_inv free_frames used_frames mem
  "\<lambda>m s. s\<lparr>mem := m\<rparr>"
proof (unfold_locales, goal_cases)
  case (1 m s)
  show ?case by simp
next
  case (2 s f)
  then show ?case by (rule free_frame_props)
next
  case (3 s f)
  then show ?case by (rule used_frame_props)
next
  case (4 s)
  then show ?case by (rule used_free_frames_disjoint)
next
  case (5 s a s')
  then show ?case using pmm_alloc_spec(1,4,5,6) [OF 5] by simp
next
  case (6 s a s' x)
  then show ?case by (rule pmm_alloc_spec(7))
next
  case (7 s a s' x)
  then show ?case by (rule pmm_alloc_keeps_used)
next
  case (8 s a)
  have "x \<notin> bitmaps (active_regions s)" if "x \<in> frame_bytes (used_frames s)" for x
    using used_frames_bitmaps_disjoint [OF 8(1)] that by blast
  with pmm_free_spec [OF 8] show ?case by auto
next
  case (9 s m)
  then show ?case by (rule pmm_inv_put)
qed


section \<open>Properties\<close>

text \<open>
  A small machine on which the hypotheses of the properties hold: one region of 64 pages at 1 MiB,
  with the bitmap set up.
\<close>

definition sample_region :: mmap_region where
  "sample_region = \<lparr>region_start = 0x100000, region_pages = 64\<rparr>"

definition sample_boot :: pmm_state where
  "sample_boot = \<lparr>mem = (\<lambda>_. 0), n_regions = 1, regions = [sample_region]\<rparr>"

definition sample_pmm :: pmm_state where
  "sample_pmm = pmm_init_regions sample_boot"

lemma sample_regions_ok: "regions_ok [sample_region]"
  by (simp add: regions_ok_def region_ok_def sample_region_def aligned_def region_end_def)

lemma sample_bitmap_pages: "bitmap_pages sample_region = 1"
  by (simp add: bitmap_pages_def bitmap_bytes_def sample_region_def)

lemma init_one_region:
  assumes "active_regions s = [sample_region]"
  shows "pmm_inv (pmm_init_regions s)" and "free_frames (pmm_init_regions s) = frame sample_region ` {1..<64}"
    and "card (free_frames (pmm_init_regions s)) = 63"
proof -
  have ok: "regions_ok (active_regions s)" using assms sample_regions_ok by simp
  show "pmm_inv (pmm_init_regions s)" by (rule pmm_init_regions_inv [OF ok])
  show f: "free_frames (pmm_init_regions s) = frame sample_region ` {1..<64}"
    unfolding pmm_init_regions_free [OF ok] assms
    by (auto simp: sample_bitmap_pages) (auto simp: sample_region_def)
  have "inj_on (frame sample_region) {1..<64}"
  proof (rule inj_onI)
    fix i j assume "i \<in> {1..<64}" "j \<in> {1..<64}" "frame sample_region i = frame sample_region j"
    with frame_unique [OF sample_regions_ok, of sample_region sample_region i j] show "i = j"
      by (simp add: sample_region_def)
  qed
  then show "card (free_frames (pmm_init_regions s)) = 63" unfolding f by (simp add: card_image)
qed

lemma active_sample_boot: "active_regions sample_boot = [sample_region]"
  by (simp add: active_regions_def sample_boot_def)

lemmas sample_pmm_facts = init_one_region [OF active_sample_boot, folded sample_pmm_def]

lemma sample_pmm_free_nonempty: "free_frames sample_pmm \<noteq> {}"
  using sample_pmm_facts(3) by auto

text \<open>
  C1. Once the bitmaps of well-formed, separated regions are set up, the allocator's invariant
  holds and exactly the pages that hold no bitmap are free; no page is in use.
\<close>

theorem pmm_init_regions_correct:
  assumes "regions_ok (active_regions s)"
  shows "pmm_inv (pmm_init_regions s) \<and> free_frames (pmm_init_regions s) = client_frames (active_regions s)
    \<and> used_frames (pmm_init_regions s) = {}"
proof -
  have inv: "pmm_inv (pmm_init_regions s)" by (rule pmm_init_regions_inv [OF assms])
  have ar: "active_regions (pmm_init_regions s) = active_regions s" by (simp add: pmm_init_regions_def)
  have free: "free_frames (pmm_init_regions s) = client_frames (active_regions s)"
    unfolding pmm_init_regions_free [OF assms] client_frames_def ..
  with frames_partition [OF inv] used_free_frames_disjoint [OF inv] ar have "used_frames (pmm_init_regions s) = {}"
    by auto
  with inv free show ?thesis by blast
qed

theorem pmm_init_regions_correct_witness:
  "regions_ok (active_regions sample_boot) \<and> pmm_inv (pmm_init_regions sample_boot)
   \<and> used_frames (pmm_init_regions sample_boot) = {}"
  using pmm_init_regions_correct [of sample_boot] sample_regions_ok by (simp add: active_sample_boot)

text \<open>
  C2. With the invariant and a free page, \<open>pmm_alloc\<close> returns a page-aligned, non-null, zero-filled
  frame that was free, marks exactly this frame as used, keeps the invariant and changes no byte
  outside the frame and the bitmaps.
\<close>

theorem pmm_alloc_correct:
  assumes "pmm_inv s" and "free_frames s \<noteq> {}"
  shows "case pmm_alloc s of (a, s') \<Rightarrow>
    a \<in> free_frames s \<and> a \<noteq> 0 \<and> aligned a \<and> pmm_inv s'
    \<and> free_frames s' = free_frames s - {a} \<and> used_frames s' = insert a (used_frames s)
    \<and> (\<forall>x. x \<in> rng (P_TO_V a) 4096 \<longrightarrow> mem s' x = 0)
    \<and> (\<forall>x. x \<notin> rng (P_TO_V a) 4096 \<longrightarrow> x \<notin> bitmaps (active_regions s) \<longrightarrow> mem s' x = mem s x)"
proof (cases "pmm_alloc s")
  case (Pair a s')
  show ?thesis unfolding Pair prod.case using pmm_alloc_spec [OF assms Pair] by blast
qed

theorem pmm_alloc_correct_witness:
  "pmm_inv sample_pmm \<and> free_frames sample_pmm \<noteq> {} \<and>
   (case pmm_alloc sample_pmm of (a, s') \<Rightarrow> a \<in> free_frames sample_pmm \<and> used_frames s' = insert a (used_frames sample_pmm))"
  using pmm_alloc_correct [OF sample_pmm_facts(1) sample_pmm_free_nonempty]
  by (auto simp: sample_pmm_facts sample_pmm_free_nonempty)

text \<open>
  C3. When every page is taken, \<open>pmm_alloc\<close> returns the null address, and fills physical page 0
  with zeros all the same.
\<close>

theorem pmm_alloc_exhausted:
  assumes "pmm_inv s" and "free_frames s = {}"
  shows "pmm_alloc s = (0, s\<lparr>mem := \<lambda>x. if x \<in> rng (P_TO_V 0) 4096 then 0 else mem s x\<rparr>)"
  using pmm_alloc_empty [OF assms] by (simp add: memset_eq word_less_nat_alt)

definition sample_full :: pmm_state where
  "sample_full = \<lparr>mem = (\<lambda>_. 0), n_regions = 0, regions = []\<rparr>"

theorem pmm_alloc_exhausted_witness:
  "pmm_inv sample_full \<and> free_frames sample_full = {} \<and> fst (pmm_alloc sample_full) = 0"
proof -
  have *: "pmm_inv sample_full" "free_frames sample_full = {}"
    by (simp_all add: pmm_inv_def regions_ok_def bitmaps_reserved_def active_regions_def sample_full_def
        free_frames_def free_in_def)
  with pmm_alloc_exhausted [OF *] show ?thesis by simp
qed

text \<open>
  C4. Freeing a frame in use never panics: it makes exactly this frame free again, keeps the
  invariant and changes no byte outside the bitmaps.
\<close>

theorem pmm_free_correct:
  assumes "pmm_inv s" and "a \<in> used_frames s"
  shows "\<exists>s'. pmm_free a s = Inr s' \<and> pmm_inv s' \<and> free_frames s' = insert a (free_frames s)
    \<and> used_frames s' = used_frames s - {a} \<and> (\<forall>x. x \<notin> bitmaps (active_regions s) \<longrightarrow> mem s' x = mem s x)"
  using pmm_free_spec [OF assms] by blast

theorem pmm_free_correct_witness:
  "\<exists>a s'. a \<in> used_frames (snd (pmm_alloc sample_pmm)) \<and> pmm_free a (snd (pmm_alloc sample_pmm)) = Inr s'
    \<and> pmm_inv s'"
proof -
  obtain a s1 where a: "pmm_alloc sample_pmm = (a, s1)" by (cases "pmm_alloc sample_pmm")
  note al = pmm_alloc_spec [OF sample_pmm_facts(1) sample_pmm_free_nonempty a]
  have "a \<in> used_frames s1" using al(6) by simp
  with pmm_free_correct [OF al(4) this] show ?thesis unfolding a snd_conv by blast
qed





text \<open>
  The excluded case happens: a region that contains the kernel image strictly is taken over
  whole, kernel pages included.
\<close>

lemma pmm_set_mmap_keeps_containing_region:
  assumes "start < ks" and "ke \<le> end'"
  shows "poke_hole ks ke start end' = Some (start, end')"
  by (rule poke_hole_contained [OF assms])

lemma pmm_set_mmap_keeps_containing_region_witness:
  "poke_hole 0x200000 0x300000 0x100000 0x800000 = Some (0x100000, 0x800000)"
  by (rule pmm_set_mmap_keeps_containing_region) simp_all

text \<open>
  Freeing physical page 0 on a machine whose first region starts at address 0 releases the page
  that holds the region's own bitmap: the allocator's invariant is lost.
\<close>

lemma pmm_free_page_zero_breaks_inv:
  assumes "pmm_inv s" and "active_regions s = [r]" and "region_start r = 0" and "0 < region_pages r"
  shows "\<exists>s'. pmm_free 0 s = Inr s' \<and> \<not> pmm_inv s'"
proof -
  let ?m = "region_unset_bit (mem s) r 0"
  have call: "pmm_free 0 s = Inr (s\<lparr>mem := ?m\<rparr>)"
    using assms(2,3) by (simp add: pmm_free_def free_in_region_def page_off_def)
  have "0 < bitmap_pages r" using assms(4) by (intro bitmap_pages_pos) (simp add: word_less_nat_alt)
  moreover have "\<not> region_get_bit ?m r 0" by (simp add: get_unset_bit)
  ultimately have "\<not> pmm_inv (s\<lparr>mem := ?m\<rparr>)"
    using assms(2) by (auto simp: pmm_inv_def bitmaps_reserved_def intro!: exI [of _ 0])
  with call show ?thesis by blast
qed

definition zero_region :: mmap_region where
  "zero_region = \<lparr>region_start = 0, region_pages = 8\<rparr>"

lemma pmm_free_page_zero_breaks_inv_witness:
  "\<exists>s'. pmm_free 0 (pmm_init_regions \<lparr>mem = (\<lambda>_. 0), n_regions = 1, regions = [zero_region]\<rparr>) = Inr s' \<and> \<not> pmm_inv s'"
proof (rule pmm_free_page_zero_breaks_inv)
  let ?s = "\<lparr>mem = (\<lambda>_. 0), n_regions = 1, regions = [zero_region]\<rparr>"
  have "regions_ok (active_regions ?s)"
    by (simp add: active_regions_def regions_ok_def region_ok_def zero_region_def region_end_def)
  then show "pmm_inv (pmm_init_regions ?s)" by (rule pmm_init_regions_inv)
  show "active_regions (pmm_init_regions ?s) = [zero_region]" by (simp add: pmm_init_regions_def active_regions_def)
qed (simp_all add: zero_region_def)

end
