(* ===== verification/Paging.thy ===== *)
theory Paging
  imports Pmm "HOL-Library.Sublist"
begin

text \<open>
  The four-level page tables of \<^verbatim>\<open>src/src/mm/vmm.c\<close> (lines 11 to 186): index extraction, entry
  accesses through the direct map, mapping, unmapping and looking up one page. A \<^verbatim>\<open>struct mm\<close> is
  passed by value and returned updated; the tables themselves live in the byte memory, in frames
  taken from the page-frame allocator.

  The second half relates the tables to what they mean: a partial map from table paths to frames
  (\<open>walk\<close>), the invariant that the tables of an address space form a tree of distinct allocated
  frames (\<open>pt_inv\<close>), and the entry the tables hold for a virtual address (\<open>pt_lookup\<close>).
\<close>

section \<open>Operations\<close>

definition P4_NDX :: "u64 \<Rightarrow> u64" where "P4_NDX x = drop_bit 39 x AND 0x1FF"
definition P3_NDX :: "u64 \<Rightarrow> u64" where "P3_NDX x = drop_bit 30 x AND 0x1FF"
definition P2_NDX :: "u64 \<Rightarrow> u64" where "P2_NDX x = drop_bit 21 x AND 0x1FF"
definition P1_NDX :: "u64 \<Rightarrow> u64" where "P1_NDX x = drop_bit 12 x AND 0x1FF"

definition PAGE_PRESENT :: u64 where "PAGE_PRESENT = push_bit 0 1"
definition PAGE_WRITE :: u64 where "PAGE_WRITE = push_bit 1 1"
definition PAGE_USER :: u64 where "PAGE_USER = push_bit 2 1"

definition PAGE_PROT_READ :: u64 where "PAGE_PROT_READ = push_bit 0 1"
definition PAGE_PROT_WRITE :: u64 where "PAGE_PROT_WRITE = push_bit 1 1"

text \<open>
  \<^verbatim>\<open>struct mm\<close>: the physical address of the top-level table, and the list of areas, each a pair
  of the address of its \<^verbatim>\<open>struct vm_area_li\<close> and of its \<^verbatim>\<open>struct vm_area\<close>.
\<close>

record mm =
  p4 :: u64
  vm_areas :: "(u64 \<times> u64) list"

definition p4_get_entry :: "memory \<Rightarrow> mm \<Rightarrow> u64 \<Rightarrow> u64" where
  "p4_get_entry m mm i = ld64 m (P_TO_V (p4 mm) + 8 * i)"

definition p3_get_entry :: "memory \<Rightarrow> mm \<Rightarrow> u64 \<Rightarrow> u64 \<Rightarrow> u64" where
  "p3_get_entry m mm p4_i i = ld64 m (P_TO_V (page_base (p4_get_entry m mm p4_i)) + 8 * i)"

definition p2_get_entry :: "memory \<Rightarrow> mm \<Rightarrow> u64 \<Rightarrow> u64 \<Rightarrow> u64 \<Rightarrow> u64" where
  "p2_get_entry m mm p4_i p3_i i =
     ld64 m (P_TO_V (page_base (p3_get_entry m mm p4_i p3_i)) + 8 * i)"

definition p1_get_entry :: "memory \<Rightarrow> mm \<Rightarrow> u64 \<Rightarrow> u64 \<Rightarrow> u64 \<Rightarrow> u64 \<Rightarrow> u64" where
  "p1_get_entry m mm p4_i p3_i p2_i i =
     ld64 m (P_TO_V (page_base (p2_get_entry m mm p4_i p3_i p2_i)) + 8 * i)"

definition p4_set_entry :: "memory \<Rightarrow> mm \<Rightarrow> u64 \<Rightarrow> u64 \<Rightarrow> memory" where
  "p4_set_entry m mm i val = st64 m (P_TO_V (p4 mm) + 8 * i) val"

definition p3_set_entry :: "memory \<Rightarrow> mm \<Rightarrow> u64 \<Rightarrow> u64 \<Rightarrow> u64 \<Rightarrow> memory" where
  "p3_set_entry m mm p4_i i val =
     st64 m (P_TO_V (page_base (p4_get_entry m mm p4_i)) + 8 * i) val"

definition p2_set_entry :: "memory \<Rightarrow> mm \<Rightarrow> u64 \<Rightarrow> u64 \<Rightarrow> u64 \<Rightarrow> u64 \<Rightarrow> memory" where
  "p2_set_entry m mm p4_i p3_i i val =
     st64 m (P_TO_V (page_base (p3_get_entry m mm p4_i p3_i)) + 8 * i) val"

definition p1_set_entry :: "memory \<Rightarrow> mm \<Rightarrow> u64 \<Rightarrow> u64 \<Rightarrow> u64 \<Rightarrow> u64 \<Rightarrow> u64 \<Rightarrow> memory" where
  "p1_set_entry m mm p4_i p3_i p2_i i val =
     st64 m (P_TO_V (page_base (p2_get_entry m mm p4_i p3_i p2_i)) + 8 * i) val"

definition vmm_get_phys :: "memory \<Rightarrow> mm \<Rightarrow> u64 \<Rightarrow> u64" where
  "vmm_get_phys m mm virt =
     page_base (p1_get_entry m mm (P4_NDX virt) (P3_NDX virt) (P2_NDX virt) (P1_NDX virt))"

definition vmm_map_page ::
    "mm \<Rightarrow> u64 \<Rightarrow> u64 \<Rightarrow> u64 \<Rightarrow> 'a pmm_state_scheme \<Rightarrow> mm \<times> 'a pmm_state_scheme" where
  "vmm_map_page mm virt phys flags s =
     (let p4_i = P4_NDX virt; p3_i = P3_NDX virt; p2_i = P2_NDX virt; p1_i = P1_NDX virt;
          (mm, s) = (if p4 mm = 0 then (case pmm_alloc s of (a, s) \<Rightarrow> (mm\<lparr>p4 := a\<rparr>, s)) else (mm, s));
          s = (if p4_get_entry (mem s) mm p4_i = 0
               then (case pmm_alloc s of (new_p3, s) \<Rightarrow>
                       s\<lparr>mem := p4_set_entry (mem s) mm p4_i (new_p3 OR flags)\<rparr>)
               else s);
          s = (if p3_get_entry (mem s) mm p4_i p3_i = 0
               then (case pmm_alloc s of (new_p2, s) \<Rightarrow>
                       s\<lparr>mem := p3_set_entry (mem s) mm p4_i p3_i (new_p2 OR flags)\<rparr>)
               else s);
          s = (if p2_get_entry (mem s) mm p4_i p3_i p2_i = 0
               then (case pmm_alloc s of (new_p1, s) \<Rightarrow>
                       s\<lparr>mem := p2_set_entry (mem s) mm p4_i p3_i p2_i (new_p1 OR flags)\<rparr>)
               else s)
      in (mm, s\<lparr>mem := p1_set_entry (mem s) mm p4_i p3_i p2_i p1_i (phys OR flags)\<rparr>))"

text \<open>\<^verbatim>\<open>for (i = 0; i < 512; i++) if (entry(i) != 0) return;\<close> goes on only when all are zero.\<close>

definition all_512_zero :: "(u64 \<Rightarrow> u64) \<Rightarrow> bool" where
  "all_512_zero get \<longleftrightarrow> list_all (\<lambda>i. get (of_nat i) = 0) [0..<512]"

definition vmm_unmap_page :: "mm \<Rightarrow> u64 \<Rightarrow> 'a pmm_state_scheme \<Rightarrow> (mm \<times> 'a pmm_state_scheme) res" where
  "vmm_unmap_page mm virt s =
     (let p4_i = P4_NDX virt; p3_i = P3_NDX virt; p2_i = P2_NDX virt; p1_i = P1_NDX virt;
          s = s\<lparr>mem := p1_set_entry (mem s) mm p4_i p3_i p2_i p1_i 0\<rparr>
      in if \<not> all_512_zero (p1_get_entry (mem s) mm p4_i p3_i p2_i) then Inr (mm, s)
      else rbind (pmm_free (page_base (p2_get_entry (mem s) mm p4_i p3_i p2_i)) s) (\<lambda>s.
        let s = s\<lparr>mem := p2_set_entry (mem s) mm p4_i p3_i p2_i 0\<rparr>
        in if \<not> all_512_zero (p2_get_entry (mem s) mm p4_i p3_i) then Inr (mm, s)
        else rbind (pmm_free (page_base (p3_get_entry (mem s) mm p4_i p3_i)) s) (\<lambda>s.
          let s = s\<lparr>mem := p3_set_entry (mem s) mm p4_i p3_i 0\<rparr>
          in if \<not> all_512_zero (p3_get_entry (mem s) mm p4_i) then Inr (mm, s)
          else rbind (pmm_free (page_base (p4_get_entry (mem s) mm p4_i)) s) (\<lambda>s.
            let s = s\<lparr>mem := p4_set_entry (mem s) mm p4_i 0\<rparr>
            in if \<not> all_512_zero (p4_get_entry (mem s) mm) then Inr (mm, s)
            else rbind (pmm_free (p4 mm) s) (\<lambda>s. Inr (mm\<lparr>p4 := 0\<rparr>, s))))))"

definition prot_to_x86_prot :: "u64 \<Rightarrow> u64" where
  "prot_to_x86_prot prot = (if prot AND PAGE_PROT_WRITE \<noteq> 0 then 0 OR PAGE_WRITE else 0)"

section \<open>Indices\<close>

lemma NDX_bound:
  "P4_NDX x < 512" "P3_NDX x < 512" "P2_NDX x < 512" "P1_NDX x < 512"
proof -
  have "y AND 0x1FF < 512" for y :: u64
  proof -
    have "y AND 0x1FF \<le> 0x1FF" by (rule word_and_le1)
    also have "(0x1FF :: u64) < 512" by simp
    finally show ?thesis .
  qed
  then show "P4_NDX x < 512" "P3_NDX x < 512" "P2_NDX x < 512" "P1_NDX x < 512"
    by (simp_all only: P4_NDX_def P3_NDX_def P2_NDX_def P1_NDX_def)
qed

lemma unat_NDX:
  "unat (P4_NDX x) = unat x div 2 ^ 39 mod 512" "unat (P3_NDX x) = unat x div 2 ^ 30 mod 512"
  "unat (P2_NDX x) = unat x div 2 ^ 21 mod 512" "unat (P1_NDX x) = unat x div 2 ^ 12 mod 512"
proof -
  have m: "unat (y AND 0x1FF) = unat y mod 512" for y :: u64
  proof -
    have "(0x1FF :: u64) = mask 9" by (simp add: mask_eq_exp_minus_1)
    then have "y AND 0x1FF = take_bit 9 y" by (simp only: take_bit_eq_mask)
    moreover have "unat (take_bit 9 y) = take_bit 9 (unat y)" by (simp only: unsigned_take_bit_eq)
    ultimately show ?thesis by (simp add: take_bit_eq_mod)
  qed
  have d: "unat (drop_bit n x) = unat x div 2 ^ n" for n
    by (simp only: unsigned_drop_bit_eq) (simp add: drop_bit_eq_div take_bit_nat_eq_self)
  show "unat (P4_NDX x) = unat x div 2 ^ 39 mod 512" "unat (P3_NDX x) = unat x div 2 ^ 30 mod 512"
    "unat (P2_NDX x) = unat x div 2 ^ 21 mod 512" "unat (P1_NDX x) = unat x div 2 ^ 12 mod 512"
    by (simp_all only: P4_NDX_def P3_NDX_def P2_NDX_def P1_NDX_def m d)
qed

text \<open>The four indices are the bits 12 to 47 of the address: they determine the page.\<close>

definition page_no :: "u64 \<Rightarrow> nat" where
  "page_no v = unat v div 2 ^ 12 mod 2 ^ 36"

lemma page_no_NDX:
  "page_no v = ((unat (P4_NDX v) * 512 + unat (P3_NDX v)) * 512 + unat (P2_NDX v)) * 512
     + unat (P1_NDX v)"
proof -
  define n where "n = unat v div 2 ^ 12"
  have d: "unat v div 2 ^ 21 = n div 512" "unat v div 2 ^ 30 = n div 512 div 512"
    "unat v div 2 ^ 39 = n div 512 div 512 div 512"
    by (simp_all add: n_def div_mult2_eq [symmetric])
  have "n mod 2 ^ 36 = n mod (512 * (512 * (512 * 512)))" by simp
  also have "\<dots> = 512 * (512 * (512 * (n div 512 div 512 div 512 mod 512)
      + n div 512 div 512 mod 512) + n div 512 mod 512) + n mod 512"
    by (simp only: mod_mult2_eq div_mult2_eq)
  finally show ?thesis
    by (simp only: page_no_def unat_NDX d n_def [symmetric]) simp
qed

lemma radix_512:
  fixes a b c d :: nat
  assumes "b < 512" and "d < 512"
  shows "a * 512 + b = c * 512 + d \<longleftrightarrow> a = c \<and> b = d"
proof
  assume eq: "a * 512 + b = c * 512 + d"
  have "(a * 512 + b) div 512 = a" "(c * 512 + d) div 512 = c" using assms by simp_all
  then have "a = c" using eq by simp
  with eq show "a = c \<and> b = d" by simp
qed simp

lemma NDX_eq_iff:
  "P4_NDX v = P4_NDX w \<and> P3_NDX v = P3_NDX w \<and> P2_NDX v = P2_NDX w \<and> P1_NDX v = P1_NDX w
   \<longleftrightarrow> page_no v = page_no w"
proof -
  have b: "unat (P3_NDX x) < 512" "unat (P2_NDX x) < 512" "unat (P1_NDX x) < 512" for x
    by (simp_all add: unat_NDX)
  show ?thesis
    by (simp only: page_no_NDX radix_512 b word_unat_eq_iff) simp
qed

section \<open>Table entries in memory\<close>

text \<open>Entry \<open>i\<close> of the table in frame \<open>t\<close>, as the kernel reads it through the direct map.\<close>

definition entry :: "memory \<Rightarrow> u64 \<Rightarrow> u64 \<Rightarrow> u64" where
  "entry m t i = ld64 m (P_TO_V t + 8 * i)"

lemma unat_8_times:
  assumes "i < (512 :: u64)"
  shows "unat (8 * i) = 8 * unat i" and "unat (8 * i) + 8 \<le> 4096"
proof -
  have i: "unat i < 512" using assms by (simp add: word_less_nat_alt)
  then show "unat (8 * i) = 8 * unat i" by (subst unat_mult_nowrap) simp_all
  with i show "unat (8 * i) + 8 \<le> 4096" by simp
qed

lemma entry_rng_nat:
  assumes "aligned t" and "i < 512"
  shows "unat (t + 8 * i) = unat t + 8 * unat i" and "unat t + 8 * unat i + 8 \<le> unat t + 4096"
    and "unat t + 4096 \<le> 2 ^ 64"
proof -
  obtain k where k: "unat t = 4096 * k" using assms(1) by (auto simp: aligned_def)
  have "unat t < 2 ^ 64" using unsigned_less [of t] by simp
  with k show top: "unat t + 4096 \<le> 2 ^ 64" by simp
  show le: "unat t + 8 * unat i + 8 \<le> unat t + 4096" using unat_8_times [OF assms(2)] by simp
  show "unat (t + 8 * i) = unat t + 8 * unat i"
    using top le unat_8_times(1) [OF assms(2)] by (subst unat_add_nowrap) simp_all
qed

lemma entry_rng_in_frame:
  assumes "aligned t" and "i < 512"
  shows "rng (P_TO_V t + 8 * i) 8 \<subseteq> rng (P_TO_V t) 4096"
proof -
  have "rng (t + 8 * i) 8 \<subseteq> rng t 4096"
    using entry_rng_nat [OF assms] by (intro rng_subset_nat) simp_all
  then have "P_TO_V x \<in> rng (P_TO_V (t + 8 * i)) 8 \<Longrightarrow> P_TO_V x \<in> rng (P_TO_V t) 4096" for x
    unfolding P_TO_V_in_rng by blast
  then show ?thesis unfolding P_TO_V_add using P_TO_V_surj by (metis subsetI)
qed

lemma entry_rng_disjoint:
  assumes "aligned t" "aligned t'" "i < 512" "i' < 512" "\<not> (t = t' \<and> i = i')"
  shows "rng (P_TO_V t + 8 * i) 8 \<inter> rng (P_TO_V t' + 8 * i') 8 = {}"
proof (cases "t = t'")
  case False
  then have "rng (P_TO_V t) 4096 \<inter> rng (P_TO_V t') 4096 = {}"
    unfolding rng_P_TO_V_disjoint by (rule aligned_frames_disjoint [OF assms(1,2)])
  with entry_rng_in_frame [OF assms(1,3)] entry_rng_in_frame [OF assms(2,4)] show ?thesis by blast
next
  case True
  with assms(5) have "unat i \<noteq> unat i'" by (simp add: word_unat_eq_iff)
  then consider "unat i < unat i'" | "unat i' < unat i" by linarith
  then have "rng (t + 8 * i) 8 \<inter> rng (t + 8 * i') 8 = {}"
  proof cases
    case 1
    with entry_rng_nat [OF assms(1,3)] entry_rng_nat [OF assms(1,4)] show ?thesis
      by (intro rng_disjoint_nat) simp_all
  next
    case 2
    with entry_rng_nat [OF assms(1,3)] entry_rng_nat [OF assms(1,4)]
    have "rng (t + 8 * i') 8 \<inter> rng (t + 8 * i) 8 = {}" by (intro rng_disjoint_nat) simp_all
    then show ?thesis by blast
  qed
  then show ?thesis unfolding True P_TO_V_add rng_P_TO_V_disjoint .
qed

lemma entry_store:
  assumes "aligned t" "aligned t'" "i < 512" "i' < 512"
  shows "entry (st64 m (P_TO_V t + 8 * i) v) t' i' = (if t' = t \<and> i' = i then v else entry m t' i')"
proof (cases "t' = t \<and> i' = i")
  case True
  then show ?thesis by (simp add: entry_def ld64_st64)
next
  case False
  then have "rng (P_TO_V t + 8 * i) 8 \<inter> rng (P_TO_V t' + 8 * i') 8 = {}"
    using assms by (intro entry_rng_disjoint) auto
  with False show ?thesis unfolding entry_def by (simp only: ld64_st64_disjoint if_False)
qed

lemma entry_cong:
  assumes "aligned t" "i < 512" and "\<And>x. x \<in> rng (P_TO_V t) 4096 \<Longrightarrow> m x = m' x"
  shows "entry m t i = entry m' t i"
  unfolding entry_def using assms entry_rng_in_frame by (intro ld64_cong) blast

lemma entry_zeroed:
  assumes "aligned t" "i < 512" and "\<And>x. x \<in> rng (P_TO_V t) 4096 \<Longrightarrow> m x = 0"
  shows "entry m t i = 0"
  unfolding entry_def using assms entry_rng_in_frame by (intro ld64_zero) blast

section \<open>Walking a table tree\<close>

text \<open>
  \<open>walk E root path\<close> follows the entries \<open>E\<close> from table to table; a zero entry has no table.
  \<open>path\<close> is a list of at most three indices.
\<close>

fun walk :: "(u64 \<Rightarrow> u64 \<Rightarrow> u64) \<Rightarrow> u64 \<Rightarrow> u64 list \<Rightarrow> u64 option" where
  "walk E t [] = Some t"
| "walk E t (i # is) = (if E t i = 0 then None else walk E (page_base (E t i)) is)"

lemma walk_snoc:
  "walk E t (is @ [j]) =
    (case walk E t is of None \<Rightarrow> None
     | Some t' \<Rightarrow> if E t' j = 0 then None else Some (page_base (E t' j)))"
  by (induction "is" arbitrary: t) auto

lemma walk_prefix_None: "walk E t \<pi> = None \<Longrightarrow> prefix \<pi> \<rho> \<Longrightarrow> walk E t \<rho> = None"
  by (induction \<pi> arbitrary: t \<rho>) (auto simp: prefix_def)

definition path_ok :: "u64 list \<Rightarrow> bool" where
  "path_ok \<pi> \<longleftrightarrow> length \<pi> \<le> 3 \<and> (\<forall>i \<in> set \<pi>. i < 512)"

lemma path_ok_snoc: "path_ok (\<pi> @ [j]) \<longleftrightarrow> path_ok \<pi> \<and> length \<pi> < 3 \<and> j < 512"
  by (auto simp: path_ok_def)

lemma path_ok_Nil [simp]: "path_ok []"
  by (simp add: path_ok_def)

text \<open>Distinct paths lead to distinct tables, and every table is one of the frames \<open>F\<close>.\<close>

definition tree :: "(u64 \<Rightarrow> u64 \<Rightarrow> u64) \<Rightarrow> u64 \<Rightarrow> u64 set \<Rightarrow> bool" where
  "tree E root F \<longleftrightarrow>
     (\<forall>\<pi> t. path_ok \<pi> \<longrightarrow> walk E root \<pi> = Some t \<longrightarrow> t \<in> F) \<and>
     (\<forall>\<pi> \<pi>' t. path_ok \<pi> \<longrightarrow> path_ok \<pi>' \<longrightarrow> walk E root \<pi> = Some t \<longrightarrow> walk E root \<pi>' = Some t
        \<longrightarrow> \<pi> = \<pi>')"

lemma tree_mem: "tree E root F \<Longrightarrow> path_ok \<pi> \<Longrightarrow> walk E root \<pi> = Some t \<Longrightarrow> t \<in> F"
  by (simp add: tree_def)

lemma tree_inj:
  "tree E root F \<Longrightarrow> path_ok \<pi> \<Longrightarrow> path_ok \<pi>' \<Longrightarrow> walk E root \<pi> = Some t \<Longrightarrow>
   walk E root \<pi>' = Some t \<Longrightarrow> \<pi> = \<pi>'"
  by (simp add: tree_def)

text \<open>The walk depends on the entries of the tree's own tables only.\<close>

lemma walk_cong:
  assumes "tree E root F" and "\<And>t j. t \<in> F \<Longrightarrow> j < 512 \<Longrightarrow> E' t j = E t j"
  shows "path_ok \<pi> \<Longrightarrow> walk E' root \<pi> = walk E root \<pi>"
proof (induction \<pi> rule: rev_induct)
  case (snoc j \<pi>)
  then have ok: "path_ok \<pi>" "j < 512" by (simp_all add: path_ok_snoc)
  with snoc.IH assms(2) tree_mem [OF assms(1) ok(1)] show ?case
    by (simp add: walk_snoc split: option.split)
qed simp

lemma tree_cong:
  assumes "tree E root F" and "\<And>t j. t \<in> F \<Longrightarrow> j < 512 \<Longrightarrow> E' t j = E t j"
  shows "tree E' root F"
  using assms(1) walk_cong [OF assms] unfolding tree_def by metis

lemma tree_mono: "tree E root F \<Longrightarrow> F \<subseteq> G \<Longrightarrow> tree E root G"
  unfolding tree_def by blast

text \<open>A new empty table hung into a zero entry adds one path and leaves the others alone.\<close>

lemma walk_link:
  assumes tree: "tree E root F" and t0: "path_ok (\<pi>0 @ [i0])" "walk E root \<pi>0 = Some t0"
    and e: "E t0 i0 = 0" "e \<noteq> 0" "page_base e = n"
    and n: "n \<notin> F" "\<And>j. j < 512 \<Longrightarrow> E n j = 0"
    and E': "\<And>t j. t \<in> insert n F \<Longrightarrow> j < 512 \<Longrightarrow> E' t j = (if t = t0 \<and> j = i0 then e else E t j)"
  shows "path_ok \<pi> \<Longrightarrow> walk E' root \<pi> =
    (if prefix (\<pi>0 @ [i0]) \<pi> then (if \<pi> = \<pi>0 @ [i0] then Some n else None) else walk E root \<pi>)"
proof (induction \<pi> rule: rev_induct)
  case Nil
  then show ?case by simp
next
  case (snoc j \<pi>)
  then have ok: "path_ok \<pi>" "j < 512" and ok0: "path_ok \<pi>0" "i0 < 512"
    using t0(1) by (simp_all add: path_ok_snoc)
  have t0F: "t0 \<in> F" by (rule tree_mem [OF tree ok0(1) t0(2)])
  show ?case
  proof (cases "prefix (\<pi>0 @ [i0]) \<pi>")
    case True
    have "E' n j = 0" using E' [of n j] ok(2) n t0F by auto
    with True snoc.IH [OF ok(1)] show ?thesis by (auto simp: walk_snoc)
  next
    case False
    with snoc.IH [OF ok(1)] have same: "walk E' root \<pi> = walk E root \<pi>" by simp
    have pre: "prefix (\<pi>0 @ [i0]) (\<pi> @ [j]) \<longleftrightarrow> \<pi> = \<pi>0 \<and> j = i0" using False by auto
    show ?thesis
    proof (cases "walk E root \<pi>")
      case None
      with same pre t0(2) show ?thesis by (auto simp: walk_snoc)
    next
      case (Some t)
      then have "t \<in> F" and "t = t0 \<longleftrightarrow> \<pi> = \<pi>0"
        using tree_mem [OF tree ok(1)] tree_inj [OF tree ok(1) ok0(1)] t0(2) by auto
      with same pre Some E' [of t j] ok(2) e show ?thesis by (auto simp: walk_snoc)
    qed
  qed
qed

lemma tree_link:
  assumes tree: "tree E root F" and t0: "path_ok (\<pi>0 @ [i0])" "walk E root \<pi>0 = Some t0"
    and e: "E t0 i0 = 0" "e \<noteq> 0" "page_base e = n"
    and n: "n \<notin> F" "\<And>j. j < 512 \<Longrightarrow> E n j = 0"
    and E': "\<And>t j. t \<in> insert n F \<Longrightarrow> j < 512 \<Longrightarrow> E' t j = (if t = t0 \<and> j = i0 then e else E t j)"
  shows "tree E' root (insert n F)"
proof -
  have walk: "walk E' root \<pi> = (if prefix (\<pi>0 @ [i0]) \<pi>
      then (if \<pi> = \<pi>0 @ [i0] then Some n else None) else walk E root \<pi>)" if "path_ok \<pi>" for \<pi>
    by (rule walk_link [OF tree t0 e n(1) _ _ that]) (rule n(2) E'; assumption)+
  have cases: "(\<pi> = \<pi>0 @ [i0] \<and> t = n) \<or> (\<pi> \<noteq> \<pi>0 @ [i0] \<and> walk E root \<pi> = Some t \<and> t \<in> F)"
    if "path_ok \<pi>" "walk E' root \<pi> = Some t" for \<pi> t
    using that walk [OF that(1)] tree_mem [OF tree that(1)] by (auto split: if_splits)
  show ?thesis
    unfolding tree_def
  proof (intro conjI allI impI)
    fix \<pi> t assume "path_ok \<pi>" "walk E' root \<pi> = Some t"
    from cases [OF this] show "t \<in> insert n F" by auto
  next
    fix \<pi> \<pi>' t
    assume *: "path_ok \<pi>" "path_ok \<pi>'" "walk E' root \<pi> = Some t" "walk E' root \<pi>' = Some t"
    from cases [OF *(1,3)] cases [OF *(2,4)] n(1) tree_inj [OF tree *(1,2)]
    show "\<pi> = \<pi>'" by auto
  qed
qed

text \<open>Entries of a last-level table can change without any walk noticing.\<close>

lemma walk_leaf:
  assumes tree: "tree E root F" and t1: "path_ok \<pi>1" "length \<pi>1 = 3" "walk E root \<pi>1 = Some t1"
    and E': "\<And>t j. t \<in> F \<Longrightarrow> j < 512 \<Longrightarrow> t \<noteq> t1 \<Longrightarrow> E' t j = E t j"
  shows "path_ok \<pi> \<Longrightarrow> walk E' root \<pi> = walk E root \<pi>"
proof (induction \<pi> rule: rev_induct)
  case (snoc j \<pi>)
  then have ok: "path_ok \<pi>" "j < 512" "length \<pi> < 3" by (simp_all add: path_ok_snoc)
  show ?case
  proof (cases "walk E root \<pi>")
    case None
    with snoc.IH [OF ok(1)] show ?thesis by (simp add: walk_snoc)
  next
    case (Some t)
    have "t \<in> F" by (rule tree_mem [OF tree ok(1) Some])
    moreover have "t \<noteq> t1" using tree_inj [OF tree ok(1) t1(1) Some] t1(2,3) ok(3) by auto
    ultimately show ?thesis using Some snoc.IH [OF ok(1)] E' [of t j] ok(2) by (simp add: walk_snoc)
  qed
qed simp

lemma tree_leaf:
  assumes "tree E root F" "path_ok \<pi>1" "length \<pi>1 = 3" "walk E root \<pi>1 = Some t1"
    and "\<And>t j. t \<in> F \<Longrightarrow> j < 512 \<Longrightarrow> t \<noteq> t1 \<Longrightarrow> E' t j = E t j"
  shows "tree E' root F"
  using assms(1) walk_leaf [OF assms] unfolding tree_def by metis

text \<open>Cutting an empty table off removes its path only.\<close>

lemma walk_unlink:
  assumes tree: "tree E root F" and t0: "path_ok (\<pi>0 @ [i0])" "walk E root \<pi>0 = Some t0"
    and n: "walk E root (\<pi>0 @ [i0]) = Some n" "\<And>j. j < 512 \<Longrightarrow> E n j = 0"
    and E': "\<And>t j. t \<in> F - {n} \<Longrightarrow> j < 512 \<Longrightarrow> E' t j = (if t = t0 \<and> j = i0 then 0 else E t j)"
  shows "path_ok \<pi> \<Longrightarrow> walk E' root \<pi> = (if prefix (\<pi>0 @ [i0]) \<pi> then None else walk E root \<pi>)"
proof (induction \<pi> rule: rev_induct)
  case Nil
  then show ?case by simp
next
  case (snoc j \<pi>)
  then have ok: "path_ok \<pi>" "j < 512" and ok0: "path_ok \<pi>0" "i0 < 512"
    using t0(1) by (simp_all add: path_ok_snoc)
  show ?case
  proof (cases "prefix (\<pi>0 @ [i0]) \<pi>")
    case True
    with snoc.IH [OF ok(1)] show ?thesis by (simp add: walk_snoc)
  next
    case False
    with snoc.IH [OF ok(1)] have same: "walk E' root \<pi> = walk E root \<pi>" by simp
    have pre: "prefix (\<pi>0 @ [i0]) (\<pi> @ [j]) \<longleftrightarrow> \<pi> = \<pi>0 \<and> j = i0" using False by auto
    show ?thesis
    proof (cases "walk E root \<pi>")
      case None
      with same pre t0(2) show ?thesis by (auto simp: walk_snoc)
    next
      case (Some t)
      have "t \<noteq> n" using tree_inj [OF tree ok(1) t0(1) Some] n(1) False by auto
      moreover have "t \<in> F" and "t = t0 \<longleftrightarrow> \<pi> = \<pi>0"
        using Some tree_mem [OF tree ok(1)] tree_inj [OF tree ok(1) ok0(1)] t0(2) by auto
      ultimately show ?thesis using same pre Some E' [of t j] ok(2) by (auto simp: walk_snoc)
    qed
  qed
qed

lemma tree_unlink:
  assumes tree: "tree E root F" and t0: "path_ok (\<pi>0 @ [i0])" "walk E root \<pi>0 = Some t0"
    and n: "walk E root (\<pi>0 @ [i0]) = Some n" "\<And>j. j < 512 \<Longrightarrow> E n j = 0"
    and E': "\<And>t j. t \<in> F - {n} \<Longrightarrow> j < 512 \<Longrightarrow> E' t j = (if t = t0 \<and> j = i0 then 0 else E t j)"
  shows "tree E' root (F - {n})"
proof -
  have walk: "walk E' root \<pi> = (if prefix (\<pi>0 @ [i0]) \<pi> then None else walk E root \<pi>)"
    if "path_ok \<pi>" for \<pi>
    by (rule walk_unlink [OF tree t0 n(1) _ _ that]) (rule n(2) E'; assumption)+
  have cases: "walk E root \<pi> = Some t \<and> \<not> prefix (\<pi>0 @ [i0]) \<pi>"
    if "path_ok \<pi>" "walk E' root \<pi> = Some t" for \<pi> t
    using that walk [OF that(1)] by (auto split: if_splits)
  show ?thesis
    unfolding tree_def
  proof (intro conjI allI impI)
    fix \<pi> t assume *: "path_ok \<pi>" "walk E' root \<pi> = Some t"
    from cases [OF *] tree_mem [OF tree *(1)] tree_inj [OF tree *(1) t0(1)] n(1)
    show "t \<in> F - {n}" by auto
  next
    fix \<pi> \<pi>' t
    assume *: "path_ok \<pi>" "path_ok \<pi>'" "walk E' root \<pi> = Some t" "walk E' root \<pi>' = Some t"
    from cases [OF *(1,3)] cases [OF *(2,4)] tree_inj [OF tree *(1,2)]
    show "\<pi> = \<pi>'" by auto
  qed
qed


section \<open>The tables of an address space\<close>

text \<open>All tables are distinct frames handed out by the page-frame allocator.\<close>

definition pt_inv :: "'a pmm_state_scheme \<Rightarrow> u64 \<Rightarrow> bool" where
  "pt_inv s root \<longleftrightarrow> pmm_inv s \<and> tree (entry (mem s)) root (used_frames s)"

definition tables :: "memory \<Rightarrow> u64 \<Rightarrow> u64 set" where
  "tables m root = {t. \<exists>\<pi>. path_ok \<pi> \<and> walk (entry m) root \<pi> = Some t}"

text \<open>The last-level entry for a virtual address, 0 where there is no last-level table.\<close>

definition pt_lookup :: "memory \<Rightarrow> u64 \<Rightarrow> u64 \<Rightarrow> u64" where
  "pt_lookup m root v =
     (case walk (entry m) root [P4_NDX v, P3_NDX v, P2_NDX v] of None \<Rightarrow> 0
      | Some t \<Rightarrow> entry m t (P1_NDX v))"

text \<open>
  What an operation on one address space leaves alone: the allocated frames stay allocated, the
  ones that hold no table of it keep their contents, tables stay where they are, and memory that
  the frame allocator does not manage is untouched.
\<close>

definition pt_kept :: "u64 \<Rightarrow> 'a pmm_state_scheme \<Rightarrow> 'a pmm_state_scheme \<Rightarrow> bool" where
  "pt_kept root s s' \<longleftrightarrow>
     used_frames s \<subseteq> used_frames s' \<and>
     tables (mem s') root \<inter> used_frames s \<subseteq> tables (mem s) root \<and>
     (\<forall>x \<in> frame_bytes (used_frames s - tables (mem s) root). mem s' x = mem s x) \<and>
     active_regions s' = active_regions s \<and>
     (\<forall>x. x \<notin> phys_bytes (active_regions s) \<longrightarrow> mem s' x = mem s x)"

lemma path_ok_NDX [simp]:
  "path_ok [P4_NDX v]" "path_ok [P4_NDX v, P3_NDX v]" "path_ok [P4_NDX v, P3_NDX v, P2_NDX v]"
  by (simp_all add: path_ok_def NDX_bound)

lemma tablesI: "path_ok \<pi> \<Longrightarrow> walk (entry m) root \<pi> = Some t \<Longrightarrow> t \<in> tables m root"
  by (auto simp: tables_def)

lemma pt_inv_table:
  assumes "pt_inv s root" "path_ok \<pi>" "walk (entry (mem s)) root \<pi> = Some t"
  shows "t \<in> used_frames s" and "aligned t" and "t \<noteq> 0"
proof -
  show t: "t \<in> used_frames s" using assms tree_mem by (auto simp: pt_inv_def)
  then show "aligned t" "t \<noteq> 0" using assms(1) used_frame_props by (auto simp: pt_inv_def)
qed

lemma pt_kept_refl [simp]: "pt_kept root s s"
  by (simp add: pt_kept_def)

lemma frame_bytes_mono: "F \<subseteq> G \<Longrightarrow> frame_bytes F \<subseteq> frame_bytes G"
  by (auto simp: frame_bytes_def)

lemma pt_kept_trans:
  assumes "pt_kept root s s'" and "pt_kept root s' s''"
  shows "pt_kept root s s''"
proof -
  have "used_frames s - tables (mem s) root \<subseteq> used_frames s' - tables (mem s') root"
    using assms by (auto simp: pt_kept_def)
  then have "frame_bytes (used_frames s - tables (mem s) root)
      \<subseteq> frame_bytes (used_frames s' - tables (mem s') root)" by (rule frame_bytes_mono)
  with assms show ?thesis unfolding pt_kept_def by (auto simp: subset_iff)
qed

lemma alloc_entry:
  assumes inv: "pmm_inv s" and ne: "free_frames s \<noteq> {}" and call: "pmm_alloc s = (n, s1)"
  shows "t \<in> used_frames s \<Longrightarrow> j < 512 \<Longrightarrow> entry (mem s1) t j = entry (mem s) t j"
    and "j < 512 \<Longrightarrow> entry (mem s1) n j = 0"
proof -
  assume t: "t \<in> used_frames s" and j: "j < 512"
  show "entry (mem s1) t j = entry (mem s) t j"
    using used_frame_props [OF inv t] j pmm.alloc_keeps [OF inv ne call] in_frame_bytes [OF t]
    by (intro entry_cong) blast+
next
  assume "j < 512"
  then show "entry (mem s1) n j = 0"
    using pmm_alloc_spec(3,7) [OF inv ne call] by (intro entry_zeroed) blast+
qed

lemma other_frame_byte:
  assumes inv: "pmm_inv s" and t: "t \<in> used_frames s" and x: "x \<in> frame_bytes (used_frames s - {t})"
  shows "x \<notin> rng (P_TO_V t) 4096"
proof -
  obtain f where f: "f \<in> used_frames s" "f \<noteq> t" "x \<in> rng (P_TO_V f) 4096"
    using x by (auto simp: frame_bytes_def simp del: in_rng)
  have "rng (P_TO_V f) 4096 \<inter> rng (P_TO_V t) 4096 = {}"
    unfolding rng_P_TO_V_disjoint
    using used_frame_props [OF inv f(1)] used_frame_props [OF inv t] f(2)
    by (intro aligned_frames_disjoint) auto
  then show ?thesis using f(3) by blast
qed

lemma frame_bytes_outside:
  "t \<in> T \<Longrightarrow> x \<in> frame_bytes (F - T) \<Longrightarrow> x \<in> frame_bytes (F - {t})"
  by (auto simp: frame_bytes_def)

text \<open>A store to an entry of a table.\<close>

lemma table_store:
  fixes s :: "'a pmm_state_scheme" and e :: u64
  assumes inv: "pmm_inv s" and t: "t \<in> used_frames s" and i: "i < 512"
  defines "s' \<equiv> s\<lparr>mem := st64 (mem s) (P_TO_V t + 8 * i) e\<rparr>"
  shows "pmm_inv s'" and "free_frames s' = free_frames s" and "used_frames s' = used_frames s"
    and "\<And>f j. f \<in> used_frames s \<Longrightarrow> j < 512 \<Longrightarrow>
      entry (mem s') f j = (if f = t \<and> j = i then e else entry (mem s) f j)"
    and "\<And>x. x \<notin> rng (P_TO_V t) 4096 \<Longrightarrow> mem s' x = mem s x"
proof -
  have al: "aligned f" if "f \<in> used_frames s" for f using used_frame_props [OF inv that] by blast
  have sub: "rng (P_TO_V t + 8 * i) 8 \<subseteq> rng (P_TO_V t) 4096"
    by (rule entry_rng_in_frame [OF al [OF t] i])
  show "pmm_inv s'" and "free_frames s' = free_frames s" and "used_frames s' = used_frames s"
    unfolding s'_def by (rule pmm.store_owned [OF inv t sub])+
  show "entry (mem s') f j = (if f = t \<and> j = i then e else entry (mem s) f j)"
    if "f \<in> used_frames s" "j < 512" for f j
    using entry_store [OF al [OF t] al [OF that(1)] i that(2)] by (simp add: s'_def)
  show "mem s' x = mem s x" if "x \<notin> rng (P_TO_V t) 4096" for x
    using that sub by (auto simp: s'_def simp del: in_rng intro!: st64_other)
qed

text \<open>One level of the descent: a missing table is allocated and hung into its parent.\<close>

definition ensure_table :: "u64 \<Rightarrow> u64 \<Rightarrow> u64 \<Rightarrow> 'a pmm_state_scheme \<Rightarrow> 'a pmm_state_scheme" where
  "ensure_table t i flags s =
     (if entry (mem s) t i = 0
      then (case pmm_alloc s of (n, s) \<Rightarrow> s\<lparr>mem := st64 (mem s) (P_TO_V t + 8 * i) (n OR flags)\<rparr>)
      else s)"

lemma frame_or_flags:
  assumes "aligned n" "n \<noteq> 0" "unat flags < 4096"
  shows "page_base (n OR flags) = n" and "n OR flags \<noteq> 0"
proof -
  show "page_base (n OR flags) = n" by (rule page_base_or_flags [OF assms(1,3)])
  moreover have "page_base 0 = 0" by (simp add: page_base_aligned)
  ultimately show "n OR flags \<noteq> 0" using assms(2) by metis
qed

lemma pt_lookup_link:
  assumes walk: "\<And>\<pi>. path_ok \<pi> \<Longrightarrow> walk E' root \<pi> =
      (if prefix \<rho> \<pi> then (if \<pi> = \<rho> then Some n else None) else walk E root \<pi>)"
    and none: "walk E root \<rho> = None"
    and E: "\<And>\<pi> t j. path_ok \<pi> \<Longrightarrow> length \<pi> = 3 \<Longrightarrow> walk E root \<pi> = Some t \<Longrightarrow> j < 512 \<Longrightarrow> E' t j = E t j"
    and n: "\<And>j. j < 512 \<Longrightarrow> E' n j = 0"
    and ok: "path_ok \<pi>" "length \<pi> = 3" "j < 512"
  shows "(case walk E' root \<pi> of None \<Rightarrow> 0 | Some t \<Rightarrow> E' t j)
       = (case walk E root \<pi> of None \<Rightarrow> 0 | Some t \<Rightarrow> E t j)"
proof (cases "prefix \<rho> \<pi>")
  case True
  have "walk E root \<pi> = None" by (rule walk_prefix_None [OF none True])
  with True n [OF ok(3)] show ?thesis by (simp add: walk [OF ok(1)])
next
  case False
  then have "walk E' root \<pi> = walk E root \<pi>" by (simp add: walk [OF ok(1)])
  with E [OF ok(1,2) _ ok(3)] show ?thesis by (simp split: option.split)
qed

lemma ensure_table_present:
  "entry (mem s) t i \<noteq> 0 \<Longrightarrow> ensure_table t i flags s = s"
  by (simp add: ensure_table_def)

lemma ensure_table_new:
  assumes pt: "pt_inv s root" and ne: "free_frames s \<noteq> {}" and fl: "unat flags < 4096"
    and t: "path_ok (\<pi> @ [i])" "walk (entry (mem s)) root \<pi> = Some t" and e: "entry (mem s) t i = 0"
  obtains n where "n \<in> free_frames s"
    and "pmm_inv (ensure_table t i flags s)"
    and "free_frames (ensure_table t i flags s) = free_frames s - {n}"
    and "used_frames (ensure_table t i flags s) = insert n (used_frames s)"
    and "n OR flags \<noteq> 0" "page_base (n OR flags) = n" "n \<notin> used_frames s"
    and "\<And>f j. f \<in> insert n (used_frames s) \<Longrightarrow> j < 512 \<Longrightarrow> entry (mem (ensure_table t i flags s)) f j
          = (if f = t \<and> j = i then n OR flags else if f = n then 0 else entry (mem s) f j)"
    and "\<And>x. x \<in> frame_bytes (used_frames s - {t}) \<Longrightarrow> mem (ensure_table t i flags s) x = mem s x"
    and "active_regions (ensure_table t i flags s) = active_regions s"
    and "\<And>x. x \<notin> phys_bytes (active_regions s) \<Longrightarrow> mem (ensure_table t i flags s) x = mem s x"
proof -
  have inv: "pmm_inv s" using pt by (simp add: pt_inv_def)
  obtain n s1 where call: "pmm_alloc s = (n, s1)" by (cases "pmm_alloc s")
  note al = pmm_alloc_spec [OF inv ne call]
  have tu: "t \<in> used_frames s" and i: "i < 512"
    using pt_inv_table(1) [OF pt _ t(2)] t(1) by (simp_all add: path_ok_snoc)
  have t1: "t \<in> used_frames s1" using tu al(6) by simp
  have fresh: "n \<notin> used_frames s" by (rule pmm.alloc_fresh(1) [OF inv ne call])
  define s2 where "s2 = s1\<lparr>mem := st64 (mem s1) (P_TO_V t + 8 * i) (n OR flags)\<rparr>"
  have s2: "ensure_table t i flags s = s2" using e call by (simp add: ensure_table_def s2_def)
  note st = table_store [OF al(4) t1 i, where e = "n OR flags", folded s2_def]
  have ent: "entry (mem s2) f j
      = (if f = t \<and> j = i then n OR flags else if f = n then 0 else entry (mem s) f j)"
    if "f \<in> insert n (used_frames s)" "j < 512" for f j
    using st(4) [of f j] that al(6) alloc_entry [OF inv ne call] fresh tu by auto
  have mem: "mem s2 x = mem s x" if x: "x \<in> frame_bytes (used_frames s - {t})" for x
  proof -
    have "mem s2 x = mem s1 x" by (rule st(5) [OF other_frame_byte [OF inv tu x]])
    also have "\<dots> = mem s x"
      using x frame_bytes_mono [of "used_frames s - {t}" "used_frames s"]
      by (intro pmm.alloc_keeps [OF inv ne call]) blast
    finally show ?thesis .
  qed
  have ar: "active_regions s2 = active_regions s" using al(10) by (simp add: s2_def)
  have out: "mem s2 x = mem s x" if x: "x \<notin> phys_bytes (active_regions s)" for x
    using frame_in_phys_bytes [OF inv disjI1 [OF tu] x] frame_in_phys_bytes(1) [OF inv disjI2 [OF al(1)] x]
      st(5) [of x] al(8) [of x] by (simp del: in_rng)
  show thesis
    by (rule that [of n, unfolded s2])
      (use al st fresh ent ar out mem frame_or_flags [OF al(3,2) fl] in simp_all)
qed

text \<open>Growing an address space by tables that map nothing yet.\<close>

definition pt_grown :: "u64 \<Rightarrow> 'a pmm_state_scheme \<Rightarrow> 'a pmm_state_scheme \<Rightarrow> bool" where
  "pt_grown root s s' \<longleftrightarrow> pt_inv s' root \<and> pt_kept root s s'
     \<and> (\<forall>v. pt_lookup (mem s') root v = pt_lookup (mem s) root v)
     \<and> (\<forall>\<pi> t. path_ok \<pi> \<longrightarrow> walk (entry (mem s)) root \<pi> = Some t \<longrightarrow> walk (entry (mem s')) root \<pi> = Some t)"

lemma pt_grown_refl: "pt_inv s root \<Longrightarrow> pt_grown root s s"
  by (simp add: pt_grown_def)

lemma pt_grown_trans: "pt_grown root s s' \<Longrightarrow> pt_grown root s' s'' \<Longrightarrow> pt_grown root s s''"
  unfolding pt_grown_def using pt_kept_trans by auto

lemma ensure_table_absent:
  assumes pt: "pt_inv s root" and ne: "free_frames s \<noteq> {}" and fl: "unat flags < 4096"
    and t: "path_ok (\<pi> @ [i])" "walk (entry (mem s)) root \<pi> = Some t" and e: "entry (mem s) t i = 0"
  shows "pt_grown root s (ensure_table t i flags s)"
    and "card (free_frames s) = card (free_frames (ensure_table t i flags s)) + 1"
    and "entry (mem (ensure_table t i flags s)) t i \<noteq> 0"
    and "\<And>\<rho>. path_ok \<rho> \<Longrightarrow> \<rho> \<noteq> \<pi> @ [i] \<Longrightarrow> walk (entry (mem s)) root \<rho> = None \<Longrightarrow>
      walk (entry (mem (ensure_table t i flags s))) root \<rho> = None"
proof -
  define s' where "s' = ensure_table t i flags s"
  let ?E = "entry (mem s)" and ?E' = "entry (mem s')"
  obtain n where n: "n \<in> free_frames s" "pmm_inv s'" "free_frames s' = free_frames s - {n}"
      "used_frames s' = insert n (used_frames s)" "n OR flags \<noteq> 0" "page_base (n OR flags) = n"
      "n \<notin> used_frames s"
    and ent: "\<And>f j. f \<in> insert n (used_frames s) \<Longrightarrow> j < 512 \<Longrightarrow> ?E' f j
          = (if f = t \<and> j = i then n OR flags else if f = n then 0 else ?E f j)"
    and mem: "\<And>x. x \<in> frame_bytes (used_frames s - {t}) \<Longrightarrow> mem s' x = mem s x"
    and ar: "active_regions s' = active_regions s"
    and out: "\<And>x. x \<notin> phys_bytes (active_regions s) \<Longrightarrow> mem s' x = mem s x"
    by (fact ensure_table_new [OF pt ne fl t e, folded s'_def])
  have tr: "tree ?E root (used_frames s)" using pt by (simp add: pt_inv_def)
  have ok: "path_ok \<pi>" "i < 512" using t(1) by (simp_all add: path_ok_snoc)
  have tu: "t \<in> used_frames s" by (rule tree_mem [OF tr ok(1) t(2)])
  define E0 where "E0 f j = (if f = n then 0 else ?E f j)" for f j
  have E0: "E0 f j = ?E f j" if "f \<in> used_frames s" for f j using that n(7) by (auto simp: E0_def)
  have tr0: "tree E0 root (used_frames s)" by (rule tree_cong [OF tr E0])
  have w0: "walk E0 root \<rho> = walk ?E root \<rho>" if "path_ok \<rho>" for \<rho> by (rule walk_cong [OF tr E0 that])
  have e0: "E0 t i = 0" using E0 [OF tu] e by simp
  have E': "?E' f j = (if f = t \<and> j = i then n OR flags else E0 f j)"
    if "f \<in> insert n (used_frames s)" "j < 512" for f j using ent [OF that] by (simp add: E0_def)
  have t0: "walk E0 root \<pi> = Some t" using w0 [OF ok(1)] t(2) by simp
  have walk: "walk ?E' root \<rho> = (if prefix (\<pi> @ [i]) \<rho> then (if \<rho> = \<pi> @ [i] then Some n else None)
      else walk ?E root \<rho>)" if "path_ok \<rho>" for \<rho>
    unfolding w0 [OF that, symmetric]
    by (rule walk_link [OF tr0 t(1) t0 e0 n(5,6,7) _ _ that]) (simp add: E0_def, rule E')
  have none: "walk ?E root (\<pi> @ [i]) = None" using t(2) e by (simp add: walk_snoc)
  have "tree ?E' root (used_frames s')"
    unfolding n(4)
    by (rule tree_link [OF tr0 t(1) t0 e0 n(5,6,7)]) (simp add: E0_def, rule E')
  then have inv': "pt_inv s' root" using n(2) by (simp add: pt_inv_def)
  have tn: "tables (mem s') root \<subseteq> insert n (tables (mem s) root)"
    using walk by (auto simp: tables_def split: if_splits)
  have tt: "t \<in> tables (mem s) root" using t(2) ok(1) by (auto simp: tables_def)
  have kept: "pt_kept root s s'"
    unfolding pt_kept_def
  proof (intro conjI ballI)
    fix x assume "x \<in> frame_bytes (used_frames s - tables (mem s) root)"
    from frame_bytes_outside [OF tt this] show "mem s' x = mem s x" by (rule mem)
  qed (use n tn ar out in auto)
  have look: "pt_lookup (mem s') root v = pt_lookup (mem s) root v" for v
    unfolding pt_lookup_def
  proof (rule pt_lookup_link [OF walk none])
    fix \<rho> u j assume \<rho>: "path_ok \<rho>" "length \<rho> = 3" "walk ?E root \<rho> = Some u" "j < (512 :: u64)"
    have "u \<in> used_frames s" by (rule tree_mem [OF tr \<rho>(1,3)])
    moreover have "u \<noteq> t" using tree_inj [OF tr \<rho>(1) ok(1) \<rho>(3)] t \<rho>(2) by (auto simp: path_ok_def)
    ultimately show "?E' u j = ?E u j" using ent [of u j] \<rho>(4) n(7) by auto
  next
    show "?E' n j = 0" if "j < 512" for j using ent [of n j] that tu n(7) by auto
  qed (simp_all add: NDX_bound)
  have "walk ?E' root \<rho> = Some u" if "path_ok \<rho>" "walk ?E root \<rho> = Some u" for \<rho> u
    using walk [OF that(1)] walk_prefix_None [OF none, of \<rho>] that(2) by (auto split: if_splits)
  then show "pt_grown root s (ensure_table t i flags s)"
    using inv' kept look by (simp add: pt_grown_def s'_def)
  show "card (free_frames s) = card (free_frames (ensure_table t i flags s)) + 1"
    using n(1,3) by (simp add: s'_def) (metis Suc_pred card_gt_0_iff empty_iff finite)
  show "entry (mem (ensure_table t i flags s)) t i \<noteq> 0"
    using ent [of t i] tu ok(2) n(5) by (simp add: s'_def)
  show "walk (entry (mem (ensure_table t i flags s))) root \<rho> = None"
    if "path_ok \<rho>" "\<rho> \<noteq> \<pi> @ [i]" "walk ?E root \<rho> = None" for \<rho>
    using walk [OF that(1)] that(2,3) by (simp add: s'_def)
qed

lemma ensure_table_grows:
  assumes "pt_inv s root" "free_frames s \<noteq> {}" "unat flags < 4096"
    and t: "path_ok (\<pi> @ [i])" "walk (entry (mem s)) root \<pi> = Some t"
  defines "s' \<equiv> ensure_table t i flags s"
  shows "pt_grown root s s'" and "card (free_frames s) \<le> card (free_frames s') + 1"
    and "walk (entry (mem s')) root \<pi> = Some t"
    and "walk (entry (mem s')) root (\<pi> @ [i]) = Some (page_base (entry (mem s') t i))"
    and "\<And>\<rho>. path_ok \<rho> \<Longrightarrow> \<rho> \<noteq> \<pi> @ [i] \<Longrightarrow> walk (entry (mem s)) root \<rho> = None \<Longrightarrow> walk (entry (mem s')) root \<rho> = None"
proof -
  show "walk (entry (mem s')) root \<rho> = None" if "path_ok \<rho>" "\<rho> \<noteq> \<pi> @ [i]" "walk (entry (mem s)) root \<rho> = None" for \<rho>
    using ensure_table_absent(4) [OF assms(1-5) _ that] ensure_table_present [of s t i flags] that(3)
    by (cases "entry (mem s) t i = 0") (simp_all add: s'_def)
  have *: "pt_grown root s s' \<and> card (free_frames s) \<le> card (free_frames s') + 1 \<and> entry (mem s') t i \<noteq> 0"
    using ensure_table_absent [OF assms(1-5)] ensure_table_present [of s t i flags] pt_grown_refl assms(1)
    by (cases "entry (mem s) t i = 0") (simp_all add: s'_def)
  then show "pt_grown root s s'" and "card (free_frames s) \<le> card (free_frames s') + 1" by auto
  from * t show "walk (entry (mem s')) root \<pi> = Some t" by (auto simp: pt_grown_def path_ok_snoc)
  with * show "walk (entry (mem s')) root (\<pi> @ [i]) = Some (page_base (entry (mem s') t i))"
    by (simp add: walk_snoc)
qed

text \<open>Writing a last-level entry changes what one page maps to, and nothing else.\<close>

lemma walk_NDX_eq:
  assumes "tree E root F" "walk E root [P4_NDX v, P3_NDX v, P2_NDX v] = Some t"
    "walk E root [P4_NDX w, P3_NDX w, P2_NDX w] = Some t"
  shows "P4_NDX w = P4_NDX v \<and> P3_NDX w = P3_NDX v \<and> P2_NDX w = P2_NDX v"
  using tree_inj [OF assms(1) path_ok_NDX(3) path_ok_NDX(3) assms(3,2)] by simp

lemma leaf_store:
  fixes s :: "'a pmm_state_scheme" and e :: u64
  assumes pt: "pt_inv s root" and t: "walk (entry (mem s)) root [P4_NDX v, P3_NDX v, P2_NDX v] = Some t"
  defines "s' \<equiv> s\<lparr>mem := st64 (mem s) (P_TO_V t + 8 * P1_NDX v) e\<rparr>"
  shows "pt_inv s' root" and "pt_kept root s s'"
    and "\<And>w. pt_lookup (mem s') root w = (if page_no w = page_no v then e else pt_lookup (mem s) root w)"
    and "\<And>\<pi>. path_ok \<pi> \<Longrightarrow> walk (entry (mem s')) root \<pi> = walk (entry (mem s)) root \<pi>"
    and "free_frames s' = free_frames s" and "used_frames s' = used_frames s"
proof -
  have inv: "pmm_inv s" and tr: "tree (entry (mem s)) root (used_frames s)"
    using pt by (simp_all add: pt_inv_def)
  have tu: "t \<in> used_frames s" by (rule tree_mem [OF tr path_ok_NDX(3) t])
  note st = table_store [OF inv tu NDX_bound(4) [of v], where e = e, folded s'_def]
  show "free_frames s' = free_frames s" "used_frames s' = used_frames s" by (rule st)+
  have leaf: "entry (mem s') f j = entry (mem s) f j" if "f \<in> used_frames s" "j < 512" "f \<noteq> t" for f j
    using st(4) [OF that(1,2)] that(3) by simp
  show walk: "walk (entry (mem s')) root \<pi> = walk (entry (mem s)) root \<pi>" if "path_ok \<pi>" for \<pi>
    by (rule walk_leaf [OF tr path_ok_NDX(3) _ t leaf that]) simp_all
  have "tree (entry (mem s')) root (used_frames s)"
    by (rule tree_leaf [OF tr path_ok_NDX(3) _ t leaf]) simp_all
  then show "pt_inv s' root" using st(1,3) by (simp add: pt_inv_def)
  have tab: "tables (mem s') root = tables (mem s) root" using walk by (auto simp: tables_def)
  have "mem s' x = mem s x" if "x \<in> frame_bytes (used_frames s - tables (mem s) root)" for x
    by (rule st(5) [OF other_frame_byte [OF inv tu frame_bytes_outside [OF tablesI [OF path_ok_NDX(3) t] that]]])
  moreover have "mem s' x = mem s x" if "x \<notin> phys_bytes (active_regions s)" for x
    by (rule st(5) [OF frame_in_phys_bytes(1) [OF inv disjI1 [OF tu] that]])
  ultimately show "pt_kept root s s'" unfolding pt_kept_def tab st(3) by (simp add: s'_def)
  show "pt_lookup (mem s') root w = (if page_no w = page_no v then e else pt_lookup (mem s) root w)" for w
  proof (cases "walk (entry (mem s)) root [P4_NDX w, P3_NDX w, P2_NDX w]")
    case None
    then have "page_no w \<noteq> page_no v" using t NDX_eq_iff [of w v] by (auto simp del: walk.simps)
    with None show ?thesis by (simp add: pt_lookup_def walk del: walk.simps)
  next
    case (Some u)
    have u: "u \<in> used_frames s" by (rule tree_mem [OF tr path_ok_NDX(3) Some])
    have "u = t \<and> P1_NDX w = P1_NDX v \<longleftrightarrow> page_no w = page_no v"
    proof
      assume "u = t \<and> P1_NDX w = P1_NDX v"
      with walk_NDX_eq [OF tr t, of w] Some show "page_no w = page_no v"
        unfolding NDX_eq_iff [symmetric] by blast
    next
      assume "page_no w = page_no v"
      with t Some show "u = t \<and> P1_NDX w = P1_NDX v"
        unfolding NDX_eq_iff [symmetric] by (simp del: walk.simps)
    qed
    with Some st(4) [OF u NDX_bound(4) [of w]] show ?thesis
      by (simp add: pt_lookup_def walk del: walk.simps)
  qed
qed

text \<open>The accessors of the source reach the tables of the walk.\<close>

lemma access_p4:
  "p4_get_entry m mm i = entry m (p4 mm) i"
  "p4_set_entry m mm i e = st64 m (P_TO_V (p4 mm) + 8 * i) e"
  by (simp_all add: p4_get_entry_def p4_set_entry_def entry_def)

lemma access_p3:
  assumes "walk (entry m) (p4 mm) [i4] = Some t"
  shows "p3_get_entry m mm i4 i = entry m t i" "p3_set_entry m mm i4 i e = st64 m (P_TO_V t + 8 * i) e"
  using assms by (simp_all add: p3_get_entry_def p3_set_entry_def access_p4 entry_def split: if_splits)

lemma access_p2:
  assumes "walk (entry m) (p4 mm) [i4, i3] = Some t"
  shows "p2_get_entry m mm i4 i3 i = entry m t i" "p2_set_entry m mm i4 i3 i e = st64 m (P_TO_V t + 8 * i) e"
  using assms access_p3 [of m mm i4]
  by (simp_all add: p2_get_entry_def p2_set_entry_def entry_def split: if_splits)

lemma access_p1:
  assumes "walk (entry m) (p4 mm) [i4, i3, i2] = Some t"
  shows "p1_get_entry m mm i4 i3 i2 i = entry m t i"
    "p1_set_entry m mm i4 i3 i2 i e = st64 m (P_TO_V t + 8 * i) e"
  using assms access_p2 [of m mm i4 i3]
  by (simp_all add: p1_get_entry_def p1_set_entry_def entry_def split: if_splits)

lemma alloc_walk:
  assumes "pt_inv s root" "free_frames s \<noteq> {}" "pmm_alloc s = (n, s1)" "path_ok \<pi>"
  shows "walk (entry (mem s1)) root \<pi> = walk (entry (mem s)) root \<pi>"
proof -
  have inv: "pmm_inv s" and tr: "tree (entry (mem s)) root (used_frames s)"
    using assms(1) by (simp_all add: pt_inv_def)
  show ?thesis by (rule walk_cong [OF tr alloc_entry(1) [OF inv assms(2,3)] assms(4)])
qed

lemma ensure_p3:
  assumes "pt_inv s (p4 mm)" "free_frames s \<noteq> {}" "walk (entry (mem s)) (p4 mm) [P4_NDX v] = Some t"
  shows "(if p3_get_entry (mem s) mm (P4_NDX v) i = 0
    then (case pmm_alloc s of (n, s) \<Rightarrow> s\<lparr>mem := p3_set_entry (mem s) mm (P4_NDX v) i (n OR flags)\<rparr>)
    else s) = ensure_table t i flags s"
  using assms(3) alloc_walk [OF assms(1,2) _ path_ok_NDX(1) [of v]]
  by (cases "pmm_alloc s") (simp add: ensure_table_def access_p3 del: walk.simps)

lemma ensure_p2:
  assumes "pt_inv s (p4 mm)" "free_frames s \<noteq> {}"
    "walk (entry (mem s)) (p4 mm) [P4_NDX v, P3_NDX v] = Some t"
  shows "(if p2_get_entry (mem s) mm (P4_NDX v) (P3_NDX v) i = 0
    then (case pmm_alloc s of (n, s) \<Rightarrow>
            s\<lparr>mem := p2_set_entry (mem s) mm (P4_NDX v) (P3_NDX v) i (n OR flags)\<rparr>)
    else s) = ensure_table t i flags s"
  using assms(3) alloc_walk [OF assms(1,2) _ path_ok_NDX(2) [of v]]
  by (cases "pmm_alloc s") (simp add: ensure_table_def access_p2 del: walk.simps)

lemma pt_grown_inv: "pt_grown root s s' \<Longrightarrow> pt_inv s' root"
  by (simp add: pt_grown_def)

lemma map_page_descent:
  assumes pt: "pt_inv s (p4 mm)" "p4 mm \<noteq> 0" and free: "3 \<le> card (free_frames s)"
    and fl: "unat flags < 4096"
  obtains s3 t where "pt_grown (p4 mm) s s3"
    "walk (entry (mem s3)) (p4 mm) [P4_NDX v, P3_NDX v, P2_NDX v] = Some t"
    "card (free_frames s) \<le> card (free_frames s3) + 3"
    "vmm_map_page mm v phys flags s =
       (mm, s3\<lparr>mem := st64 (mem s3) (P_TO_V t + 8 * P1_NDX v) (phys OR flags)\<rparr>)"
    "\<And>\<rho>. path_ok \<rho> \<Longrightarrow> \<not> prefix \<rho> [P4_NDX v, P3_NDX v, P2_NDX v] \<Longrightarrow> walk (entry (mem s)) (p4 mm) \<rho> = None \<Longrightarrow>
      walk (entry (mem s3)) (p4 mm) \<rho> = None"
proof -
  let ?r = "p4 mm" and ?w = "\<lambda>s. walk (entry (mem s)) (p4 mm)"
  define s1 where "s1 = ensure_table ?r (P4_NDX v) flags s"
  have ne: "free_frames s \<noteq> {}" using free by auto
  note g1 = ensure_table_grows [OF pt(1) ne fl, of "[]" "P4_NDX v" ?r, folded s1_def, simplified append_Nil walk.simps(1), OF path_ok_NDX(1) refl]
  define t3 where "t3 = page_base (entry (mem s1) ?r (P4_NDX v))"
  have w1: "?w s1 [P4_NDX v] = Some t3" using g1(4) by (simp add: t3_def)
  define s2 where "s2 = ensure_table t3 (P3_NDX v) flags s1"
  have ne1: "free_frames s1 \<noteq> {}" using free g1(2) by auto
  note g2 = ensure_table_grows [OF pt_grown_inv [OF g1(1)] ne1 fl, of "[P4_NDX v]" "P3_NDX v" t3, folded s2_def, simplified append.simps, OF path_ok_NDX(2) w1]
  define t2 where "t2 = page_base (entry (mem s2) t3 (P3_NDX v))"
  have w2: "?w s2 [P4_NDX v, P3_NDX v] = Some t2" using g2(4) by (simp add: t2_def)
  define s3 where "s3 = ensure_table t2 (P2_NDX v) flags s2"
  have ne2: "free_frames s2 \<noteq> {}" using free g1(2) g2(2) by auto
  note g3 = ensure_table_grows [OF pt_grown_inv [OF g2(1)] ne2 fl, of "[P4_NDX v, P3_NDX v]" "P2_NDX v" t2, folded s3_def, simplified append.simps, OF path_ok_NDX(3) w2]
  define t1 where "t1 = page_base (entry (mem s3) t2 (P2_NDX v))"
  have w3: "?w s3 [P4_NDX v, P3_NDX v, P2_NDX v] = Some t1" using g3(4) by (simp add: t1_def)
  have e1: "(if p4_get_entry (mem s) mm (P4_NDX v) = 0
      then (case pmm_alloc s of (n, s) \<Rightarrow> s\<lparr>mem := p4_set_entry (mem s) mm (P4_NDX v) (n OR flags)\<rparr>)
      else s) = s1" by (simp add: s1_def ensure_table_def access_p4)
  note e2 = ensure_p3 [OF pt_grown_inv [OF g1(1)] ne1 w1, where i = "P3_NDX v" and flags = flags, folded s2_def]
  note e3 = ensure_p2 [OF pt_grown_inv [OF g2(1)] ne2 w2, where i = "P2_NDX v" and flags = flags, folded s3_def]
  have "vmm_map_page mm v phys flags s =
       (mm, s3\<lparr>mem := st64 (mem s3) (P_TO_V t1 + 8 * P1_NDX v) (phys OR flags)\<rparr>)"
    unfolding vmm_map_page_def Let_def if_not_P [OF pt(2)] prod.case e1 e2 e3 access_p1(2) [OF w3] ..
  moreover have "pt_grown ?r s s3" using pt_grown_trans [OF pt_grown_trans [OF g1(1) g2(1)] g3(1)] .
  moreover have "?w s3 \<rho> = None" if "path_ok \<rho>" "\<not> prefix \<rho> [P4_NDX v, P3_NDX v, P2_NDX v]" "?w s \<rho> = None" for \<rho>
  proof -
    have "\<rho> \<noteq> [P4_NDX v]" "\<rho> \<noteq> [P4_NDX v, P3_NDX v]" "\<rho> \<noteq> [P4_NDX v, P3_NDX v, P2_NDX v]" using that(2) by auto
    then show ?thesis using g3(5) [OF that(1)] g2(5) [OF that(1)] g1(5) [OF that(1)] that(3) by simp
  qed
  ultimately show thesis using that w3 g1(2) g2(2) g3(2) by simp
qed

section \<open>Unlinking empty tables\<close>

text \<open>Nothing but the memory managed by the allocator has changed.\<close>

definition phys_only :: "'a pmm_state_scheme \<Rightarrow> 'a pmm_state_scheme \<Rightarrow> bool" where
  "phys_only s s' \<longleftrightarrow> (\<exists>m. s' = s\<lparr>mem := m\<rparr> \<and> (\<forall>x. x \<notin> phys_bytes (active_regions s) \<longrightarrow> m x = mem s x))"

lemma phys_only_refl [simp]: "phys_only s s"
  unfolding phys_only_def by (rule exI [of _ "mem s"]) simp

lemma phys_only_trans: "phys_only s s' \<Longrightarrow> phys_only s' s'' \<Longrightarrow> phys_only s s''"
  by (auto simp: phys_only_def active_regions_def)

lemma phys_only_mem: "phys_only s s' \<Longrightarrow> x \<notin> phys_bytes (active_regions s) \<Longrightarrow> mem s' x = mem s x"
  by (auto simp: phys_only_def)

lemma phys_only_regions: "phys_only s s' \<Longrightarrow> active_regions s' = active_regions s"
  by (auto simp: phys_only_def active_regions_def)

lemma phys_only_store:
  assumes "pmm_inv s" "t \<in> used_frames s" "i < 512"
  shows "phys_only s (s\<lparr>mem := st64 (mem s) (P_TO_V t + 8 * i) v\<rparr>)"
proof -
  have "x \<notin> rng (P_TO_V t + 8 * i) 8" if "x \<notin> phys_bytes (active_regions s)" for x
    using frame_in_phys_bytes(1) [OF assms(1) disjI1 [OF assms(2)] that] entry_rng_in_frame [OF _ assms(3)]
      used_frame_props [OF assms(1,2)] by blast
  then show ?thesis unfolding phys_only_def using st64_other by blast
qed

lemma phys_only_free:
  assumes "pmm_inv s" "a \<in> used_frames s" "pmm_free a s = Inr s'"
  shows "phys_only s s'"
proof -
  have b: "\<forall>x. x \<notin> bitmaps (active_regions s) \<longrightarrow> mem s' x = mem s x" and e: "s' = s\<lparr>mem := mem s'\<rparr>"
    using pmm_free_spec [OF assms(1,2)] assms(3) by auto
  have "\<forall>x. x \<notin> phys_bytes (active_regions s) \<longrightarrow> mem s' x = mem s x" using b by (auto simp: phys_bytes_def)
  with e show ?thesis unfolding phys_only_def by metis
qed

text \<open>
  Shrinking an address space by tables that map nothing: what was mapped stays mapped, only tables
  are given back, and frames that are not tables keep their contents.
\<close>

definition pt_shrunk :: "u64 \<Rightarrow> 'a pmm_state_scheme \<Rightarrow> 'a pmm_state_scheme \<Rightarrow> bool" where
  "pt_shrunk root s s' \<longleftrightarrow> pt_inv s' root
     \<and> used_frames s' \<subseteq> used_frames s \<and> used_frames s - used_frames s' = tables (mem s) root - tables (mem s') root
     \<and> free_frames s' = free_frames s \<union> (tables (mem s) root - tables (mem s') root) \<and> tables (mem s') root \<subseteq> tables (mem s) root
     \<and> (\<forall>x \<in> frame_bytes (used_frames s - tables (mem s) root). mem s' x = mem s x)
     \<and> (\<forall>v. pt_lookup (mem s') root v = pt_lookup (mem s) root v)
     \<and> (\<forall>\<rho>. path_ok \<rho> \<longrightarrow> walk (entry (mem s)) root \<rho> = None \<longrightarrow> walk (entry (mem s')) root \<rho> = None)
     \<and> phys_only s s'"

lemma pt_shrunk_refl: "pt_inv s root \<Longrightarrow> pt_shrunk root s s"
  by (simp add: pt_shrunk_def)

lemma pt_shrunk_trans:
  assumes "pt_shrunk root s s'" and "pt_shrunk root s' s''"
  shows "pt_shrunk root s s''"
proof -
  have "used_frames s - tables (mem s) root \<subseteq> used_frames s' - tables (mem s') root"
    using assms by (auto simp: pt_shrunk_def)
  then have "frame_bytes (used_frames s - tables (mem s) root)
      \<subseteq> frame_bytes (used_frames s' - tables (mem s') root)" by (rule frame_bytes_mono)
  moreover have "phys_only s s''" using assms phys_only_trans by (auto simp: pt_shrunk_def)
  ultimately show ?thesis using assms unfolding pt_shrunk_def by (auto simp: subset_iff)
qed

lemma walk_below_empty:
  assumes "walk E root \<sigma> = Some n" and "\<And>j. j < 512 \<Longrightarrow> E n j = 0"
  shows "path_ok (\<sigma> @ \<tau>) \<Longrightarrow> walk E root (\<sigma> @ \<tau>) = (if \<tau> = [] then Some n else None)"
proof (induction \<tau> rule: rev_induct)
  case (snoc k \<tau>)
  then have "path_ok (\<sigma> @ \<tau>)" "k < 512" using path_ok_snoc [of "\<sigma> @ \<tau>" k] by simp_all
  with snoc.IH assms(2) [of k] show ?case by (simp add: walk_snoc flip: append_assoc)
qed (simp add: assms)

lemma release_entry:
  assumes inv: "pmm_inv s" and n: "n \<in> used_frames s" and call: "pmm_free n s = Inr s1"
  shows "pmm_inv s1" "free_frames s1 = insert n (free_frames s)" "used_frames s1 = used_frames s - {n}"
    and "\<And>t j. t \<in> used_frames s \<Longrightarrow> j < 512 \<Longrightarrow> entry (mem s1) t j = entry (mem s) t j"
    and "\<And>x. x \<in> frame_bytes (used_frames s) \<Longrightarrow> mem s1 x = mem s x"
proof -
  have *: "pmm_inv s1 \<and> free_frames s1 = insert n (free_frames s) \<and> used_frames s1 = used_frames s - {n}
     \<and> (\<forall>x \<in> frame_bytes (used_frames s). mem s1 x = mem s x)"
    using pmm.release_frame [OF inv n] call by auto
  then show "pmm_inv s1" "free_frames s1 = insert n (free_frames s)" "used_frames s1 = used_frames s - {n}"
    and keep: "\<And>x. x \<in> frame_bytes (used_frames s) \<Longrightarrow> mem s1 x = mem s x" by blast+
  fix t j assume t: "t \<in> used_frames s" "j < (512 :: u64)"
  show "entry (mem s1) t j = entry (mem s) t j"
    using used_frame_props [OF inv t(1)] t(2) keep in_frame_bytes [OF t(1)]
    by (intro entry_cong) blast+
qed

lemma tables_unlink:
  assumes tr: "tree (entry m) root F" and ok: "path_ok \<sigma>" and n: "walk (entry m) root \<sigma> = Some n"
    and z: "\<And>j. j < 512 \<Longrightarrow> entry m n j = 0"
    and w: "\<And>\<rho>. path_ok \<rho> \<Longrightarrow> walk (entry m') root \<rho> = (if prefix \<sigma> \<rho> then None else walk (entry m) root \<rho>)"
  shows "tables m' root = tables m root - {n}"
proof (intro set_eqI iffI)
  fix u assume "u \<in> tables m' root"
  then obtain \<rho> where \<rho>: "path_ok \<rho>" "walk (entry m) root \<rho> = Some u" "\<not> prefix \<sigma> \<rho>"
    using w by (auto simp: tables_def split: if_splits)
  then show "u \<in> tables m root - {n}" using tree_inj [OF tr \<rho>(1) ok \<rho>(2)] n tablesI by auto
next
  fix u assume "u \<in> tables m root - {n}"
  then obtain \<rho> where \<rho>: "path_ok \<rho>" "walk (entry m) root \<rho> = Some u" "u \<noteq> n" by (auto simp: tables_def)
  have "\<not> prefix \<sigma> \<rho>"
  proof
    assume "prefix \<sigma> \<rho>"
    then obtain \<tau> where "\<rho> = \<sigma> @ \<tau>" unfolding prefix_def ..
    then show False using walk_below_empty [OF n z, of \<tau>] \<rho> by (auto split: if_splits)
  qed
  then show "u \<in> tables m' root" using w [OF \<rho>(1)] \<rho>(1,2) by (auto simp: tables_def)
qed

lemma unlink_table:
  assumes pt: "pt_inv s root" and ok: "path_ok (\<pi> @ [i])" and t: "walk (entry (mem s)) root \<pi> = Some t"
    and n: "walk (entry (mem s)) root (\<pi> @ [i]) = Some n" and z: "\<forall>j<512. entry (mem s) n j = 0"
    and call: "pmm_free n s = Inr s1"
  defines "s2 \<equiv> s1\<lparr>mem := st64 (mem s1) (P_TO_V t + 8 * i) 0\<rparr>"
  shows "pt_shrunk root s s2"
    and "\<And>\<rho>. path_ok \<rho> \<Longrightarrow> walk (entry (mem s1)) root \<rho> = walk (entry (mem s)) root \<rho>"
    and "\<And>\<rho>. path_ok \<rho> \<Longrightarrow> walk (entry (mem s2)) root \<rho>
           = (if prefix (\<pi> @ [i]) \<rho> then None else walk (entry (mem s)) root \<rho>)"
proof -
  let ?E = "entry (mem s)" and ?E1 = "entry (mem s1)" and ?E2 = "entry (mem s2)"
  have inv: "pmm_inv s" and tr: "tree ?E root (used_frames s)" using pt by (simp_all add: pt_inv_def)
  have ok': "path_ok \<pi>" "i < 512" using ok by (simp_all add: path_ok_snoc)
  have tu: "t \<in> used_frames s" by (rule tree_mem [OF tr ok'(1) t])
  have nu: "n \<in> used_frames s" by (rule tree_mem [OF tr ok n])
  have nt: "n \<noteq> t" using tree_inj [OF tr ok ok'(1) n] t by auto
  note rel = release_entry [OF inv nu call]
  show walk1: "walk ?E1 root \<rho> = walk ?E root \<rho>" if "path_ok \<rho>" for \<rho>
    by (rule walk_cong [OF tr rel(4) that])
  have t1: "t \<in> used_frames s1" using tu nt rel(3) by simp
  note st = table_store [OF rel(1) t1 ok'(2), where e = 0, folded s2_def]
  have E2: "?E2 f j = (if f = t \<and> j = i then 0 else ?E f j)" if "f \<in> used_frames s - {n}" "j < 512" for f j
    using st(4) [of f j] rel(3) rel(4) [of f j] that by auto
  show walk2: "walk ?E2 root \<rho> = (if prefix (\<pi> @ [i]) \<rho> then None else walk ?E root \<rho>)"
    if "path_ok \<rho>" for \<rho>
    by (rule walk_unlink [OF tr ok t n _ _ that]) (use z E2 in blast)+
  have "tree ?E2 root (used_frames s - {n})" 
    by (rule tree_unlink [OF tr ok t n]) (use z E2 in blast)+
  then have inv2: "pt_inv s2 root" using st(1,3) rel(3) by (simp add: pt_inv_def)
  have tab: "tables (mem s2) root = tables (mem s) root - {n}" "n \<in> tables (mem s) root" "t \<in> tables (mem s) root"
    using tables_unlink [OF tr ok n _ walk2] z n t ok ok'(1) tablesI by auto
  have keep: "mem s2 x = mem s x" if x: "x \<in> frame_bytes (used_frames s - tables (mem s) root)" for x
  proof -
    have "x \<notin> rng (P_TO_V t) 4096" by (rule other_frame_byte [OF inv tu frame_bytes_outside [OF tab(3) x]])
    then have "mem s2 x = mem s1 x" by (rule st(5))
    also have "\<dots> = mem s x"
      using x frame_bytes_mono [of "used_frames s - tables (mem s) root" "used_frames s"]
      by (intro rel(5)) blast
    finally show ?thesis .
  qed
  have look: "pt_lookup (mem s2) root v = pt_lookup (mem s) root v" for v
  proof (cases "walk ?E2 root [P4_NDX v, P3_NDX v, P2_NDX v]")
    case None
    have "pt_lookup (mem s) root v = 0"
    proof (cases "prefix (\<pi> @ [i]) [P4_NDX v, P3_NDX v, P2_NDX v]")
      case True
      then obtain \<tau> where \<tau>: "[P4_NDX v, P3_NDX v, P2_NDX v] = (\<pi> @ [i]) @ \<tau>" unfolding prefix_def ..
      then have "path_ok ((\<pi> @ [i]) @ \<tau>)" using path_ok_NDX(3) [of v] by metis
      from walk_below_empty [OF n _ this] z NDX_bound(4) [of v] show ?thesis
        unfolding pt_lookup_def \<tau> by simp
    next
      case False
      with None walk2 [OF path_ok_NDX(3) [of v]] show ?thesis
        by (simp add: pt_lookup_def del: walk.simps prefix_Cons)
    qed
    with None show ?thesis by (simp add: pt_lookup_def del: walk.simps)
  next
    case (Some u)
    then have u: "walk ?E root [P4_NDX v, P3_NDX v, P2_NDX v] = Some u"
      and np: "\<not> prefix (\<pi> @ [i]) [P4_NDX v, P3_NDX v, P2_NDX v]"
      using walk2 [OF path_ok_NDX(3) [of v]] by (simp_all split: if_splits del: walk.simps prefix_Cons)
    have "u \<in> used_frames s" by (rule tree_mem [OF tr path_ok_NDX(3) u])
    moreover have "u \<noteq> n" using tree_inj [OF tr path_ok_NDX(3) ok u] n np by (metis prefix_order.order_refl)
    moreover have "u \<noteq> t"
      using tree_inj [OF tr path_ok_NDX(3) ok'(1) u] t ok by (force simp: path_ok_def)
    ultimately have "?E2 u (P1_NDX v) = ?E u (P1_NDX v)" using E2 [of u] NDX_bound(4) [of v] by simp
    with Some u show ?thesis by (simp add: pt_lookup_def del: walk.simps)
  qed
  have "phys_only s s2"
    unfolding s2_def by (rule phys_only_trans [OF phys_only_free [OF inv nu call] phys_only_store [OF rel(1) t1 ok'(2)]])
  moreover have "used_frames s2 = used_frames s - {n}" "free_frames s2 = insert n (free_frames s)" using st(2,3) rel(2,3) by simp_all
  ultimately show "pt_shrunk root s s2"
    using inv2 tab keep look nu walk2 by (auto simp: pt_shrunk_def)
qed

section \<open>Address spaces\<close>

text \<open>An address space has no tables at all before its first page is mapped.\<close>

definition mm_ok :: "'a pmm_state_scheme \<Rightarrow> mm \<Rightarrow> bool" where
  "mm_ok s mm \<longleftrightarrow> pmm_inv s \<and> (p4 mm \<noteq> 0 \<longrightarrow> pt_inv s (p4 mm))"

definition mm_tables :: "memory \<Rightarrow> mm \<Rightarrow> u64 set" where
  "mm_tables m mm = (if p4 mm = 0 then {} else tables m (p4 mm))"

definition mm_lookup :: "memory \<Rightarrow> mm \<Rightarrow> u64 \<Rightarrow> u64" where
  "mm_lookup m mm v = (if p4 mm = 0 then 0 else pt_lookup m (p4 mm) v)"

text \<open>Every table is there for a page: below it some page is mapped.\<close>

definition pt_live :: "memory \<Rightarrow> u64 \<Rightarrow> bool" where
  "pt_live m root \<longleftrightarrow> (\<forall>\<pi>. path_ok \<pi> \<longrightarrow> walk (entry m) root \<pi> \<noteq> None \<longrightarrow>
     (\<exists>v. prefix \<pi> [P4_NDX v, P3_NDX v, P2_NDX v] \<and> pt_lookup m root v \<noteq> 0))"

definition mm_live :: "memory \<Rightarrow> mm \<Rightarrow> bool" where
  "mm_live m mm \<longleftrightarrow> p4 mm = 0 \<or> pt_live m (p4 mm)"

lemma pt_live_page:
  assumes "pt_live m root" "path_ok \<pi>" "walk (entry m) root \<pi> \<noteq> None"
  obtains v where "prefix \<pi> [P4_NDX v, P3_NDX v, P2_NDX v]" "pt_lookup m root v \<noteq> 0"
  using assms by (auto simp: pt_live_def)

text \<open>An address space whose tables are all needed, but where nothing is mapped, has no table.\<close>

lemma mm_live_empty:
  assumes "mm_live m mm" "\<And>v. mm_lookup m mm v = 0"
  shows "p4 mm = 0" "mm_tables m mm = {}"
proof -
  show z: "p4 mm = 0"
  proof (rule ccontr)
    assume "p4 mm \<noteq> 0"
    then show False using pt_live_page [of m "p4 mm" "[]"] assms by (auto simp: mm_live_def mm_lookup_def)
  qed
  then show "mm_tables m mm = {}" by (simp add: mm_tables_def)
qed

lemma pt_live_mapped:
  assumes live: "pt_live m root" and e: "e \<noteq> 0"
    and look: "\<And>w. pt_lookup m' root w = (if page_no w = page_no v then e else pt_lookup m root w)"
    and new: "\<And>\<rho>. path_ok \<rho> \<Longrightarrow> \<not> prefix \<rho> [P4_NDX v, P3_NDX v, P2_NDX v] \<Longrightarrow> walk (entry m) root \<rho> = None \<Longrightarrow> walk (entry m') root \<rho> = None"
  shows "pt_live m' root"
  unfolding pt_live_def
proof (intro allI impI)
  fix \<rho> assume \<rho>: "path_ok \<rho>" "walk (entry m') root \<rho> \<noteq> None"
  show "\<exists>w. prefix \<rho> [P4_NDX w, P3_NDX w, P2_NDX w] \<and> pt_lookup m' root w \<noteq> 0"
  proof (cases "prefix \<rho> [P4_NDX v, P3_NDX v, P2_NDX v]")
    case True
    then show ?thesis using e look [of v] by (intro exI [of _ v]) simp
  next
    case False
    then have "walk (entry m) root \<rho> \<noteq> None" using new [OF \<rho>(1)] \<rho>(2) by auto
    from pt_live_page [OF live \<rho>(1) this] look e show ?thesis by metis
  qed
qed

text \<open>
  Unmapping stops at the first table on the path that is not empty; the table below it is gone.
\<close>

definition stops_at :: "memory \<Rightarrow> u64 \<Rightarrow> u64 \<Rightarrow> bool" where
  "stops_at m root v \<longleftrightarrow> (\<exists>n t j. n \<le> 3 \<and> walk (entry m) root (take n [P4_NDX v, P3_NDX v, P2_NDX v]) = Some t \<and> j < 512
     \<and> entry m t j \<noteq> 0 \<and> (n < 3 \<longrightarrow> walk (entry m) root (take (Suc n) [P4_NDX v, P3_NDX v, P2_NDX v]) = None))"

lemma NDX_exists:
  assumes "a < 512" "b < 512" "c < 512" "d < (512 :: u64)"
  obtains v where "P4_NDX v = a" "P3_NDX v = b" "P2_NDX v = c" "P1_NDX v = d"
proof -
  define n where "n = ((unat a * 512 + unat b) * 512 + unat c) * 512 + unat d"
  have u: "unat a < 512" "unat b < 512" "unat c < 512" "unat d < 512" using assms by (simp_all add: word_less_nat_alt)
  define v :: u64 where "v = of_nat (n * 4096)"
  have "n < 2 ^ 36" using u by (simp add: n_def)
  then have "unat v = n * 4096" unfolding v_def by (intro unat_of_nat_u64) simp
  then have "page_no v = n" using \<open>n < 2 ^ 36\<close> by (simp add: page_no_def)
  then have "((unat (P4_NDX v) * 512 + unat (P3_NDX v)) * 512 + unat (P2_NDX v)) * 512 + unat (P1_NDX v) = n"
    by (simp only: page_no_NDX)
  moreover have "unat (P3_NDX v) < 512" "unat (P2_NDX v) < 512" "unat (P1_NDX v) < 512" by (simp_all add: unat_NDX)
  ultimately have "P4_NDX v = a \<and> P3_NDX v = b \<and> P2_NDX v = c \<and> P1_NDX v = d"
    unfolding n_def using u by (simp only: radix_512 word_unat_eq_iff)
  then show thesis using that by blast
qed

text \<open>A prefix of a path that is not longer than another prefix of it, and the step after a prefix.\<close>

lemma prefix_take: "prefix \<rho> p \<Longrightarrow> n \<le> length p \<Longrightarrow> prefix \<rho> (take n p) \<or> n < length \<rho> \<and> prefix (take (Suc n) p) \<rho>"
  by (cases "length \<rho> \<le> n") (auto intro: prefix_length_prefix [OF _ take_is_prefix] prefix_length_prefix [OF take_is_prefix])

lemma prefix_take_snoc: "prefix (take n p @ [j]) p \<Longrightarrow> n < length p \<Longrightarrow> take n p @ [j] = take (Suc n) p"
  by (auto simp: prefix_def take_Suc_conv_app_nth dest: arg_cong [of _ _ "\<lambda>xs. xs ! n"]) (metis append_assoc append_Cons append_Nil length_take min.absorb4 nth_append_length)

lemma pt_live_unmapped:
  assumes live: "pt_live m root" and stop: "stops_at m' root v"
    and look: "\<And>w. pt_lookup m' root w = (if page_no w = page_no v then 0 else pt_lookup m root w)"
    and gone: "\<And>\<rho>. path_ok \<rho> \<Longrightarrow> walk (entry m) root \<rho> = None \<Longrightarrow> walk (entry m') root \<rho> = None"
  shows "pt_live m' root"
  unfolding pt_live_def
proof (intro allI impI)
  let ?p = "\<lambda>w. [P4_NDX w, P3_NDX w, P2_NDX w]"
  define p where "p = ?p v"
  have lp: "length p = 3" by (simp add: p_def)
  fix \<rho> assume \<rho>: "path_ok \<rho>" "walk (entry m') root \<rho> \<noteq> None"
  then have "walk (entry m) root \<rho> \<noteq> None" using gone [OF \<rho>(1)] by fastforce
  from pt_live_page [OF live \<rho>(1) this] obtain w where w: "prefix \<rho> (?p w)" "pt_lookup m root w \<noteq> 0" .
  show "\<exists>w. prefix \<rho> (?p w) \<and> pt_lookup m' root w \<noteq> 0"
  proof (cases "page_no w = page_no v")
    case False
    then show ?thesis using w look [of w] by auto
  next
    case True
    then have pv: "prefix \<rho> p" using w(1) NDX_eq_iff [of w v] by (simp add: p_def)
    obtain n t j where n: "n \<le> length p" "walk (entry m') root (take n p) = Some t" "j < 512" "entry m' t j \<noteq> 0"
      and below: "n < length p \<Longrightarrow> walk (entry m') root (take (Suc n) p) = None"
      using stop unfolding stops_at_def p_def [symmetric] lp by blast
    have \<rho>n: "prefix \<rho> (take n p)"
      using prefix_take [OF pv n(1)] walk_prefix_None [OF below] prefix_length_le [OF pv] \<rho>(2) by fastforce
    show ?thesis
    proof (cases "n = length p")
      case True
      then have t: "walk (entry m') root (?p v) = Some t" using n(2) by (simp add: p_def)
      obtain u where "P4_NDX u = P4_NDX v" "P3_NDX u = P3_NDX v" "P2_NDX u = P2_NDX v" "P1_NDX u = j"
        using NDX_exists [OF NDX_bound(1-3) n(3)] by metis
      then show ?thesis using t n(4) pv by (intro exI [of _ u]) (simp add: pt_lookup_def p_def del: walk.simps)
    next
      case False
      let ?c = "take n p @ [j]"
      have ok: "path_ok ?c" using n(1,3) False path_ok_NDX(3) [of v] by (auto simp: path_ok_def p_def dest: in_set_takeD)
      have c: "walk (entry m') root ?c \<noteq> None" using n(2,4) by (simp add: walk_snoc)
      then have "walk (entry m) root ?c \<noteq> None" using gone [OF ok] by fastforce
      from pt_live_page [OF live ok this] obtain u where u: "prefix ?c (?p u)" "pt_lookup m root u \<noteq> 0" .
      have "page_no u \<noteq> page_no v"
      proof
        assume "page_no u = page_no v"
        then have "prefix ?c p" using u(1) NDX_eq_iff [of u v] by (simp add: p_def)
        then show False using prefix_take_snoc [of n p j] c below n(1) False by simp
      qed
      then have "pt_lookup m' root u \<noteq> 0" using look [of u] u(2) by simp
      moreover have "prefix \<rho> (?p u)" using \<rho>n u(1) by (meson append_prefixD prefix_order.trans)
      ultimately show ?thesis by blast
    qed
  qed
qed

text \<open>An address space depends on the frames of its own tables only.\<close>

lemma mm_tables_used: "mm_ok s mm \<Longrightarrow> mm_tables (mem s) mm \<subseteq> used_frames s"
  using pt_inv_table(1) by (auto simp: mm_tables_def mm_ok_def tables_def split: if_splits)

lemma mm_same_tables:
  assumes ok: "mm_ok s mm" and inv: "pmm_inv s'" and used: "mm_tables (mem s) mm \<subseteq> used_frames s'"
    and ent: "\<And>t j. t \<in> mm_tables (mem s) mm \<Longrightarrow> j < 512 \<Longrightarrow> entry (mem s') t j = entry (mem s) t j"
  shows "mm_ok s' mm" and "mm_lookup (mem s') mm w = mm_lookup (mem s) mm w" and "mm_tables (mem s') mm = mm_tables (mem s) mm"
    and "mm_live (mem s') mm = mm_live (mem s) mm"
proof -
  have *: "mm_ok s' mm \<and> (\<forall>w. mm_lookup (mem s') mm w = mm_lookup (mem s) mm w) \<and> mm_tables (mem s') mm = mm_tables (mem s) mm
      \<and> mm_live (mem s') mm = mm_live (mem s) mm"
  proof (cases "p4 mm = 0")
    case True
    then show ?thesis using inv by (simp add: mm_ok_def mm_lookup_def mm_tables_def mm_live_def)
  next
    case False
    let ?T = "tables (mem s) (p4 mm)"
    have en: "entry (mem s') t j = entry (mem s) t j" if "t \<in> ?T" "j < 512" for t j
      using ent that False by (simp add: mm_tables_def)
    have pt: "pt_inv s (p4 mm)" using ok False by (simp add: mm_ok_def)
    have tr: "tree (entry (mem s)) (p4 mm) ?T" using pt by (auto simp: pt_inv_def tree_def tables_def)
    have w: "walk (entry (mem s')) (p4 mm) \<pi> = walk (entry (mem s)) (p4 mm) \<pi>" if "path_ok \<pi>" for \<pi>
      by (rule walk_cong [OF tr en that])
    have "tree (entry (mem s')) (p4 mm) ?T" by (rule tree_cong [OF tr en])
    moreover have "?T \<subseteq> used_frames s'" using used False by (simp add: mm_tables_def)
    ultimately have "tree (entry (mem s')) (p4 mm) (used_frames s')" by (rule tree_mono)
    moreover have look: "pt_lookup (mem s') (p4 mm) w = pt_lookup (mem s) (p4 mm) w" for w
      using w [OF path_ok_NDX(3) [of w]] en [OF tablesI [OF path_ok_NDX(3) [of w]] NDX_bound(4) [of w]]
      by (simp add: pt_lookup_def del: walk.simps split: option.split)
    moreover have "tables (mem s') (p4 mm) = ?T" using w by (auto simp: tables_def)
    moreover have "pt_live (mem s') (p4 mm) = pt_live (mem s) (p4 mm)" using w look by (simp add: pt_live_def)
    ultimately show ?thesis using False inv by (simp add: mm_ok_def mm_lookup_def mm_tables_def pt_inv_def mm_live_def)
  qed
  then show "mm_ok s' mm" "mm_lookup (mem s') mm w = mm_lookup (mem s) mm w" "mm_tables (mem s') mm = mm_tables (mem s) mm"
    "mm_live (mem s') mm = mm_live (mem s) mm" by blast+
qed

lemma walk_empty_root:
  assumes "\<And>j. j < 512 \<Longrightarrow> E root j = 0" "path_ok \<pi>"
  shows "walk E root \<pi> = (if \<pi> = [] then Some root else None)"
  using walk_below_empty [of E root "[]" root \<pi>] assms by simp

lemma empty_root:
  assumes "\<And>j. j < 512 \<Longrightarrow> entry m root j = 0"
  shows "root \<in> F \<Longrightarrow> tree (entry m) root F" and "tables m root = {root}" and "pt_lookup m root v = 0"
proof -
  have w: "walk (entry m) root \<pi> = (if \<pi> = [] then Some root else None)" if "path_ok \<pi>" for \<pi>
    by (rule walk_empty_root [OF _ that]) (rule assms)
  show "root \<in> F \<Longrightarrow> tree (entry m) root F" using w by (auto simp: tree_def split: if_splits)
  show "tables m root = {root}"
    using w by (auto simp: tables_def split: if_splits intro: exI [of _ "[]"])
  show "pt_lookup m root v = 0" using w [OF path_ok_NDX(3) [of v]] by (simp add: pt_lookup_def del: walk.simps)
qed

text \<open>A first page: the top-level table is allocated and the rest is as for any other page.\<close>

lemma map_page_new_root:
  assumes inv: "pmm_inv s" and ne: "free_frames s \<noteq> {}" and call: "pmm_alloc s = (a, s1)" and "p4 mm = 0"
  shows "vmm_map_page mm v phys flags s = vmm_map_page (mm\<lparr>p4 := a\<rparr>) v phys flags s1"
    and "pt_inv s1 a" and "tables (mem s1) a = {a}" and "\<And>w. pt_lookup (mem s1) a w = 0"
proof -
  note al = pmm_alloc_spec [OF inv ne call]
  have z: "entry (mem s1) a j = 0" if "j < 512" for j by (rule alloc_entry(2) [OF inv ne call that])
  show "vmm_map_page mm v phys flags s = vmm_map_page (mm\<lparr>p4 := a\<rparr>) v phys flags s1"
    using assms(4) call al(2) by (simp add: vmm_map_page_def)
  show "pt_inv s1 a" using al(4,6) empty_root(1) [OF z] by (simp add: pt_inv_def)
  show "tables (mem s1) a = {a}" by (rule empty_root(2) [OF z])
  show "pt_lookup (mem s1) a w = 0" for w by (rule empty_root(3) [OF z])
qed

lemma map_page_existing:
  assumes "pt_inv s (p4 mm)" "p4 mm \<noteq> 0" "3 \<le> card (free_frames s)" "unat flags < 4096"
    and call: "vmm_map_page mm v phys flags s = (mm', s')"
  shows "mm' = mm" and "pt_inv s' (p4 mm)" and "pt_kept (p4 mm) s s'"
    and "\<And>w. pt_lookup (mem s') (p4 mm) w
           = (if page_no w = page_no v then phys OR flags else pt_lookup (mem s) (p4 mm) w)"
    and "card (free_frames s) \<le> card (free_frames s') + 3"
    and "\<exists>t. walk (entry (mem s')) (p4 mm) [P4_NDX v, P3_NDX v, P2_NDX v] = Some t"
    and "\<And>\<rho>. path_ok \<rho> \<Longrightarrow> \<not> prefix \<rho> [P4_NDX v, P3_NDX v, P2_NDX v] \<Longrightarrow> walk (entry (mem s)) (p4 mm) \<rho> = None \<Longrightarrow>
      walk (entry (mem s')) (p4 mm) \<rho> = None"
proof -
  obtain s3 t where g: "pt_grown (p4 mm) s s3"
    and w: "walk (entry (mem s3)) (p4 mm) [P4_NDX v, P3_NDX v, P2_NDX v] = Some t"
    and c: "card (free_frames s) \<le> card (free_frames s3) + 3"
    and r: "vmm_map_page mm v phys flags s =
       (mm, s3\<lparr>mem := st64 (mem s3) (P_TO_V t + 8 * P1_NDX v) (phys OR flags)\<rparr>)"
    and new: "\<And>\<rho>. path_ok \<rho> \<Longrightarrow> \<not> prefix \<rho> [P4_NDX v, P3_NDX v, P2_NDX v] \<Longrightarrow> walk (entry (mem s)) (p4 mm) \<rho> = None \<Longrightarrow>
      walk (entry (mem s3)) (p4 mm) \<rho> = None"
    by (rule map_page_descent [OF assms(1-4)]) blast
  have s': "mm' = mm" "s' = s3\<lparr>mem := st64 (mem s3) (P_TO_V t + 8 * P1_NDX v) (phys OR flags)\<rparr>"
    using call r by simp_all
  note st = leaf_store [OF pt_grown_inv [OF g] w, where e = "phys OR flags", folded s'(2)]
  show "mm' = mm" "pt_inv s' (p4 mm)" by (rule s' st)+
  show "pt_kept (p4 mm) s s'" using g pt_kept_trans st(2) by (auto simp: pt_grown_def)
  show "pt_lookup (mem s') (p4 mm) w
           = (if page_no w = page_no v then phys OR flags else pt_lookup (mem s) (p4 mm) w)" for w
    using g st(3) by (simp add: pt_grown_def)
  show "card (free_frames s) \<le> card (free_frames s') + 3" using c st(5) by simp
  show "\<exists>t. walk (entry (mem s')) (p4 mm) [P4_NDX v, P3_NDX v, P2_NDX v] = Some t"
    using w st(4) [OF path_ok_NDX(3) [of v]] by simp
  show "walk (entry (mem s')) (p4 mm) \<rho> = None"
    if "path_ok \<rho>" "\<not> prefix \<rho> [P4_NDX v, P3_NDX v, P2_NDX v]" "walk (entry (mem s)) (p4 mm) \<rho> = None" for \<rho>
    using new [OF that] st(4) [OF that(1)] by simp
qed

lemma vmm_map_page_spec:
  assumes ok: "mm_ok s mm" and free: "4 \<le> card (free_frames s)" and fl: "unat flags < 4096"
    and call: "vmm_map_page mm v phys flags s = (mm', s')"
  shows "mm_ok s' mm'" and "p4 mm' \<noteq> 0" and "p4 mm \<noteq> 0 \<Longrightarrow> mm' = mm" and "vm_areas mm' = vm_areas mm"
    and "\<And>w. mm_lookup (mem s') mm' w
           = (if page_no w = page_no v then phys OR flags else mm_lookup (mem s) mm w)"
    and "card (free_frames s) \<le> card (free_frames s') + 4"
    and "used_frames s \<subseteq> used_frames s'"
    and "mm_tables (mem s') mm' \<inter> used_frames s \<subseteq> mm_tables (mem s) mm"
    and "\<And>x. x \<in> frame_bytes (used_frames s - mm_tables (mem s) mm) \<Longrightarrow> mem s' x = mem s x"
    and "\<exists>t. walk (entry (mem s')) (p4 mm') [P4_NDX v, P3_NDX v, P2_NDX v] = Some t"
    and "active_regions s' = active_regions s"
    and "\<And>x. x \<notin> phys_bytes (active_regions s) \<Longrightarrow> mem s' x = mem s x"
    and "mm_live (mem s) mm \<Longrightarrow> phys OR flags \<noteq> 0 \<Longrightarrow> mm_live (mem s') mm'"
proof -
  have inv: "pmm_inv s" and ne: "free_frames s \<noteq> {}" using ok free by (auto simp: mm_ok_def)
  obtain a s1 where al: "pmm_alloc s = (a, s1)" by (cases "pmm_alloc s")
  define mm1 and s1' where "mm1 = (if p4 mm = 0 then mm\<lparr>p4 := a\<rparr> else mm)"
    and "s1' = (if p4 mm = 0 then s1 else s)"
  note als = pmm_alloc_spec [OF inv ne al] and fresh = pmm.alloc_fresh(1) [OF inv ne al]
    and new = map_page_new_root [OF inv ne al]
  have c1: "card (free_frames s) \<le> card (free_frames s1') + 1"
    using als(1,5) card_Suc_Diff1 [of "free_frames s" a] by (auto simp: s1'_def)
  have pt: "pt_inv s1' (p4 mm1)" "p4 mm1 \<noteq> 0"
    using new(2) ok als(2) by (auto simp: mm1_def s1'_def mm_ok_def)
  have call1: "vmm_map_page mm1 v phys flags s1' = (mm', s')"
    using call new(1) [of mm, symmetric] by (cases "p4 mm = 0") (simp_all add: mm1_def s1'_def)
  have look1: "pt_lookup (mem s1') (p4 mm1) w = mm_lookup (mem s) mm w" for w
    using new(4) by (simp add: mm_lookup_def mm1_def s1'_def)
  have keep1: "used_frames s \<subseteq> used_frames s1'"
      "tables (mem s1') (p4 mm1) \<inter> used_frames s \<subseteq> mm_tables (mem s) mm"
    using als(6) new(3) fresh by (auto simp: mm1_def s1'_def mm_tables_def)
  have mem1: "mem s1' x = mem s x" if "x \<in> frame_bytes (used_frames s)" for x
    using pmm.alloc_keeps [OF inv ne al that] by (simp add: s1'_def)
  have "3 \<le> card (free_frames s1')" using free c1 by simp
  note m = map_page_existing [OF pt this fl call1]
  have p4': "p4 mm' \<noteq> 0" using m(1) pt(2) by simp
  show "mm_ok s' mm'" "p4 mm' \<noteq> 0" "p4 mm \<noteq> 0 \<Longrightarrow> mm' = mm" "vm_areas mm' = vm_areas mm"
    using m(1,2) p4' by (auto simp: mm_ok_def pt_inv_def mm1_def)
  show "mm_lookup (mem s') mm' w
      = (if page_no w = page_no v then phys OR flags else mm_lookup (mem s) mm w)" for w
    using m(1,4) p4' look1 by (simp add: mm_lookup_def [of "mem s'"])
  show "card (free_frames s) \<le> card (free_frames s') + 4" using c1 m(5) by simp
  show "used_frames s \<subseteq> used_frames s'" using keep1(1) m(3) by (auto simp: pt_kept_def)
  show "mm_tables (mem s') mm' \<inter> used_frames s \<subseteq> mm_tables (mem s) mm"
    using keep1 m(1,3) pt(2) by (auto simp: pt_kept_def mm_tables_def [of "mem s'"])
  show "mem s' x = mem s x" if x: "x \<in> frame_bytes (used_frames s - mm_tables (mem s) mm)" for x
  proof -
    have "used_frames s - mm_tables (mem s) mm \<subseteq> used_frames s1' - tables (mem s1') (p4 mm1)"
      "used_frames s - mm_tables (mem s) mm \<subseteq> used_frames s" using keep1 by auto
    then have "x \<in> frame_bytes (used_frames s1' - tables (mem s1') (p4 mm1))" "x \<in> frame_bytes (used_frames s)"
      using x frame_bytes_mono by blast+
    with m(3) mem1 show ?thesis by (simp add: pt_kept_def)
  qed
  show "\<exists>t. walk (entry (mem s')) (p4 mm') [P4_NDX v, P3_NDX v, P2_NDX v] = Some t"
    using m(1,6) by simp
  show "mm_live (mem s') mm'" if live: "mm_live (mem s) mm" and e: "phys OR flags \<noteq> 0"
  proof -
    have new: "walk (entry (mem s')) (p4 mm1) \<rho> = None"
      if "path_ok \<rho>" "\<not> prefix \<rho> [P4_NDX v, P3_NDX v, P2_NDX v]" "p4 mm \<noteq> 0 \<longrightarrow> walk (entry (mem s)) (p4 mm) \<rho> = None" for \<rho>
    proof (rule m(7) [OF that(1,2)], cases "p4 mm = 0")
      case True
      then show "walk (entry (mem s1')) (p4 mm1) \<rho> = None"
        using walk_empty_root [of "entry (mem s1)" a \<rho>] alloc_entry(2) [OF inv ne al] that(1,2) by (auto simp: s1'_def mm1_def)
    qed (use that(3) in \<open>simp add: s1'_def mm1_def\<close>)
    show ?thesis
    proof (cases "p4 mm = 0")
      case True
      then have "pt_live (mem s') (p4 mm1)" unfolding pt_live_def
        using new e m(4) [of v] by (metis (no_types, lifting))
      then show ?thesis using m(1) by (simp add: mm_live_def)
    next
      case False
      then have eq: "mm1 = mm" "s1' = s" by (simp_all add: mm1_def s1'_def)
      have "pt_live (mem s') (p4 mm)"
        by (rule pt_live_mapped [OF _ e m(4) [unfolded eq]]) (use live False new in \<open>simp_all add: mm_live_def eq\<close>)
      then show ?thesis using m(1) by (simp add: mm_live_def eq)
    qed
  qed
  have ar1: "active_regions s1' = active_regions s" using als(10) by (simp add: s1'_def)
  with m(3) show "active_regions s' = active_regions s" by (simp add: pt_kept_def)
  show "mem s' x = mem s x" if x: "x \<notin> phys_bytes (active_regions s)" for x
  proof -
    have "mem s' x = mem s1' x" using m(3) ar1 x by (simp add: pt_kept_def)
    also have "\<dots> = mem s x"
      using frame_in_phys_bytes [OF inv disjI2 [OF als(1)] x] als(8) [of x] by (simp add: s1'_def del: in_rng)
    finally show ?thesis .
  qed
qed

lemma vmm_get_phys_lookup:
  assumes "walk (entry m) (p4 mm) [P4_NDX v, P3_NDX v, P2_NDX v] = Some t"
  shows "vmm_get_phys m mm v = page_base (pt_lookup m (p4 mm) v)"
  using assms by (simp add: vmm_get_phys_def pt_lookup_def access_p1 del: walk.simps)

subsection \<open>Unmapping\<close>

lemma all_512_zero_iff: "all_512_zero get \<longleftrightarrow> (\<forall>i<512. get i = 0)"
proof -
  have "of_nat n < (512 :: u64)" if "n < 512" for n
    using that by (simp add: word_less_nat_alt unat_of_nat_u64)
  moreover have "unat i < 512" if "i < (512 :: u64)" for i
    using that by (simp add: word_less_nat_alt)
  ultimately have "(\<forall>n<512. get (of_nat n) = 0) \<longleftrightarrow> (\<forall>i<512. get i = 0)"
    using u64_of_unat by metis
  then show ?thesis by (auto simp: all_512_zero_def list_all_iff)
qed

text \<open>What unmapping the page of \<open>v\<close> makes of an address space.\<close>

definition mm_unmapped :: "u64 \<Rightarrow> 'a pmm_state_scheme \<Rightarrow> mm \<Rightarrow> 'a pmm_state_scheme \<Rightarrow> mm \<Rightarrow> bool" where
  "mm_unmapped v s mm s' mm' \<longleftrightarrow> mm_ok s' mm' \<and> vm_areas mm' = vm_areas mm
     \<and> (\<forall>w. mm_lookup (mem s') mm' w = (if page_no w = page_no v then 0 else mm_lookup (mem s) mm w))
     \<and> mm_tables (mem s') mm' \<subseteq> mm_tables (mem s) mm
     \<and> used_frames s' = used_frames s - (mm_tables (mem s) mm - mm_tables (mem s') mm')
     \<and> free_frames s' = free_frames s \<union> (mm_tables (mem s) mm - mm_tables (mem s') mm')
     \<and> (\<forall>x \<in> frame_bytes (used_frames s - mm_tables (mem s) mm). mem s' x = mem s x)
     \<and> phys_only s s'"

lemma unmapped_shrunk:
  assumes nz: "p4 mm \<noteq> 0" and pt: "pt_inv s (p4 mm)"
    and t: "walk (entry (mem s)) (p4 mm) [P4_NDX v, P3_NDX v, P2_NDX v] = Some t"
    and sh: "pt_shrunk (p4 mm) (s\<lparr>mem := st64 (mem s) (P_TO_V t + 8 * P1_NDX v) 0\<rparr>) s'"
  shows "mm_unmapped v s mm s' mm" and "stops_at (mem s') (p4 mm) v \<Longrightarrow> mm_live (mem s) mm \<Longrightarrow> mm_live (mem s') mm"
proof -
  define s0 where "s0 = s\<lparr>mem := st64 (mem s) (P_TO_V t + 8 * P1_NDX v) 0\<rparr>"
  note st = leaf_store [OF pt t, where e = 0, folded s0_def] and sh = sh [folded s0_def]
  have tab: "tables (mem s0) (p4 mm) = tables (mem s) (p4 mm)" using st(4) by (auto simp: tables_def)
  have "phys_only s s0"
    unfolding s0_def using pt pt_inv_table(1) [OF pt path_ok_NDX(3) t] NDX_bound(4) by (intro phys_only_store) (simp_all add: pt_inv_def)
  then have ph: "phys_only s s'" using sh phys_only_trans by (auto simp: pt_shrunk_def)
  have look: "pt_lookup (mem s') (p4 mm) w = (if page_no w = page_no v then 0 else pt_lookup (mem s) (p4 mm) w)" for w
    using sh st(3) by (simp add: pt_shrunk_def)
  show "mm_live (mem s') mm" if "stops_at (mem s') (p4 mm) v" "mm_live (mem s) mm"
    using pt_live_unmapped [OF _ that(1) look] that(2) nz sh st(4) by (simp add: mm_live_def pt_shrunk_def)
  have "tables (mem s) (p4 mm) \<subseteq> used_frames s" using pt_inv_table(1) [OF pt] by (auto simp: tables_def)
  then show "mm_unmapped v s mm s' mm"
    using sh nz st(2,3,5,6) tab ph
    by (auto simp: mm_unmapped_def pt_shrunk_def mm_ok_def pt_inv_def mm_lookup_def mm_tables_def pt_kept_def)
qed

lemma unmapped_root:
  assumes nz: "p4 mm \<noteq> 0" and un: "mm_unmapped v s mm s' mm"
    and z: "\<And>j. j < 512 \<Longrightarrow> entry (mem s') (p4 mm) j = 0" and call: "pmm_free (p4 mm) s' = Inr s''"
  shows "mm_unmapped v s mm s'' (mm\<lparr>p4 := 0\<rparr>)"
proof -
  have pt: "pt_inv s' (p4 mm)" using un nz by (simp add: mm_unmapped_def mm_ok_def)
  then have inv: "pmm_inv s'" and root: "p4 mm \<in> used_frames s'"
    using pt_inv_table(1) [OF pt path_ok_Nil] by (simp_all add: pt_inv_def)
  note rel = release_entry [OF inv root call]
  have rt: "mm_tables (mem s') mm = {p4 mm}" using nz empty_root(2) [OF z] by (simp add: mm_tables_def)
  have "used_frames s - mm_tables (mem s) mm \<subseteq> used_frames s'"
    using un by (auto simp: mm_unmapped_def)
  then have "mem s'' x = mem s' x" if "x \<in> frame_bytes (used_frames s - mm_tables (mem s) mm)" for x
    using that rel(5) frame_bytes_mono by blast
  moreover have "mm_lookup (mem s') mm w = 0" for w
    using nz empty_root(3) [OF z] by (simp add: mm_lookup_def)
  moreover have "phys_only s s''" using un phys_only_trans [OF _ phys_only_free [OF inv root call]] by (auto simp: mm_unmapped_def)
  ultimately show ?thesis
    using un rel(1-3) rt root by (auto simp: mm_unmapped_def mm_ok_def mm_lookup_def [of "mem s''"] mm_tables_def [of "mem s''"])
qed

text \<open>The rest of \<open>vmm_unmap_page\<close> from the check of a level upwards.\<close>

definition unmap_p4 :: "mm \<Rightarrow> 'a pmm_state_scheme \<Rightarrow> (mm \<times> 'a pmm_state_scheme) res" where
  "unmap_p4 mm s = (if \<not> all_512_zero (p4_get_entry (mem s) mm) then Inr (mm, s)
     else rbind (pmm_free (p4 mm) s) (\<lambda>s. Inr (mm\<lparr>p4 := 0\<rparr>, s)))"

definition unmap_p3 :: "mm \<Rightarrow> u64 \<Rightarrow> 'a pmm_state_scheme \<Rightarrow> (mm \<times> 'a pmm_state_scheme) res" where
  "unmap_p3 mm v s = (if \<not> all_512_zero (p3_get_entry (mem s) mm (P4_NDX v)) then Inr (mm, s)
     else rbind (pmm_free (page_base (p4_get_entry (mem s) mm (P4_NDX v))) s)
       (\<lambda>s. unmap_p4 mm (s\<lparr>mem := p4_set_entry (mem s) mm (P4_NDX v) 0\<rparr>)))"

definition unmap_p2 :: "mm \<Rightarrow> u64 \<Rightarrow> 'a pmm_state_scheme \<Rightarrow> (mm \<times> 'a pmm_state_scheme) res" where
  "unmap_p2 mm v s = (if \<not> all_512_zero (p2_get_entry (mem s) mm (P4_NDX v) (P3_NDX v)) then Inr (mm, s)
     else rbind (pmm_free (page_base (p3_get_entry (mem s) mm (P4_NDX v) (P3_NDX v))) s)
       (\<lambda>s. unmap_p3 mm v (s\<lparr>mem := p3_set_entry (mem s) mm (P4_NDX v) (P3_NDX v) 0\<rparr>)))"

definition unmap_p1 :: "mm \<Rightarrow> u64 \<Rightarrow> 'a pmm_state_scheme \<Rightarrow> (mm \<times> 'a pmm_state_scheme) res" where
  "unmap_p1 mm v s =
     (if \<not> all_512_zero (p1_get_entry (mem s) mm (P4_NDX v) (P3_NDX v) (P2_NDX v)) then Inr (mm, s)
     else rbind (pmm_free (page_base (p2_get_entry (mem s) mm (P4_NDX v) (P3_NDX v) (P2_NDX v))) s)
       (\<lambda>s. unmap_p2 mm v (s\<lparr>mem := p2_set_entry (mem s) mm (P4_NDX v) (P3_NDX v) (P2_NDX v) 0\<rparr>)))"

lemma unmap_page_levels:
  "vmm_unmap_page mm v s =
   unmap_p1 mm v (s\<lparr>mem := p1_set_entry (mem s) mm (P4_NDX v) (P3_NDX v) (P2_NDX v) (P1_NDX v) 0\<rparr>)"
  unfolding vmm_unmap_page_def unmap_p1_def unmap_p2_def unmap_p3_def unmap_p4_def Let_def ..

lemma unmap_stage:
  assumes sh: "pt_shrunk root s0 s" and ok: "path_ok (\<pi> @ [i])" and t: "walk (entry (mem s)) root \<pi> = Some t"
    and n: "walk (entry (mem s)) root (\<pi> @ [i]) = Some n" and z: "\<forall>j<512. entry (mem s) n j = 0"
  obtains s1 s2 where "pmm_free n s = Inr s1" "walk (entry (mem s1)) root \<pi> = Some t"
    "s2 = s1\<lparr>mem := st64 (mem s1) (P_TO_V t + 8 * i) 0\<rparr>" "pt_shrunk root s0 s2"
    "\<forall>\<rho>. path_ok \<rho> \<and> length \<rho> \<le> length \<pi> \<longrightarrow> walk (entry (mem s2)) root \<rho> = walk (entry (mem s)) root \<rho>"
    "walk (entry (mem s2)) root (\<pi> @ [i]) = None"
proof -
  have pt: "pt_inv s root" using sh by (simp add: pt_shrunk_def)
  then have inv: "pmm_inv s" by (simp add: pt_inv_def)
  obtain s1 where call: "pmm_free n s = Inr s1"
    using pmm.release_frame [OF inv pt_inv_table(1) [OF pt ok n]] by blast
  note un = unlink_table [OF pt ok t n z call]
  show thesis
  proof (rule that [OF call _ refl])
    show "walk (entry (mem s1)) root \<pi> = Some t" using un(2) [of \<pi>] ok t by (simp add: path_ok_snoc)
    show "pt_shrunk root s0 (s1\<lparr>mem := st64 (mem s1) (P_TO_V t + 8 * i) 0\<rparr>)"
      by (rule pt_shrunk_trans [OF sh un(1)])
    have "\<not> prefix (\<pi> @ [i]) \<rho>" if "length \<rho> \<le> length \<pi>" for \<rho>
      using prefix_length_le [of "\<pi> @ [i]" \<rho>] that by auto
    with un(3) show "\<forall>\<rho>. path_ok \<rho> \<and> length \<rho> \<le> length \<pi> \<longrightarrow>
      walk (entry (mem (s1\<lparr>mem := st64 (mem s1) (P_TO_V t + 8 * i) 0\<rparr>))) root \<rho>
        = walk (entry (mem s)) root \<rho>" by auto
    show "walk (entry (mem (s1\<lparr>mem := st64 (mem s1) (P_TO_V t + 8 * i) 0\<rparr>))) root (\<pi> @ [i]) = None" using un(3) [OF ok] by simp
  qed
qed

lemma page_base_access:
  "walk (entry m) (p4 mm) [i4] = Some t \<Longrightarrow> page_base (p4_get_entry m mm i4) = t"
  "walk (entry m) (p4 mm) [i4, i3] = Some t \<Longrightarrow> page_base (p3_get_entry m mm i4 i3) = t"
  "walk (entry m) (p4 mm) [i4, i3, i2] = Some t \<Longrightarrow> page_base (p2_get_entry m mm i4 i3 i2) = t"
  by (simp_all add: p4_get_entry_def p3_get_entry_def p2_get_entry_def entry_def split: if_splits)

text \<open>
  Each level ends in a state reached from \<open>s0\<close> by cutting off empty tables, or with the whole
  tree given back.
\<close>

definition unmap_done :: "mm \<Rightarrow> u64 \<Rightarrow> 'a pmm_state_scheme \<Rightarrow> (mm \<times> 'a pmm_state_scheme) res \<Rightarrow> bool" where
  "unmap_done mm v s0 r \<longleftrightarrow>
     (\<exists>s. pt_shrunk (p4 mm) s0 s \<and> (r = Inr (mm, s) \<and> stops_at (mem s) (p4 mm) v \<or>
        (\<forall>j<512. entry (mem s) (p4 mm) j = 0) \<and> (\<exists>s'. pmm_free (p4 mm) s = Inr s' \<and> r = Inr (mm\<lparr>p4 := 0\<rparr>, s'))))"

lemma unmap_done_stop:
  assumes "pt_shrunk (p4 mm) s0 s" "n \<le> 3" "walk (entry (mem s)) (p4 mm) (take n [P4_NDX v, P3_NDX v, P2_NDX v]) = Some t"
    "\<not> (\<forall>j<512. entry (mem s) t j = 0)" "n < 3 \<longrightarrow> walk (entry (mem s)) (p4 mm) (take (Suc n) [P4_NDX v, P3_NDX v, P2_NDX v]) = None"
  shows "unmap_done mm v s0 (Inr (mm, s))"
  using assms unfolding unmap_done_def stops_at_def by blast

lemma unmap_p4_done:
  assumes sh: "pt_shrunk (p4 mm) s0 s" and no: "walk (entry (mem s)) (p4 mm) [P4_NDX v] = None"
  shows "unmap_done mm v s0 (unmap_p4 mm s)"
proof -
  have "pt_inv s (p4 mm)" using sh by (simp add: pt_shrunk_def)
  then have "pmm_inv s" "p4 mm \<in> used_frames s"
    using pt_inv_table(1) [OF _ path_ok_Nil walk.simps(1)] by (auto simp: pt_inv_def)
  then obtain s' where "pmm_free (p4 mm) s = Inr s'" using pmm.release_frame by blast
  moreover have "all_512_zero (p4_get_entry (mem s) mm) \<longleftrightarrow> (\<forall>j<512. entry (mem s) (p4 mm) j = 0)"
    by (simp add: all_512_zero_iff access_p4)
  ultimately show ?thesis using sh no unmap_done_stop [OF sh, of 0 v "p4 mm"] unfolding unmap_p4_def
    by (auto simp: unmap_done_def)
qed

lemma unmap_p3_done:
  assumes sh: "pt_shrunk (p4 mm) s0 s" and w: "walk (entry (mem s)) (p4 mm) [P4_NDX v] = Some t"
    and no: "walk (entry (mem s)) (p4 mm) [P4_NDX v, P3_NDX v] = None"
  shows "unmap_done mm v s0 (unmap_p3 mm v s)"
proof (cases "\<forall>j<512. entry (mem s) t j = 0")
  case True
  obtain s1 s2 where "pmm_free t s = Inr s1"
    and s2: "s2 = s1\<lparr>mem := st64 (mem s1) (P_TO_V (p4 mm) + 8 * P4_NDX v) 0\<rparr>" and sh2: "pt_shrunk (p4 mm) s0 s2"
    and no2: "walk (entry (mem s2)) (p4 mm) ([] @ [P4_NDX v]) = None"
    by (rule unmap_stage [OF sh _ walk.simps(1) _ True, of "P4_NDX v"]) (use w in \<open>simp_all del: walk.simps(2)\<close>)
  with unmap_p4_done [OF sh2, of v] True show ?thesis
    by (simp add: unmap_p3_def page_base_access(1) [OF w] all_512_zero_iff access_p3(1) [OF w] access_p4(2) del: walk.simps)
next
  case False
  then show ?thesis using unmap_done_stop [OF sh, of 1 v t] w no unfolding unmap_p3_def all_512_zero_iff access_p3(1) [OF w]
    by (simp add: numeral_2_eq_2 del: walk.simps)
qed

lemma unmap_p2_done:
  assumes sh: "pt_shrunk (p4 mm) s0 s" and w3: "walk (entry (mem s)) (p4 mm) [P4_NDX v] = Some t3"
    and w: "walk (entry (mem s)) (p4 mm) [P4_NDX v, P3_NDX v] = Some t"
    and no: "walk (entry (mem s)) (p4 mm) [P4_NDX v, P3_NDX v, P2_NDX v] = None"
  shows "unmap_done mm v s0 (unmap_p2 mm v s)"
proof (cases "\<forall>j<512. entry (mem s) t j = 0")
  case True
  obtain s1 s2 where s1: "pmm_free t s = Inr s1" "walk (entry (mem s1)) (p4 mm) [P4_NDX v] = Some t3"
    and s2: "s2 = s1\<lparr>mem := st64 (mem s1) (P_TO_V t3 + 8 * P3_NDX v) 0\<rparr>" and sh2: "pt_shrunk (p4 mm) s0 s2"
    and W: "\<forall>\<rho>. path_ok \<rho> \<and> length \<rho> \<le> length [P4_NDX v] \<longrightarrow>
      walk (entry (mem s2)) (p4 mm) \<rho> = walk (entry (mem s)) (p4 mm) \<rho>"
    and no2: "walk (entry (mem s2)) (p4 mm) ([P4_NDX v] @ [P3_NDX v]) = None"
    by (rule unmap_stage [OF sh _ w3 _ True, of "P3_NDX v"]) (use w in \<open>simp_all del: walk.simps(2)\<close>)
  have "walk (entry (mem s2)) (p4 mm) [P4_NDX v] = Some t3" using W w3 by (simp del: walk.simps)
  from unmap_p3_done [OF sh2 this] no2 s1(1) s2 True show ?thesis
    by (simp add: unmap_p2_def page_base_access(2) [OF w] all_512_zero_iff access_p2(1) [OF w]
      access_p3(2) [OF s1(2)] del: walk.simps)
next
  case False
  then show ?thesis using unmap_done_stop [OF sh, of 2 v t] w no unfolding unmap_p2_def all_512_zero_iff access_p2(1) [OF w]
    by (simp add: numeral_2_eq_2 del: walk.simps)
qed

lemma unmap_p1_done:
  assumes sh: "pt_shrunk (p4 mm) s0 s" and w3: "walk (entry (mem s)) (p4 mm) [P4_NDX v] = Some t3"
    and w2: "walk (entry (mem s)) (p4 mm) [P4_NDX v, P3_NDX v] = Some t2"
    and w: "walk (entry (mem s)) (p4 mm) [P4_NDX v, P3_NDX v, P2_NDX v] = Some t"
  shows "unmap_done mm v s0 (unmap_p1 mm v s)"
proof (cases "\<forall>j<512. entry (mem s) t j = 0")
  case True
  obtain s1 s2 where s1: "pmm_free t s = Inr s1" "walk (entry (mem s1)) (p4 mm) [P4_NDX v, P3_NDX v] = Some t2"
    and s2: "s2 = s1\<lparr>mem := st64 (mem s1) (P_TO_V t2 + 8 * P2_NDX v) 0\<rparr>" and sh2: "pt_shrunk (p4 mm) s0 s2"
    and W: "\<forall>\<rho>. path_ok \<rho> \<and> length \<rho> \<le> length [P4_NDX v, P3_NDX v] \<longrightarrow>
      walk (entry (mem s2)) (p4 mm) \<rho> = walk (entry (mem s)) (p4 mm) \<rho>"
    and no2: "walk (entry (mem s2)) (p4 mm) ([P4_NDX v, P3_NDX v] @ [P2_NDX v]) = None"
    by (rule unmap_stage [OF sh _ w2 _ True, of "P2_NDX v"]) (use w in \<open>simp_all del: walk.simps(2)\<close>)
  have "walk (entry (mem s2)) (p4 mm) [P4_NDX v] = Some t3"
    "walk (entry (mem s2)) (p4 mm) [P4_NDX v, P3_NDX v] = Some t2"
    using W w3 w2 by (simp_all del: walk.simps)
  from unmap_p2_done [OF sh2 this] no2 s1(1) s2 True show ?thesis
    by (simp add: unmap_p1_def page_base_access(3) [OF w] all_512_zero_iff access_p1(1) [OF w]
      access_p2(2) [OF s1(2)] del: walk.simps)
next
  case False
  then show ?thesis using unmap_done_stop [OF sh, of 3 v t] w unfolding unmap_p1_def all_512_zero_iff access_p1(1) [OF w]
    by (simp del: walk.simps)
qed

lemma vmm_unmap_page_spec:
  assumes pt: "pt_inv s (p4 mm)" and nz: "p4 mm \<noteq> 0"
    and w: "walk (entry (mem s)) (p4 mm) [P4_NDX v, P3_NDX v, P2_NDX v] = Some t"
  shows "\<exists>mm' s'. vmm_unmap_page mm v s = Inr (mm', s') \<and> mm_unmapped v s mm s' mm' \<and> (mm_live (mem s) mm \<longrightarrow> mm_live (mem s') mm')"
proof -
  obtain t3 t2 where w3: "walk (entry (mem s)) (p4 mm) [P4_NDX v] = Some t3"
    and w2: "walk (entry (mem s)) (p4 mm) [P4_NDX v, P3_NDX v] = Some t2"
    using w by (auto split: if_splits)
  define s0 where "s0 = s\<lparr>mem := st64 (mem s) (P_TO_V t + 8 * P1_NDX v) 0\<rparr>"
  note st = leaf_store [OF pt w, where e = 0, folded s0_def]
  note W = st(4) [OF path_ok_NDX(1) [of v]] st(4) [OF path_ok_NDX(2) [of v]] st(4) [OF path_ok_NDX(3) [of v]]
  note unm = unmapped_shrunk [OF nz pt w, folded s0_def]
  have "vmm_unmap_page mm v s = unmap_p1 mm v s0"
    by (simp add: unmap_page_levels s0_def access_p1 [OF w])
  moreover have "unmap_done mm v s0 (unmap_p1 mm v s0)"
    by (rule unmap_p1_done [OF pt_shrunk_refl [OF st(1)]]) (use W w3 w2 w in \<open>simp_all del: walk.simps\<close>)
  ultimately obtain s1 where s1: "pt_shrunk (p4 mm) s0 s1"
    and r: "vmm_unmap_page mm v s = Inr (mm, s1) \<and> stops_at (mem s1) (p4 mm) v \<or>
      (\<forall>j<512. entry (mem s1) (p4 mm) j = 0) \<and> (\<exists>s'. pmm_free (p4 mm) s1 = Inr s' \<and> vmm_unmap_page mm v s = Inr (mm\<lparr>p4 := 0\<rparr>, s'))"
    unfolding unmap_done_def by metis
  note u = unm(1) [OF s1]
  from r show ?thesis
  proof (elim disjE conjE exE)
    assume "vmm_unmap_page mm v s = Inr (mm, s1)" "stops_at (mem s1) (p4 mm) v"
    then show ?thesis using u unm(2) [OF s1] by blast
  next
    fix s' assume z: "\<forall>j<512. entry (mem s1) (p4 mm) j = 0" and call: "pmm_free (p4 mm) s1 = Inr s'"
      and e: "vmm_unmap_page mm v s = Inr (mm\<lparr>p4 := 0\<rparr>, s')"
    have "mm_unmapped v s mm s' (mm\<lparr>p4 := 0\<rparr>)" by (rule unmapped_root [OF nz u _ call]) (use z in blast)
    then show ?thesis using e by (auto simp: mm_live_def)
  qed
qed


section \<open>Properties\<close>

definition sample_mm :: mm where
  "sample_mm = \<lparr>p4 = 0, vm_areas = []\<rparr>"

lemma sample_mm_ok: "mm_ok sample_pmm sample_mm"
  using sample_pmm_facts(1) by (simp add: mm_ok_def sample_mm_def)

lemma sample_4_free: "4 \<le> card (free_frames sample_pmm)"
  using sample_pmm_facts(3) by simp

text \<open>
  C9. With four free frames, \<open>vmm_map_page\<close> makes the page of \<open>virt\<close> map to \<^verbatim>\<open>phys | flags\<close> and
  leaves what every other page maps to unchanged, whether or not the address space had tables
  before. The tables stay a tree of distinct allocated frames, at most four frames are used up,
  and no allocated frame that is not one of its tables changes, nor does any memory outside the
  allocator's regions.
\<close>

theorem vmm_map_page_correct:
  assumes "mm_ok s mm" and "4 \<le> card (free_frames s)" and "unat flags < 4096"
  shows "case vmm_map_page mm virt phys flags s of (mm', s') \<Rightarrow>
    mm_ok s' mm' \<and> p4 mm' \<noteq> 0 \<and> vm_areas mm' = vm_areas mm
    \<and> (\<forall>w. mm_lookup (mem s') mm' w = (if page_no w = page_no virt then phys OR flags else mm_lookup (mem s) mm w))
    \<and> card (free_frames s) \<le> card (free_frames s') + 4 \<and> used_frames s \<subseteq> used_frames s'
    \<and> (\<forall>x \<in> frame_bytes (used_frames s - mm_tables (mem s) mm). mem s' x = mem s x)
    \<and> (\<forall>x. x \<notin> phys_bytes (active_regions s) \<longrightarrow> mem s' x = mem s x)"
proof (cases "vmm_map_page mm virt phys flags s")
  case (Pair mm' s')
  show ?thesis unfolding Pair prod.case using vmm_map_page_spec [OF assms Pair] by blast
qed

theorem vmm_map_page_correct_witness:
  "case vmm_map_page sample_mm 0x400000 0x123000 7 sample_pmm of (mm', s') \<Rightarrow>
     mm_ok s' mm' \<and> mm_lookup (mem s') mm' 0x400000 = 0x123007 \<and> mm_lookup (mem s') mm' 0x401000 = 0"
  using vmm_map_page_correct [OF sample_mm_ok sample_4_free, where flags = 7 and virt = "0x400000" and phys = "0x123000"]
  by (auto simp: page_no_def mm_lookup_def [of "mem sample_pmm"] sample_mm_def split: prod.splits)

text \<open>
  C10. A page that has been mapped is found again: \<open>vmm_get_phys\<close> returns the frame it was mapped
  to, for every address inside the page.
\<close>

theorem vmm_map_page_get_phys:
  assumes "mm_ok s mm" and "4 \<le> card (free_frames s)" and "unat flags < 4096" and "aligned phys"
    and "page_no v = page_no virt"
  shows "case vmm_map_page mm virt phys flags s of (mm', s') \<Rightarrow> vmm_get_phys (mem s') mm' v = phys"
proof (cases "vmm_map_page mm virt phys flags s")
  case (Pair mm' s')
  note sp = vmm_map_page_spec [OF assms(1-3) Pair]
  have "P4_NDX v = P4_NDX virt" "P3_NDX v = P3_NDX virt" "P2_NDX v = P2_NDX virt"
    using NDX_eq_iff [of v virt] assms(5) by auto
  then obtain t where "walk (entry (mem s')) (p4 mm') [P4_NDX v, P3_NDX v, P2_NDX v] = Some t"
    using sp(10) by (auto simp del: walk.simps)
  from vmm_get_phys_lookup [OF this] have "vmm_get_phys (mem s') mm' v = page_base (phys OR flags)"
    using sp(2) sp(5) [of v] assms(5) by (simp add: mm_lookup_def)
  also have "\<dots> = phys" by (rule page_base_or_flags [OF assms(4,3)])
  finally show ?thesis unfolding Pair by simp
qed

theorem vmm_map_page_get_phys_witness:
  "case vmm_map_page sample_mm 0x400000 0x123000 3 sample_pmm of (mm', s') \<Rightarrow> vmm_get_phys (mem s') mm' 0x400123 = 0x123000"
  by (rule vmm_map_page_get_phys [OF sample_mm_ok sample_4_free]) (simp_all add: aligned_def page_no_def)

text \<open>
  C11. Unmapping a page whose tables exist returns: the page maps to nothing and every other page maps to what
  it did. Exactly the tables that are no longer part of the tree are given back, and the contents of all other
  frames in use are unchanged. When every table was there for some mapped page, this is still so: no empty
  table is left behind.
\<close>

theorem vmm_unmap_page_correct:
  assumes "mm_ok s mm" and "p4 mm \<noteq> 0"
    and "walk (entry (mem s)) (p4 mm) [P4_NDX virt, P3_NDX virt, P2_NDX virt] \<noteq> None"
  shows "\<exists>mm' s'. vmm_unmap_page mm virt s = Inr (mm', s') \<and> mm_ok s' mm' \<and> vm_areas mm' = vm_areas mm
     \<and> (\<forall>w. mm_lookup (mem s') mm' w = (if page_no w = page_no virt then 0 else mm_lookup (mem s) mm w))
     \<and> mm_tables (mem s') mm' \<subseteq> mm_tables (mem s) mm
     \<and> used_frames s' = used_frames s - (mm_tables (mem s) mm - mm_tables (mem s') mm')
     \<and> free_frames s' = free_frames s \<union> (mm_tables (mem s) mm - mm_tables (mem s') mm')
     \<and> (\<forall>x \<in> frame_bytes (used_frames s - mm_tables (mem s) mm). mem s' x = mem s x)
     \<and> (mm_live (mem s) mm \<longrightarrow> mm_live (mem s') mm')"
proof -
  have pt: "pt_inv s (p4 mm)" using assms(1,2) by (simp add: mm_ok_def)
  obtain t where "walk (entry (mem s)) (p4 mm) [P4_NDX virt, P3_NDX virt, P2_NDX virt] = Some t"
    using assms(3) by blast
  from vmm_unmap_page_spec [OF pt assms(2) this] show ?thesis unfolding mm_unmapped_def by blast
qed

theorem vmm_unmap_page_correct_witness:
  "case vmm_map_page sample_mm 0x400000 0x123000 3 sample_pmm of (mm1, s1) \<Rightarrow>
     \<exists>mm' s'. vmm_unmap_page mm1 0x400000 s1 = Inr (mm', s') \<and> mm_lookup (mem s') mm' 0x400000 = 0"
proof (cases "vmm_map_page sample_mm 0x400000 0x123000 3 sample_pmm")
  case (Pair mm1 s1)
  have "unat (3 :: u64) < 4096" by simp
  note sp = vmm_map_page_spec [OF sample_mm_ok sample_4_free this Pair]
  have "walk (entry (mem s1)) (p4 mm1) [P4_NDX 0x400000, P3_NDX 0x400000, P2_NDX 0x400000] \<noteq> None"
    using sp(10) by (simp del: walk.simps)
  from vmm_unmap_page_correct [OF sp(1,2) this] show ?thesis unfolding Pair prod.case by auto
qed

end
