(* ===== verification/Heap_Alloc.thy ===== *)
theory Heap_Alloc
  imports Memory
begin

text \<open>
  The contract between the kernel heap (\<^verbatim>\<open>src/src/mm/kmalloc.c\<close>) and the code that allocates
  objects from it: the live objects never overlap, and neither allocating nor releasing an object
  touches the contents of another one.
\<close>

locale heap_allocator =
  fixes alloc :: "u64 \<Rightarrow> 's \<Rightarrow> (u64 \<times> 's) res"
    and release :: "u64 \<Rightarrow> 's \<Rightarrow> 's"
    and inv :: "'s \<Rightarrow> bool"
    and objects :: "'s \<Rightarrow> (u64 \<times> u64) set"
    and read :: "'s \<Rightarrow> memory"
    and max_size :: nat
  assumes objects_disjoint: "inv s \<Longrightarrow> (p, n) \<in> objects s \<Longrightarrow> (q, k) \<in> objects s \<Longrightarrow> p \<noteq> q \<Longrightarrow>
      rng p (unat n) \<inter> rng q (unat k) = {}"
    and objects_size: "inv s \<Longrightarrow> (p, n) \<in> objects s \<Longrightarrow> (p, k) \<in> objects s \<Longrightarrow> n = k"
    and alloc_object: "inv s \<Longrightarrow> 0 < unat n \<Longrightarrow> unat n \<le> max_size \<Longrightarrow> alloc n s = Inr (p, s') \<Longrightarrow>
      inv s' \<and> p \<notin> fst ` objects s \<and> (\<exists>k. n \<le> k \<and> objects s' = insert (p, k) (objects s))"
    and alloc_keeps: "inv s \<Longrightarrow> 0 < unat n \<Longrightarrow> unat n \<le> max_size \<Longrightarrow> alloc n s = Inr (p, s') \<Longrightarrow>
      (q, k) \<in> objects s \<Longrightarrow> x \<in> rng q (unat k) \<Longrightarrow> read s' x = read s x"
    and release_object: "inv s \<Longrightarrow> (p, n) \<in> objects s \<Longrightarrow>
      inv (release p s) \<and> objects (release p s) = objects s - {(p, n)}"
    and release_keeps: "inv s \<Longrightarrow> (p, n) \<in> objects s \<Longrightarrow> (q, k) \<in> objects s \<Longrightarrow> x \<in> rng q (unat k) \<Longrightarrow>
      read (release p s) x = read s x"
begin

text \<open>A new object is nowhere inside a live one.\<close>

lemma alloc_fresh:
  assumes "inv s" "0 < unat n" "unat n \<le> max_size" "alloc n s = Inr (p, s')" "(q, k) \<in> objects s"
  shows "p \<noteq> q" and "rng p (unat n) \<inter> rng q (unat k) = {}"
proof -
  obtain j where j: "inv s'" "n \<le> j" "objects s' = insert (p, j) (objects s)" "p \<notin> fst ` objects s"
    using alloc_object [OF assms(1-4)] by blast
  show "p \<noteq> q" using j(4) assms(5) by force
  with objects_disjoint [OF j(1), of p j q k] j(3) assms(5)
  have "rng p (unat j) \<inter> rng q (unat k) = {}" by simp
  moreover have "rng p (unat n) \<subseteq> rng p (unat j)" using j(2) by (intro rng_mono) (simp add: word_le_nat_alt)
  ultimately show "rng p (unat n) \<inter> rng q (unat k) = {}" by blast
qed

text \<open>Allocating and releasing at once leaves the live objects as they were, contents included.\<close>

lemma alloc_release:
  assumes "inv s" "0 < unat n" "unat n \<le> max_size" "alloc n s = Inr (p, s')"
  shows "inv (release p s')" and "objects (release p s') = objects s"
    and "\<And>q k x. (q, k) \<in> objects s \<Longrightarrow> x \<in> rng q (unat k) \<Longrightarrow> read (release p s') x = read s x"
proof -
  obtain j where j: "inv s'" "objects s' = insert (p, j) (objects s)" "p \<notin> fst ` objects s"
    using alloc_object [OF assms] by blast
  then have p: "(p, j) \<in> objects s'" by simp
  from release_object [OF j(1) p] j show "inv (release p s')" "objects (release p s') = objects s"
    by (auto simp: image_iff)
  fix q k x assume q: "(q, k) \<in> objects s" and x: "x \<in> rng q (unat k)"
  have "read (release p s') x = read s' x" using release_keeps [OF j(1) p _ x] q j(2) by simp
  also have "\<dots> = read s x" by (rule alloc_keeps [OF assms q x])
  finally show "read (release p s') x = read s x" .
qed

text \<open>Two objects allocated one after the other do not overlap.\<close>

lemma alloc_twice:
  assumes "inv s" "0 < unat n" "unat n \<le> max_size" "alloc n s = Inr (p, s')"
    and "0 < unat k" "unat k \<le> max_size" "alloc k s' = Inr (q, s'')"
  shows "rng p (unat n) \<inter> rng q (unat k) = {}"
proof -
  obtain j where j: "inv s'" "n \<le> j" "objects s' = insert (p, j) (objects s)"
    using alloc_object [OF assms(1-4)] by blast
  then have "rng q (unat k) \<inter> rng p (unat j) = {}" using alloc_fresh(2) [OF j(1) assms(5-7)] by blast
  moreover have "rng p (unat n) \<subseteq> rng p (unat j)" using j(2) by (intro rng_mono) (simp add: word_le_nat_alt)
  ultimately show ?thesis by blast
qed

end

end
