(* ===== verification/Kmalloc.thy ===== *)
theory Kmalloc
  imports Heap_Alloc Pmm
begin

text \<open>
  The kernel heap: \<^verbatim>\<open>src/src/mm/kmalloc.c\<close> and \<open>sbrk\<close> of \<^verbatim>\<open>src/src/mm/vmm.c\<close>. The heap is a
  sequence of blocks, each with a 32-byte header \<^verbatim>\<open>struct block\<close> in memory that links it to its
  neighbours; allocation takes the first block that fits and splits it, \<open>free\<close> joins a block with
  its free neighbours.

  The second half relates the headers to the list of blocks they represent (\<open>heap_inv\<close>) and shows
  that the byte-level operations are the operations \<open>place\<close> and \<open>unplace\<close> on that list.
\<close>

section \<open>Operations\<close>

record heap_state = pmm_state +
  kernel_brk :: u64
  heap_base :: u64

definition KERNEL_BRK_START :: u64 where "KERNEL_BRK_START = 0xFFFFC90000000000"
definition KERNEL_BRK_PAGES :: u64 where "KERNEL_BRK_PAGES = 128"
definition INIT_HEAP_SIZE :: u64 where "INIT_HEAP_SIZE = PAGE_SIZE * 4"

text \<open>
  \<^verbatim>\<open>struct block\<close> under the x86-64 ABI: \<open>size\<close> at 0, the \<^verbatim>\<open>int\<close> \<open>in_use\<close> at 8 (and four bytes of
  padding), \<open>next\<close> at 16, \<open>prev\<close> at 24.
\<close>

definition sizeof_block :: u64 where "sizeof_block = 32"

definition blk_size :: "memory \<Rightarrow> u64 \<Rightarrow> u64" where "blk_size m b = ld64 m b"
definition blk_in_use :: "memory \<Rightarrow> u64 \<Rightarrow> u32" where "blk_in_use m b = ld32 m (b + 8)"
definition blk_next :: "memory \<Rightarrow> u64 \<Rightarrow> u64" where "blk_next m b = ld64 m (b + 16)"
definition blk_prev :: "memory \<Rightarrow> u64 \<Rightarrow> u64" where "blk_prev m b = ld64 m (b + 24)"

definition set_size :: "u64 \<Rightarrow> u64 \<Rightarrow> memory \<Rightarrow> memory" where "set_size b v m = st64 m b v"
definition set_in_use :: "u64 \<Rightarrow> u32 \<Rightarrow> memory \<Rightarrow> memory" where "set_in_use b v m = st32 m (b + 8) v"
definition set_next :: "u64 \<Rightarrow> u64 \<Rightarrow> memory \<Rightarrow> memory" where "set_next b v m = st64 m (b + 16) v"
definition set_prev :: "u64 \<Rightarrow> u64 \<Rightarrow> memory \<Rightarrow> memory" where "set_prev b v m = st64 m (b + 24) v"

definition sbrk :: "u64 \<Rightarrow> 'a heap_state_scheme \<Rightarrow> (u64 \<times> 'a heap_state_scheme) res" where
  "sbrk inc s =
     (if inc = 0 then Inl (Panic ''sbrk(0), likely kernel bug'')
      else let s = s\<lparr>kernel_brk := kernel_brk s + inc\<rparr>
      in if kernel_brk s < KERNEL_BRK_START
         then Inl (Panic ''sbrk brought kernel break to below KERNEL_BRK_START'')
      else if kernel_brk s \<ge> KERNEL_BRK_START + KERNEL_BRK_PAGES * PAGE_SIZE
         then Inl (Panic ''kernel heap exhausted'')
      else Inr (kernel_brk s - inc, s))"

definition split_block :: "u64 \<Rightarrow> u64 \<Rightarrow> memory \<Rightarrow> u64 \<times> memory" where
  "split_block sz victim m =
     (if blk_size m victim - sz \<le> sizeof_block then (victim, m)
      else let new_block = victim + sizeof_block + sz;
               m = set_size new_block (blk_size m victim - sz - sizeof_block) m;
               m = set_in_use new_block 0 m;
               m = set_next new_block (blk_next m victim) m;
               m = set_prev new_block victim m;
               m = set_size victim sz m;
               m = (if blk_next m victim \<noteq> 0 then set_prev (blk_next m victim) new_block m else m);
               m = set_next victim new_block m
           in (victim, m))"

text \<open>The search loop of \<open>kmalloc\<close>: the last block seen, the target (0 when there is none).\<close>

partial_function (option) kmalloc_loop ::
    "memory \<Rightarrow> u64 \<Rightarrow> u64 \<Rightarrow> u64 \<Rightarrow> (u64 \<times> u64 \<times> memory) option" where
  "kmalloc_loop m sz prev cur =
     (if cur = 0 then Some (prev, 0, m)
      else if blk_in_use m cur \<noteq> 0 then kmalloc_loop m sz cur (blk_next m cur)
      else if blk_size m cur = sz then Some (prev, cur, m)
      else if blk_size m cur \<ge> sz + sizeof_block
        then (case split_block sz cur m of (target, m) \<Rightarrow> Some (prev, target, m))
      else kmalloc_loop m sz cur (blk_next m cur))"

definition kmalloc :: "u64 \<Rightarrow> 'a heap_state_scheme \<Rightarrow> (u64 \<times> 'a heap_state_scheme) res" where
  "kmalloc sz s =
     (if sz = 0 then Inl (Panic ''malloc of sz 0, likely kernel bug'')
      else rbind (ends (kmalloc_loop (mem s) sz 0 (heap_base s))) (\<lambda>(prev, target, m).
        let s = s\<lparr>mem := m\<rparr> in
        rbind (if target \<noteq> 0 then Inr (target, s)
               else rbind (sbrk (sizeof_block + sz) s) (\<lambda>(target, s).
                 let m = set_size target sz (mem s);
                     m = set_in_use target 1 m;
                     m = set_next target 0 m;
                     m = set_prev target prev m
                 in if prev = 0 then Inl (Undefined ''store through null prev'')
                    else Inr (target, s\<lparr>mem := set_next prev target m\<rparr>)))
          (\<lambda>(target, s). Inr (target + sizeof_block, s\<lparr>mem := set_in_use target 1 (mem s)\<rparr>))))"

definition kcalloc :: "u64 \<Rightarrow> u64 \<Rightarrow> 'a heap_state_scheme \<Rightarrow> (u64 \<times> 'a heap_state_scheme) res" where
  "kcalloc nmemb sz0 s =
     (let sz = nmemb * sz0
      in rbind (kmalloc sz s) (\<lambda>(p, s). Inr (p, s\<lparr>mem := memset (mem s) p 0 sz\<rparr>)))"

definition free :: "u64 \<Rightarrow> 'a heap_state_scheme \<Rightarrow> 'a heap_state_scheme" where
  "free ptr s =
     (let block = ptr - sizeof_block;
          m = set_in_use block 0 (mem s);
          (block, m) =
            (if blk_prev m block \<noteq> 0 \<and> blk_in_use m (blk_prev m block) = 0
             then let m = set_size (blk_prev m block)
                            (blk_size m (blk_prev m block) + (blk_size m block + sizeof_block)) m;
                      m = set_next (blk_prev m block) (blk_next m block) m;
                      m = (if blk_next m block \<noteq> 0
                           then set_prev (blk_next m block) (blk_prev m block) m else m)
                  in (blk_prev m block, m)
             else (block, m));
          m = (if blk_next m block \<noteq> 0 \<and> blk_in_use m (blk_next m block) = 0
               then let m = set_size block
                              (blk_size m block + (blk_size m (blk_next m block) + sizeof_block)) m;
                        m = set_next block (blk_next m (blk_next m block)) m
                    in if blk_next m block \<noteq> 0 then set_prev (blk_next m block) block m else m
               else m)
      in s\<lparr>mem := m\<rparr>)"

definition kmalloc_init :: "'a heap_state_scheme \<Rightarrow> 'a heap_state_scheme res" where
  "kmalloc_init s =
     rbind (sbrk INIT_HEAP_SIZE s) (\<lambda>(base, s).
       let s = s\<lparr>heap_base := base\<rparr>;
           m = set_size base (INIT_HEAP_SIZE - sizeof_block) (mem s);
           m = set_in_use base 0 m;
           m = set_next base 0 m;
           m = set_prev base 0 m
       in Inr (s\<lparr>mem := m\<rparr>))"

section \<open>Header fields\<close>

lemma field_in_header:
  assumes "unat o1 + k1 \<le> 32"
  shows "rng (a + o1) k1 \<subseteq> rng a 32"
proof
  fix x assume "x \<in> rng (a + o1) k1"
  then have "x - a \<in> rng o1 k1" by (simp add: algebra_simps)
  then have "unat (x - a) < unat o1 + k1" using assms in_rng_nat [of o1 k1 "x - a"] by simp
  then show "x \<in> rng a 32" using assms by simp
qed

lemma fields_disjoint:
  assumes "unat o1 + k1 \<le> unat o2" "unat o2 + k2 \<le> 32"
  shows "rng (a + o1) k1 \<inter> rng (a + o2) k2 = {}" "rng (a + o2) k2 \<inter> rng (a + o1) k1 = {}"
proof -
  have "rng o1 k1 \<inter> rng o2 k2 = {}" using assms by (intro rng_disjoint_nat) simp_all
  then have "x - a \<notin> rng o1 k1 \<or> x - a \<notin> rng o2 k2" for x by blast
  then have "x \<notin> rng (a + o1) k1 \<or> x \<notin> rng (a + o2) k2" for x by (simp add: algebra_simps)
  then show "rng (a + o1) k1 \<inter> rng (a + o2) k2 = {}" "rng (a + o2) k2 \<inter> rng (a + o1) k1 = {}" by blast+
qed

text \<open>Two header addresses are the same or their headers do not overlap.\<close>

definition apart :: "u64 \<Rightarrow> u64 \<Rightarrow> bool" where
  "apart a b \<longleftrightarrow> a = b \<or> rng a 32 \<inter> rng b 32 = {}"

lemma apart_refl [simp]: "apart a a"
  by (simp add: apart_def)

lemma apart_sym: "apart a b \<Longrightarrow> apart b a"
  by (auto simp: apart_def)

lemma apart_fields:
  assumes "apart a b" "a \<noteq> b" "unat o1 + k1 \<le> 32" "unat o2 + k2 \<le> 32"
  shows "rng (a + o1) k1 \<inter> rng (b + o2) k2 = {}"
  using assms field_in_header [OF assms(3), of a] field_in_header [OF assms(4), of b]
  by (auto simp: apart_def simp del: in_rng)

lemmas blk_defs = blk_size_def blk_in_use_def blk_next_def blk_prev_def
  set_size_def set_in_use_def set_next_def set_prev_def

lemma header_fields:
  assumes "apart b a" "unat o1 + k1 \<le> 32" "unat o2 + k2 \<le> 32"
    "a = b \<Longrightarrow> unat o1 + k1 \<le> unat o2 \<or> unat o2 + k2 \<le> unat o1"
  shows "rng (b + o1) k1 \<inter> rng (a + o2) k2 = {}"
  using apart_fields [OF assms(1) _ assms(2,3)] fields_disjoint(1) [of o1 k1 o2 k2 a]
    fields_disjoint(2) [of o2 k2 o1 k1 a] assms(2-4) by (cases "a = b") auto

lemmas ld_st_disjoint = ld64_st64_disjoint ld64_st32_disjoint ld32_st64_disjoint ld32_st32_disjoint

lemma read_set_size [mem_simps]:
  assumes "apart b a"
  shows "blk_size (set_size b v m) a = (if a = b then v else blk_size m a)"
    "blk_in_use (set_size b v m) a = blk_in_use m a"
    "blk_next (set_size b v m) a = blk_next m a"
    "blk_prev (set_size b v m) a = blk_prev m a"
  using header_fields [OF assms, of 0 8 0 8] header_fields [OF assms, of 0 8 8 4]
    header_fields [OF assms, of 0 8 16 8] header_fields [OF assms, of 0 8 24 8]
  by (auto simp: blk_defs ld64_st64 ld_st_disjoint simp del: in_rng)

lemma read_set_in_use [mem_simps]:
  assumes "apart b a"
  shows "blk_size (set_in_use b v m) a = blk_size m a"
    "blk_in_use (set_in_use b v m) a = (if a = b then v else blk_in_use m a)"
    "blk_next (set_in_use b v m) a = blk_next m a"
    "blk_prev (set_in_use b v m) a = blk_prev m a"
  using header_fields [OF assms, of 8 4 0 8] header_fields [OF assms, of 8 4 8 4]
    header_fields [OF assms, of 8 4 16 8] header_fields [OF assms, of 8 4 24 8]
  by (auto simp: blk_defs ld32_st32 ld_st_disjoint simp del: in_rng)

lemma read_set_next [mem_simps]:
  assumes "apart b a"
  shows "blk_size (set_next b v m) a = blk_size m a"
    "blk_in_use (set_next b v m) a = blk_in_use m a"
    "blk_next (set_next b v m) a = (if a = b then v else blk_next m a)"
    "blk_prev (set_next b v m) a = blk_prev m a"
  using header_fields [OF assms, of 16 8 0 8] header_fields [OF assms, of 16 8 8 4]
    header_fields [OF assms, of 16 8 16 8] header_fields [OF assms, of 16 8 24 8]
  by (auto simp: blk_defs ld64_st64 ld_st_disjoint simp del: in_rng)

lemma read_set_prev [mem_simps]:
  assumes "apart b a"
  shows "blk_size (set_prev b v m) a = blk_size m a"
    "blk_in_use (set_prev b v m) a = blk_in_use m a"
    "blk_next (set_prev b v m) a = blk_next m a"
    "blk_prev (set_prev b v m) a = (if a = b then v else blk_prev m a)"
  using header_fields [OF assms, of 24 8 0 8] header_fields [OF assms, of 24 8 8 4]
    header_fields [OF assms, of 24 8 16 8] header_fields [OF assms, of 24 8 24 8]
  by (auto simp: blk_defs ld64_st64 ld_st_disjoint simp del: in_rng)

lemma set_other:
  assumes "x \<notin> rng b 32"
  shows "set_size b v m x = m x" "set_in_use b w m x = m x" "set_next b v m x = m x" "set_prev b v m x = m x"
  using assms field_in_header [of 0 8 b] field_in_header [of 8 4 b] field_in_header [of 16 8 b]
    field_in_header [of 24 8 b]
  by (auto simp: blk_defs simp del: in_rng intro!: st64_other st32_other)

section \<open>Blocks\<close>

text \<open>A block: the address of its header, the size of its payload, and whether it is in use.\<close>

type_synonym blk = "u64 \<times> u64 \<times> bool"

fun first_of :: "blk list \<Rightarrow> u64 \<Rightarrow> u64" where
  "first_of [] q = q"
| "first_of (b # bs) q = fst b"

fun last_of :: "u64 \<Rightarrow> blk list \<Rightarrow> u64" where
  "last_of p [] = p"
| "last_of p (b # bs) = last_of (fst b) bs"

text \<open>The headers of \<open>bs\<close> link them in this order, between \<open>p\<close> and \<open>q\<close>.\<close>

fun linked :: "memory \<Rightarrow> u64 \<Rightarrow> blk list \<Rightarrow> u64 \<Rightarrow> bool" where
  "linked m p [] q \<longleftrightarrow> True"
| "linked m p ((a, sz, u) # bs) q \<longleftrightarrow>
     blk_size m a = sz \<and> (blk_in_use m a \<noteq> 0 \<longleftrightarrow> u) \<and> blk_prev m a = p \<and> blk_next m a = first_of bs q
     \<and> linked m a bs q"

text \<open>The blocks lie one after the other from \<open>a\<close> to \<open>e\<close>, without wrapping around.\<close>

fun laid :: "nat \<Rightarrow> blk list \<Rightarrow> nat \<Rightarrow> bool" where
  "laid a [] e \<longleftrightarrow> a = e"
| "laid a ((b, sz, u) # bs) e \<longleftrightarrow> unat b = a \<and> sz \<noteq> 0 \<and> laid (a + 32 + unat sz) bs e"

lemma first_of_append [simp]: "first_of (xs @ ys) q = first_of xs (first_of ys q)"
  by (cases xs) auto

lemma last_of_append [simp]: "last_of p (xs @ ys) = last_of (last_of p xs) ys"
  by (induction xs arbitrary: p) auto

lemma linked_append:
  "linked m p (xs @ ys) q \<longleftrightarrow> linked m p xs (first_of ys q) \<and> linked m (last_of p xs) ys q"
  by (induction m p xs q rule: linked.induct) auto

lemma laid_append: "laid a (xs @ ys) e \<longleftrightarrow> (\<exists>c. laid a xs c \<and> laid c ys e)"
  by (induction a xs e rule: laid.induct) auto

lemma laid_le: "laid a bs e \<Longrightarrow> a \<le> e"
  by (induction a bs e rule: laid.induct) auto

lemma laid_block:
  "laid a bs e \<Longrightarrow> (b, sz, u) \<in> set bs \<Longrightarrow> a \<le> unat b \<and> unat b + 32 + unat sz \<le> e \<and> sz \<noteq> 0"
  by (induction a bs e rule: laid.induct) (auto dest: laid_le)

text \<open>The bytes of the headers, and of the payloads of the blocks in use.\<close>

definition headers :: "blk list \<Rightarrow> u64 set" where
  "headers bs = (\<Union>b \<in> set bs. rng (fst b) 32)"

definition live :: "blk list \<Rightarrow> (u64 \<times> u64) set" where
  "live bs = {(a + 32, sz) | a sz. (a, sz, True) \<in> set bs}"

lemma linked_cong:
  assumes "\<And>x. x \<in> headers bs \<Longrightarrow> m' x = m x"
  shows "linked m' p bs q \<longleftrightarrow> linked m p bs q"
  using assms
proof (induction m p bs q rule: linked.induct)
  case (2 m p a sz u bs q)
  have eq: "m' x = m x" if "x \<in> rng a 32" for x using 2(2) that by (simp add: headers_def)
  have "blk_size m' a = blk_size m a" "blk_in_use m' a = blk_in_use m a" "blk_next m' a = blk_next m a"
    "blk_prev m' a = blk_prev m a"
    using eq field_in_header [of 0 8 a] field_in_header [of 8 4 a] field_in_header [of 16 8 a]
      field_in_header [of 24 8 a]
    by (auto simp: blk_defs simp del: in_rng intro!: ld64_cong ld32_cong)
  with 2 show ?case by (simp add: headers_def)
qed simp

lemma laid_split:
  "laid a (xs @ (b, sz, u) # ys) e \<longleftrightarrow>
   laid a xs (unat b) \<and> sz \<noteq> 0 \<and> laid (unat b + 32 + unat sz) ys e"
  by (auto simp: laid_append)

lemma headers_append [simp]: "headers (xs @ ys) = headers xs \<union> headers ys"
  by (auto simp: headers_def)

lemma headers_Cons [simp]: "headers (b # bs) = rng (fst b) 32 \<union> headers bs"
  by (auto simp: headers_def)

lemma headers_Nil [simp]: "headers [] = {}"
  by (simp add: headers_def)

lemma headers_bounds:
  assumes "laid a bs e" "e \<le> 2 ^ 64" "x \<in> headers bs"
  shows "a \<le> unat x \<and> unat x < e"
proof -
  obtain b sz u where b: "(b, sz, u) \<in> set bs" "x \<in> rng b 32"
    using assms(3) by (auto simp: headers_def simp del: in_rng)
  with laid_block [OF assms(1) b(1)] assms(2) in_rng_nat [of b 32 x] show ?thesis by auto
qed

lemma apart_nat:
  "unat a + 32 \<le> unat b \<Longrightarrow> unat b + 32 \<le> 2 ^ 64 \<Longrightarrow> apart a b \<and> apart b a \<and> a \<noteq> b"
  using rng_disjoint_nat [of a 32 b 32] by (auto simp: apart_def simp del: in_rng)

section \<open>Allocation on the block list\<close>

fun fits :: "u64 \<Rightarrow> blk \<Rightarrow> bool" where
  "fits n (a, sz, u) \<longleftrightarrow> \<not> u \<and> (sz = n \<or> n + 32 \<le> sz)"

definition carve :: "u64 \<Rightarrow> u64 \<Rightarrow> u64 \<Rightarrow> blk list" where
  "carve n a sz = (if sz - n \<le> 32 then [(a, sz, True)]
                   else [(a, n, True), (a + 32 + n, sz - n - 32, False)])"

text \<open>First fit: the first block that fits is taken, and split when the rest can hold a block.\<close>

fun place :: "u64 \<Rightarrow> blk list \<Rightarrow> (u64 \<times> blk list) option" where
  "place n [] = None"
| "place n ((a, sz, u) # bs) =
     (if fits n (a, sz, u) then Some (a, carve n a sz @ bs)
      else map_option (\<lambda>(t, bs'). (t, (a, sz, u) # bs')) (place n bs))"

lemma place_None: "place n bs = None \<longleftrightarrow> (\<forall>b \<in> set bs. \<not> fits n b)"
  by (induction n bs rule: place.induct) auto

lemma place_Some:
  "place n bs = Some (t, bs') \<Longrightarrow>
   \<exists>xs sz ys. bs = xs @ (t, sz, False) # ys \<and> bs' = xs @ carve n t sz @ ys \<and> fits n (t, sz, False)
     \<and> (\<forall>b \<in> set xs. \<not> fits n b)"
proof (induction n bs arbitrary: bs' rule: place.induct)
  case (2 n a sz u bs)
  show ?case
  proof (cases "fits n (a, sz, u)")
    case True
    with 2(2) show ?thesis by (intro exI [of _ "[]"]) auto
  next
    case False
    with 2(2) obtain bs1 where bs1: "place n bs = Some (t, bs1)" "bs' = (a, sz, u) # bs1" by auto
    from 2(1) [OF False this(1)] obtain xs s0 ys where
      "bs = xs @ (t, s0, False) # ys" "bs1 = xs @ carve n t s0 @ ys" "fits n (t, s0, False)"
      "\<forall>b \<in> set xs. \<not> fits n b" by blast
    with False bs1(2) show ?thesis by (intro exI [of _ "(a, sz, u) # xs"]) auto
  qed
qed simp

lemma loop_skips:
  assumes "linked m p (xs @ ys) 0" and "\<forall>b \<in> set xs. \<not> fits n b" and "\<forall>b \<in> set (xs @ ys). fst b \<noteq> 0"
  shows "kmalloc_loop m n p (first_of (xs @ ys) 0) = kmalloc_loop m n (last_of p xs) (first_of ys 0)"
  using assms
proof (induction xs arbitrary: p)
  case (Cons b xs)
  obtain a sz u where b: "b = (a, sz, u)" by (cases b)
  have next': "blk_next m a = first_of (xs @ ys) 0" and l: "linked m a (xs @ ys) 0"
    using Cons.prems(1) b by simp_all
  have "kmalloc_loop m n p a = kmalloc_loop m n a (first_of (xs @ ys) 0)"
    using Cons.prems b next' by (subst kmalloc_loop.simps) (auto simp: sizeof_block_def)
  with Cons.IH [OF l] Cons.prems b show ?case by simp
qed simp

lemma loop_none:
  assumes "linked m p bs 0" "\<forall>b \<in> set bs. \<not> fits n b" "\<forall>b \<in> set bs. fst b \<noteq> 0"
  shows "kmalloc_loop m n p (first_of bs 0) = Some (last_of p bs, 0, m)"
  using loop_skips [of m p bs "[]" n] assms by (simp add: kmalloc_loop.simps)

lemma loop_found:
  assumes "linked m p (xs @ (t, sz, False) # ys) 0" "\<forall>b \<in> set xs. \<not> fits n b" "fits n (t, sz, False)"
    "\<forall>b \<in> set (xs @ (t, sz, False) # ys). fst b \<noteq> 0"
  shows "kmalloc_loop m n p (first_of (xs @ (t, sz, False) # ys) 0)
     = Some (last_of p xs, t, if sz = n then m else snd (split_block n t m))"
proof -
  have "split_block n t m = (t, snd (split_block n t m))" by (simp add: split_block_def Let_def)
  moreover have "blk_size m t = sz" "blk_in_use m t = 0" using assms(1) by (simp_all add: linked_append)
  ultimately have "kmalloc_loop m n (last_of p xs) t
      = Some (last_of p xs, t, if sz = n then m else snd (split_block n t m))"
    using assms(3,4) by (subst kmalloc_loop.simps) (auto simp: sizeof_block_def split: prod.split dest: sym)
  with loop_skips [OF assms(1,2,4)] show ?thesis by simp
qed

text \<open>What the fields of the split block, of its remainder and of its successor become.\<close>

lemma split_block_fields:
  assumes big: "\<not> blk_size m t - n \<le> 32" and ap: "apart t w" "apart w t" "t \<noteq> w" and w: "w = t + 32 + n"
    and y: "blk_next m t \<noteq> 0 \<Longrightarrow> apart t (blk_next m t) \<and> apart (blk_next m t) t
        \<and> apart w (blk_next m t) \<and> apart (blk_next m t) w \<and> blk_next m t \<noteq> t \<and> blk_next m t \<noteq> w"
  defines "m' \<equiv> snd (split_block n t m)"
  shows "blk_size m' t = n" "blk_in_use m' t = blk_in_use m t" "blk_next m' t = w" "blk_prev m' t = blk_prev m t"
    "blk_size m' w = blk_size m t - n - 32" "blk_in_use m' w = 0" "blk_next m' w = blk_next m t" "blk_prev m' w = t"
    "blk_next m t \<noteq> 0 \<Longrightarrow> blk_prev m' (blk_next m t) = w"
    "blk_next m t \<noteq> 0 \<Longrightarrow> blk_size m' (blk_next m t) = blk_size m (blk_next m t)"
    "blk_next m t \<noteq> 0 \<Longrightarrow> blk_in_use m' (blk_next m t) = blk_in_use m (blk_next m t)"
    "blk_next m t \<noteq> 0 \<Longrightarrow> blk_next m' (blk_next m t) = blk_next m (blk_next m t)"
    "\<And>x. x \<notin> rng t 32 \<Longrightarrow> x \<notin> rng w 32 \<Longrightarrow> (blk_next m t \<noteq> 0 \<Longrightarrow> x \<notin> rng (blk_next m t) 32) \<Longrightarrow> m' x = m x"
proof -
  have m': "m' = set_next t w ((\<lambda>m. if blk_next m t \<noteq> 0 then set_prev (blk_next m t) w m else m)
     (set_size t n (set_prev w t (set_next w (blk_next m t)
       (set_in_use w 0 (set_size w (blk_size m t - n - 32) m))))))"
    using big ap by (simp add: m'_def split_block_def Let_def w [symmetric] sizeof_block_def mem_simps)
  show "blk_size m' t = n" "blk_in_use m' t = blk_in_use m t" "blk_next m' t = w" "blk_prev m' t = blk_prev m t"
    "blk_size m' w = blk_size m t - n - 32" "blk_in_use m' w = 0" "blk_next m' w = blk_next m t" "blk_prev m' w = t"
    "blk_next m t \<noteq> 0 \<Longrightarrow> blk_prev m' (blk_next m t) = w"
    "blk_next m t \<noteq> 0 \<Longrightarrow> blk_size m' (blk_next m t) = blk_size m (blk_next m t)"
    "blk_next m t \<noteq> 0 \<Longrightarrow> blk_in_use m' (blk_next m t) = blk_in_use m (blk_next m t)"
    "blk_next m t \<noteq> 0 \<Longrightarrow> blk_next m' (blk_next m t) = blk_next m (blk_next m t)"
    unfolding m' using ap y by (auto simp: mem_simps)
  show "m' x = m x" if "x \<notin> rng t 32" "x \<notin> rng w 32" "blk_next m t \<noteq> 0 \<Longrightarrow> x \<notin> rng (blk_next m t) 32" for x
    unfolding m' using ap that by (auto simp: mem_simps set_other simp del: in_rng)
qed

lemma header_isolated:
  assumes "laid a (xs @ (t, sz, u) # ys) e" "e \<le> 2 ^ 64"
  shows "x \<in> headers xs \<Longrightarrow> x \<notin> rng t 32" and "x \<in> headers ys \<Longrightarrow> x \<notin> rng t 32"
proof -
  have l: "laid a xs (unat t)" "laid (unat t + 32 + unat sz) ys e" using assms(1) by (simp_all add: laid_split)
  have t: "unat t + 32 + unat sz \<le> e" using laid_le [OF l(2)] .
  then have r: "x \<in> rng t 32 \<longleftrightarrow> unat t \<le> unat x \<and> unat x < unat t + 32"
    using assms(2) by (intro in_rng_nat) simp
  show "x \<in> headers xs \<Longrightarrow> x \<notin> rng t 32" using headers_bounds [OF l(1)] t assms(2) r by force
  show "x \<in> headers ys \<Longrightarrow> x \<notin> rng t 32" using headers_bounds [OF l(2) assms(2)] r by force
qed

lemma linked_set_in_use:
  assumes "linked m p (xs @ (t, sz, u) # ys) q" "laid a (xs @ (t, sz, u) # ys) e" "e \<le> 2 ^ 64"
  shows "linked (set_in_use t v m) p (xs @ (t, sz, v \<noteq> 0) # ys) q"
proof -
  note iso = header_isolated [OF assms(2,3)]
  have "linked (set_in_use t v m) p xs t" "linked (set_in_use t v m) t ys q"
    using assms(1) linked_cong [of xs "set_in_use t v m" m] linked_cong [of ys "set_in_use t v m" m] iso
    by (simp_all add: linked_append set_other del: in_rng)
  with assms(1) show ?thesis by (simp add: linked_append mem_simps)
qed

lemma split_linked:
  assumes l: "linked m p (xs @ (t, sz, False) # ys) 0" and laid: "laid a (xs @ (t, sz, False) # ys) e"
    and e: "0 < a" "e \<le> 2 ^ 64" and n: "n \<noteq> 0" "unat n + 32 < unat sz"
  defines "m' \<equiv> snd (split_block n t m)" and "bs \<equiv> xs @ (t, n, False) # (t + 32 + n, sz - n - 32, False) # ys"
  shows "linked m' p bs 0" and "laid a bs e" and "\<And>x. x \<notin> headers bs \<Longrightarrow> m' x = m x"
proof -
  define w where "w = t + 32 + n"
  have ly: "laid (unat t + 32 + unat sz) ys e" using laid by (simp add: laid_split)
  then have le: "unat t + 32 + unat sz \<le> e" by (rule laid_le)
  have w: "unat w = unat t + 32 + unat n"
    using le n e(2) by (simp add: w_def add.assoc unat_add_nowrap unat_of_nat)
  have szn: "unat (sz - n - 32) = unat sz - unat n - 32"
    using n(2) by (simp add: unat_sub_le word_le_nat_alt)
  have big: "\<not> sz - n \<le> 32" using n(2) by (simp add: word_le_nat_alt unat_sub_le)
  have "laid (32 + (unat t + unat sz)) ys e" using ly by (simp add: ac_simps)
  then show lb: "laid a bs e" using laid n w szn by (auto simp: bs_def laid_split w_def [symmetric])
  have f: "blk_size m t = sz" "blk_in_use m t = 0" "blk_prev m t = last_of p xs" "blk_next m t = first_of ys 0"
    and lx: "linked m p xs t" and lys: "linked m t ys 0"
    using l by (simp_all add: linked_append)
  have tw: "apart t w \<and> apart w t \<and> t \<noteq> w" using w le n e(2) by (intro apart_nat) simp_all
  have y: "apart t y \<and> apart y t \<and> apart w y \<and> apart y w \<and> y \<noteq> t \<and> y \<noteq> w"
    if yy: "y = first_of ys 0" "y \<noteq> 0" for y
  proof -
    obtain s u ys' where ys: "ys = (y, s, u) # ys'" using yy by (cases ys) auto
    then have "unat y = unat t + 32 + unat sz" "unat y + 32 \<le> e"
      using ly laid_block [OF ly, of y s u] by auto
    then show ?thesis using apart_nat [of t y] apart_nat [of w y] w n e(2) by auto
  qed
  have "\<not> blk_size m t - n \<le> 32" "apart t w" "apart w t" "t \<noteq> w" using big tw f by auto
  note sp = split_block_fields [OF this w_def, folded m'_def, unfolded f, OF y [OF refl]]
  have r: "x \<in> rng t 32 \<longleftrightarrow> unat t \<le> unat x \<and> unat x < unat t + 32"
    "x \<in> rng w 32 \<longleftrightarrow> unat w \<le> unat x \<and> unat x < unat w + 32" for x
    using in_rng_nat [of t 32 x] in_rng_nat [of w 32 x] le w n e(2) by simp_all
  have ry: "x \<in> rng (first_of ys 0) 32 \<longleftrightarrow> unat t + 32 + unat sz \<le> unat x \<and> unat x < unat t + 64 + unat sz"
    if "first_of ys 0 \<noteq> 0" for x
  proof -
    obtain y s u ys' where ys: "ys = (y, s, u) # ys'" using \<open>first_of ys 0 \<noteq> 0\<close> by (cases ys) auto
    then have "unat y = unat t + 32 + unat sz" "unat y + 32 \<le> e"
      using ly laid_block [OF ly, of y s u] by auto
    with ys e(2) show ?thesis using in_rng_nat [of y 32 x] by (simp add: ac_simps)
  qed
  have same: "m' x = m x" if "unat x < unat t \<or> unat t + 64 + unat sz \<le> unat x" for x
    using that sp(13) [of x] r [of x] ry [of x] w n by auto
  have xt: "linked m' p xs t"
    using lx linked_cong [of xs m' m p t] headers_bounds [of a xs "unat t"] same laid le e(2)
    by (simp add: laid_split)
  have yt: "linked m' w ys 0"
  proof (cases ys)
    case (Cons b ys')
    obtain y s u where b: "b = (y, s, u)" by (cases b)
    have y': "unat y = unat t + 32 + unat sz" "laid (unat y + 32 + unat s) ys' e"
      using ly Cons b by auto
    then have "linked m' y ys' 0"
      using lys Cons b linked_cong [of ys' m' m y 0] headers_bounds [OF y'(2) e(2)] same by fastforce
    moreover have "y \<noteq> 0" using y' by auto
    ultimately show ?thesis using lys Cons b sp(9-12) by simp
  qed simp
  show "linked m' p bs 0"
    using xt yt sp(1-8) f by (simp add: bs_def linked_append w_def [symmetric])
  show "m' x = m x" if "x \<notin> headers bs" for x
    using that sp(13) [of x] by (cases ys) (auto simp: bs_def w_def [symmetric] simp del: in_rng)
qed

section \<open>The heap invariant\<close>

definition blk_used :: "blk \<Rightarrow> bool" where
  "blk_used b = snd (snd b)"

text \<open>Free blocks are never adjacent.\<close>

definition coalesced :: "blk list \<Rightarrow> bool" where
  "coalesced bs \<longleftrightarrow> successively (\<lambda>b c. blk_used b \<or> blk_used c) bs"

definition BRK_LIMIT :: u64 where
  "BRK_LIMIT = KERNEL_BRK_START + KERNEL_BRK_PAGES * PAGE_SIZE"

text \<open>
  The headers in memory represent the block list \<open>bs\<close>, which fills the heap from its base to the
  kernel break.
\<close>

definition heap_inv :: "'a heap_state_scheme \<Rightarrow> blk list \<Rightarrow> bool" where
  "heap_inv s bs \<longleftrightarrow> bs \<noteq> [] \<and> linked (mem s) 0 bs 0 \<and> heap_base s = first_of bs 0
     \<and> laid (unat (heap_base s)) bs (unat (kernel_brk s)) \<and> coalesced bs
     \<and> KERNEL_BRK_START \<le> heap_base s \<and> kernel_brk s < BRK_LIMIT"

lemma coalesced_append:
  "coalesced (xs @ ys) \<longleftrightarrow> coalesced xs \<and> coalesced ys
     \<and> (xs \<noteq> [] \<longrightarrow> ys \<noteq> [] \<longrightarrow> blk_used (last xs) \<or> blk_used (hd ys))"
  by (auto simp: coalesced_def successively_append_iff)

lemma coalesced_Cons:
  "coalesced (b # bs) \<longleftrightarrow> coalesced bs \<and> (bs \<noteq> [] \<longrightarrow> blk_used b \<or> blk_used (hd bs))"
  by (auto simp: coalesced_def successively_Cons)

lemma coalesced_Nil [simp]: "coalesced []"
  by (simp add: coalesced_def)

lemma heap_inv_bounds:
  assumes "heap_inv s bs"
  shows "0 < unat (heap_base s)" "unat (kernel_brk s) \<le> 2 ^ 64"
    and "\<And>b. b \<in> set bs \<Longrightarrow> fst b \<noteq> 0"
proof -
  have "KERNEL_BRK_START \<le> heap_base s" using assms unfolding heap_inv_def by blast
  then show b: "0 < unat (heap_base s)" by (auto simp: KERNEL_BRK_START_def word_le_nat_alt)
  show "unat (kernel_brk s) \<le> 2 ^ 64" by (simp add: less_imp_le)
  fix b assume "b \<in> set bs"
  then have "unat (heap_base s) \<le> unat (fst b)"
    using assms laid_block [of _ bs _ "fst b" "fst (snd b)" "snd (snd b)"] by (auto simp: heap_inv_def)
  with b show "fst b \<noteq> 0" by auto
qed

lemma laid_carve:
  assumes "laid a (xs @ (t, sz, u) # ys) e" "sz - n \<le> 32"
  shows "laid a (xs @ carve n t sz @ ys) e"
  using assms by (simp add: carve_def laid_split)

lemma coalesced_carve:
  assumes "coalesced (xs @ (t, sz, False) # ys)"
  shows "coalesced (xs @ carve n t sz @ ys)"
  using assms by (auto simp: coalesced_append coalesced_Cons carve_def blk_used_def)

lemma kmalloc_place:
  assumes inv: "heap_inv s bs" and n: "n \<noteq> 0" "unat n + 32 < 2 ^ 64" and pl: "place n bs = Some (t, bs')"
  shows "\<exists>m. kmalloc n s = Inr (t + 32, s\<lparr>mem := m\<rparr>) \<and> heap_inv (s\<lparr>mem := m\<rparr>) bs'
    \<and> (\<forall>x. x \<notin> headers bs' \<longrightarrow> m x = mem s x)"
proof -
  obtain xs sz ys where bs: "bs = xs @ (t, sz, False) # ys" and bs': "bs' = xs @ carve n t sz @ ys"
    and fit: "fits n (t, sz, False)" and no: "\<forall>b \<in> set xs. \<not> fits n b"
    using place_Some [OF pl] by blast
  note bnd = heap_inv_bounds [OF inv]
  have l: "linked (mem s) 0 (xs @ (t, sz, False) # ys) 0"
    and la: "laid (unat (heap_base s)) (xs @ (t, sz, False) # ys) (unat (kernel_brk s))"
    and hb: "heap_base s = first_of (xs @ (t, sz, False) # ys) 0"
    using inv bs by (auto simp: heap_inv_def)
  have t0: "t \<noteq> 0" using bnd(3) [of "(t, sz, False)"] bs by simp
  define m1 where "m1 = (if sz = n then mem s else snd (split_block n t (mem s)))"
  define m where "m = set_in_use t 1 m1"
  have loop: "kmalloc_loop (mem s) n 0 (heap_base s) = Some (last_of 0 xs, t, m1)"
    unfolding hb m1_def using bnd(3) bs by (intro loop_found [OF l no fit]) auto
  have call: "kmalloc n s = Inr (t + 32, s\<lparr>mem := m\<rparr>)"
    using n(1) t0 by (simp add: kmalloc_def loop m_def sizeof_block_def)
  have step: "linked m 0 bs' 0 \<and> laid (unat (heap_base s)) bs' (unat (kernel_brk s))
      \<and> (\<forall>x. x \<notin> headers bs' \<longrightarrow> m x = mem s x)"
  proof (cases "sz - n \<le> 32")
    case True
    then have "m1 = mem s" using l by (auto simp: m1_def split_block_def linked_append sizeof_block_def)
    with True linked_set_in_use [OF l la bnd(2), of 1] la show ?thesis
      by (auto simp: m_def bs' carve_def laid_split set_other simp del: in_rng)
  next
    case False
    then have nsz: "sz \<noteq> n" by auto
    with fit n(2) have "unat n + 32 \<le> unat sz" by (simp add: word_le_nat_alt unat_add_nowrap)
    with False have big: "unat n + 32 < unat sz" by (simp add: word_le_nat_alt unat_sub_le)
    note sp = split_linked [OF l la bnd(1,2) n(1) big]
    have m1: "m1 = snd (split_block n t (mem s))" using nsz by (simp add: m1_def)
    from linked_set_in_use [OF sp(1,2) bnd(2), of 1] sp(2,3) show ?thesis
      by (auto simp: m_def m1 bs' carve_def False laid_split set_other simp del: in_rng)
  qed
  have "heap_inv (s\<lparr>mem := m\<rparr>) bs'"
    using inv step coalesced_carve [of xs t sz ys n] hb
    by (auto simp: heap_inv_def bs bs' carve_def)
  with call step show ?thesis by blast
qed

lemma linked_set_next_last:
  assumes l: "linked m p (xs @ [(t, sz, u)]) q" and la: "laid a (xs @ [(t, sz, u)]) e" "e \<le> 2 ^ 64"
  shows "linked (set_next t v m) p (xs @ [(t, sz, u)]) v"
proof -
  have "linked (set_next t v m) p xs t"
    using l linked_cong [of xs "set_next t v m" m p t] header_isolated(1) [OF la]
    by (simp add: linked_append set_other del: in_rng)
  with l show ?thesis by (simp add: linked_append mem_simps)
qed

lemma new_block_fields:
  fixes m :: memory and sz p q t :: u64 and u :: u32
  defines "m' \<equiv> set_prev t p (set_next t q (set_in_use t u (set_size t sz m)))"
  shows "blk_size m' t = sz" "blk_in_use m' t = u" "blk_next m' t = q" "blk_prev m' t = p"
    and "\<And>x. x \<notin> rng t 32 \<Longrightarrow> m' x = m x"
  by (simp_all add: m'_def mem_simps set_other del: in_rng)

lemma sbrk_grows:
  assumes "KERNEL_BRK_START \<le> kernel_brk s" "0 < unat inc"
    "unat (kernel_brk s) + unat inc < unat BRK_LIMIT"
  shows "sbrk inc s = Inr (kernel_brk s, s\<lparr>kernel_brk := kernel_brk s + inc\<rparr>)"
    and "unat (kernel_brk s + inc) = unat (kernel_brk s) + unat inc"
proof -
  have "unat (kernel_brk s) + unat inc < 18446744073709551616"
    using assms(3) u64_unat_bound [of BRK_LIMIT] by linarith
  then show u: "unat (kernel_brk s + inc) = unat (kernel_brk s) + unat inc"
    by (intro unat_add_nowrap) simp
  with assms show "sbrk inc s = Inr (kernel_brk s, s\<lparr>kernel_brk := kernel_brk s + inc\<rparr>)"
    by (auto simp: sbrk_def Let_def word_less_nat_alt word_le_nat_alt BRK_LIMIT_def)
qed

lemma sbrk_exhausted:
  assumes "KERNEL_BRK_START \<le> kernel_brk s" "0 < unat inc"
    "unat BRK_LIMIT \<le> unat (kernel_brk s) + unat inc" "unat (kernel_brk s) + unat inc < 2 ^ 64"
  shows "sbrk inc s = Inl (Panic ''kernel heap exhausted'')"
proof -
  have u: "unat (kernel_brk s + inc) = unat (kernel_brk s) + unat inc"
    using assms(4) by (intro unat_add_nowrap) simp
  with assms show ?thesis
    by (auto simp: sbrk_def Let_def word_less_nat_alt word_le_nat_alt BRK_LIMIT_def)
qed

lemma kmalloc_grow:
  assumes inv: "heap_inv s bs" and n: "n \<noteq> 0" and pl: "place n bs = None"
    and room: "unat (kernel_brk s) + 32 + unat n < unat BRK_LIMIT"
  shows "\<exists>m. kmalloc n s = Inr (kernel_brk s + 32, s\<lparr>kernel_brk := kernel_brk s + 32 + n, mem := m\<rparr>)
    \<and> heap_inv (s\<lparr>kernel_brk := kernel_brk s + 32 + n, mem := m\<rparr>) (bs @ [(kernel_brk s, n, True)])
    \<and> (\<forall>x. x \<notin> headers (bs @ [(kernel_brk s, n, True)]) \<longrightarrow> m x = mem s x)"
proof -
  let ?t = "kernel_brk s"
  note bnd = heap_inv_bounds [OF inv]
  have l: "linked (mem s) 0 bs 0" and la: "laid (unat (heap_base s)) bs (unat ?t)"
    and hb: "heap_base s = first_of bs 0" and ne: "bs \<noteq> []"
    and hs: "KERNEL_BRK_START \<le> heap_base s" and co: "coalesced bs"
    using inv unfolding heap_inv_def by blast+
  obtain xs l0 sz u where bs: "bs = xs @ [(l0, sz, u)]" using ne by (metis prod.exhaust rev_exhaust)
  have last: "last_of 0 bs = l0" using bs by simp
  have l00: "l0 \<noteq> 0" using bnd(3) [of "(l0, sz, u)"] bs by simp
  have ks: "KERNEL_BRK_START \<le> ?t" using hs laid_le [OF la] by (simp add: word_le_nat_alt)
  have lim: "unat BRK_LIMIT < 18446744073709551616" by (rule u64_unat_bound)
  have "unat n + 32 < 18446744073709551616" using room lim by linarith
  then have n32: "unat (32 + n) = 32 + unat n" by (subst unat_add_nowrap) simp_all
  note br = sbrk_grows [OF ks, of "32 + n", unfolded n32]
  have sb: "sbrk (32 + n) s = Inr (?t, s\<lparr>kernel_brk := ?t + (32 + n)\<rparr>)"
    and ub: "unat (?t + (32 + n)) = unat ?t + (32 + unat n)"
    using br room by simp_all
  define m1 where "m1 = set_prev ?t l0 (set_next ?t 0 (set_in_use ?t 1 (set_size ?t n (mem s))))"
  define m2 where "m2 = set_next l0 ?t m1"
  define m where "m = set_in_use ?t 1 m2"
  have loop: "kmalloc_loop (mem s) n 0 (heap_base s) = Some (l0, 0, mem s)"
    unfolding hb using loop_none [OF l, of n] pl bnd(3) by (simp add: place_None last)
  have call: "kmalloc n s = Inr (?t + 32, s\<lparr>kernel_brk := ?t + 32 + n, mem := m\<rparr>)"
    using n(1) l00 sb by (simp add: kmalloc_def loop sizeof_block_def m_def m1_def m2_def Let_def add.assoc)
  note nb = new_block_fields [where m = "mem s" and t = ?t and p = l0 and q = 0 and u = 1 and sz = n, folded m1_def]
  have la2: "laid (unat (heap_base s)) (bs @ [(?t, n, True)]) (unat (?t + 32 + n))"
    using la n ub by (simp add: laid_append add.assoc)
  have e2: "unat (?t + 32 + n) \<le> 2 ^ 64" by (simp add: less_imp_le)
  note iso = header_isolated [OF la2 e2]
  have "linked m1 0 bs 0"
    using l linked_cong [of bs m1 "mem s" 0 0] nb(5) iso(1) by (simp del: in_rng)
  then have l2: "linked m2 0 bs ?t" unfolding m2_def bs
    using la by (intro linked_set_next_last [OF _ _ bnd(2)]) (simp_all add: bs)
  have "unat ?t + 32 \<le> 18446744073709551616" using room lim by linarith
  then have ap: "apart l0 ?t" "l0 \<noteq> ?t"
    using laid_block [OF la, of l0 sz u] bs apart_nat [of l0 ?t] by auto
  then have "linked m2 l0 [(?t, n, True)] 0" using nb by (simp add: m2_def mem_simps)
  with l2 last have "linked m2 0 (bs @ [(?t, n, True)]) 0" by (simp add: linked_append)
  from linked_set_in_use [OF this la2 e2, of 1] have lm: "linked m 0 (bs @ [(?t, n, True)]) 0" by (simp add: m_def)
  have co2: "coalesced (bs @ [(?t, n, True)])" using co by (simp add: coalesced_append coalesced_Cons blk_used_def)
  have "?t + 32 + n < BRK_LIMIT" using ub room by (simp add: word_less_nat_alt add.assoc)
  with lm la2 hb ne hs co2 have "heap_inv (s\<lparr>kernel_brk := ?t + 32 + n, mem := m\<rparr>) (bs @ [(?t, n, True)])"
    by (cases bs) (auto simp: heap_inv_def)
  moreover have "m x = mem s x" if "x \<notin> headers (bs @ [(?t, n, True)])" for x
    using that nb(5) by (simp add: m_def m2_def set_other bs del: in_rng)
  ultimately show ?thesis using call by blast
qed

lemma kmalloc_exhausted:
  assumes inv: "heap_inv s bs" and n: "n \<noteq> 0" and pl: "place n bs = None"
    and room: "unat BRK_LIMIT \<le> unat (kernel_brk s) + 32 + unat n" "unat (kernel_brk s) + 32 + unat n < 2 ^ 64"
  shows "kmalloc n s = Inl (Panic ''kernel heap exhausted'')"
proof -
  note bnd = heap_inv_bounds [OF inv]
  have l: "linked (mem s) 0 bs 0" and la: "laid (unat (heap_base s)) bs (unat (kernel_brk s))"
    and hb: "heap_base s = first_of bs 0" and hs: "KERNEL_BRK_START \<le> heap_base s"
    using inv unfolding heap_inv_def by blast+
  have ks: "KERNEL_BRK_START \<le> kernel_brk s" using hs laid_le [OF la] by (simp add: word_le_nat_alt)
  have n32: "unat (32 + n) = 32 + unat n" using room by (subst unat_add_nowrap) auto
  have "kmalloc_loop (mem s) n 0 (heap_base s) = Some (last_of 0 bs, 0, mem s)"
    unfolding hb using loop_none [OF l, of n] pl bnd(3) by (simp add: place_None)
  moreover have "sbrk (32 + n) s = Inl (Panic ''kernel heap exhausted'')"
    by (rule sbrk_exhausted [OF ks]) (use n32 room in simp_all)
  ultimately show ?thesis using n by (simp add: kmalloc_def sizeof_block_def)
qed

lemma kmalloc_init_inv:
  assumes "kernel_brk s = KERNEL_BRK_START"
  shows "\<exists>s'. kmalloc_init s = Inr s' \<and> heap_inv s' [(KERNEL_BRK_START, INIT_HEAP_SIZE - 32, False)]
    \<and> kernel_brk s' = KERNEL_BRK_START + INIT_HEAP_SIZE
    \<and> (\<forall>x. x \<notin> rng KERNEL_BRK_START 32 \<longrightarrow> mem s' x = mem s x)"
proof -
  let ?b = KERNEL_BRK_START
  have "sbrk INIT_HEAP_SIZE s = Inr (?b, s\<lparr>kernel_brk := ?b + INIT_HEAP_SIZE\<rparr>)"
    using sbrk_grows(1) [of s INIT_HEAP_SIZE] assms
    by (simp add: KERNEL_BRK_START_def INIT_HEAP_SIZE_def BRK_LIMIT_def KERNEL_BRK_PAGES_def)
  moreover note new_block_fields [where m = "mem s" and t = ?b and p = 0 and q = 0 and u = 0 and sz = "INIT_HEAP_SIZE - 32"]
  moreover have "laid (unat ?b) [(?b, INIT_HEAP_SIZE - 32, False)] (unat (?b + INIT_HEAP_SIZE))"
    "?b + INIT_HEAP_SIZE < BRK_LIMIT" "?b \<le> ?b"
    by (simp_all add: KERNEL_BRK_START_def INIT_HEAP_SIZE_def BRK_LIMIT_def KERNEL_BRK_PAGES_def)
  ultimately show ?thesis
    by (simp add: kmalloc_init_def sizeof_block_def Let_def heap_inv_def coalesced_Cons del: in_rng)
qed

section \<open>Release on the block list\<close>

definition absorb :: "u64 \<Rightarrow> u64 \<Rightarrow> blk list \<Rightarrow> blk list" where
  "absorb a sz ys = (case ys of (y, s2, u) # ys' \<Rightarrow> if u then (a, sz, False) # ys else (a, sz + (s2 + 32), False) # ys'
                     | [] \<Rightarrow> [(a, sz, False)])"

text \<open>The block at \<open>t\<close> becomes free and swallows, or is swallowed by, its free neighbours.\<close>

definition unplace :: "blk list \<Rightarrow> u64 \<Rightarrow> u64 \<Rightarrow> blk list \<Rightarrow> blk list" where
  "unplace xs t sz ys =
     (if xs \<noteq> [] \<and> \<not> blk_used (last xs)
      then butlast xs @ absorb (fst (last xs)) (fst (snd (last xs)) + (sz + 32)) ys
      else xs @ absorb t sz ys)"

text \<open>The stores that make two neighbours one block.\<close>

definition merge :: "u64 \<Rightarrow> u64 \<Rightarrow> memory \<Rightarrow> memory" where
  "merge a b m =
     (let n = blk_next m b; m' = set_next a n (set_size a (blk_size m a + (blk_size m b + 32)) m)
      in if n \<noteq> 0 then set_prev n a m' else m')"

lemma merge_linked:
  assumes l: "linked m p (xs @ (a, s1, False) # (b, s2, u) # ys) 0"
    and la: "laid c (xs @ (a, s1, False) # (b, s2, u) # ys) e" and e: "0 < c" "e \<le> 2 ^ 64"
  shows "linked (merge a b m) p (xs @ (a, s1 + (s2 + 32), False) # ys) 0"
    and "laid c (xs @ (a, s1 + (s2 + 32), False) # ys) e"
    and "\<And>x. x \<notin> headers (xs @ (a, s1, False) # (b, s2, u) # ys) \<Longrightarrow> merge a b m x = m x"
proof -
  have lx: "laid c xs (unat a)" and ab: "unat b = unat a + 32 + unat s1" and ly: "laid (unat b + 32 + unat s2) ys e"
    and s12: "s1 \<noteq> 0" "s2 \<noteq> 0" using la by (auto simp: laid_split)
  have le: "unat b + 32 + unat s2 \<le> e" by (rule laid_le [OF ly])
  have sum: "unat (s1 + (s2 + 32)) = unat s1 + (unat s2 + 32)"
    using le ab e(2) by (simp add: unat_add_nowrap)
  have "s1 + (s2 + 32) \<noteq> 0" using sum s12 by (metis add_eq_0_iff_both_eq_0 unat_eq_zero zero_neq_numeral)
  then show "laid c (xs @ (a, s1 + (s2 + 32), False) # ys) e"
    using lx ly ab sum by (simp add: laid_split ac_simps)
  have f: "blk_size m a = s1" "blk_in_use m a = 0" "blk_prev m a = last_of p xs" "blk_next m a = b"
    "blk_size m b = s2" "blk_next m b = first_of ys 0" and lk: "linked m p xs a" "linked m b ys 0"
    using l by (simp_all add: linked_append)
  define m' where "m' = merge a b m"
  have m': "m' = (if first_of ys 0 \<noteq> 0 then set_prev (first_of ys 0) a else (\<lambda>m. m))
     (set_next a (first_of ys 0) (set_size a (s1 + (s2 + 32)) m))"
    by (simp add: m'_def merge_def Let_def f)
  have y: "apart a y \<and> apart y a \<and> y \<noteq> a \<and> unat y = unat b + 32 + unat s2 \<and> unat y + 32 \<le> e"
    if yy: "first_of ys 0 = y" "y \<noteq> 0" for y
  proof -
    obtain s u ys' where ys: "ys = (y, s, u) # ys'" using yy by (cases ys) auto
    then have "unat y = unat b + 32 + unat s2" "unat y + 32 \<le> e" using ly laid_block [OF ly, of y s u] by auto
    then show ?thesis using apart_nat [of a y] ab e(2) by auto
  qed
  have r: "x \<in> rng a 32 \<longleftrightarrow> unat a \<le> unat x \<and> unat x < unat a + 32" for x
    using in_rng_nat [of a 32 x] le ab e(2) by simp
  have ry: "x \<in> rng (first_of ys 0) 32 \<longleftrightarrow> unat b + 32 + unat s2 \<le> unat x \<and> unat x < unat b + 32 + unat s2 + 32"
    if "first_of ys 0 \<noteq> 0" for x
    using y [OF refl that] in_rng_nat [of "first_of ys 0" 32 x] e(2) by simp
  have out: "m' x = m x" if "x \<notin> rng a 32" "first_of ys 0 \<noteq> 0 \<Longrightarrow> x \<notin> rng (first_of ys 0) 32" for x
    using that by (auto simp: m' set_other simp del: in_rng)
  have same: "m' x = m x" if "unat x < unat a \<or> unat b + 32 + unat s2 + 32 \<le> unat x" for x
    using that r [of x] ry [of x] ab by (intro out) auto
  have xt: "linked m' p xs a"
    using lk(1) linked_cong [of xs m' m p a] headers_bounds [OF lx] same le ab e(2) by simp
  have yt: "linked m' a ys 0"
  proof (cases ys)
    case (Cons d ys')
    obtain y s v where d: "d = (y, s, v)" by (cases d)
    have y': "unat y = unat b + 32 + unat s2" "laid (unat y + 32 + unat s) ys' e" using ly Cons d by auto
    then have "linked m' y ys' 0"
      using lk(2) Cons d linked_cong [of ys' m' m y 0] headers_bounds [OF y'(2) e(2)] same by fastforce
    moreover have "y \<noteq> 0" using y' by auto
    ultimately show ?thesis using lk(2) Cons d y [of y] by (simp add: m' mem_simps)
  qed simp
  have "blk_size m' a = s1 + (s2 + 32)" "blk_in_use m' a = 0" "blk_prev m' a = last_of p xs" "blk_next m' a = first_of ys 0"
    using y [OF refl] f by (auto simp: m' mem_simps)
  with xt yt show "linked (merge a b m) p (xs @ (a, s1 + (s2 + 32), False) # ys) 0"
    by (simp add: linked_append m'_def)
  show "merge a b m x = m x" if "x \<notin> headers (xs @ (a, s1, False) # (b, s2, u) # ys)" for x
    unfolding m'_def [symmetric] using that by (intro out) (cases ys; auto simp del: in_rng)+
qed

definition join_back :: "u64 \<Rightarrow> memory \<Rightarrow> u64 \<times> memory" where
  "join_back b m = (if blk_prev m b \<noteq> 0 \<and> blk_in_use m (blk_prev m b) = 0
                    then (blk_prev m b, merge (blk_prev m b) b m) else (b, m))"

definition join_fwd :: "u64 \<Rightarrow> memory \<Rightarrow> memory" where
  "join_fwd b m = (if blk_next m b \<noteq> 0 \<and> blk_in_use m (blk_next m b) = 0
                   then merge b (blk_next m b) m else m)"

text \<open>A block and its neighbours do not overlap.\<close>

definition neighbours_apart :: "memory \<Rightarrow> u64 \<Rightarrow> bool" where
  "neighbours_apart m b \<longleftrightarrow>
     (blk_prev m b \<noteq> 0 \<longrightarrow> apart (blk_prev m b) b \<and> apart b (blk_prev m b) \<and> blk_prev m b \<noteq> b) \<and>
     (blk_next m b \<noteq> 0 \<longrightarrow> apart (blk_next m b) b \<and> apart b (blk_next m b) \<and> blk_next m b \<noteq> b)"

lemma free_joins:
  assumes "b = ptr - 32" "m0 = set_in_use b 0 (mem s)" "neighbours_apart m0 b"
    "join_back b m0 = (b1, m1)" "neighbours_apart m1 b1"
  shows "free ptr s = s\<lparr>mem := join_fwd b1 m1\<rparr>"
proof -
  have bk: "(if blk_prev m0 b \<noteq> 0 \<and> blk_in_use m0 (blk_prev m0 b) = 0
      then let m = set_size (blk_prev m0 b) (blk_size m0 (blk_prev m0 b) + (blk_size m0 b + sizeof_block)) m0;
               m = set_next (blk_prev m b) (blk_next m b) m;
               m = (if blk_next m b \<noteq> 0 then set_prev (blk_next m b) (blk_prev m b) m else m)
           in (blk_prev m b, m)
      else (b, m0)) = (b1, m1)"
  proof (cases "blk_prev m0 b \<noteq> 0 \<and> blk_in_use m0 (blk_prev m0 b) = 0")
    case True
    then have p: "apart (blk_prev m0 b) b" "blk_prev m0 b \<noteq> b" using assms(3) by (auto simp: neighbours_apart_def)
    have n: "blk_next m0 b \<noteq> 0 \<Longrightarrow> apart (blk_next m0 b) b \<and> blk_next m0 b \<noteq> b \<and> b \<noteq> blk_next m0 b"
      using assms(3) by (auto simp: neighbours_apart_def)
    show ?thesis
      using True assms(4) p p(2) [symmetric] n
      by (cases "blk_next m0 b = 0")
        (auto simp: join_back_def merge_def Let_def sizeof_block_def mem_simps)
  next
    case False
    then show ?thesis using assms(4) by (simp only: join_back_def if_False)
  qed
  have fwd: "(if blk_next m1 b1 \<noteq> 0 \<and> blk_in_use m1 (blk_next m1 b1) = 0
      then let m = set_size b1 (blk_size m1 b1 + (blk_size m1 (blk_next m1 b1) + sizeof_block)) m1;
               m = set_next b1 (blk_next m (blk_next m b1)) m
           in if blk_next m b1 \<noteq> 0 then set_prev (blk_next m b1) b1 m else m
      else m1) = join_fwd b1 m1"
  proof (cases "blk_next m1 b1 \<noteq> 0 \<and> blk_in_use m1 (blk_next m1 b1) = 0")
    case True
    then have n: "apart b1 (blk_next m1 b1)" "blk_next m1 b1 \<noteq> b1" using assms(5) by (auto simp: neighbours_apart_def)
    with True show ?thesis by (simp add: join_fwd_def merge_def Let_def sizeof_block_def mem_simps)
  next
    case False
    then show ?thesis by (simp only: join_fwd_def if_False)
  qed
  show ?thesis
    unfolding free_def Let_def sizeof_block_def assms(1) [symmetric] assms(2) [symmetric]
      bk [unfolded Let_def sizeof_block_def] prod.case fwd [unfolded Let_def sizeof_block_def] ..
qed

lemma linked_neighbours:
  assumes l: "linked m 0 (xs @ (b, sz, u) # ys) 0" and la: "laid a (xs @ (b, sz, u) # ys) e" and e: "e \<le> 2 ^ 64"
  shows "neighbours_apart m b"
proof -
  have lx: "laid a xs (unat b)" and ly: "laid (unat b + 32 + unat sz) ys e" using la by (auto simp: laid_split)
  have le: "unat b + 32 + unat sz \<le> e" by (rule laid_le [OF ly])
  have p: "apart (last_of 0 xs) b \<and> apart b (last_of 0 xs) \<and> last_of 0 xs \<noteq> b" if nz: "last_of 0 xs \<noteq> 0"
  proof (cases xs rule: rev_exhaust)
    case (snoc xs' c)
    then have "unat (fst c) + 32 \<le> unat b"
      using laid_block [OF lx, of "fst c" "fst (snd c)" "snd (snd c)"] by simp
    then show ?thesis using snoc apart_nat [of "fst c" b] le e by simp
  qed (use nz in simp)
  have n: "apart (first_of ys 0) b \<and> apart b (first_of ys 0) \<and> first_of ys 0 \<noteq> b" if nz: "first_of ys 0 \<noteq> 0"
  proof (cases ys)
    case (Cons c ys')
    then have "unat b + 32 \<le> unat (fst c)" "unat (fst c) + 32 \<le> e"
      using laid_block [OF ly, of "fst c" "fst (snd c)" "snd (snd c)"] by simp_all
    then show ?thesis using Cons apart_nat [of b "fst c"] e by auto
  qed (use nz in simp)
  show ?thesis using l p n by (simp add: neighbours_apart_def linked_append)
qed

lemma join_fwd_absorb:
  assumes l: "linked m 0 (xs @ (b, sz, False) # ys) 0" and la: "laid a (xs @ (b, sz, False) # ys) e"
    and e: "0 < a" "e \<le> 2 ^ 64"
  shows "linked (join_fwd b m) 0 (xs @ absorb b sz ys) 0" and "laid a (xs @ absorb b sz ys) e"
    and "\<And>x. x \<notin> headers (xs @ (b, sz, False) # ys) \<Longrightarrow> join_fwd b m x = m x"
proof -
  have next': "blk_next m b = first_of ys 0" and ly: "linked m b ys 0" using l by (simp_all add: linked_append)
  consider (none) "ys = []" | (used) y s2 ys' where "ys = (y, s2, True) # ys'"
    | (free) y s2 ys' where "ys = (y, s2, False) # ys'"
    by (cases ys) auto
  then have "linked (join_fwd b m) 0 (xs @ absorb b sz ys) 0 \<and> laid a (xs @ absorb b sz ys) e
    \<and> (\<forall>x. x \<notin> headers (xs @ (b, sz, False) # ys) \<longrightarrow> join_fwd b m x = m x)"
  proof cases
    case none
    then show ?thesis using l la next' by (simp add: join_fwd_def absorb_def)
  next
    case used
    then show ?thesis using l la next' ly by (simp add: join_fwd_def absorb_def)
  next
    case free
    have "y \<noteq> 0"
      using la e(1) free laid_block [OF la, of y s2 False] by auto
    then have "join_fwd b m = merge b y m" using next' ly free by (simp add: join_fwd_def)
    with merge_linked [of m 0 xs b sz y s2 False ys' a e] l la e free show ?thesis
      by (simp add: absorb_def del: in_rng)
  qed
  then show "linked (join_fwd b m) 0 (xs @ absorb b sz ys) 0" and "laid a (xs @ absorb b sz ys) e"
    and "\<And>x. x \<notin> headers (xs @ (b, sz, False) # ys) \<Longrightarrow> join_fwd b m x = m x" by blast+
qed

lemma absorb_live: "live (absorb a sz ys) = live ys"
  by (auto simp: live_def absorb_def split: list.splits)

lemma absorb_coalesced:
  assumes "coalesced (xs @ (t, sz, True) # ys)" "xs \<noteq> [] \<Longrightarrow> blk_used (last xs)"
  shows "coalesced (xs @ absorb a s1 ys)"
  using assms
  by (auto simp: coalesced_append coalesced_Cons absorb_def blk_used_def split: list.splits)

lemma absorb_headers: "headers (absorb a sz ys) \<subseteq> rng a 32 \<union> headers ys"
  by (auto simp: absorb_def split: list.splits simp del: in_rng)

lemma join_back_unplace:
  assumes l: "linked m 0 (xs @ (t, sz, False) # ys) 0" and la: "laid a (xs @ (t, sz, False) # ys) e"
    and e: "0 < a" "e \<le> 2 ^ 64"
  obtains xs1 t1 sz1 m1 where "join_back t m = (t1, m1)" "linked m1 0 (xs1 @ (t1, sz1, False) # ys) 0"
    "laid a (xs1 @ (t1, sz1, False) # ys) e" "unplace xs t sz ys = xs1 @ absorb t1 sz1 ys"
    "xs1 = xs \<and> t1 = t \<and> (xs \<noteq> [] \<longrightarrow> blk_used (last xs)) \<or> (\<exists>s1. xs = xs1 @ [(t1, s1, False)])"
    "\<forall>x. x \<notin> headers (xs @ (t, sz, False) # ys) \<longrightarrow> m1 x = m x"
proof (cases "xs \<noteq> [] \<and> \<not> blk_used (last xs)")
  case True
  then obtain xs1 t1 s1 where xs: "xs = xs1 @ [(t1, s1, False)]"
    by (cases xs rule: rev_exhaust) (auto simp: blk_used_def)
  have "t1 \<noteq> 0" using laid_block [OF la, of t1 s1 False] xs e(1) by auto
  then have j: "join_back t m = (t1, merge t1 t m)" using l xs by (simp add: join_back_def linked_append)
  from merge_linked [of m 0 xs1 t1 s1 t sz False ys a e] l la e xs
  show thesis by (intro that [OF j, of xs1 "s1 + (sz + 32)"])
    (simp_all add: unplace_def blk_used_def del: in_rng)
next
  case False
  have "blk_prev m t = last_of 0 xs" using l by (simp add: linked_append)
  moreover have "last_of 0 xs \<noteq> 0 \<Longrightarrow> blk_in_use m (last_of 0 xs) \<noteq> 0"
    using False l by (cases xs rule: rev_exhaust) (auto simp: linked_append blk_used_def)
  ultimately have "join_back t m = (t, m)" by (auto simp: join_back_def)
  with l la False show thesis by (intro that [of t m xs sz]) (auto simp: unplace_def)
qed

text \<open>\<open>free\<close> of a pointer that \<open>kmalloc\<close> returned and that is still in use.\<close>

lemma free_unplace:
  assumes inv: "heap_inv s (xs @ (t, sz, True) # ys)"
  shows "\<exists>m. free (t + 32) s = s\<lparr>mem := m\<rparr> \<and> heap_inv (s\<lparr>mem := m\<rparr>) (unplace xs t sz ys)
    \<and> (\<forall>x. x \<notin> headers (xs @ (t, sz, True) # ys) \<longrightarrow> m x = mem s x)"
proof -
  let ?a = "unat (heap_base s)" and ?e = "unat (kernel_brk s)"
  note bnd = heap_inv_bounds [OF inv]
  have l0: "linked (mem s) 0 (xs @ (t, sz, True) # ys) 0" and la0: "laid ?a (xs @ (t, sz, True) # ys) ?e"
    and hb: "heap_base s = first_of (xs @ (t, sz, True) # ys) 0" and co: "coalesced (xs @ (t, sz, True) # ys)"
    and hs: "KERNEL_BRK_START \<le> heap_base s" "kernel_brk s < BRK_LIMIT"
    using inv unfolding heap_inv_def by blast+
  define m0 where "m0 = set_in_use t 0 (mem s)"
  have l: "linked m0 0 (xs @ (t, sz, False) # ys) 0" and la: "laid ?a (xs @ (t, sz, False) # ys) ?e"
    using linked_set_in_use [OF l0 la0 bnd(2), of 0] la0 by (simp_all add: m0_def laid_split)
  obtain xs1 t1 sz1 m1 where j: "join_back t m0 = (t1, m1)" and l1: "linked m1 0 (xs1 @ (t1, sz1, False) # ys) 0"
    and la1: "laid ?a (xs1 @ (t1, sz1, False) # ys) ?e" and un: "unplace xs t sz ys = xs1 @ absorb t1 sz1 ys"
    and xs1: "xs1 = xs \<and> t1 = t \<and> (xs \<noteq> [] \<longrightarrow> blk_used (last xs)) \<or> (\<exists>s1. xs = xs1 @ [(t1, s1, False)])"
    and o1: "\<forall>x. x \<notin> headers (xs @ (t, sz, False) # ys) \<longrightarrow> m1 x = m0 x"
    by (rule join_back_unplace [OF l la bnd(1,2)])
  define m where "m = join_fwd t1 m1"
  have call: "free (t + 32) s = s\<lparr>mem := m\<rparr>"
    unfolding m_def using linked_neighbours [OF l la bnd(2)] linked_neighbours [OF l1 la1 bnd(2)]
    by (intro free_joins [OF _ m0_def _ j]) simp_all
  note fw = join_fwd_absorb [OF l1 la1 bnd(1,2), folded m_def un]
  have co1: "coalesced (unplace xs t sz ys)"
    using xs1 co absorb_coalesced [of xs1 t sz ys t1 sz1]
    unfolding un by (auto simp: coalesced_append coalesced_Cons blk_used_def)
  have hb1: "heap_base s = first_of (unplace xs t sz ys) 0"
    using xs1 hb unfolding un by (cases xs1) (auto simp: absorb_def split: list.split)
  have "heap_inv (s\<lparr>mem := m\<rparr>) (unplace xs t sz ys)"
    using fw(1,2) co1 hb1 hs un by (auto simp: heap_inv_def absorb_def split: list.splits)
  moreover have "m x = mem s x" if "x \<notin> headers (xs @ (t, sz, True) # ys)" for x
    using that fw(3) [of x] o1 xs1 by (auto simp: m0_def set_other simp del: in_rng)
  ultimately show ?thesis using call by blast
qed

section \<open>The heap as an allocator of objects\<close>

lemma linked_unique:
  assumes "linked m p bs 0" "linked m p bs' 0" "first_of bs 0 = first_of bs' 0"
    "\<forall>b \<in> set bs. fst b \<noteq> 0" "\<forall>b \<in> set bs'. fst b \<noteq> 0"
  shows "bs = bs'"
  using assms
proof (induction bs arbitrary: p bs')
  case Nil
  then show ?case by (cases bs') auto
next
  case (Cons b bs)
  obtain a sz u where b: "b = (a, sz, u)" by (cases b)
  obtain c cs where bs': "bs' = c # cs" using Cons.prems b by (cases bs') auto
  then obtain sz' u' where c: "c = (a, sz', u')" using Cons.prems(3) b by (cases c) auto
  have "bs = cs" using Cons.prems b bs' c by (intro Cons.IH [of a cs]) auto
  with Cons.prems b bs' c show ?case by auto
qed

lemma heap_inv_unique:
  assumes "heap_inv s bs" "heap_inv s bs'"
  shows "bs = bs'"
proof (rule linked_unique)
  show "linked (mem s) 0 bs 0" "linked (mem s) 0 bs' 0" "first_of bs 0 = first_of bs' 0"
    using assms unfolding heap_inv_def by simp_all
  show "\<forall>b \<in> set bs. fst b \<noteq> 0" "\<forall>b \<in> set bs'. fst b \<noteq> 0"
    using heap_inv_bounds(3) [OF assms(1)] heap_inv_bounds(3) [OF assms(2)] by simp_all
qed

definition heap_ok :: "'a heap_state_scheme \<Rightarrow> bool" where
  "heap_ok s \<longleftrightarrow> (\<exists>bs. heap_inv s bs)"

definition heap_objects :: "'a heap_state_scheme \<Rightarrow> (u64 \<times> u64) set" where
  "heap_objects s = {ob. \<exists>bs. heap_inv s bs \<and> ob \<in> live bs}"

lemma heap_objects_eq: "heap_inv s bs \<Longrightarrow> heap_objects s = live bs"
  using heap_inv_unique by (auto simp: heap_objects_def)

lemma live_append: "live (xs @ ys) = live xs \<union> live ys"
  by (auto simp: live_def)

lemma live_Cons: "live ((a, sz, u) # bs) = (if u then {(a + 32, sz)} else {}) \<union> live bs"
  by (auto simp: live_def)

lemma live_Nil [simp]: "live [] = {}"
  by (simp add: live_def)

lemma unat_payload:
  fixes b n :: u64
  assumes "unat b + 32 + unat n \<le> e" "e \<le> 2 ^ 64" "n \<noteq> 0"
  shows "unat (b + 32) = unat b + 32"
proof -
  have "0 < unat n" using assms(3) by (simp add: unat_gt_0)
  then show ?thesis using assms(1,2) by (subst unat_add_nowrap) simp_all
qed

lemma live_bounds:
  assumes "laid a bs e" "e \<le> 2 ^ 64" "(p, n) \<in> live bs"
  shows "unat p = unat (p - 32) + 32" "a + 32 \<le> unat p" "unat p + unat n \<le> e" "n \<noteq> 0"
proof -
  obtain b where b: "p = b + 32" "(b, n, True) \<in> set bs" using assms(3) by (auto simp: live_def)
  have *: "a \<le> unat b" "unat b + 32 + unat n \<le> e" "n \<noteq> 0" using laid_block [OF assms(1) b(2)] by auto
  have "unat p = unat b + 32" unfolding b(1) by (rule unat_payload [OF *(2) assms(2) *(3)])
  with * b show "unat p = unat (p - 32) + 32" "a + 32 \<le> unat p" "unat p + unat n \<le> e" "n \<noteq> 0" by simp_all
qed

lemma live_rng:
  assumes "laid a bs e" "e \<le> 2 ^ 64" "(p, n) \<in> live bs"
  shows "x \<in> rng p (unat n) \<longleftrightarrow> unat p \<le> unat x \<and> unat x < unat p + unat n"
  using live_bounds [OF assms] assms(2) by (intro in_rng_nat) simp

text \<open>The payload of a live object meets no header and no other payload.\<close>

lemma live_disjoint:
  assumes "laid a (xs @ (b, n, True) # ys) e" "e \<le> 2 ^ 64" "(q, k) \<in> live (xs @ ys)"
  shows "b + 32 \<noteq> q" and "rng (b + 32) (unat n) \<inter> rng q (unat k) = {}"
proof -
  have lx: "laid a xs (unat b)" and ly: "laid (unat b + 32 + unat n) ys e"
    using assms(1) by (simp_all add: laid_split)
  have le: "unat b + 32 + unat n \<le> e" by (rule laid_le [OF ly])
  have n: "n \<noteq> 0" using assms(1) by (simp add: laid_split)
  have b32: "unat (b + 32) = unat b + 32" by (rule unat_payload [OF le assms(2) n])
  consider "(q, k) \<in> live xs" | "(q, k) \<in> live ys" using assms(3) by (auto simp: live_append)
  then have "b + 32 \<noteq> q \<and> rng (b + 32) (unat n) \<inter> rng q (unat k) = {}"
  proof cases
    case 1
    then have "unat q + unat k \<le> unat b" "k \<noteq> 0" using live_bounds [OF lx] le assms(2) by auto
    then have "rng q (unat k) \<inter> rng (b + 32) (unat n) = {}" "unat (b + 32) \<noteq> unat q"
      using b32 le assms(2) by (auto intro!: rng_disjoint_nat simp del: in_rng)
    then show ?thesis by auto
  next
    case 2
    then have "unat b + 64 + unat n \<le> unat q" "unat q + unat k \<le> e" using live_bounds [OF ly assms(2)] by auto
    then have "rng (b + 32) (unat n) \<inter> rng q (unat k) = {}" "unat (b + 32) \<noteq> unat q"
      using b32 le assms(2) by (auto intro!: rng_disjoint_nat simp del: in_rng)
    then show ?thesis by auto
  qed
  then show "b + 32 \<noteq> q" and "rng (b + 32) (unat n) \<inter> rng q (unat k) = {}" by blast+
qed

lemma live_not_header:
  assumes "laid a bs e" "e \<le> 2 ^ 64" "(p, n) \<in> live bs" "x \<in> rng p (unat n)"
  shows "x \<notin> headers bs"
proof -
  obtain xs b ys where bs: "bs = xs @ (b, n, True) # ys" and p: "p = b + 32"
    using assms(3) by (auto simp: live_def dest!: split_list)
  have lx: "laid a xs (unat b)" and ly: "laid (unat b + 32 + unat n) ys e"
    using assms(1) bs by (simp_all add: laid_split)
  have le: "unat b + 32 + unat n \<le> e" by (rule laid_le [OF ly])
  have x: "unat b + 32 \<le> unat x" "unat x < unat b + 32 + unat n"
    using live_rng [OF assms(1-3)] live_bounds [OF assms(1-3)] assms(4) p by (auto simp del: in_rng)
  then have "x \<notin> rng b 32" using in_rng_nat [of b 32 x] le assms(2) by simp
  with headers_bounds [OF lx] headers_bounds [OF ly assms(2)] x le assms(2) show ?thesis
    unfolding bs by (force simp del: in_rng)
qed

lemma unplace_live:
  assumes "laid a (xs @ (t, sz, True) # ys) e" "e \<le> 2 ^ 64"
  shows "live (unplace xs t sz ys) = live (xs @ (t, sz, True) # ys) - {(t + 32, sz)}"
proof -
  have "live (unplace xs t sz ys) = live (xs @ ys)"
  proof (cases "xs \<noteq> [] \<and> \<not> blk_used (last xs)")
    case True
    then obtain xs' b n where "xs = xs' @ [(b, n, False)]"
      by (cases xs rule: rev_exhaust) (auto simp: blk_used_def)
    then show ?thesis by (simp add: unplace_def blk_used_def absorb_live live_append live_Cons)
  next
    case False
    then show ?thesis unfolding unplace_def by (simp only: if_False live_append absorb_live)
  qed
  moreover have "(t + 32, sz) \<notin> live (xs @ ys)" using live_disjoint(1) [OF assms] by auto
  ultimately show ?thesis by (auto simp: live_append live_Cons)
qed

lemma place_live:
  assumes "place n bs = Some (t, bs')" "laid a bs e" "e \<le> 2 ^ 64" "unat n + 32 < 2 ^ 64"
  shows "t + 32 \<notin> fst ` live bs" and "\<exists>k. n \<le> k \<and> live bs' = insert (t + 32, k) (live bs)"
proof -
  obtain xs sz ys where bs: "bs = xs @ (t, sz, False) # ys" and bs': "bs' = xs @ carve n t sz @ ys"
    and fit: "fits n (t, sz, False)"
    using place_Some [OF assms(1)] by blast
  have "live bs = live (xs @ ys)" by (simp add: bs live_append live_Cons)
  moreover have "laid a (xs @ (t, sz, True) # ys) e" using assms(2) bs by (simp add: laid_split)
  ultimately show "t + 32 \<notin> fst ` live bs" using live_disjoint(1) [OF _ assms(3)] by force
  have "unat (n + 32) = unat n + 32" using assms(4) by (simp add: unat_add_nowrap)
  then have "n \<le> sz" using fit by (auto simp: word_le_nat_alt)
  then show "\<exists>k. n \<le> k \<and> live bs' = insert (t + 32, k) (live bs)"
    by (cases "sz - n \<le> 32") (auto simp: bs bs' carve_def live_append live_Cons)
qed

text \<open>Everything the heap hands out lies between its base and the break, so no request wraps.\<close>

lemma request_nowrap:
  assumes "heap_inv s bs" "unat n \<le> 2 ^ 32"
  shows "unat (kernel_brk s) + 32 + unat n < 2 ^ 64"
proof -
  have "kernel_brk s < BRK_LIMIT" using assms(1) unfolding heap_inv_def by blast
  then have "unat (kernel_brk s) < 0xFFFFC90000080000"
    by (simp add: word_less_nat_alt BRK_LIMIT_def KERNEL_BRK_START_def KERNEL_BRK_PAGES_def)
  with assms(2) show ?thesis by simp
qed

lemma kmalloc_object:
  assumes ok: "heap_inv s bs" and n: "0 < unat n" "unat n \<le> 2 ^ 32" and call: "kmalloc n s = Inr (p, s')"
  obtains bs' k where "heap_inv s' bs'" "n \<le> k" "live bs' = insert (p, k) (live bs)" "p \<notin> fst ` live bs"
    "\<forall>x. x \<notin> headers bs' \<longrightarrow> mem s' x = mem s x"
proof -
  note bnd = heap_inv_bounds [OF ok] and nw = request_nowrap [OF ok n(2)]
  have n0: "n \<noteq> 0" using n(1) by auto
  have la: "laid (unat (heap_base s)) bs (unat (kernel_brk s))" using ok unfolding heap_inv_def by blast
  show thesis
  proof (cases "place n bs")
    case (Some r)
    obtain t bs' where r: "r = (t, bs')" by (cases r)
    have nw': "unat n + 32 < 2 ^ 64" using nw by simp
    from kmalloc_place [OF ok n0 nw', of t bs'] Some r call
    have "p = t + 32" "heap_inv s' bs'" "\<forall>x. x \<notin> headers bs' \<longrightarrow> mem s' x = mem s x" by auto
    with place_live [of n bs t bs', OF _ la bnd(2) nw'] Some r that show thesis by blast
  next
    case None
    show thesis
    proof (cases "unat (kernel_brk s) + 32 + unat n < unat BRK_LIMIT")
      case True
      let ?t = "kernel_brk s"
      from kmalloc_grow [OF ok n0 None True] call
      have s': "p = ?t + 32" "heap_inv s' (bs @ [(?t, n, True)])"
          "\<forall>x. x \<notin> headers (bs @ [(?t, n, True)]) \<longrightarrow> mem s' x = mem s x" by auto
      have "laid (unat (heap_base s)) (bs @ [(?t, n, True)]) (unat ?t + 32 + unat n)"
        using la n0 by (simp add: laid_append)
      then have "?t + 32 \<notin> fst ` live bs"
        using live_disjoint(1) [of _ bs ?t n "[]"] nw by force
      with s' show thesis by (intro that [of "bs @ [(?t, n, True)]" n]) (auto simp: live_append live_Cons)
    next
      case False
      with kmalloc_exhausted [OF ok n0 None _ nw] call show thesis by simp
    qed
  qed
qed

lemma heap_object_cases:
  assumes "heap_ok s" "(p, n) \<in> heap_objects s"
  obtains xs b ys where "heap_inv s (xs @ (b, n, True) # ys)" "p = b + 32"
    "laid (unat (heap_base s)) (xs @ (b, n, True) # ys) (unat (kernel_brk s))"
    "heap_objects s = insert (p, n) (live (xs @ ys))"
proof -
  obtain bs where bs: "heap_inv s bs" using assms(1) by (auto simp: heap_ok_def)
  obtain xs b ys where b: "bs = xs @ (b, n, True) # ys" "p = b + 32"
    using assms(2) by (auto simp: heap_objects_eq [OF bs] live_def dest!: split_list)
  have "laid (unat (heap_base s)) bs (unat (kernel_brk s))" using bs unfolding heap_inv_def by blast
  moreover have "heap_objects s = insert (p, n) (live (xs @ ys))"
    unfolding heap_objects_eq [OF bs] b by (simp add: live_append live_Cons)
  ultimately show thesis using that bs b by blast
qed

lemma heap_objects_payload:
  assumes "heap_inv s bs" "(q, k) \<in> heap_objects s" "x \<in> rng q (unat k)"
  shows "x \<notin> headers bs"
proof -
  have "laid (unat (heap_base s)) bs (unat (kernel_brk s))" using assms(1) unfolding heap_inv_def by blast
  from live_not_header [OF this heap_inv_bounds(2) [OF assms(1)] _ assms(3)] assms(2) show ?thesis
    unfolding heap_objects_eq [OF assms(1)] by blast
qed

lemma free_object:
  assumes "heap_ok s" "(p, n) \<in> heap_objects s"
  shows "heap_ok (free p s)" and "heap_objects (free p s) = heap_objects s - {(p, n)}"
    and "\<And>q k x. (q, k) \<in> heap_objects s \<Longrightarrow> x \<in> rng q (unat k) \<Longrightarrow> mem (free p s) x = mem s x"
    and "free p s = s\<lparr>mem := mem (free p s)\<rparr>"
proof -
  obtain xs b ys where b: "heap_inv s (xs @ (b, n, True) # ys)" "p = b + 32"
    "laid (unat (heap_base s)) (xs @ (b, n, True) # ys) (unat (kernel_brk s))"
    by (rule heap_object_cases [OF assms])
  obtain m where m: "free p s = s\<lparr>mem := m\<rparr>" "heap_inv (s\<lparr>mem := m\<rparr>) (unplace xs b n ys)"
    "\<forall>x. x \<notin> headers (xs @ (b, n, True) # ys) \<longrightarrow> m x = mem s x"
    using free_unplace [OF b(1)] unfolding b(2) by blast
  show "heap_ok (free p s)" using m unfolding heap_ok_def by auto
  have hi: "heap_inv (free p s) (unplace xs b n ys)" using m(1,2) by simp
  show "heap_objects (free p s) = heap_objects s - {(p, n)}"
    unfolding heap_objects_eq [OF hi] heap_objects_eq [OF b(1)] unfolding b(2)
    by (rule unplace_live [OF b(3) heap_inv_bounds(2) [OF b(1)]])
  show "mem (free p s) x = mem s x" if "(q, k) \<in> heap_objects s" "x \<in> rng q (unat k)" for q k x
    using m(1,3) heap_objects_payload [OF b(1) that] by simp
  show "free p s = s\<lparr>mem := mem (free p s)\<rparr>" using m(1) by simp
qed

interpretation kheap: heap_allocator kmalloc free heap_ok heap_objects mem "2 ^ 32"
proof (unfold_locales, goal_cases)
  case (1 s p n q k)
  obtain xs b ys where b: "heap_inv s (xs @ (b, n, True) # ys)" "p = b + 32"
    "laid (unat (heap_base s)) (xs @ (b, n, True) # ys) (unat (kernel_brk s))"
    "heap_objects s = insert (p, n) (live (xs @ ys))"
    by (rule heap_object_cases [OF 1(1,2)])
  with 1(3,4) have "(q, k) \<in> live (xs @ ys)" by simp
  from live_disjoint(2) [OF b(3) heap_inv_bounds(2) [OF b(1)] this] b(2) show ?case by simp
next
  case (2 s p n k)
  obtain xs b ys where b: "heap_inv s (xs @ (b, n, True) # ys)" "p = b + 32"
    "laid (unat (heap_base s)) (xs @ (b, n, True) # ys) (unat (kernel_brk s))"
    "heap_objects s = insert (p, n) (live (xs @ ys))"
    by (rule heap_object_cases [OF 2(1,2)])
  from live_disjoint(1) [OF b(3) heap_inv_bounds(2) [OF b(1)], of p k] b(2,4) 2(3) show ?case by auto
next
  case (3 s n p s')
  then obtain bs where bs: "heap_inv s bs" by (auto simp: heap_ok_def)
  obtain bs' k where bs': "heap_inv s' bs'" "n \<le> k" "live bs' = insert (p, k) (live bs)" "p \<notin> fst ` live bs"
    by (rule kmalloc_object [OF bs 3(2-4)])
  then show ?case unfolding heap_objects_eq [OF bs] heap_objects_eq [OF bs'(1)] heap_ok_def by blast
next
  case (4 s n p s' q k x)
  then obtain bs where bs: "heap_inv s bs" by (auto simp: heap_ok_def)
  obtain bs' j where bs': "heap_inv s' bs'" "live bs' = insert (p, j) (live bs)"
    and keep: "\<forall>x. x \<notin> headers bs' \<longrightarrow> mem s' x = mem s x"
    by (rule kmalloc_object [OF bs 4(2-4)])
  have "(q, k) \<in> heap_objects s'"
    using 4(5) bs'(2) unfolding heap_objects_eq [OF bs] heap_objects_eq [OF bs'(1)] by blast
  from heap_objects_payload [OF bs'(1) this 4(6)] keep show ?case by blast
next
  case (5 s p n)
  then show ?case using free_object(1,2) by blast
next
  case (6 s p n q k x)
  then show ?case by (intro free_object(3))
qed


section \<open>Properties\<close>

definition sample_heap_boot :: heap_state where
  "sample_heap_boot = \<lparr>mem = (\<lambda>_. 0), n_regions = 0, regions = [], kernel_brk = KERNEL_BRK_START, heap_base = 0\<rparr>"

definition sample_heap :: heap_state where
  "sample_heap = projr (kmalloc_init sample_heap_boot)"

definition sample_blocks :: "blk list" where
  "sample_blocks = [(KERNEL_BRK_START, INIT_HEAP_SIZE - 32, False)]"

lemma init_heap_state:
  assumes "kernel_brk s = KERNEL_BRK_START"
  shows "heap_inv (projr (kmalloc_init s)) sample_blocks"
    and "kernel_brk (projr (kmalloc_init s)) = KERNEL_BRK_START + INIT_HEAP_SIZE"
    and "kmalloc_init s = Inr (projr (kmalloc_init s))"
    and "\<And>x. x \<notin> rng KERNEL_BRK_START 32 \<Longrightarrow> mem (projr (kmalloc_init s)) x = mem s x"
  using kmalloc_init_inv [OF assms] by (auto simp: sample_blocks_def)

lemma sample_heap_inv: "heap_inv sample_heap sample_blocks"
  unfolding sample_heap_def by (rule init_heap_state) (simp add: sample_heap_boot_def)

lemma sample_heap_ok: "heap_ok sample_heap"
  using sample_heap_inv by (auto simp: heap_ok_def)

lemma sample_place:
  "place 64 sample_blocks = Some (KERNEL_BRK_START,
     [(KERNEL_BRK_START, 64, True), (KERNEL_BRK_START + 96, 16256, False)])"
proof -
  have i: "INIT_HEAP_SIZE = 16384" by (simp add: INIT_HEAP_SIZE_def)
  show ?thesis unfolding sample_blocks_def i by (simp add: carve_def add.assoc)
qed

lemma kmalloc_place_some:
  assumes "heap_inv s bs" "n \<noteq> 0" "unat n + 32 < 2 ^ 64" "place n bs = Some (t, bs')"
  obtains s' where "kmalloc n s = Inr (t + 32, s')" "heap_inv s' bs'"
  using kmalloc_place [OF assms] by blast

text \<open>
  C12. \<open>kmalloc\<close> is first fit on the list of blocks the headers represent: the first free block that
  fits is taken and split, otherwise the heap grows by one block, and when the break would reach
  its limit the kernel panics. The headers then represent the new list (blocks contiguous, links
  in both directions consistent, no two free blocks adjacent) and no byte outside them changes.
\<close>

theorem kmalloc_first_fit:
  assumes "heap_inv s bs" and "0 < unat n" and "unat n \<le> 2 ^ 32"
  shows "case place n bs of
      Some (t, bs') \<Rightarrow> \<exists>s'. kmalloc n s = Inr (t + 32, s') \<and> heap_inv s' bs'
        \<and> (\<forall>x. x \<notin> headers bs' \<longrightarrow> mem s' x = mem s x)
    | None \<Rightarrow>
        if unat (kernel_brk s) + 32 + unat n < unat BRK_LIMIT
        then let bs' = bs @ [(kernel_brk s, n, True)]
          in \<exists>s'. kmalloc n s = Inr (kernel_brk s + 32, s') \<and> heap_inv s' bs'
             \<and> kernel_brk s' = kernel_brk s + 32 + n \<and> (\<forall>x. x \<notin> headers bs' \<longrightarrow> mem s' x = mem s x)
        else kmalloc n s = Inl (Panic ''kernel heap exhausted'')"
proof -
  have n: "n \<noteq> 0" using assms(2) by auto
  note nw = request_nowrap [OF assms(1,3)]
  have nw': "unat n + 32 < 2 ^ 64" using nw by simp
  show ?thesis
  proof (cases "place n bs")
    case (Some r)
    obtain t bs' where r: "r = (t, bs')" by (cases r)
    show ?thesis
      unfolding Some r option.case prod.case using kmalloc_place [OF assms(1) n nw' Some [unfolded r]] by auto
  next
    case None
    have "?thesis \<longleftrightarrow> (if unat (kernel_brk s) + 32 + unat n < unat BRK_LIMIT
        then let bs' = bs @ [(kernel_brk s, n, True)]
          in \<exists>s'. kmalloc n s = Inr (kernel_brk s + 32, s') \<and> heap_inv s' bs'
             \<and> kernel_brk s' = kernel_brk s + 32 + n \<and> (\<forall>x. x \<notin> headers bs' \<longrightarrow> mem s' x = mem s x)
        else kmalloc n s = Inl (Panic ''kernel heap exhausted''))" by (simp only: None option.case)
    moreover have \<dots>
      using kmalloc_grow [OF assms(1) n None] kmalloc_exhausted [OF assms(1) n None _ nw]
      by (auto simp: Let_def not_less)
    ultimately show ?thesis by blast
  qed
qed

theorem kmalloc_first_fit_witness:
  "\<exists>s'. kmalloc 64 sample_heap = Inr (KERNEL_BRK_START + 32, s')
     \<and> heap_inv s' [(KERNEL_BRK_START, 64, True), (KERNEL_BRK_START + 96, 16256, False)]"
  using kmalloc_first_fit [OF sample_heap_inv, of 64] unfolding sample_place by auto

text \<open>
  C13. \<open>free\<close> of a block in use makes it free and joins it with its free neighbours: the headers
  then represent the joined list, and no byte outside the headers changes.
\<close>

theorem free_coalesces:
  assumes "heap_inv s (xs @ (t, sz, True) # ys)"
  shows "heap_inv (free (t + 32) s) (unplace xs t sz ys) \<and> kernel_brk (free (t + 32) s) = kernel_brk s
    \<and> (\<forall>x. x \<notin> headers (xs @ (t, sz, True) # ys) \<longrightarrow> mem (free (t + 32) s) x = mem s x)"
  using free_unplace [OF assms] by auto

theorem free_coalesces_witness:
  "\<exists>s'. kmalloc 64 sample_heap = Inr (KERNEL_BRK_START + 32, s') \<and> heap_inv (free (KERNEL_BRK_START + 32) s') sample_blocks"
proof -
  obtain s' where s': "kmalloc 64 sample_heap = Inr (KERNEL_BRK_START + 32, s')"
    "heap_inv s' ([] @ (KERNEL_BRK_START, 64, True) # [(KERNEL_BRK_START + 96, 16256, False)])"
    using kmalloc_place_some [OF sample_heap_inv _ _ sample_place] by auto
  have "unplace [] KERNEL_BRK_START 64 [(KERNEL_BRK_START + 96, 16256, False)] = sample_blocks"
    by (simp add: unplace_def absorb_def sample_blocks_def INIT_HEAP_SIZE_def)
  with free_coalesces [OF s'(2)] s'(1) show ?thesis by auto
qed



text \<open>
  C15. Allocating an object and freeing it again leaves the live objects as they were, with the
  same contents.
\<close>

theorem kmalloc_free_roundtrip:
  assumes "heap_ok s" and "0 < unat n" and "unat n \<le> 2 ^ 32" and "kmalloc n s = Inr (p, s')"
  shows "heap_ok (free p s') \<and> heap_objects (free p s') = heap_objects s
    \<and> (\<forall>(q, k) \<in> heap_objects s. \<forall>x \<in> rng q (unat k). mem (free p s') x = mem s x)"
  using kheap.alloc_release [OF assms] by blast

theorem kmalloc_free_roundtrip_witness:
  "\<exists>p s'. kmalloc 64 sample_heap = Inr (p, s') \<and> heap_objects (free p s') = heap_objects sample_heap"
proof -
  obtain s' where s': "kmalloc 64 sample_heap = Inr (KERNEL_BRK_START + 32, s')"
    using kmalloc_place_some [OF sample_heap_inv _ _ sample_place] by auto
  from kmalloc_free_roundtrip [OF sample_heap_ok _ _ s'] s' show ?thesis by auto
qed

text \<open>
  A request of 2 to the power of 64 minus 16 bytes wraps around when the header size is added
  to it, and \<open>kmalloc\<close> answers it with the first free block of at least 16 bytes.
\<close>

lemma kmalloc_size_wraps:
  assumes "heap_inv s ((t, sz, False) # bs)" and "16 \<le> sz"
  shows "\<exists>s'. kmalloc (- 16) s = Inr (t + 32, s')"
proof -
  note bnd = heap_inv_bounds [OF assms(1)]
  have l: "linked (mem s) 0 ((t, sz, False) # bs) 0" and hb: "heap_base s = t"
    using assms(1) by (simp_all add: heap_inv_def)
  have t0: "t \<noteq> 0" using bnd(3) [of "(t, sz, False)"] by simp
  have "fits (- 16) (t, sz, False)" using assms(2) by simp
  from loop_found [of "mem s" 0 "[]" t sz bs, OF _ _ this] l bnd(3)
  have "\<exists>m. kmalloc_loop (mem s) (- 16) 0 (heap_base s) = Some (0, t, m)" unfolding hb by simp
  then show ?thesis using t0 by (auto simp: kmalloc_def)
    (simp add: sizeof_block_def)
qed

lemma kmalloc_size_wraps_witness: "\<exists>s'. kmalloc (- 16) sample_heap = Inr (KERNEL_BRK_START + 32, s')"
  using kmalloc_size_wraps [OF sample_heap_inv [unfolded sample_blocks_def]] by (simp add: INIT_HEAP_SIZE_def)

end
