(* ===== verification/Vmm.thy ===== *)
theory Vmm
  imports Paging Kmalloc
begin

text \<open>
  Address spaces: the rest of \<^verbatim>\<open>src/src/mm/vmm.c\<close> (mapping ranges, anonymous mappings, sharing the
  kernel's areas, copying contents, creating, duplicating and destroying a \<^verbatim>\<open>struct mm\<close>).

  Page tables, heap headers and page contents are bytes of memory; the objects \<^verbatim>\<open>struct mm\<close> and
  \<^verbatim>\<open>struct vm_area\<close> are kept in one store per type, indexed by the address the heap (or the
  linker) gave them. The list \<^verbatim>\<open>vm_areas\<close> of a \<^verbatim>\<open>struct mm\<close>, linked through \<^verbatim>\<open>struct vm_area_li\<close>
  objects, is the list of their addresses and of the areas they point to.
\<close>

section \<open>State\<close>

datatype vm_area_type = VM_AREA_REG | VM_AREA_KERNELTEXT | VM_AREA_KERNELHEAP | VM_AREA_PHYSMEM

record vm_area =
  refcnt :: u32
  vm_type :: vm_area_type
  vm_start :: u64
  vm_pages :: u64
  vm_user :: bool
  vm_prot :: u8

text \<open>The addresses of the statically allocated objects, fixed by the linker.\<close>

record static_addrs =
  addr_kernel_mm :: u64
  addr_kernel_vma_li :: u64
  addr_kernel_vma :: u64
  addr_phys_vma_li :: u64
  addr_phys_vma :: u64
  addr_kernel_heap_vma_li :: u64
  addr_kernel_heap_vma :: u64

record vmm_state = heap_state +
  statics :: static_addrs
  mms :: "u64 \<Rightarrow> mm"
  vmas :: "u64 \<Rightarrow> vm_area"

definition KERNEL_TEXT_BASE :: u64 where "KERNEL_TEXT_BASE = 0xffffffff80000000"
definition USER_STACK_BASE :: u64 where "USER_STACK_BASE = 0x7ffffffde000"
definition USER_STACK_PAGES :: u64 where "USER_STACK_PAGES = 32"

definition sizeof_vm_area :: u64 where "sizeof_vm_area = 32"
definition sizeof_vm_area_li :: u64 where "sizeof_vm_area_li = 24"
definition sizeof_mm :: u64 where "sizeof_mm = 16"

text \<open>What \<open>kcalloc\<close> leaves in a new object.\<close>

definition zero_vma :: vm_area where
  "zero_vma = \<lparr>refcnt = 0, vm_type = VM_AREA_REG, vm_start = 0, vm_pages = 0, vm_user = False, vm_prot = 0\<rparr>"

definition zero_mm :: mm where
  "zero_mm = \<lparr>p4 = 0, vm_areas = []\<rparr>"

definition set_mm :: "u64 \<Rightarrow> mm \<Rightarrow> 'a vmm_state_scheme \<Rightarrow> 'a vmm_state_scheme" where
  "set_mm p v s = s\<lparr>mms := (mms s)(p := v)\<rparr>"

definition set_vma :: "u64 \<Rightarrow> vm_area \<Rightarrow> 'a vmm_state_scheme \<Rightarrow> 'a vmm_state_scheme" where
  "set_vma p v s = s\<lparr>vmas := (vmas s)(p := v)\<rparr>"

section \<open>Loops over pages\<close>

text \<open>
  \<^verbatim>\<open>for (int pg = 0; pg < n; pg++) { off = pg * PAGE_SIZE; ... }\<close>. The product is computed in
  \<^verbatim>\<open>int\<close>, so the loop is defined up to page \<^verbatim>\<open>2^19\<close> only.
\<close>

fun page_loop :: "(u64 \<Rightarrow> 's \<Rightarrow> 's res) \<Rightarrow> nat \<Rightarrow> nat \<Rightarrow> 's \<Rightarrow> 's res" where
  "page_loop body pg 0 s = Inr s"
| "page_loop body pg (Suc n) s =
     (if pg < 2 ^ 19 then rbind (body (of_nat (pg * 4096)) s) (page_loop body (Suc pg) n)
      else Inl (Undefined ''overflow of int''))"

text \<open>The same loop with a \<^verbatim>\<open>uint64_t\<close> counter.\<close>

fun page_loop64 :: "(u64 \<Rightarrow> 's \<Rightarrow> 's res) \<Rightarrow> nat \<Rightarrow> nat \<Rightarrow> 's \<Rightarrow> 's res" where
  "page_loop64 body pg 0 s = Inr s"
| "page_loop64 body pg (Suc n) s = rbind (body (PAGE_SIZE * of_nat pg) s) (page_loop64 body (Suc pg) n)"

section \<open>Operations\<close>

definition map_page_at :: "u64 \<Rightarrow> u64 \<Rightarrow> u64 \<Rightarrow> u64 \<Rightarrow> 'a vmm_state_scheme \<Rightarrow> 'a vmm_state_scheme" where
  "map_page_at mmp virt phys flags s =
     (case vmm_map_page (mms s mmp) virt phys flags s of (mm, s) \<Rightarrow> set_mm mmp mm s)"

definition unmap_page_at :: "u64 \<Rightarrow> u64 \<Rightarrow> 'a vmm_state_scheme \<Rightarrow> 'a vmm_state_scheme res" where
  "unmap_page_at mmp virt s =
     rbind (vmm_unmap_page (mms s mmp) virt s) (\<lambda>(mm, s). Inr (set_mm mmp mm s))"

definition page_entry :: "u64 \<Rightarrow> u64 \<Rightarrow> 'a vmm_state_scheme \<Rightarrow> u64" where
  "page_entry mmp virt s =
     p1_get_entry (mem s) (mms s mmp) (P4_NDX virt) (P3_NDX virt) (P2_NDX virt) (P1_NDX virt)"

definition mm_insert_vma :: "u64 \<Rightarrow> u64 \<Rightarrow> 'a vmm_state_scheme \<Rightarrow> 'a vmm_state_scheme res" where
  "mm_insert_vma mmp vma s =
     rbind (kmalloc sizeof_vm_area_li s) (\<lambda>(li, s).
       let s = set_vma vma ((vmas s vma)\<lparr>refcnt := refcnt (vmas s vma) + 1\<rparr>) s
       in Inr (set_mm mmp ((mms s mmp)\<lparr>vm_areas := (li, vma) # vm_areas (mms s mmp)\<rparr>) s))"

definition vma_flags :: "u64 \<Rightarrow> bool \<Rightarrow> u64" where
  "vma_flags prot user = prot_to_x86_prot prot OR (if user then PAGE_USER else 0) OR PAGE_PRESENT"

definition vmm_map_range ::
    "u64 \<Rightarrow> u64 \<Rightarrow> u64 \<Rightarrow> u64 \<Rightarrow> u64 \<Rightarrow> bool \<Rightarrow> 'a vmm_state_scheme \<Rightarrow> 'a vmm_state_scheme res" where
  "vmm_map_range mmp virt phys npages prot user s =
     (if page_off virt \<noteq> 0 \<or> page_off phys \<noteq> 0 then Inl (Panic ''mapping is not paged aligned'')
      else let flags = vma_flags prot user
      in page_loop (\<lambda>off s. Inr (map_page_at mmp (virt + off) (phys + off) flags s)) 0 (unat npages) s)"

definition put_vma :: "u64 \<Rightarrow> 'a vmm_state_scheme \<Rightarrow> 'a vmm_state_scheme" where
  "put_vma vma s =
     (let s = set_vma vma ((vmas s vma)\<lparr>refcnt := refcnt (vmas s vma) - 1\<rparr>) s
      in if refcnt (vmas s vma) = 0 then free vma s else s)"

definition mm_free_reg_vma :: "u64 \<Rightarrow> u64 \<Rightarrow> 'a vmm_state_scheme \<Rightarrow> 'a vmm_state_scheme res" where
  "mm_free_reg_vma mmp vma s =
     (if vm_type (vmas s vma) \<noteq> VM_AREA_REG then Inl (Panic ''freeing a non-regular vma'')
      else rbind (page_loop (\<lambda>off s.
             let phys = page_base (page_entry mmp (vm_start (vmas s vma) + off) s)
             in rbind (unmap_page_at mmp (vm_start (vmas s vma) + off) s) (pmm_free phys))
           0 (unat (vm_pages (vmas s vma))) s)
        (\<lambda>s. Inr (put_vma vma s)))"

definition anon_mmap :: "u64 \<Rightarrow> u64 \<Rightarrow> u64 \<Rightarrow> u64 \<Rightarrow> bool \<Rightarrow> 'a vmm_state_scheme \<Rightarrow> 'a vmm_state_scheme res" where
  "anon_mmap mmp start pages prot user s =
     (if page_off start \<noteq> 0 then Inl (Panic ''mmap is not page aligned'')
      else let flags = vma_flags prot user
      in rbind (page_loop (\<lambda>off s. case pmm_alloc s of (fr, s) \<Rightarrow>
                  Inr (map_page_at mmp (start + off) fr flags s)) 0 (unat pages) s) (\<lambda>s.
         rbind (kcalloc 1 sizeof_vm_area s) (\<lambda>(vma, s).
           mm_insert_vma mmp vma (set_vma vma (zero_vma\<lparr>vm_prot := ucast prot, vm_user := user,
             vm_type := VM_AREA_REG, vm_start := start, vm_pages := pages\<rparr>) s))))"

definition anon_mmap_user :: "u64 \<Rightarrow> u64 \<Rightarrow> u64 \<Rightarrow> u8 \<Rightarrow> 'a vmm_state_scheme \<Rightarrow> 'a vmm_state_scheme res" where
  "anon_mmap_user mmp start pages prot s = anon_mmap mmp start pages (ucast prot) True s"

definition anon_mmap_kernel :: "u64 \<Rightarrow> u64 \<Rightarrow> u64 \<Rightarrow> u8 \<Rightarrow> 'a vmm_state_scheme \<Rightarrow> 'a vmm_state_scheme res" where
  "anon_mmap_kernel mmp start pages prot s = anon_mmap mmp start pages (ucast prot) False s"

definition mm_share_vma :: "u64 \<Rightarrow> u64 \<Rightarrow> u64 \<Rightarrow> 'a vmm_state_scheme \<Rightarrow> 'a vmm_state_scheme res" where
  "mm_share_vma dst src vma s =
     (let flags = vma_flags (ucast (vm_prot (vmas s vma))) (vm_user (vmas s vma))
      in rbind (page_loop (\<lambda>off s.
              let virt = vm_start (vmas s vma) + off; phys = page_entry src virt s
              in Inr (map_page_at dst virt phys flags s)) 0 (unat (vm_pages (vmas s vma))) s)
           (mm_insert_vma dst vma))"

definition mm_unshare_vma :: "u64 \<Rightarrow> u64 \<Rightarrow> 'a vmm_state_scheme \<Rightarrow> 'a vmm_state_scheme res" where
  "mm_unshare_vma mmp vma s =
     rbind (page_loop (\<lambda>off s. unmap_page_at mmp (vm_start (vmas s vma) + off) s)
              0 (unat (vm_pages (vmas s vma))) s)
       (\<lambda>s. Inr (put_vma vma s))"

definition mm_copy_from_mm :: "u64 \<Rightarrow> u64 \<Rightarrow> u64 \<Rightarrow> u64 \<Rightarrow> 'a vmm_state_scheme \<Rightarrow> 'a vmm_state_scheme res" where
  "mm_copy_from_mm dst src start pages s =
     (if page_off start \<noteq> 0 then Inl (Panic ''copy_physmem: start is not page aligned'')
      else page_loop64 (\<lambda>off s.
        let src_data = P_TO_V (page_base (page_entry src (start + off) s));
            dst_data = P_TO_V (page_base (page_entry dst (start + off) s))
        in Inr (s\<lparr>mem := memcpy (mem s) dst_data src_data PAGE_SIZE\<rparr>)) 0 (unat pages) s)"

function copy_from_buf_loop :: "u64 \<Rightarrow> u64 \<Rightarrow> u64 \<Rightarrow> u64 \<Rightarrow> u64 \<Rightarrow> 'a vmm_state_scheme \<Rightarrow> 'a vmm_state_scheme" where
  "copy_from_buf_loop dst src start len pg s =
     (if len > 0
      then let off = PAGE_SIZE * pg;
               dst_data = P_TO_V (page_base (page_entry dst (start + off) s));
               bytes = (if len > PAGE_SIZE then PAGE_SIZE else len);
               s = s\<lparr>mem := memcpy (mem s) dst_data (src + off) bytes\<rparr>
           in copy_from_buf_loop dst src start (len - bytes) (pg + 1) s
      else s)"
  by pat_completeness auto
termination
proof (relation "measure (\<lambda>(dst, src, start, len, pg, s). unat len)", goal_cases)
  case (2 dst src start len pg s off dst_data bytes s')
  then have "bytes \<le> len" "0 < bytes" by auto
  then show ?case by (simp add: unat_sub_le word_le_nat_alt word_less_nat_alt)
qed simp

declare copy_from_buf_loop.simps [simp del]

definition mm_copy_from_buf :: "u64 \<Rightarrow> u64 \<Rightarrow> u64 \<Rightarrow> u64 \<Rightarrow> 'a vmm_state_scheme \<Rightarrow> 'a vmm_state_scheme res" where
  "mm_copy_from_buf dst src start len s =
     (if page_off start \<noteq> 0 then Inl (Panic ''copy_physmem: start is not page aligned'')
      else Inr (copy_from_buf_loop dst src start len 0 s))"

definition kernel_mm_init :: "u64 \<Rightarrow> 'a vmm_state_scheme \<Rightarrow> 'a vmm_state_scheme res" where
  "kernel_mm_init mmp s =
     (let st = statics s;
          rw = ucast (PAGE_PROT_READ OR PAGE_PROT_WRITE);
          upd = (\<lambda>a ty start pages s. set_vma a ((vmas s a)\<lparr>vm_prot := rw, vm_user := False, vm_type := ty,
                   vm_start := start, vm_pages := pages\<rparr>) s);
          s = set_mm (addr_kernel_mm st) ((mms s (addr_kernel_mm st))\<lparr>vm_areas :=
                [(addr_kernel_vma_li st, addr_kernel_vma st), (addr_phys_vma_li st, addr_phys_vma st),
                 (addr_kernel_heap_vma_li st, addr_kernel_heap_vma st)]\<rparr>) s;
          s = upd (addr_kernel_vma st) VM_AREA_KERNELTEXT KERNEL_TEXT_BASE 512 s
      in rbind (vmm_map_range mmp KERNEL_TEXT_BASE 0 512 (PAGE_PROT_READ OR PAGE_PROT_WRITE) False s) (\<lambda>s.
         let s = upd (addr_phys_vma st) VM_AREA_PHYSMEM PHYS_MAPPING_START 1024 s
         in rbind (vmm_map_range mmp PHYS_MAPPING_START 0 1024 (PAGE_PROT_READ OR PAGE_PROT_WRITE) False s) (\<lambda>s.
         let s = upd (addr_kernel_heap_vma st) VM_AREA_KERNELHEAP KERNEL_BRK_START KERNEL_BRK_PAGES s;
             flags = prot_to_x86_prot (ucast rw) OR PAGE_PRESENT
         in page_loop (\<lambda>off s. case pmm_alloc s of (fr, s) \<Rightarrow>
              Inr (map_page_at mmp (KERNEL_BRK_START + off) fr flags s)) 0 (unat KERNEL_BRK_PAGES) s)))"

fun share_areas :: "u64 \<Rightarrow> u64 \<Rightarrow> (u64 \<times> u64) list \<Rightarrow> 'a vmm_state_scheme \<Rightarrow> 'a vmm_state_scheme res" where
  "share_areas dst src [] s = Inr s"
| "share_areas dst src ((li, vma) # lis) s = rbind (mm_share_vma dst src vma s) (share_areas dst src lis)"

definition mm_init :: "u64 \<Rightarrow> 'a vmm_state_scheme \<Rightarrow> 'a vmm_state_scheme res" where
  "mm_init mmp s =
     (let k = addr_kernel_mm (statics s) in share_areas mmp k (vm_areas (mms s k)) s)"

definition mm_new :: "'a vmm_state_scheme \<Rightarrow> (u64 \<times> 'a vmm_state_scheme) res" where
  "mm_new s = rbind (kcalloc 1 sizeof_mm s) (\<lambda>(mmp, s).
     rbind (mm_init mmp (set_mm mmp zero_mm s)) (\<lambda>s. Inr (mmp, s)))"

fun dupe_areas :: "u64 \<Rightarrow> u64 \<Rightarrow> (u64 \<times> u64) list \<Rightarrow> 'a vmm_state_scheme \<Rightarrow> 'a vmm_state_scheme res" where
  "dupe_areas new old [] s = Inr s"
| "dupe_areas new old ((li, vma) # lis) s =
     rbind (case vm_type (vmas s vma) of
         VM_AREA_REG \<Rightarrow>
           rbind (anon_mmap new (vm_start (vmas s vma)) (vm_pages (vmas s vma))
                    (ucast (vm_prot (vmas s vma))) (vm_user (vmas s vma)) s) (\<lambda>s.
             mm_copy_from_mm new old (vm_start (vmas s vma)) (vm_pages (vmas s vma)) s)
       | VM_AREA_PHYSMEM \<Rightarrow> Inr s | VM_AREA_KERNELTEXT \<Rightarrow> Inr s | VM_AREA_KERNELHEAP \<Rightarrow> Inr s)
       (dupe_areas new old lis)"

definition mm_dupe :: "u64 \<Rightarrow> 'a vmm_state_scheme \<Rightarrow> (u64 \<times> 'a vmm_state_scheme) res" where
  "mm_dupe mmp s = rbind (mm_new s) (\<lambda>(new, s).
     rbind (dupe_areas new mmp (vm_areas (mms s mmp)) s) (\<lambda>s. Inr (new, s)))"

fun free_areas :: "u64 \<Rightarrow> (u64 \<times> u64) list \<Rightarrow> 'a vmm_state_scheme \<Rightarrow> 'a vmm_state_scheme res" where
  "free_areas mmp [] s = Inr s"
| "free_areas mmp ((li, vma) # lis) s =
     rbind (case vm_type (vmas s vma) of
         VM_AREA_REG \<Rightarrow> mm_free_reg_vma mmp vma s
       | VM_AREA_PHYSMEM \<Rightarrow> mm_unshare_vma mmp vma s
       | VM_AREA_KERNELTEXT \<Rightarrow> mm_unshare_vma mmp vma s
       | VM_AREA_KERNELHEAP \<Rightarrow> mm_unshare_vma mmp vma s)
       (\<lambda>s. free_areas mmp lis (free li s))"

definition mm_free :: "u64 \<Rightarrow> 'a vmm_state_scheme \<Rightarrow> 'a vmm_state_scheme res" where
  "mm_free mmp s =
     rbind (free_areas mmp (vm_areas (mms s mmp)) s) (\<lambda>s.
     rbind (pmm_free (p4 (mms s mmp)) s) (\<lambda>s. Inr (free mmp s)))"

section \<open>Pages of a range\<close>

lemma page_no_offset:
  assumes "aligned v"
  shows "page_no (v + of_nat (k * 4096)) = (page_no v + k) mod 2 ^ 36"
proof -
  obtain q where q: "unat v = 4096 * q" using assms by (auto simp: aligned_def)
  have "unat (v + of_nat (k * 4096)) = (unat v + unat (of_nat (k * 4096) :: u64)) mod 2 ^ 64"
    by (simp add: unat_word_ariths)
  also have "unat (of_nat (k * 4096) :: u64) = (k * 4096) mod 2 ^ 64" by (simp only: unat_of_nat) simp
  also have "(unat v + (k * 4096) mod 2 ^ 64) mod 2 ^ 64 = (4096 * (q + k)) mod (4096 * 2 ^ 52)"
  proof -
    have "4096 * q + k * 4096 = 4096 * (q + k)" "(2::nat) ^ 64 = 4096 * 2 ^ 52" by simp_all
    then show ?thesis by (simp only: q mod_add_right_eq)
  qed
  also have "\<dots> = 4096 * ((q + k) mod 2 ^ 52)" by (simp only: mult_mod_right)
  finally have u: "unat (v + of_nat (k * 4096)) = 4096 * ((q + k) mod 2 ^ 52)" .
  have "4096 * ((q + k) mod 2 ^ 52) div 2 ^ 12 = (q + k) mod 2 ^ 52" by simp
  then have "page_no (v + of_nat (k * 4096)) = (q + k) mod 2 ^ 52 mod 2 ^ 36"
    by (simp only: page_no_def u)
  also have "\<dots> = (q + k) mod 2 ^ 36" by (rule mod_mod_cancel) (simp add: le_imp_power_dvd)
  also have "\<dots> = (q mod 2 ^ 36 + k) mod 2 ^ 36" by (rule mod_add_left_eq [symmetric])
  also have "q mod 2 ^ 36 = page_no v" using q by (simp add: page_no_def)
  finally show ?thesis .
qed

lemma pages_distinct:
  assumes "aligned v" "j < 2 ^ 19" "k < 2 ^ 19" "j \<noteq> k"
  shows "page_no (v + of_nat (j * 4096)) \<noteq> page_no (v + of_nat (k * 4096))"
proof -
  have "(a + j) mod 2 ^ 36 \<noteq> (a + k) mod 2 ^ 36" if "j < k" "k < 2 ^ 19" for a j k :: nat
  proof
    assume "(a + j) mod 2 ^ 36 = (a + k) mod 2 ^ 36"
    then have "2 ^ 36 dvd (a + k) - (a + j)" using that by (metis add_le_cancel_left less_imp_le mod_eq_dvd_iff_nat)
    then have "2 ^ 36 dvd k - j" by simp
    with that show False by (auto dest!: dvd_imp_le)
  qed
  from this [of j k "page_no v"] this [of k j "page_no v"] assms show ?thesis
    unfolding page_no_offset [OF assms(1)] by (metis nat_neq_iff)
qed

section \<open>What mapping operations leave alone\<close>

definition mm_kept :: "mm \<Rightarrow> 'a pmm_state_scheme \<Rightarrow> mm \<Rightarrow> 'a pmm_state_scheme \<Rightarrow> bool" where
  "mm_kept mm s mm' s' \<longleftrightarrow> used_frames s \<subseteq> used_frames s'
     \<and> mm_tables (mem s') mm' \<inter> used_frames s \<subseteq> mm_tables (mem s) mm
     \<and> (\<forall>x \<in> frame_bytes (used_frames s - mm_tables (mem s) mm). mem s' x = mem s x)
     \<and> active_regions s' = active_regions s
     \<and> (\<forall>x. x \<notin> phys_bytes (active_regions s) \<longrightarrow> mem s' x = mem s x)"

lemma mm_kept_refl [simp]: "mm_kept mm s mm s"
  by (simp add: mm_kept_def)

lemma mm_kept_trans:
  assumes "mm_kept mm s mm' s'" "mm_kept mm' s' mm'' s''"
  shows "mm_kept mm s mm'' s''"
proof -
  have "used_frames s - mm_tables (mem s) mm \<subseteq> used_frames s' - mm_tables (mem s') mm'"
    using assms by (auto simp: mm_kept_def)
  then have "frame_bytes (used_frames s - mm_tables (mem s) mm)
      \<subseteq> frame_bytes (used_frames s' - mm_tables (mem s') mm')" by (rule frame_bytes_mono)
  with assms show ?thesis unfolding mm_kept_def by (auto simp: subset_iff)
qed

text \<open>The frame allocator's view of a state does not depend on the object stores.\<close>

lemma pmm_view [simp]:
  fixes s :: "'a vmm_state_scheme"
  shows "pmm_inv (set_mm p v s) = pmm_inv s" "free_frames (set_mm p v s) = free_frames s"
    "used_frames (set_mm p v s) = used_frames s" "mem (set_mm p v s) = mem s"
    "active_regions (set_mm p v s) = active_regions s" "mms (set_mm p v s) = (mms s)(p := v)"
    "mm_ok (set_mm p v s) mm = mm_ok s mm" "mm_kept mm0 s0 mm (set_mm p v s) = mm_kept mm0 s0 mm s"
  by (simp_all add: set_mm_def pmm_inv_def free_frames_def used_frames_def active_regions_def
      mm_ok_def pt_inv_def mm_kept_def)

text \<open>The operations of the lower layers change the memory only.\<close>

definition mem_only :: "'a pmm_state_scheme \<Rightarrow> 'a pmm_state_scheme \<Rightarrow> bool" where
  "mem_only s s' \<longleftrightarrow> (\<exists>m. s' = s\<lparr>mem := m\<rparr>)"

lemma mem_only_refl: "mem_only s s"
  unfolding mem_only_def by (rule exI [of _ "mem s"]) simp

lemma mem_only_update: "mem_only s0 s \<Longrightarrow> mem_only s0 (s\<lparr>mem := m\<rparr>)"
  by (auto simp: mem_only_def)

lemma mem_only_alloc: "mem_only s0 s \<Longrightarrow> pmm_alloc s = (a, s') \<Longrightarrow> mem_only s0 s'"
  by (auto simp: mem_only_def pmm_alloc_def split: prod.splits)

lemma mem_only_ensure:
  "mem_only s0 s \<Longrightarrow> mem_only s0 (if b then (case pmm_alloc s of (n, s1) \<Rightarrow> s1\<lparr>mem := f n s1\<rparr>) else s)"
  using mem_only_alloc [of s0 s] mem_only_update by (auto split: prod.split)

lemma vmm_map_page_mem_only:
  assumes "vmm_map_page mm v phys flags s = (mm', s')"
  shows "mem_only s s'"
proof -
  obtain a s1 where al: "pmm_alloc s = (a, s1)" by (cases "pmm_alloc s")
  have "mem_only s (snd (vmm_map_page mm v phys flags s))"
  proof (cases "p4 mm = 0")
    case True
    show ?thesis
      unfolding vmm_map_page_def Let_def if_P [OF True] al prod.case snd_conv
      by (intro mem_only_update mem_only_ensure mem_only_alloc [OF mem_only_refl al])
  next
    case False
    show ?thesis
      unfolding vmm_map_page_def Let_def if_not_P [OF False] prod.case snd_conv
      by (intro mem_only_update mem_only_ensure mem_only_refl)
  qed
  then show ?thesis using assms by simp
qed

lemma mem_only_fields:
  fixes s :: "'a vmm_state_scheme"
  assumes "mem_only s s'"
  shows "mms s' = mms s" "vmas s' = vmas s" "statics s' = statics s" "kernel_brk s' = kernel_brk s"
    "heap_base s' = heap_base s" "active_regions s' = active_regions s"
  using assms by (auto simp: mem_only_def active_regions_def)

section \<open>Mapping ranges\<close>

text \<open>All object stores are as before, except for the top-level table of the address space at hand.\<close>

definition objects_kept :: "u64 \<Rightarrow> 'a vmm_state_scheme \<Rightarrow> 'a vmm_state_scheme \<Rightarrow> bool" where
  "objects_kept mmp s s' \<longleftrightarrow> vm_areas (mms s' mmp) = vm_areas (mms s mmp) \<and> (\<forall>q. q \<noteq> mmp \<longrightarrow> mms s' q = mms s q)
     \<and> vmas s' = vmas s \<and> statics s' = statics s \<and> kernel_brk s' = kernel_brk s
     \<and> heap_base s' = heap_base s \<and> active_regions s' = active_regions s"

lemma objects_kept_refl [simp]: "objects_kept mmp s s"
  by (simp add: objects_kept_def)

lemma objects_kept_trans: "objects_kept mmp s s' \<Longrightarrow> objects_kept mmp s' s'' \<Longrightarrow> objects_kept mmp s s''"
  by (simp add: objects_kept_def)

lemma map_page_at_spec:
  fixes s :: "'a vmm_state_scheme" and v phys :: u64
  assumes ok: "mm_ok s (mms s mmp)" and free: "4 \<le> card (free_frames s)" and fl: "unat flags < 4096"
  defines "s' \<equiv> map_page_at mmp v phys flags s"
  shows "mm_ok s' (mms s' mmp)" and "p4 (mms s' mmp) \<noteq> 0"
    and "\<And>w. mm_lookup (mem s') (mms s' mmp) w
           = (if page_no w = page_no v then phys OR flags else mm_lookup (mem s) (mms s mmp) w)"
    and "card (free_frames s) \<le> card (free_frames s') + 4"
    and "mm_kept (mms s mmp) s (mms s' mmp) s'"
    and "objects_kept mmp s s'"
    and "mm_live (mem s) (mms s mmp) \<Longrightarrow> phys OR flags \<noteq> 0 \<Longrightarrow> mm_live (mem s') (mms s' mmp)"
proof -
  obtain mm1 s1 where call: "vmm_map_page (mms s mmp) v phys flags s = (mm1, s1)"
    by (cases "vmm_map_page (mms s mmp) v phys flags s")
  have s': "s' = set_mm mmp mm1 s1" by (simp add: s'_def map_page_at_def call)
  note sp = vmm_map_page_spec [OF ok free fl call]
  note f = mem_only_fields [OF vmm_map_page_mem_only [OF call]]
  show "mm_ok s' (mms s' mmp)" "p4 (mms s' mmp) \<noteq> 0" using sp(1,2) by (simp_all add: s')
  show "mm_lookup (mem s') (mms s' mmp) w
      = (if page_no w = page_no v then phys OR flags else mm_lookup (mem s) (mms s mmp) w)" for w
    using sp(5) by (simp add: s')
  show "card (free_frames s) \<le> card (free_frames s') + 4" using sp(6) by (simp add: s')
  show "mm_kept (mms s mmp) s (mms s' mmp) s'" using sp(7-9,11,12) by (simp add: s' mm_kept_def [of _ s _ s1])
  show "mm_live (mem s') (mms s' mmp)" if "mm_live (mem s) (mms s mmp)" "phys OR flags \<noteq> 0" using sp(13) [OF that] by (simp add: s')
  show "objects_kept mmp s s'" using sp(4) f by (simp add: s' set_mm_def active_regions_def objects_kept_def)
qed

text \<open>
  A loop that maps one page after the other, where the frame of page \<open>k\<close> is \<open>ph k\<close> as long as the loop itself is
  all that has happened.
\<close>

lemma map_loop:
  fixes s :: "'a vmm_state_scheme"
  assumes "mm_ok s (mms s mmp)" "4 * n \<le> card (free_frames s)" "unat flags < 4096" "pg + n \<le> 2 ^ 19" "aligned virt"
    and "\<And>k s1. pg \<le> k \<Longrightarrow> k < pg + n \<Longrightarrow> mm_ok s1 (mms s1 mmp) \<Longrightarrow> mm_kept (mms s mmp) s (mms s1 mmp) s1 \<Longrightarrow> objects_kept mmp s s1
      \<Longrightarrow> body (of_nat (k * 4096)) s1 = Inr (map_page_at mmp (virt + of_nat (k * 4096)) (ph k) flags s1)"
  shows "\<exists>s'. page_loop body pg n s = Inr s'
    \<and> mm_ok s' (mms s' mmp) \<and> card (free_frames s) \<le> card (free_frames s') + 4 * n
    \<and> mm_kept (mms s mmp) s (mms s' mmp) s' \<and> objects_kept mmp s s'
    \<and> (flags \<noteq> 0 \<longrightarrow> mm_live (mem s) (mms s mmp) \<longrightarrow> mm_live (mem s') (mms s' mmp))
    \<and> (\<forall>k. pg \<le> k \<and> k < pg + n \<longrightarrow> mm_lookup (mem s') (mms s' mmp) (virt + of_nat (k * 4096)) = ph k OR flags)
    \<and> (\<forall>w. (\<forall>k. pg \<le> k \<and> k < pg + n \<longrightarrow> page_no w \<noteq> page_no (virt + of_nat (k * 4096))) \<longrightarrow>
          mm_lookup (mem s') (mms s' mmp) w = mm_lookup (mem s) (mms s mmp) w)"
  using assms
proof (induction n arbitrary: pg s)
  case 0
  then show ?case by auto
next
  case (Suc n)
  let ?v = "virt + of_nat (pg * 4096)"
  define s1 where "s1 = map_page_at mmp ?v (ph pg) flags s"
  have "4 \<le> card (free_frames s)" using Suc.prems(2) by simp
  note sp = map_page_at_spec [OF Suc.prems(1) this Suc.prems(3), where v = ?v and phys = "ph pg", folded s1_def]
  have n: "4 * n \<le> card (free_frames s1)" "Suc pg + n \<le> 2 ^ 19" using sp(4) Suc.prems(2,4) by simp_all
  have step: "body (of_nat (k * 4096)) s2 = Inr (map_page_at mmp (virt + of_nat (k * 4096)) (ph k) flags s2)"
    if "Suc pg \<le> k" "k < Suc pg + n" "mm_ok s2 (mms s2 mmp)" "mm_kept (mms s1 mmp) s1 (mms s2 mmp) s2" "objects_kept mmp s1 s2" for k s2
    by (rule Suc.prems(6)) (use that mm_kept_trans [OF sp(5) that(4)] objects_kept_trans [OF sp(6) that(5)] in simp_all)
  from Suc.IH [OF sp(1) n(1) Suc.prems(3) n(2) Suc.prems(5) step] obtain s' where
    s': "page_loop body (Suc pg) n s1 = Inr s'"
      "mm_ok s' (mms s' mmp)" "card (free_frames s1) \<le> card (free_frames s') + 4 * n"
      "mm_kept (mms s1 mmp) s1 (mms s' mmp) s'" "objects_kept mmp s1 s'"
      "flags \<noteq> 0 \<longrightarrow> mm_live (mem s1) (mms s1 mmp) \<longrightarrow> mm_live (mem s') (mms s' mmp)"
    and in': "\<And>k. Suc pg \<le> k \<and> k < Suc pg + n \<Longrightarrow> mm_lookup (mem s') (mms s' mmp) (virt + of_nat (k * 4096)) = ph k OR flags"
    and out': "\<And>w. (\<And>k. Suc pg \<le> k \<and> k < Suc pg + n \<Longrightarrow> page_no w \<noteq> page_no (virt + of_nat (k * 4096))) \<Longrightarrow>
          mm_lookup (mem s') (mms s' mmp) w = mm_lookup (mem s1) (mms s1 mmp) w"
    by blast
  have "body (of_nat (pg * 4096)) s = Inr s1" using Suc.prems(6) [of pg s] Suc.prems(1) by (simp add: s1_def)
  then have loop: "page_loop body pg (Suc n) s = Inr s'" using Suc.prems(4) s'(1) by simp
  have this_page: "mm_lookup (mem s') (mms s' mmp) ?v = ph pg OR flags"
    using out' [of ?v] pages_distinct [OF Suc.prems(5), of pg] Suc.prems(4) sp(3) by simp
  have "mm_lookup (mem s') (mms s' mmp) (virt + of_nat (k * 4096)) = ph k OR flags"
    if "pg \<le> k \<and> k < pg + Suc n" for k
    using that this_page in' [of k] by (cases "k = pg") simp_all
  moreover have "mm_lookup (mem s') (mms s' mmp) w = mm_lookup (mem s) (mms s mmp) w"
    if "\<forall>k. pg \<le> k \<and> k < pg + Suc n \<longrightarrow> page_no w \<noteq> page_no (virt + of_nat (k * 4096))" for w
    using that out' [of w] sp(3) [of w] by simp
  moreover have "mm_live (mem s') (mms s' mmp)" if "flags \<noteq> 0" "mm_live (mem s) (mms s mmp)" using that s'(6) sp(7) by (simp add: or_eq_0_iff)
  ultimately show ?case
    using loop s'(2,3) sp(4) mm_kept_trans [OF sp(5) s'(4)] objects_kept_trans [OF sp(6) s'(5)]
    by (intro exI [of _ s']) simp
qed

section \<open>Anonymous mappings\<close>

lemma alloc_mm:
  assumes ok: "mm_ok s mm" and ne: "free_frames s \<noteq> {}" and call: "pmm_alloc s = (f, s1)"
  shows "mm_ok s1 mm" and "\<And>w. mm_lookup (mem s1) mm w = mm_lookup (mem s) mm w"
    and "mm_kept mm s mm s1" and "f \<notin> mm_tables (mem s1) mm"
    and "card (free_frames s) = card (free_frames s1) + 1" and "mm_live (mem s1) mm = mm_live (mem s) mm"
proof -
  have inv: "pmm_inv s" using ok by (simp add: mm_ok_def)
  note al = pmm_alloc_spec [OF inv ne call] and fresh = pmm.alloc_fresh(1) [OF inv ne call]
  show "card (free_frames s) = card (free_frames s1) + 1"
    using al(1,5) card_Suc_Diff1 [of "free_frames s" f] by simp
  have sub: "mm_tables (mem s) mm \<subseteq> used_frames s" by (rule mm_tables_used [OF ok])
  have "mm_tables (mem s) mm \<subseteq> used_frames s1" using sub al(6) by auto
  note same = mm_same_tables [OF ok al(4) this alloc_entry(1) [OF inv ne call subsetD [OF sub]]]
  have tab: "mm_tables (mem s1) mm = mm_tables (mem s) mm" by (rule same(3))
  show "mm_ok s1 mm" "mm_lookup (mem s1) mm w = mm_lookup (mem s) mm w" "f \<notin> mm_tables (mem s1) mm"
    "mm_live (mem s1) mm = mm_live (mem s) mm" for w
    using same sub fresh by auto
  have "mem s1 x = mem s x" if "x \<in> frame_bytes (used_frames s)" for x
    by (rule pmm.alloc_keeps [OF inv ne call that])
  moreover have "mem s1 x = mem s x" if x: "x \<notin> phys_bytes (active_regions s)" for x
    using frame_in_phys_bytes [OF inv disjI2 [OF al(1)] x] al(8) [of x] by (simp del: in_rng)
  ultimately show "mm_kept mm s mm s1"
    using tab al(6,10) frame_bytes_mono [of "used_frames s - mm_tables (mem s) mm" "used_frames s"]
    by (auto simp: mm_kept_def)
qed

definition anon_page :: "u64 \<Rightarrow> u64 \<Rightarrow> u64 \<Rightarrow> u64 \<Rightarrow> 'a vmm_state_scheme \<Rightarrow> 'a vmm_state_scheme res" where
  "anon_page mmp start flags off s =
     (case pmm_alloc s of (fr, s) \<Rightarrow> Inr (map_page_at mmp (start + off) fr flags s))"

text \<open>
  \<open>fs\<close> are frames that hold zeros, that no table of the address space is in, and that the pages
  from \<open>virt\<close> on are mapped to.
\<close>

definition zeroed :: "memory \<Rightarrow> u64 list \<Rightarrow> bool" where
  "zeroed m fs \<longleftrightarrow> (\<forall>x \<in> frame_bytes (set fs). m x = 0)"

lemma anon_pages:
  fixes s :: "'a vmm_state_scheme"
  assumes "mm_ok s (mms s mmp)" "5 * n \<le> card (free_frames s)" "unat flags < 4096" "pg + n \<le> 2 ^ 19" "aligned start"
  shows "\<exists>s' fs. page_loop (anon_page mmp start flags) pg n s = Inr s'
    \<and> length fs = n \<and> distinct fs \<and> set fs \<subseteq> free_frames s
    \<and> set fs \<subseteq> used_frames s' - mm_tables (mem s') (mms s' mmp) \<and> zeroed (mem s') fs
    \<and> mm_ok s' (mms s' mmp) \<and> card (free_frames s) \<le> card (free_frames s') + 5 * n
    \<and> mm_kept (mms s mmp) s (mms s' mmp) s' \<and> objects_kept mmp s s'
    \<and> (mm_live (mem s) (mms s mmp) \<longrightarrow> mm_live (mem s') (mms s' mmp))
    \<and> (\<forall>k < n. mm_lookup (mem s') (mms s' mmp) (start + of_nat ((pg + k) * 4096)) = fs ! k OR flags)
    \<and> (\<forall>w. (\<forall>k < n. page_no w \<noteq> page_no (start + of_nat ((pg + k) * 4096))) \<longrightarrow>
          mm_lookup (mem s') (mms s' mmp) w = mm_lookup (mem s) (mms s mmp) w)"
  using assms
proof (induction n arbitrary: pg s)
  case 0
  then show ?case by (auto simp: zeroed_def frame_bytes_def)
next
  case (Suc n)
  let ?v = "start + of_nat (pg * 4096)"
  have ne: "free_frames s \<noteq> {}" using Suc.prems(2) by auto
  obtain f s0 where call: "pmm_alloc s = (f, s0)" by (cases "pmm_alloc s")
  have inv: "pmm_inv s" using Suc.prems(1) by (simp add: mm_ok_def)
  note al = alloc_mm [OF Suc.prems(1) ne call] and als = pmm_alloc_spec [OF inv ne call]
  have o0: "objects_kept mmp s s0" "mms s0 = mms s"
    using mem_only_fields [OF mem_only_alloc [OF mem_only_refl call]] by (simp_all add: objects_kept_def)
  define s1 where "s1 = map_page_at mmp ?v f flags s0"
  have ok0: "mm_ok s0 (mms s0 mmp)" using al(1) o0(2) by simp
  have "4 \<le> card (free_frames s0)" using Suc.prems(2) al(5) by simp
  note sp = map_page_at_spec [OF ok0 this Suc.prems(3), where v = ?v and phys = f, folded s1_def]
  have "5 * n \<le> card (free_frames s1)" "Suc pg + n \<le> 2 ^ 19" using sp(4) al(5) Suc.prems(2,4) by simp_all
  from Suc.IH [OF sp(1) this(1) Suc.prems(3) this(2) Suc.prems(5)] obtain s' fs where
    s': "page_loop (anon_page mmp start flags) (Suc pg) n s1 = Inr s'" "length fs = n" "distinct fs"
      "set fs \<subseteq> free_frames s1" "set fs \<subseteq> used_frames s' - mm_tables (mem s') (mms s' mmp)" "zeroed (mem s') fs"
      "mm_ok s' (mms s' mmp)" "card (free_frames s1) \<le> card (free_frames s') + 5 * n"
      "mm_kept (mms s1 mmp) s1 (mms s' mmp) s'" "objects_kept mmp s1 s'"
      "mm_live (mem s1) (mms s1 mmp) \<Longrightarrow> mm_live (mem s') (mms s' mmp)"
    and in': "\<And>k. k < n \<Longrightarrow>
          mm_lookup (mem s') (mms s' mmp) (start + of_nat ((Suc pg + k) * 4096)) = fs ! k OR flags"
    and out': "\<And>w. (\<And>k. k < n \<Longrightarrow> page_no w \<noteq> page_no (start + of_nat ((Suc pg + k) * 4096))) \<Longrightarrow>
          mm_lookup (mem s') (mms s' mmp) w = mm_lookup (mem s1) (mms s1 mmp) w"
    by blast
  have inv1: "pmm_inv s1" and inv0: "pmm_inv s0" using sp(1) ok0 by (simp_all add: mm_ok_def)
  have u1: "used_frames s0 \<subseteq> used_frames s1" using sp(5) by (simp add: mm_kept_def)
  have fr: "free_frames s1 \<subseteq> free_frames s - {f}"
    using free_frames_antimono [OF inv0 inv1 _ u1] sp(6) als(5) by (simp add: objects_kept_def)
  have loop: "page_loop (anon_page mmp start flags) pg (Suc n) s = Inr s'"
    using Suc.prems(4) s'(1) by (simp add: anon_page_def call s1_def)
  have kept1: "mm_kept (mms s0 mmp) s0 (mms s' mmp) s'" by (rule mm_kept_trans [OF sp(5) s'(9)])
  have fm: "f \<in> used_frames s0 - mm_tables (mem s0) (mms s0 mmp)" using als(6) al(4) o0(2) by simp
  then have f': "f \<in> used_frames s' - mm_tables (mem s') (mms s' mmp)" using kept1 by (auto simp: mm_kept_def)
  have fz: "mem s' x = 0" if "x \<in> rng (P_TO_V f) 4096" for x
    using kept1 in_frame_bytes [OF fm that] als(7) [OF that] by (simp add: mm_kept_def)
  have "page_no ?v \<noteq> page_no (start + of_nat ((Suc pg + k) * 4096))" if "k < n" for k
    by (rule pages_distinct [OF Suc.prems(5)]) (use Suc.prems(4) that in simp_all)
  then have this_page: "mm_lookup (mem s') (mms s' mmp) ?v = f OR flags"
    using out' [of ?v] sp(3) [of ?v] by simp
  have "mm_lookup (mem s') (mms s' mmp) (start + of_nat ((pg + k) * 4096)) = (f # fs) ! k OR flags"
    if "k < Suc n" for k
    using that this_page in' [of "k - 1"] by (cases k) simp_all
  moreover have "mm_lookup (mem s') (mms s' mmp) w = mm_lookup (mem s) (mms s mmp) w"
    if "\<forall>k < Suc n. page_no w \<noteq> page_no (start + of_nat ((pg + k) * 4096))" for w
  proof -
    have "page_no w \<noteq> page_no (start + of_nat ((Suc pg + k) * 4096))" if "k < n" for k
      using \<open>\<forall>k < Suc n. page_no w \<noteq> page_no (start + of_nat ((pg + k) * 4096))\<close> [rule_format, of "Suc k"] that by simp
    from out' [OF this] sp(3) [of w] al(2) [of w] o0(2)
      that [rule_format, of 0] show ?thesis by simp
  qed
  moreover have "zeroed (mem s') (f # fs)" using s'(6) fz by (auto simp: zeroed_def frame_bytes_insert)
  moreover have "mm_kept (mms s mmp) s (mms s' mmp) s'" using mm_kept_trans [OF al(3)] kept1 o0(2) by simp
  moreover have "objects_kept mmp s s'"
    by (rule objects_kept_trans [OF o0(1) objects_kept_trans [OF sp(6) s'(10)]])
  moreover have "card (free_frames s) \<le> card (free_frames s') + 5 * Suc n" using al(5) sp(4) s'(8) by simp
  moreover have "distinct (f # fs)" "set (f # fs) \<subseteq> free_frames s" using s'(3,4) fr als(1) by auto
  moreover have "mm_live (mem s') (mms s' mmp)" if "mm_live (mem s) (mms s mmp)"
    using s'(11) sp(7) that al(6) o0(2) frame_or_flags(2) [OF als(3,2) Suc.prems(3)] by simp
  ultimately show ?case
    using loop s'(2,5,7) f' by (intro exI [of _ s'] exI [of _ "f # fs"]) simp
qed

section \<open>The heap and the frames do not meet\<close>

definition heap_span :: "u64 set" where
  "heap_span = {x. KERNEL_BRK_START \<le> x \<and> x < BRK_LIMIT}"

text \<open>Physical memory ends below the window that the direct map leaves before the heap.\<close>

definition regions_low :: "mmap_region list \<Rightarrow> bool" where
  "regions_low rs \<longleftrightarrow> (\<forall>r \<in> set rs. region_end r \<le> 0x408000000000)"

lemma direct_map_below_heap:
  assumes "unat y < 0x408000000000"
  shows "P_TO_V y \<notin> heap_span"
proof -
  have "unat (P_TO_V y) = unat y + 0xffff888000000000"
    using assms unat_add_nowrap [of PHYS_MAPPING_START y] by (simp add: P_TO_V_def PHYS_MAPPING_START_def)
  with assms show ?thesis by (simp add: heap_span_def KERNEL_BRK_START_def word_le_nat_alt)
qed

lemma heap_span_not_phys:
  assumes ok: "regions_ok rs" "regions_low rs" and x: "x \<in> heap_span"
  shows "x \<notin> phys_bytes rs"
proof
  assume "x \<in> phys_bytes rs"
  obtain y where y: "x = P_TO_V y" using P_TO_V_surj by blast
  from \<open>x \<in> phys_bytes rs\<close> consider
    r where "r \<in> set rs" "P_TO_V y \<in> bitmap_rng r"
    | r i where "r \<in> set rs" "i < unat (region_pages r)" "P_TO_V y \<in> rng (P_TO_V (frame r i)) 4096"
    unfolding y phys_bytes_def bitmaps_def frame_bytes_def client_frames_def by blast
  then have "\<exists>r \<in> set rs. unat y < region_end r"
  proof cases
    case (1 r)
    with regions_ok_ok [OF ok(1) 1(1)] bitmap_bytes_le [of r] show ?thesis
      by (auto simp: bitmap_rng_nat region_end_def intro!: bexI [of _ r])
  next
    case (2 r i)
    have rok: "region_ok r" by (rule regions_ok_ok [OF ok(1) 2(1)])
    from 2(3) frame_in_region [OF rok 2(2)] 2(1) show ?thesis
      unfolding frame_rng_nat [OF rok 2(2)] by (intro bexI [of _ r]) auto
  qed
  then have "unat y < 0x408000000000" using ok(2) by (force simp: regions_low_def)
  from direct_map_below_heap [OF this] x y show False by simp
qed

text \<open>A change inside the heap does not reach frames, bitmaps or tables.\<close>

lemma heap_change:
  fixes s s' :: "'a pmm_state_scheme"
  assumes inv: "pmm_inv s" and low: "regions_low (active_regions s)"
    and ar: "active_regions s' = active_regions s" and same: "\<forall>x. x \<notin> heap_span \<longrightarrow> mem s' x = mem s x"
  shows "pmm_inv s'" and "free_frames s' = free_frames s" and "used_frames s' = used_frames s"
    and "mm_ok s mm \<Longrightarrow> mm_ok s' mm" and "mm_ok s mm \<Longrightarrow> mm_lookup (mem s') mm w = mm_lookup (mem s) mm w"
    and "mm_ok s mm \<Longrightarrow> mm_tables (mem s') mm = mm_tables (mem s) mm"
    and "\<And>x. x \<in> frame_bytes (used_frames s \<union> free_frames s) \<Longrightarrow> mem s' x = mem s x"
    and "mm_ok s mm \<Longrightarrow> mm_live (mem s') mm = mm_live (mem s) mm"
proof -
  have rok: "regions_ok (active_regions s)" using inv by (simp add: pmm_inv_def)
  have phys: "mem s' x = mem s x" if "x \<in> phys_bytes (active_regions s)" for x
    using heap_span_not_phys [OF rok low, of x] that same by blast
  then have "mem s' x = mem s x" if "x \<in> bitmaps (active_regions s)" for x
    using that by (simp add: phys_bytes_def)
  note ag = bitmaps_agree [of "active_regions s" "mem s'" "mem s", OF this]
  show p: "pmm_inv s'" and f: "free_frames s' = free_frames s" and u: "used_frames s' = used_frames s"
    using inv ag ar by (simp_all add: pmm_inv_def free_frames_def used_frames_def)
  have "used_frames s \<union> free_frames s \<subseteq> client_frames (active_regions s)" using frames_partition [OF inv] by auto
  from frame_bytes_mono [OF this] show fr: "mem s' x = mem s x" if "x \<in> frame_bytes (used_frames s \<union> free_frames s)" for x
    using that phys by (auto simp: phys_bytes_def)
  have ent: "entry (mem s') t j = entry (mem s) t j" if t: "t \<in> used_frames s" "j < 512" for t j
    using used_frame_props [OF inv t(1)] t(2) fr in_frame_bytes [of t "used_frames s \<union> free_frames s"] t(1)
    by (intro entry_cong) blast+
  note main = mm_same_tables [OF _ p, of s mm]
  show "mm_ok s mm \<Longrightarrow> mm_ok s' mm" "mm_ok s mm \<Longrightarrow> mm_lookup (mem s') mm w = mm_lookup (mem s) mm w"
    "mm_ok s mm \<Longrightarrow> mm_tables (mem s') mm = mm_tables (mem s) mm" "mm_ok s mm \<Longrightarrow> mm_live (mem s') mm = mm_live (mem s) mm"
    using main mm_tables_used [of s mm] ent u by blast+
qed

text \<open>A change outside the heap keeps its blocks.\<close>

lemma headers_in_span:
  assumes "heap_inv s bs" "x \<in> headers bs"
  shows "x \<in> heap_span"
proof -
  have la: "laid (unat (heap_base s)) bs (unat (kernel_brk s))" and b: "KERNEL_BRK_START \<le> heap_base s"
    "kernel_brk s < BRK_LIMIT" using assms(1) unfolding heap_inv_def by blast+
  from headers_bounds [OF la heap_inv_bounds(2) [OF assms(1)] assms(2)] b show ?thesis
    by (simp add: heap_span_def word_le_nat_alt word_less_nat_alt)
qed

lemma heap_inv_change:
  assumes "heap_inv s bs" "\<And>x. x \<in> heap_span \<Longrightarrow> mem s' x = mem s x"
    "heap_base s' = heap_base s" "kernel_brk s' = kernel_brk s"
  shows "heap_inv s' bs"
proof -
  have "linked (mem s') 0 bs 0 \<longleftrightarrow> linked (mem s) 0 bs 0"
    by (rule linked_cong) (use assms(2) headers_in_span [OF assms(1)] in blast)
  with assms(1) show ?thesis unfolding heap_inv_def assms(3,4) by blast
qed

text \<open>What the two allocators need of each other.\<close>

definition kernel_ok :: "'a heap_state_scheme \<Rightarrow> bool" where
  "kernel_ok s \<longleftrightarrow> pmm_inv s \<and> heap_ok s \<and> regions_low (active_regions s)"

lemma kernel_ok_phys_change:
  fixes s s' :: "'a heap_state_scheme"
  assumes "kernel_ok s" "pmm_inv s'" "active_regions s' = active_regions s"
    "\<And>x. x \<notin> phys_bytes (active_regions s) \<Longrightarrow> mem s' x = mem s x"
    "heap_base s' = heap_base s" "kernel_brk s' = kernel_brk s"
  shows "kernel_ok s'" and "heap_objects s' = heap_objects s"
proof -
  obtain bs where bs: "heap_inv s bs" using assms(1) by (auto simp: kernel_ok_def heap_ok_def)
  have "mem s' x = mem s x" if "x \<in> heap_span" for x
    using heap_span_not_phys [of "active_regions s" x] assms(1,4) that by (simp add: kernel_ok_def pmm_inv_def)
  from heap_inv_change [OF bs this assms(5,6)] have bs': "heap_inv s' bs" .
  then show "kernel_ok s'" using assms(1-3) by (auto simp: kernel_ok_def heap_ok_def)
  show "heap_objects s' = heap_objects s" using heap_objects_eq [OF bs] heap_objects_eq [OF bs'] by simp
qed

lemma kmalloc_fields:
  assumes "kmalloc n s = Inr (p, s')"
  shows "s' = s\<lparr>kernel_brk := kernel_brk s', mem := mem s'\<rparr>"
  using assms
  by (auto simp: kmalloc_def sbrk_def Let_def rbind_eq_Inr split: if_splits)

lemma objects_in_span:
  assumes "heap_ok s" "(p, k) \<in> heap_objects s" "x \<in> rng p (unat k)"
  shows "x \<in> heap_span"
proof -
  obtain bs where bs: "heap_inv s bs" using assms(1) by (auto simp: heap_ok_def)
  have la: "laid (unat (heap_base s)) bs (unat (kernel_brk s))" and b: "KERNEL_BRK_START \<le> heap_base s"
    "kernel_brk s < BRK_LIMIT" using bs unfolding heap_inv_def by blast+
  have lv: "(p, k) \<in> live bs" using assms(2) heap_objects_eq [OF bs] by simp
  from live_rng [OF la heap_inv_bounds(2) [OF bs] lv] live_bounds [OF la heap_inv_bounds(2) [OF bs] lv] assms(3) b
  show ?thesis by (simp add: heap_span_def word_le_nat_alt word_less_nat_alt del: in_rng)
qed

lemma kmalloc_total:
  assumes "heap_ok s" "0 < unat n" "unat n \<le> 2 ^ 32"
  shows "(\<exists>p s'. kmalloc n s = Inr (p, s')) \<or> kmalloc n s = Inl (Panic ''kernel heap exhausted'')"
proof -
  obtain bs where bs: "heap_inv s bs" using assms(1) by (auto simp: heap_ok_def)
  have n: "n \<noteq> 0" using assms(2) by auto
  note nw = request_nowrap [OF bs assms(3)]
  show ?thesis
  proof (cases "place n bs")
    case (Some r)
    then show ?thesis using kmalloc_place [OF bs n, of "fst r" "snd r"] nw by auto
  next
    case None
    show ?thesis
      using kmalloc_grow [OF bs n None] kmalloc_exhausted [OF bs n None _ nw] by (meson not_le)
  qed
qed

text \<open>Allocating an object changes memory inside the heap only.\<close>

lemma kmalloc_kernel:
  fixes s :: "'a heap_state_scheme"
  assumes ok: "kernel_ok s" and n: "0 < unat n" "unat n \<le> 2 ^ 32" and call: "kmalloc n s = Inr (p, s')"
  shows "kernel_ok s'" and "\<And>x. x \<notin> heap_span \<Longrightarrow> mem s' x = mem s x" and "active_regions s' = active_regions s"
    and "heap_base s' = heap_base s" and "p \<notin> fst ` heap_objects s"
    and "\<exists>k. n \<le> k \<and> heap_objects s' = insert (p, k) (heap_objects s)"
proof -
  have inv: "pmm_inv s" and hp: "heap_ok s" and low: "regions_low (active_regions s)"
    using ok by (simp_all add: kernel_ok_def)
  obtain bs where bs: "heap_inv s bs" using hp by (auto simp: heap_ok_def)
  obtain bs' where bs': "heap_inv s' bs'" "\<forall>x. x \<notin> headers bs' \<longrightarrow> mem s' x = mem s x"
    by (rule kmalloc_object [OF bs n call])
  have f: "s' = s\<lparr>kernel_brk := kernel_brk s', mem := mem s'\<rparr>" by (rule kmalloc_fields [OF call])
  show ar: "active_regions s' = active_regions s" by (subst f) (simp add: active_regions_def)
  show "heap_base s' = heap_base s" by (subst f) simp
  show same: "mem s' x = mem s x" if "x \<notin> heap_span" for x
    using bs'(2) headers_in_span [OF bs'(1)] that by blast
  have "pmm_inv s'" by (rule heap_change(1) [OF inv low ar]) (use same in blast)
  moreover have al: "heap_ok s' \<and> p \<notin> fst ` heap_objects s \<and> (\<exists>k. n \<le> k \<and> heap_objects s' = insert (p, k) (heap_objects s))"
    by (rule kheap.alloc_object [OF hp n call])
  ultimately show "kernel_ok s'" using low ar by (simp add: kernel_ok_def)
  from al show "p \<notin> fst ` heap_objects s" "\<exists>k. n \<le> k \<and> heap_objects s' = insert (p, k) (heap_objects s)" by blast+
qed

lemma kcalloc_kernel:
  fixes s :: "'a heap_state_scheme"
  assumes ok: "kernel_ok s" and n: "0 < unat (nmemb * n)" "unat (nmemb * n) \<le> 2 ^ 32"
    and call: "kcalloc nmemb n s = Inr (p, s')"
  shows "kernel_ok s'" and "\<And>x. x \<notin> heap_span \<Longrightarrow> mem s' x = mem s x" and "active_regions s' = active_regions s"
    and "p \<notin> fst ` heap_objects s"
    and "\<exists>k. nmemb * n \<le> k \<and> heap_objects s' = insert (p, k) (heap_objects s)"
    and "\<And>x. x \<in> rng p (unat (nmemb * n)) \<Longrightarrow> mem s' x = 0"
    and "s' = s\<lparr>kernel_brk := kernel_brk s', mem := mem s'\<rparr>"
    and "\<And>q j x. (q, j) \<in> heap_objects s \<Longrightarrow> x \<in> rng q (unat j) \<Longrightarrow> mem s' x = mem s x"
proof -
  obtain s1 where c1: "kmalloc (nmemb * n) s = Inr (p, s1)" and s': "s' = s1\<lparr>mem := memset (mem s1) p 0 (nmemb * n)\<rparr>"
    using call by (auto simp: kcalloc_def Let_def rbind_eq_Inr)
  note km = kmalloc_kernel [OF ok n c1]
  obtain k where k: "nmemb * n \<le> k" "heap_objects s1 = insert (p, k) (heap_objects s)" using km(6) by blast
  have ok1: "heap_ok s1" "pmm_inv s1" "regions_low (active_regions s1)" using km(1) by (simp_all add: kernel_ok_def)
  obtain bs where bs: "heap_inv s1 bs" using ok1(1) by (auto simp: heap_ok_def)
  have "rng p (unat (nmemb * n)) \<subseteq> rng p (unat k)" using k(1) by (intro rng_mono) (simp add: word_le_nat_alt)
  then have pay: "x \<in> rng p (unat k)" if "x \<in> rng p (unat (nmemb * n))" for x using that by blast
  have sp: "x \<in> heap_span" "x \<notin> headers bs" if "x \<in> rng p (unat (nmemb * n))" for x
    using objects_in_span [OF ok1(1) _ pay [OF that]] heap_objects_payload [OF bs _ pay [OF that]] k(2) by auto
  have out: "mem s' x = mem s1 x" if "x \<notin> rng p (unat (nmemb * n))" for x
    using memset_out [OF that] by (simp add: s')
  have same1: "mem s' x = mem s1 x" if "x \<notin> heap_span" for x using sp(1) [of x] out that by blast
  then show same: "mem s' x = mem s x" if "x \<notin> heap_span" for x using that km(2) by simp
  have ar1: "active_regions s' = active_regions s1" by (simp add: s')
  then show "active_regions s' = active_regions s" using km(3) by simp
  have "linked (mem s') 0 bs 0 \<longleftrightarrow> linked (mem s1) 0 bs 0"
    by (rule linked_cong) (use sp(2) out in blast)
  then have bs': "heap_inv s' bs" using bs unfolding heap_inv_def s' by auto
  have "pmm_inv s'" by (rule heap_change(1) [OF ok1(2,3) ar1]) (use same1 in blast)
  with bs' ok1(3) ar1 show "kernel_ok s'" by (auto simp: kernel_ok_def heap_ok_def)
  have "heap_objects s' = heap_objects s1" using heap_objects_eq [OF bs] heap_objects_eq [OF bs'] by simp
  with k show "\<exists>k. nmemb * n \<le> k \<and> heap_objects s' = insert (p, k) (heap_objects s)" by auto
  show "p \<notin> fst ` heap_objects s" by (rule km(5))
  show "mem s' x = 0" if "x \<in> rng p (unat (nmemb * n))" for x using memset_in [OF that] by (simp add: s')
  show "s' = s\<lparr>kernel_brk := kernel_brk s', mem := mem s'\<rparr>" 
    unfolding s' by (subst (1) kmalloc_fields [OF c1]) simp
  have hp: "heap_ok s" using ok by (simp add: kernel_ok_def)
  show "mem s' x = mem s x" if "(q, j) \<in> heap_objects s" "x \<in> rng q (unat j)" for q j x
    using kheap.alloc_fresh(2) [OF hp n c1 that(1)] kheap.alloc_keeps [OF hp n c1 that] out [of x] that(2) by (metis disjoint_iff)
qed

lemma vma_flags_bound: "unat (vma_flags prot user) < 4096"
  by (simp add: vma_flags_def prot_to_x86_prot_def PAGE_WRITE_def PAGE_USER_def PAGE_PRESENT_def)

lemma set_vma_view [simp]:
  fixes s :: "'a vmm_state_scheme"
  shows "mem (set_vma p v s) = mem s" "mms (set_vma p v s) = mms s" "vmas (set_vma p v s) = (vmas s)(p := v)"
    "active_regions (set_vma p v s) = active_regions s" "kernel_ok (set_vma p v s) = kernel_ok s"
    "heap_objects (set_vma p v s) = heap_objects s" "heap_ok (set_vma p v s) = heap_ok s"
    "kernel_ok (set_mm p m s) = kernel_ok s" "vmas (set_mm p m s) = vmas s"
  by (simp_all add: set_vma_def set_mm_def kernel_ok_def pmm_inv_def active_regions_def heap_ok_def
      heap_objects_def heap_inv_def)

lemma heap_only_stores:
  fixes s s' :: "'a vmm_state_scheme"
  assumes "s' = s\<lparr>kernel_brk := b, mem := m\<rparr>"
  shows "mms s' = mms s" "vmas s' = vmas s" "statics s' = statics s" "active_regions s' = active_regions s"
  using assms by (simp_all add: active_regions_def)

text \<open>What an operation on areas leaves of the rest: only the heap changes, and no object that was live.\<close>

definition heap_grown :: "'a vmm_state_scheme \<Rightarrow> 'a vmm_state_scheme \<Rightarrow> bool" where
  "heap_grown s s' \<longleftrightarrow> kernel_ok s' \<and> active_regions s' = active_regions s \<and> statics s' = statics s
     \<and> (\<forall>x. x \<notin> heap_span \<longrightarrow> mem s' x = mem s x) \<and> heap_objects s \<subseteq> heap_objects s'
     \<and> (\<forall>(q, k) \<in> heap_objects s. \<forall>x \<in> rng q (unat k). mem s' x = mem s x)"

lemma heap_grown_trans: "heap_grown s s' \<Longrightarrow> heap_grown s' s'' \<Longrightarrow> heap_grown s s''"
  unfolding heap_grown_def by (simp del: in_rng) (meson subset_trans, fastforce simp del: in_rng)

lemma heap_grown_set [simp]:
  fixes s :: "'a vmm_state_scheme"
  shows "heap_grown s0 (set_vma p v s) = heap_grown s0 s" "heap_grown s0 (set_mm p m s) = heap_grown s0 s"
  by (simp_all add: heap_grown_def) (simp_all add: set_vma_def set_mm_def heap_objects_def heap_inv_def)

lemma mm_insert_vma_spec:
  fixes s :: "'a vmm_state_scheme"
  assumes ok: "kernel_ok s"
  shows "mm_insert_vma mmp vma s = Inl (Panic ''kernel heap exhausted'') \<or>
    (\<exists>li s'. mm_insert_vma mmp vma s = Inr s' \<and> heap_grown s s'
      \<and> mms s' = (mms s)(mmp := (mms s mmp)\<lparr>vm_areas := (li, vma) # vm_areas (mms s mmp)\<rparr>)
      \<and> vmas s' = (vmas s)(vma := (vmas s vma)\<lparr>refcnt := refcnt (vmas s vma) + 1\<rparr>)
      \<and> li \<notin> fst ` heap_objects s \<and> (\<exists>k. heap_objects s' = insert (li, k) (heap_objects s)))"
proof -
  have n: "0 < unat sizeof_vm_area_li" "unat sizeof_vm_area_li \<le> 2 ^ 32" by (simp_all add: sizeof_vm_area_li_def)
  have hp: "heap_ok s" using ok by (simp add: kernel_ok_def)
  consider (ok) li s1 where "kmalloc sizeof_vm_area_li s = Inr (li, s1)"
    | (full) "kmalloc sizeof_vm_area_li s = Inl (Panic ''kernel heap exhausted'')"
    using kmalloc_total [OF hp n] by blast
  then show ?thesis
  proof cases
    case ok
    note km = kmalloc_kernel [OF assms n ok] and st = heap_only_stores [OF kmalloc_fields [OF ok]]
    have "heap_grown s s1" using km st kheap.alloc_keeps [OF hp n ok] unfolding heap_grown_def by blast
    moreover have "heap_objects (set_mm q m (set_vma p v s1)) = heap_objects s1" for p q m v
      by (simp add: set_mm_def set_vma_def heap_objects_def heap_inv_def)
    ultimately show ?thesis using st km(5,6) by (intro disjI2 exI [of _ li]) (auto simp: mm_insert_vma_def ok Let_def)
  next
    case full
    then show ?thesis by (simp add: mm_insert_vma_def)
  qed
qed

text \<open>A cleared object is new, and only the heap has changed.\<close>

lemma kcalloc_grown:
  fixes s :: "'a vmm_state_scheme"
  assumes ok: "kernel_ok s" and n: "0 < unat n" "unat n \<le> 2 ^ 32"
  shows "kcalloc 1 n s = Inl (Panic ''kernel heap exhausted'') \<or>
    (\<exists>p s' k. kcalloc 1 n s = Inr (p, s') \<and> heap_grown s s' \<and> p \<notin> fst ` heap_objects s \<and> p \<in> heap_span
      \<and> n \<le> k \<and> heap_objects s' = insert (p, k) (heap_objects s) \<and> (\<forall>(q, j) \<in> heap_objects s. rng p (unat n) \<inter> rng q (unat j) = {})
      \<and> mms s' = mms s \<and> vmas s' = vmas s)"
proof -
  have hp: "heap_ok s" using ok by (simp add: kernel_ok_def)
  have n': "0 < unat (1 * n)" "unat (1 * n) \<le> 2 ^ 32" using n by simp_all
  consider (ok) p s' where "kcalloc 1 n s = Inr (p, s')" | (full) "kcalloc 1 n s = Inl (Panic ''kernel heap exhausted'')"
    using kmalloc_total [OF hp n'] by (auto simp: kcalloc_def Let_def)
  then show ?thesis
  proof cases
    case c: ok
    note kc = kcalloc_kernel [OF ok n' c] and st = heap_only_stores [OF kcalloc_kernel(7) [OF ok n' c]]
    obtain k where k: "n \<le> k" "heap_objects s' = insert (p, k) (heap_objects s)" using kc(5) by auto
    have "p \<in> rng p (unat k)" using k(1) n(1) by (simp add: word_le_nat_alt)
    moreover have "heap_ok s'" using kc(1) by (simp add: kernel_ok_def)
    ultimately have "p \<in> heap_span" using objects_in_span [of s' p k p] k(2) by blast
    moreover have "heap_grown s s'" using kc(1-3,5,8) st unfolding heap_grown_def by blast
    moreover obtain s1 where "kmalloc n s = Inr (p, s1)" using c by (auto simp: kcalloc_def Let_def rbind_eq_Inr)
    then have "\<forall>(q, j) \<in> heap_objects s. rng p (unat n) \<inter> rng q (unat j) = {}" using kheap.alloc_fresh(2) [OF hp n] by blast
    ultimately show ?thesis using c k kc(4) st(1,2) by (intro disjI2 exI [of _ p] exI [of _ s'] exI [of _ k]) simp
  qed simp
qed

text \<open>A new area \<open>v\<close>, put in front of the list of an address space.\<close>

definition add_area :: "u64 \<Rightarrow> vm_area \<Rightarrow> 'a vmm_state_scheme \<Rightarrow> 'a vmm_state_scheme res" where
  "add_area mmp v s = rbind (kcalloc 1 sizeof_vm_area s) (\<lambda>(vma, s). mm_insert_vma mmp vma (set_vma vma v s))"

lemma add_area_spec:
  fixes s :: "'a vmm_state_scheme"
  assumes ok: "kernel_ok s"
  shows "add_area mmp v s = Inl (Panic ''kernel heap exhausted'') \<or>
    (\<exists>s' li vma. add_area mmp v s = Inr s' \<and> heap_grown s s' \<and> vma \<notin> fst ` heap_objects s \<and> vma \<in> heap_span
      \<and> mms s' = (mms s)(mmp := (mms s mmp)\<lparr>vm_areas := (li, vma) # vm_areas (mms s mmp)\<rparr>)
      \<and> vmas s' = (vmas s)(vma := v\<lparr>refcnt := refcnt v + 1\<rparr>)
      \<and> li \<notin> insert vma (fst ` heap_objects s) \<and> (\<exists>j k. heap_objects s' = insert (li, k) (insert (vma, j) (heap_objects s))))"
proof -
  have n: "0 < unat sizeof_vm_area" "unat sizeof_vm_area \<le> 2 ^ 32" by (simp_all add: sizeof_vm_area_def)
  from kcalloc_grown [OF ok n] show ?thesis
  proof (elim disjE exE conjE)
    fix vma s2 i
    assume c: "kcalloc 1 sizeof_vm_area s = Inr (vma, s2)" "heap_grown s s2" "vma \<notin> fst ` heap_objects s" "vma \<in> heap_span"
      "heap_objects s2 = insert (vma, i) (heap_objects s)" "mms s2 = mms s" "vmas s2 = vmas s"
    then have g: "heap_grown s (set_vma vma v s2)" by simp
    then have "kernel_ok (set_vma vma v s2)" by (simp add: heap_grown_def)
    from mm_insert_vma_spec [OF this, of mmp vma] show ?thesis
    proof (elim disjE exE conjE)
      fix li s' j
      assume a: "mm_insert_vma mmp vma (set_vma vma v s2) = Inr s'" "heap_grown (set_vma vma v s2) s'"
        "mms s' = (mms (set_vma vma v s2))(mmp := (mms (set_vma vma v s2) mmp)\<lparr>vm_areas := (li, vma) # vm_areas (mms (set_vma vma v s2) mmp)\<rparr>)"
        "vmas s' = (vmas (set_vma vma v s2))(vma := (vmas (set_vma vma v s2) vma)\<lparr>refcnt := refcnt (vmas (set_vma vma v s2) vma) + 1\<rparr>)"
        "li \<notin> fst ` heap_objects (set_vma vma v s2)" "heap_objects s' = insert (li, j) (heap_objects (set_vma vma v s2))"
      have "\<exists>j k. heap_objects s' = insert (li, k) (insert (vma, j) (heap_objects s))" "li \<notin> insert vma (fst ` heap_objects s)"
        using a(5,6) c(5) by auto
      then show ?thesis using a(1-4) heap_grown_trans [OF g] c
        by (intro disjI2 exI [of _ s'] exI [of _ li] exI [of _ vma]) (simp add: add_area_def)
    qed (simp add: add_area_def c(1))
  qed (simp add: add_area_def)
qed

text \<open>The frames in use stay in use, and those that hold no table of the address space keep their contents.\<close>

definition space_kept :: "mm \<Rightarrow> 'a pmm_state_scheme \<Rightarrow> mm \<Rightarrow> 'a pmm_state_scheme \<Rightarrow> bool" where
  "space_kept mm s mm' s' \<longleftrightarrow> used_frames s \<subseteq> used_frames s' \<and> active_regions s' = active_regions s
     \<and> mm_tables (mem s') mm' \<inter> used_frames s \<subseteq> mm_tables (mem s) mm
     \<and> (\<forall>x \<in> frame_bytes (used_frames s - mm_tables (mem s) mm). mem s' x = mem s x)"

lemma mm_kept_space: "mm_kept mm s mm' s' \<Longrightarrow> space_kept mm s mm' s'"
  by (simp add: mm_kept_def space_kept_def)

lemma space_kept_trans:
  assumes "space_kept mm s mm' s'" "space_kept mm' s' mm'' s''"
  shows "space_kept mm s mm'' s''"
proof -
  have "used_frames s - mm_tables (mem s) mm \<subseteq> used_frames s' - mm_tables (mem s') mm'"
    using assms by (auto simp: space_kept_def)
  then have "frame_bytes (used_frames s - mm_tables (mem s) mm)
      \<subseteq> frame_bytes (used_frames s' - mm_tables (mem s') mm')" by (rule frame_bytes_mono)
  with assms show ?thesis unfolding space_kept_def by (auto simp: subset_iff)
qed

text \<open>What the address space at \<open>mmp\<close> has become when the frames \<open>fs\<close> have been mapped from \<open>start\<close> on.\<close>

definition frames_mapped :: "u64 \<Rightarrow> u64 \<Rightarrow> u64 list \<Rightarrow> u64 \<Rightarrow> 'a vmm_state_scheme \<Rightarrow> 'a vmm_state_scheme \<Rightarrow> bool" where
  "frames_mapped mmp start fs flags s s' \<longleftrightarrow>
     distinct fs \<and> set fs \<subseteq> free_frames s \<and> set fs \<subseteq> used_frames s' - mm_tables (mem s') (mms s' mmp) \<and> mm_ok s' (mms s' mmp)
     \<and> (\<forall>k < length fs. mm_lookup (mem s') (mms s' mmp) (start + of_nat (k * 4096)) = fs ! k OR flags)
     \<and> (\<forall>w. (\<forall>k < length fs. page_no w \<noteq> page_no (start + of_nat (k * 4096))) \<longrightarrow>
           mm_lookup (mem s') (mms s' mmp) w = mm_lookup (mem s) (mms s mmp) w)
     \<and> space_kept (mms s mmp) s (mms s' mmp) s' \<and> card (free_frames s) \<le> card (free_frames s') + 5 * length fs
     \<and> (\<forall>q. q \<noteq> mmp \<longrightarrow> mms s' q = mms s q) \<and> (mm_live (mem s) (mms s mmp) \<longrightarrow> mm_live (mem s') (mms s' mmp))"

text \<open>Heap allocations do not reach page tables.\<close>

lemma heap_grown_space:
  assumes k: "kernel_ok s" and g: "heap_grown s s'" and ok: "mm_ok s mm" and p: "p4 mm' = p4 mm"
  shows "mm_ok s' mm'" "mm_lookup (mem s') mm' w = mm_lookup (mem s) mm w" "mm_tables (mem s') mm' = mm_tables (mem s) mm"
    "mm_live (mem s') mm' = mm_live (mem s) mm" "space_kept mm s mm' s'" "free_frames s' = free_frames s" "used_frames s' = used_frames s"
    and "x \<in> frame_bytes (used_frames s) \<Longrightarrow> mem s' x = mem s x"
proof -
  have inv: "pmm_inv s" "regions_low (active_regions s)" using k by (simp_all add: kernel_ok_def)
  have g': "active_regions s' = active_regions s" "\<forall>x. x \<notin> heap_span \<longrightarrow> mem s' x = mem s x" using g by (simp_all add: heap_grown_def)
  note hc = heap_change [OF inv g']
  show "mm_ok s' mm'" "mm_live (mem s') mm' = mm_live (mem s) mm" using hc(4,8) [OF ok] p by (simp_all add: mm_ok_def mm_live_def)
  show "mm_lookup (mem s') mm' w = mm_lookup (mem s) mm w" using hc(5) [OF ok, of w] p by (auto simp: mm_lookup_def split: if_splits)
  show tb: "mm_tables (mem s') mm' = mm_tables (mem s) mm" using hc(6) [OF ok] p by (auto simp: mm_tables_def split: if_splits)
  show "free_frames s' = free_frames s" "used_frames s' = used_frames s" by (rule hc(2,3))+
  show fb: "mem s' x = mem s x" if "x \<in> frame_bytes (used_frames s)" for x
    using hc(7) [of x] that frame_bytes_mono [of "used_frames s" "used_frames s \<union> free_frames s"] by blast
  show "space_kept mm s mm' s'"
    using tb hc(3) g'(1) fb frame_bytes_mono [of "used_frames s - mm_tables (mem s) mm" "used_frames s"] by (auto simp: space_kept_def)
qed

lemma frames_mapped_grown:
  assumes fm: "frames_mapped mmp start fs flags s s1" and k: "kernel_ok s1" and g: "heap_grown s1 s'"
    and mm: "mms s' = (mms s1)(mmp := (mms s1 mmp)\<lparr>vm_areas := as\<rparr>)"
  shows "frames_mapped mmp start fs flags s s'" "zeroed (mem s1) fs \<Longrightarrow> zeroed (mem s') fs"
proof -
  have ok1: "mm_ok s1 (mms s1 mmp)" and fs: "set fs \<subseteq> used_frames s1" and kp: "space_kept (mms s mmp) s (mms s1 mmp) s1"
    using fm by (auto simp: frames_mapped_def)
  have "p4 (mms s' mmp) = p4 (mms s1 mmp)" by (simp add: mm)
  note hg = heap_grown_space [OF k g ok1 this]
  show "zeroed (mem s') fs" if "zeroed (mem s1) fs"
    using that hg(8) frame_bytes_mono [OF fs] unfolding zeroed_def by (metis subsetD)
  show "frames_mapped mmp start fs flags s s'"
    using fm hg(1-4,6,7) space_kept_trans [OF kp hg(5)] mm unfolding frames_mapped_def by simp
qed

lemma anon_mmap_spec:
  fixes s :: "'a vmm_state_scheme" and prot :: u64 and user :: bool
  assumes ok: "kernel_ok s" "mm_ok s (mms s mmp)" and free: "5 * unat pages \<le> card (free_frames s)"
    and small: "unat pages \<le> 2 ^ 19" and al: "page_off start = 0"
  defines "flags \<equiv> vma_flags prot user"
  shows "anon_mmap mmp start pages prot user s = Inl (Panic ''kernel heap exhausted'') \<or>
    (\<exists>s' fs li vma. anon_mmap mmp start pages prot user s = Inr s' \<and> kernel_ok s' \<and> length fs = unat pages
      \<and> frames_mapped mmp start fs flags s s' \<and> zeroed (mem s') fs
      \<and> heap_objects s \<subseteq> heap_objects s' \<and> (\<forall>(q, k) \<in> heap_objects s. \<forall>x \<in> rng q (unat k). mem s' x = mem s x)
      \<and> statics s' = statics s
      \<and> vm_areas (mms s' mmp) = (li, vma) # vm_areas (mms s mmp) \<and> vma \<notin> fst ` heap_objects s \<and> vma \<in> heap_span
      \<and> vmas s' = (vmas s)(vma := \<lparr>refcnt = 1, vm_type = VM_AREA_REG, vm_start = start, vm_pages = pages,
                                    vm_user = user, vm_prot = ucast prot\<rparr>)
      \<and> li \<notin> insert vma (fst ` heap_objects s) \<and> (\<exists>j k. heap_objects s' = insert (li, k) (insert (vma, j) (heap_objects s))))"
proof -
  have al': "aligned start" using al by (simp add: aligned_iff_page_off)
  obtain s1 fs where loop: "page_loop (anon_page mmp start flags) 0 (unat pages) s = Inr s1"
    and f: "length fs = unat pages" "distinct fs" "set fs \<subseteq> free_frames s"
      "set fs \<subseteq> used_frames s1 - mm_tables (mem s1) (mms s1 mmp)" "zeroed (mem s1) fs" "mm_ok s1 (mms s1 mmp)"
      "card (free_frames s) \<le> card (free_frames s1) + 5 * unat pages"
      "\<forall>k < unat pages. mm_lookup (mem s1) (mms s1 mmp) (start + of_nat (k * 4096)) = fs ! k OR flags"
      "\<forall>w. (\<forall>k < unat pages. page_no w \<noteq> page_no (start + of_nat (k * 4096))) \<longrightarrow>
          mm_lookup (mem s1) (mms s1 mmp) w = mm_lookup (mem s) (mms s mmp) w"
      "mm_live (mem s) (mms s mmp) \<longrightarrow> mm_live (mem s1) (mms s1 mmp)"
    and kept: "objects_kept mmp s s1" "mm_kept (mms s mmp) s (mms s1 mmp) s1"
    using anon_pages [OF ok(2) free vma_flags_bound [of prot user, folded flags_def], of 0 start, unfolded add_0, OF small al']
    by blast
  have fs: "length fs = unat pages" "frames_mapped mmp start fs flags s s1" "zeroed (mem s1) fs"
    using f kept(1) mm_kept_space [OF kept(2)] unfolding frames_mapped_def objects_kept_def f(1) by blast+
  have k1: "kernel_ok s1" "heap_objects s1 = heap_objects s"
    using kernel_ok_phys_change [OF ok(1), of s1] fs(2) kept by (auto simp: frames_mapped_def mm_ok_def mm_kept_def objects_kept_def)
  have hp: "heap_ok s" and inv: "pmm_inv s" "regions_low (active_regions s)" using ok(1) by (simp_all add: kernel_ok_def)
  have obj: "mem s1 x = mem s x" if "(q, k) \<in> heap_objects s" "x \<in> rng q (unat k)" for q k x
    using heap_span_not_phys [OF _ inv(2) objects_in_span [OF hp that]] inv(1) kept(2)
    by (simp add: mm_kept_def pmm_inv_def)
  have body: "(\<lambda>off s. case pmm_alloc s of (fr, s) \<Rightarrow> Inr (map_page_at mmp (start + off) fr flags s))
      = (anon_page mmp start flags :: u64 \<Rightarrow> 'a vmm_state_scheme \<Rightarrow> 'a vmm_state_scheme res)"
    by (intro ext) (simp add: anon_page_def)
  define v where "v = zero_vma\<lparr>vm_prot := ucast prot, vm_user := user, vm_type := VM_AREA_REG, vm_start := start, vm_pages := pages\<rparr>"
  have eq: "anon_mmap mmp start pages prot user s = add_area mmp v s1"
    using al loop by (simp only: anon_mmap_def Let_def flags_def [symmetric] body rbind_Inr) (simp add: add_area_def v_def)
  from add_area_spec [OF k1(1), of mmp v] show ?thesis
  proof (elim disjE exE conjE)
    fix s' li vma j k
    assume a: "add_area mmp v s1 = Inr s'" "heap_grown s1 s'" "vma \<notin> fst ` heap_objects s1" "vma \<in> heap_span"
      "mms s' = (mms s1)(mmp := (mms s1 mmp)\<lparr>vm_areas := (li, vma) # vm_areas (mms s1 mmp)\<rparr>)"
      "vmas s' = (vmas s1)(vma := v\<lparr>refcnt := refcnt v + 1\<rparr>)"
      "li \<notin> insert vma (fst ` heap_objects s1)" "heap_objects s' = insert (li, k) (insert (vma, j) (heap_objects s1))"
    note fm = frames_mapped_grown [OF fs(2) k1(1) a(2,5)]
    have "(\<forall>(q, k) \<in> heap_objects s. \<forall>x \<in> rng q (unat k). mem s' x = mem s x)"
      using a(2) obj k1(2) unfolding heap_grown_def by fastforce
    moreover have "\<exists>j k. heap_objects s' = insert (li, k) (insert (vma, j) (heap_objects s))" using a(8) k1(2) by auto
    ultimately show ?thesis using eq a(1-7) fm fs(1,3) kept k1(2)
      by (intro disjI2 exI [of _ s'] exI [of _ fs] exI [of _ li] exI [of _ vma])
        (simp add: heap_grown_def objects_kept_def v_def zero_vma_def)
  qed (use eq in simp)
qed

section \<open>Properties\<close>

definition sample_statics :: static_addrs where
  "sample_statics = \<lparr>addr_kernel_mm = 0xffffffff80200000, addr_kernel_vma_li = 0xffffffff80200100,
     addr_kernel_vma = 0xffffffff80200200, addr_phys_vma_li = 0xffffffff80200300,
     addr_phys_vma = 0xffffffff80200400, addr_kernel_heap_vma_li = 0xffffffff80200500,
     addr_kernel_heap_vma = 0xffffffff80200600\<rparr>"

definition sample_kernel_boot :: vmm_state where
  "sample_kernel_boot = \<lparr>mem = (\<lambda>_. 0), n_regions = 1, regions = [sample_region],
     kernel_brk = KERNEL_BRK_START, heap_base = 0, statics = sample_statics,
     mms = (\<lambda>_. zero_mm), vmas = (\<lambda>_. zero_vma)\<rparr>"

definition sample_kernel :: vmm_state where
  "sample_kernel = projr (kmalloc_init (pmm_init_regions sample_kernel_boot))"

lemma sample_kernel_facts:
  "kernel_ok sample_kernel" "mm_ok sample_kernel (mms sample_kernel p)" "card (free_frames sample_kernel) = 63"
  "mms sample_kernel p = zero_mm" "active_regions sample_kernel = [sample_region]"
  "kernel_brk sample_kernel = KERNEL_BRK_START + INIT_HEAP_SIZE" "statics sample_kernel = sample_statics"
proof -
  let ?s = "pmm_init_regions sample_kernel_boot"
  have ar0: "active_regions sample_kernel_boot = [sample_region]"
    by (simp add: active_regions_def sample_kernel_boot_def)
  note init = init_one_region [OF ar0]
  have brk: "kernel_brk ?s = KERNEL_BRK_START" by (simp add: pmm_init_regions_def sample_kernel_boot_def)
  note hi = init_heap_state [OF brk, folded sample_kernel_def]
  have "\<exists>b h m. ?s\<lparr>kernel_brk := b, heap_base := h, mem := m\<rparr> = sample_kernel"
    using hi(3) brk by (auto simp: kmalloc_init_def sbrk_def Let_def rbind_eq_Inr split: if_splits)
  then obtain b h m where k: "sample_kernel = ?s\<lparr>kernel_brk := b, heap_base := h, mem := m\<rparr>" by metis
  have ar: "active_regions sample_kernel = active_regions ?s" and mms: "mms sample_kernel = (\<lambda>_. zero_mm)"
    and st: "statics sample_kernel = sample_statics"
    unfolding k by (simp_all add: active_regions_def pmm_init_regions_def sample_kernel_boot_def)
  have ar1: "active_regions ?s = [sample_region]" using ar0 by (simp add: pmm_init_regions_def)
  have low: "regions_low (active_regions ?s)"
    unfolding ar1 by (simp add: regions_low_def region_end_def sample_region_def)
  have "rng KERNEL_BRK_START 32 \<subseteq> heap_span"
  proof
    fix x :: u64 assume "x \<in> rng KERNEL_BRK_START 32"
    then show "x \<in> heap_span" using in_rng_nat [of KERNEL_BRK_START 32 x]
      by (simp add: heap_span_def KERNEL_BRK_START_def BRK_LIMIT_def KERNEL_BRK_PAGES_def word_le_nat_alt word_less_nat_alt)
  qed
  then have same: "\<forall>x. x \<notin> heap_span \<longrightarrow> mem sample_kernel x = mem ?s x" using hi(4) by blast
  note hc = heap_change [OF init(1) low ar same]
  show "kernel_ok sample_kernel" using hc(1) hi(1) low ar by (auto simp: kernel_ok_def heap_ok_def)
  show "card (free_frames sample_kernel) = 63" using hc(2) init(3) by simp
  show "active_regions sample_kernel = [sample_region]" using ar ar1 by simp
  show "kernel_brk sample_kernel = KERNEL_BRK_START + INIT_HEAP_SIZE" by (rule hi(2))
  show "statics sample_kernel = sample_statics" by (rule st)
  show m: "mms sample_kernel p = zero_mm" by (simp add: mms)
  show "mm_ok sample_kernel (mms sample_kernel p)" using hc(1) m by (simp add: mm_ok_def zero_mm_def)
qed

text \<open>
  C18. With enough free frames, \<open>vmm_map_range\<close> of page-aligned addresses maps every page of the
  range to the frame at the same offset, with the flags of the protection, and changes no other
  mapping of the address space and no other address space.
\<close>

theorem vmm_map_range_correct:
  fixes s :: "'a vmm_state_scheme"
  assumes "mm_ok s (mms s mmp)" and "page_off virt = 0" and "page_off phys = 0"
    and "unat npages \<le> 2 ^ 19" and "4 * unat npages \<le> card (free_frames s)"
  shows "\<exists>s'. vmm_map_range mmp virt phys npages prot user s = Inr s' \<and> mm_ok s' (mms s' mmp)
    \<and> (\<forall>k < unat npages. mm_lookup (mem s') (mms s' mmp) (virt + of_nat (k * 4096))
          = (phys + of_nat (k * 4096)) OR vma_flags prot user)
    \<and> (\<forall>w. (\<forall>k < unat npages. page_no w \<noteq> page_no (virt + of_nat (k * 4096))) \<longrightarrow>
          mm_lookup (mem s') (mms s' mmp) w = mm_lookup (mem s) (mms s mmp) w)
    \<and> (\<forall>q. q \<noteq> mmp \<longrightarrow> mms s' q = mms s q)
    \<and> (\<forall>x \<in> frame_bytes (used_frames s - mm_tables (mem s) (mms s mmp)). mem s' x = mem s x)"
proof -
  have al: "aligned virt" using assms(2) by (simp add: aligned_iff_page_off)
  have "0 + unat npages \<le> 2 ^ 19" using assms(4) by simp
  note m = map_loop [OF assms(1,5) vma_flags_bound [of prot user] this al, where ph = "\<lambda>k. phys + of_nat (k * 4096)"]
  have "\<exists>s'. page_loop (\<lambda>off s. Inr (map_page_at mmp (virt + off) (phys + off) (vma_flags prot user) s)) 0 (unat npages) s = Inr s'
    \<and> mm_ok s' (mms s' mmp) \<and> mm_kept (mms s mmp) s (mms s' mmp) s' \<and> objects_kept mmp s s'
    \<and> (\<forall>k. 0 \<le> k \<and> k < 0 + unat npages \<longrightarrow>
          mm_lookup (mem s') (mms s' mmp) (virt + of_nat (k * 4096)) = (phys + of_nat (k * 4096)) OR vma_flags prot user)
    \<and> (\<forall>w. (\<forall>k. 0 \<le> k \<and> k < 0 + unat npages \<longrightarrow> page_no w \<noteq> page_no (virt + of_nat (k * 4096))) \<longrightarrow>
          mm_lookup (mem s') (mms s' mmp) w = mm_lookup (mem s) (mms s mmp) w)"
    by (rule exE [OF m]) (simp, elim conjE, intro exI conjI, assumption+)
  with assms(2,3) show ?thesis by (auto simp: vmm_map_range_def mm_kept_def objects_kept_def)
qed

theorem vmm_map_range_correct_witness:
  "\<exists>s'. vmm_map_range 1 0x400000 0x200000 3 2 True sample_kernel = Inr s' \<and>
     mm_lookup (mem s') (mms s' 1) (0x400000 + of_nat (2 * 4096)) = (0x200000 + of_nat (2 * 4096)) OR vma_flags 2 True"
proof -
  have "page_off 0x400000 = 0" "page_off 0x200000 = 0" "unat (3 :: u64) \<le> 2 ^ 19"
    "4 * unat (3 :: u64) \<le> card (free_frames sample_kernel)"
    using sample_kernel_facts(3) by (simp_all add: page_off_def)
  from vmm_map_range_correct [OF sample_kernel_facts(2) [of 1] this, of 2 True] obtain s' where
    s': "vmm_map_range 1 0x400000 0x200000 3 2 True sample_kernel = Inr s'"
    "\<forall>k < unat (3 :: u64). mm_lookup (mem s') (mms s' 1) (0x400000 + of_nat (k * 4096))
          = (0x200000 + of_nat (k * 4096)) OR vma_flags 2 True" by blast
  have "2 < unat (3 :: u64)" by simp
  with s' show ?thesis by blast
qed



end
