(* ===== verification/Heap_Client.thy ===== *)
theory Heap_Client
  imports Vmm
begin

text \<open>
  What the drivers and the file system, as clients of the kernel heap, need to know of it: where a
  routine may write without damaging the heap (\<open>room\<close>), and that allocating and releasing its own
  temporary objects leaves the caller's buffers alone.
\<close>

definition room :: "'a heap_state_scheme \<Rightarrow> u64 set \<Rightarrow> bool" where
  "room s A \<longleftrightarrow> A \<inter> heap_span = {} \<or> (\<exists>q k. (q, k) \<in> heap_objects s \<and> A \<subseteq> rng q (unat k))"

lemma room_mono: "room s A \<Longrightarrow> B \<subseteq> A \<Longrightarrow> room s B"
  unfolding room_def by blast

lemma room_objects: "heap_objects s' = heap_objects s \<Longrightarrow> room s' A \<longleftrightarrow> room s A"
  by (simp add: room_def)

lemma room_more: "room s A \<Longrightarrow> heap_objects s \<subseteq> heap_objects s' \<Longrightarrow> room s' A"
  unfolding room_def by blast

lemma room_object: "(p, k) \<in> heap_objects s \<Longrightarrow> n \<le> k \<Longrightarrow> room s (rng p (unat n))"
  using rng_mono [of "unat n" "unat k" p] unfolding room_def by (auto simp: word_le_nat_alt simp del: in_rng)

lemma room_not_header:
  assumes "heap_inv s bs" "room s A"
  shows "A \<inter> headers bs = {}"
proof -
  have "A \<inter> headers bs = {}" if "A \<inter> heap_span = {}"
    using headers_in_span [OF assms(1)] that by blast
  moreover have "A \<inter> headers bs = {}" if "(q, k) \<in> heap_objects s" "A \<subseteq> rng q (unat k)" for q k
    using heap_objects_payload [OF assms(1) that(1)] that(2) by blast
  ultimately show ?thesis using assms(2) unfolding room_def by blast
qed

lemma heap_write_inv:
  assumes "heap_inv s bs" "room s A" "\<And>x. x \<notin> A \<Longrightarrow> m x = mem s x"
  shows "heap_inv (s\<lparr>mem := m\<rparr>) bs"
proof -
  have "linked m 0 bs 0 \<longleftrightarrow> linked (mem s) 0 bs 0"
    by (rule linked_cong) (use assms(3) room_not_header [OF assms(1,2)] in blast)
  with assms(1) show ?thesis unfolding heap_inv_def by auto
qed

lemma heap_write:
  assumes "heap_ok s" "room s A" "\<And>x. x \<notin> A \<Longrightarrow> m x = mem s x"
  shows "heap_ok (s\<lparr>mem := m\<rparr>)" and "heap_objects (s\<lparr>mem := m\<rparr>) = heap_objects s"
proof -
  obtain bs where bs: "heap_inv s bs" using assms(1) by (auto simp: heap_ok_def)
  note bs' = heap_write_inv [OF bs assms(2,3)]
  then show "heap_ok (s\<lparr>mem := m\<rparr>)" unfolding heap_ok_def by blast
  show "heap_objects (s\<lparr>mem := m\<rparr>) = heap_objects s"
    using heap_objects_eq [OF bs] heap_objects_eq [OF bs'] by simp
qed

lemma kmalloc_room:
  assumes ok: "heap_ok s" and n: "0 < unat n" "unat n \<le> 2 ^ 32" and call: "kmalloc n s = Inr (p, s')"
  shows "heap_ok s'" and "room s' (rng p (unat n))"
    and "\<exists>k. n \<le> k \<and> heap_objects s' = insert (p, k) (heap_objects s) \<and> p \<notin> fst ` heap_objects s"
    and "room s A \<Longrightarrow> A \<inter> rng p (unat n) = {}"
    and "room s A \<Longrightarrow> x \<in> A \<Longrightarrow> mem s' x = mem s x"
proof -
  obtain bs where bs: "heap_inv s bs" using ok by (auto simp: heap_ok_def)
  obtain bs' k where k: "heap_inv s' bs'" "n \<le> k" "live bs' = insert (p, k) (live bs)" "p \<notin> fst ` live bs"
    "\<forall>x. x \<notin> headers bs' \<longrightarrow> mem s' x = mem s x"
    by (rule kmalloc_object [OF bs n call])
  have ob: "heap_objects s' = insert (p, k) (heap_objects s)" "p \<notin> fst ` heap_objects s"
    using k(3,4) unfolding heap_objects_eq [OF bs] heap_objects_eq [OF k(1)] .
  show ok': "heap_ok s'" using k(1) unfolding heap_ok_def by blast
  show "\<exists>k. n \<le> k \<and> heap_objects s' = insert (p, k) (heap_objects s) \<and> p \<notin> fst ` heap_objects s"
    using ob k(2) by blast
  show "room s' (rng p (unat n))" using room_object [of p k s' n] ob(1) k(2) by blast
  show "A \<inter> rng p (unat n) = {}" if rm: "room s A"
  proof -
    have "x \<in> heap_span" if "x \<in> rng p (unat n)" for x
      using objects_in_span [OF ok', of p k x] ob(1) that k(2) by (auto simp: word_le_nat_alt)
    moreover have "A \<inter> rng p (unat n) = {}" if "(q, j) \<in> heap_objects s" "A \<subseteq> rng q (unat j)" for q j
      using kheap.alloc_fresh(2) [OF ok n call that(1)] that(2) by blast
    ultimately show ?thesis using rm unfolding room_def by blast
  qed
  show "mem s' x = mem s x" if "room s A" "x \<in> A"
  proof -
    have "room s' A" using room_more [OF that(1)] ob(1) by blast
    then show ?thesis using room_not_header [OF k(1)] that(2) k(5) by blast
  qed
qed

lemma free_room:
  assumes ok: "heap_ok s" and p: "(p, n) \<in> heap_objects s"
  shows "room (free p s) A \<Longrightarrow> x \<in> A \<Longrightarrow> mem (free p s) x = mem s x"
proof -
  assume rm: "room (free p s) A" and x: "x \<in> A"
  obtain xs b ys where b: "heap_inv s (xs @ (b, n, True) # ys)" "p = b + 32"
    "laid (unat (heap_base s)) (xs @ (b, n, True) # ys) (unat (kernel_brk s))"
    by (rule heap_object_cases [OF assms])
  obtain m where m: "free p s = s\<lparr>mem := m\<rparr>" "\<forall>x. x \<notin> headers (xs @ (b, n, True) # ys) \<longrightarrow> m x = mem s x"
    using free_unplace [OF b(1)] unfolding b(2) by blast
  have "room s A" using rm free_object(2) [OF assms] by (auto simp: room_def)
  from room_not_header [OF b(1) this] x have "m x = mem s x" using m(2) by blast
  then show ?thesis using m(1) by simp
qed

text \<open>
  A routine that allocates a temporary object of \<open>n\<close> bytes at \<open>p\<close>, writes into it and into an area
  \<open>A\<close> of the caller, and frees the object: the heap is as before, and outside \<open>A\<close> nothing the caller
  can name has changed.
\<close>

lemma temporary_object:
  assumes ok: "heap_ok s" and n: "0 < unat n" "unat n \<le> 2 ^ 32" and call: "kmalloc n s = Inr (p, s1)"
    and A: "room s A" and w: "\<forall>x. x \<notin> rng p (unat n) \<union> A \<longrightarrow> m x = mem s1 x"
  shows "heap_ok (free p (s1\<lparr>mem := m\<rparr>))" and "heap_objects (free p (s1\<lparr>mem := m\<rparr>)) = heap_objects s"
    and "room s B \<Longrightarrow> x \<in> B \<Longrightarrow> x \<notin> A \<Longrightarrow> mem (free p (s1\<lparr>mem := m\<rparr>)) x = mem s x"
    and "x \<in> A \<Longrightarrow> mem (free p (s1\<lparr>mem := m\<rparr>)) x = m x"
proof -
  note km = kmalloc_room [OF ok n call]
  obtain k where k: "n \<le> k" "heap_objects s1 = insert (p, k) (heap_objects s)" "p \<notin> fst ` heap_objects s"
    using km(3) by blast
  define m1 where "m1 x = (if x \<in> rng p (unat n) then m x else mem s1 x)" for x
  have w1: "heap_ok (s1\<lparr>mem := m1\<rparr>)" "heap_objects (s1\<lparr>mem := m1\<rparr>) = heap_objects s1"
    using heap_write [OF km(1,2), of m1] by (simp_all add: m1_def del: in_rng)
  have "room (s1\<lparr>mem := m1\<rparr>) A" using room_more [OF A] w1(2) k(2) by blast
  from heap_write [OF w1(1) this, of m] w
  have w2: "heap_ok (s1\<lparr>mem := m\<rparr>)" "heap_objects (s1\<lparr>mem := m\<rparr>) = heap_objects s1"
    using w1(2) by (auto simp: m1_def simp del: in_rng)
  then have pk: "(p, k) \<in> heap_objects (s1\<lparr>mem := m\<rparr>)" using k(2) by simp
  note fr = free_object [OF w2(1) pk] and fm = free_room [OF w2(1) pk]
  show "heap_ok (free p (s1\<lparr>mem := m\<rparr>))" by (rule fr(1))
  show ob: "heap_objects (free p (s1\<lparr>mem := m\<rparr>)) = heap_objects s"
    using fr(2) w2(2) k(2,3) by (auto simp: image_iff)
  have keep: "mem (free p (s1\<lparr>mem := m\<rparr>)) x = m x" if "room s B" "x \<in> B" for x B
    using fm [of B x] room_objects [OF ob] that by simp
  show "mem (free p (s1\<lparr>mem := m\<rparr>)) x = mem s x" if "room s B" "x \<in> B" "x \<notin> A"
  proof -
    have "x \<notin> rng p (unat n) \<union> A" using km(4) [OF that(1)] that(2,3) by blast
    then show ?thesis using keep [OF that(1,2)] w km(5) [OF that(1,2)] by metis
  qed
  show "mem (free p (s1\<lparr>mem := m\<rparr>)) x = m x" if "x \<in> A" by (rule keep [OF A that])
qed

end
