(* ===== verification/Ata.thy ===== *)
theory Ata
  imports Heap_Client
begin

text \<open>
  The disk driver (\<^verbatim>\<open>src/src/drivers/ata.c\<close>) over the port instructions of
  \<^verbatim>\<open>src/src/include/io.h\<close>. The hardware behind the ports is not part of the program: it is a state
  of an arbitrary type and a record of four functions, one per instruction. \<open>ata_drive\<close> states the
  documented behaviour of a drive in programmed-I/O mode, as far as reading goes.
\<close>

section \<open>Ports\<close>

record 'd ports =
  inb :: "u16 \<Rightarrow> 'd \<Rightarrow> u8 \<times> 'd"
  outb :: "u16 \<Rightarrow> u8 \<Rightarrow> 'd \<Rightarrow> 'd"
  inw :: "u16 \<Rightarrow> 'd \<Rightarrow> u16 \<times> 'd"
  outw :: "u16 \<Rightarrow> u16 \<Rightarrow> 'd \<Rightarrow> 'd"

text \<open>The kernel's state with the devices it talks to.\<close>

record 'd io_state = vmm_state +
  dev :: 'd

section \<open>The driver\<close>

definition SECTOR_SIZE :: u32 where "SECTOR_SIZE = 512"

definition ATA_DATA_REG :: u16 where "ATA_DATA_REG = 0x1F0"
definition ATA_SECTOR_COUNT_REG :: u16 where "ATA_SECTOR_COUNT_REG = 0x1F2"
definition ATA_SECTOR_NUMBER_REG :: u16 where "ATA_SECTOR_NUMBER_REG = 0x1F3"
definition ATA_CYLINDER_LOW_REG :: u16 where "ATA_CYLINDER_LOW_REG = 0x1F4"
definition ATA_CYLINDER_HIGH_REG :: u16 where "ATA_CYLINDER_HIGH_REG = 0x1F5"
definition ATA_DRIVE_HEAD_REG :: u16 where "ATA_DRIVE_HEAD_REG = 0x1F6"
definition ATA_STATUS_COMMAND_REG :: u16 where "ATA_STATUS_COMMAND_REG = 0x1F7"

definition STATUS_BSY :: u8 where "STATUS_BSY = 0x80"
definition STATUS_RDY :: u8 where "STATUS_RDY = 0x40"
definition COMMAND_WRITE :: u8 where "COMMAND_WRITE = 0x30"
definition COMMAND_READ :: u8 where "COMMAND_READ = 0x20"

partial_function (option) wait_ready :: "'d ports \<Rightarrow> 'd \<Rightarrow> 'd option" where
  "wait_ready P d =
     (case inb P ATA_STATUS_COMMAND_REG d of (status, d) \<Rightarrow>
        if status AND STATUS_RDY \<noteq> 0 \<and> status AND STATUS_BSY = 0 then Some d else wait_ready P d)"

definition load_lba_nsectors :: "'d ports \<Rightarrow> u32 \<Rightarrow> u8 \<Rightarrow> 'd \<Rightarrow> 'd" where
  "load_lba_nsectors P lba nsectors d =
     (let d = outb P ATA_DRIVE_HEAD_REG (ucast (0xE0 OR (drop_bit 24 lba AND 0xFF))) d;
          d = outb P ATA_SECTOR_COUNT_REG nsectors d;
          d = outb P ATA_SECTOR_NUMBER_REG (ucast (lba AND 0xFF)) d;
          d = outb P ATA_CYLINDER_LOW_REG (ucast (drop_bit 8 lba AND 0xFF)) d
      in outb P ATA_CYLINDER_HIGH_REG (ucast (drop_bit 16 lba AND 0xFF)) d)"

text \<open>The inner loops move \<open>n\<close> words, starting at index \<open>i\<close> of the buffer.\<close>

primrec read_words :: "'d ports \<Rightarrow> u64 \<Rightarrow> nat \<Rightarrow> nat \<Rightarrow> memory \<times> 'd \<Rightarrow> memory \<times> 'd" where
  "read_words P buf i 0 st = st"
| "read_words P buf i (Suc n) st =
     (case st of (m, d) \<Rightarrow> case inw P ATA_DATA_REG d of (w, d) \<Rightarrow>
        read_words P buf (Suc i) n (st16 m (buf + of_nat (2 * i)) w, d))"

primrec write_words :: "'d ports \<Rightarrow> memory \<Rightarrow> u64 \<Rightarrow> nat \<Rightarrow> nat \<Rightarrow> 'd \<Rightarrow> 'd" where
  "write_words P m buf i 0 d = d"
| "write_words P m buf i (Suc n) d =
     write_words P m buf (Suc i) n (outw P ATA_DATA_REG (ld16 m (buf + of_nat (2 * i))) d)"

text \<open>The outer loops: \<open>n\<close> sectors, from sector \<open>j\<close> of the transfer on.\<close>

primrec read_sectors :: "'d ports \<Rightarrow> u64 \<Rightarrow> nat \<Rightarrow> nat \<Rightarrow> memory \<times> 'd \<Rightarrow> (memory \<times> 'd) option" where
  "read_sectors P buf j 0 st = Some st"
| "read_sectors P buf j (Suc n) st =
     (case st of (m, d) \<Rightarrow> case wait_ready P d of None \<Rightarrow> None
      | Some d \<Rightarrow> read_sectors P buf (Suc j) n (read_words P buf (j * 256) 256 (m, d)))"

primrec write_sectors :: "'d ports \<Rightarrow> memory \<Rightarrow> u64 \<Rightarrow> nat \<Rightarrow> nat \<Rightarrow> 'd \<Rightarrow> 'd option" where
  "write_sectors P m buf j 0 d = Some d"
| "write_sectors P m buf j (Suc n) d =
     (case wait_ready P d of None \<Rightarrow> None
      | Some d \<Rightarrow> write_sectors P m buf (Suc j) n (write_words P m buf (j * 256) 256 d))"

definition ata_read :: "'d ports \<Rightarrow> u64 \<Rightarrow> u32 \<Rightarrow> u8 \<Rightarrow> ('d, 'a) io_state_scheme \<Rightarrow> ('d, 'a) io_state_scheme res" where
  "ata_read P buf lba nsectors s =
     rbind (ends (wait_ready P (dev s))) (\<lambda>d.
     let d = load_lba_nsectors P lba nsectors d;
         d = outb P ATA_STATUS_COMMAND_REG COMMAND_READ d
     in rbind (ends (read_sectors P buf 0 (unat nsectors) (mem s, d))) (\<lambda>(m, d).
        Inr (s\<lparr>mem := m, dev := d\<rparr>)))"

definition ata_write :: "'d ports \<Rightarrow> u64 \<Rightarrow> u32 \<Rightarrow> u8 \<Rightarrow> ('d, 'a) io_state_scheme \<Rightarrow> ('d, 'a) io_state_scheme res" where
  "ata_write P buf lba nsectors s =
     rbind (ends (wait_ready P (dev s))) (\<lambda>d.
     let d = load_lba_nsectors P lba nsectors d;
         d = outb P ATA_STATUS_COMMAND_REG COMMAND_WRITE d
     in rbind (ends (write_sectors P (mem s) buf 0 (unat nsectors) d)) (\<lambda>d. Inr (s\<lparr>dev := d\<rparr>)))"

definition ata_read_bytes :: "'d ports \<Rightarrow> u64 \<Rightarrow> u32 \<Rightarrow> u32 \<Rightarrow> ('d, 'a) io_state_scheme \<Rightarrow> ('d, 'a) io_state_scheme res" where
  "ata_read_bytes P buf off len s =
     (let lba = off div SECTOR_SIZE;
          sector_off = off mod SECTOR_SIZE;
          nsectors = (len + SECTOR_SIZE - 1) div SECTOR_SIZE
      in rbind (kmalloc (ucast (nsectors * SECTOR_SIZE)) s) (\<lambda>(readbuf, s).
         if buf = 0 then Inl (Panic ''out of memory'')
         else rbind (ata_read P readbuf lba (ucast nsectors) s) (\<lambda>s.
           let s = s\<lparr>mem := memcpy (mem s) buf (readbuf + ucast sector_off) (ucast len)\<rparr>
           in Inr (free readbuf s))))"

definition ata_write_bytes :: "'d ports \<Rightarrow> u64 \<Rightarrow> u32 \<Rightarrow> u32 \<Rightarrow> ('d, 'a) io_state_scheme \<Rightarrow> ('d, 'a) io_state_scheme res" where
  "ata_write_bytes P buf off len s =
     (let off_lba = off div SECTOR_SIZE;
          nsectors = (len + SECTOR_SIZE - 1) div SECTOR_SIZE
      in rbind (kmalloc (ucast (nsectors * SECTOR_SIZE)) s) (\<lambda>(readbuf, s).
         if buf = 0 then Inl (Panic ''out of memory'')
         else rbind (ata_write P readbuf off_lba (ucast nsectors) s) (\<lambda>s.
           let s = s\<lparr>mem := memcpy (mem s) buf readbuf (ucast len)\<rparr>
           in Inr (free readbuf s))))"

section \<open>The drive\<close>

text \<open>
  What a drive looks like from outside: the bytes it stores, its task-file registers, the words the
  data register will deliver, and how many more reads of the status register report it busy.
\<close>

record ata_view =
  disk :: memory
  reg_count :: u8
  reg_number :: u8
  reg_cyl_low :: u8
  reg_cyl_high :: u8
  reg_head :: u8
  pending :: "u16 list"
  delay :: nat

definition reg_lba :: "ata_view \<Rightarrow> u32" where
  "reg_lba v = push_bit 24 (ucast (reg_head v) AND 0xF) OR push_bit 16 (ucast (reg_cyl_high v))
     OR push_bit 8 (ucast (reg_cyl_low v)) OR ucast (reg_number v)"

text \<open>The words of \<open>n\<close> sectors, from the sector with number \<open>lba\<close> on.\<close>

definition sector_words :: "memory \<Rightarrow> u32 \<Rightarrow> nat \<Rightarrow> u16 list" where
  "sector_words dk lba n = map (\<lambda>i. ld16 dk (ucast lba * 512 + of_nat (2 * i))) [0..<256 * n]"

text \<open>
  The status register says ready exactly when the drive is not busy, and being busy ends after
  finitely many reads. The registers keep what is written to them. The read command makes the words
  of the selected sectors available; the drive may be busy again before each sector, and after the
  last one.
\<close>

definition ata_drive :: "'d ports \<Rightarrow> ('d \<Rightarrow> ata_view) \<Rightarrow> bool" where
  "ata_drive P v \<longleftrightarrow>
     (\<forall>d b d'. inb P 0x1F7 d = (b, d') \<longrightarrow>
        (b AND 0x40 \<noteq> 0 \<and> b AND 0x80 = 0 \<longleftrightarrow> delay (v d) = 0) \<and> v d' = (v d)\<lparr>delay := delay (v d) - 1\<rparr>)
   \<and> (\<forall>d x. v (outb P 0x1F2 x d) = (v d)\<lparr>reg_count := x\<rparr>)
   \<and> (\<forall>d x. v (outb P 0x1F3 x d) = (v d)\<lparr>reg_number := x\<rparr>)
   \<and> (\<forall>d x. v (outb P 0x1F4 x d) = (v d)\<lparr>reg_cyl_low := x\<rparr>)
   \<and> (\<forall>d x. v (outb P 0x1F5 x d) = (v d)\<lparr>reg_cyl_high := x\<rparr>)
   \<and> (\<forall>d x. v (outb P 0x1F6 x d) = (v d)\<lparr>reg_head := x\<rparr>)
   \<and> (\<forall>d. reg_count (v d) \<noteq> 0 \<longrightarrow> (\<exists>t. v (outb P 0x1F7 0x20 d) =
        (v d)\<lparr>pending := sector_words (disk (v d)) (reg_lba (v d)) (unat (reg_count (v d))), delay := t\<rparr>))
   \<and> (\<forall>d w ws. delay (v d) = 0 \<and> pending (v d) = w # ws \<longrightarrow>
        fst (inw P 0x1F0 d) = w
        \<and> (\<exists>t. v (snd (inw P 0x1F0 d)) = (v d)\<lparr>pending := ws, delay := t\<rparr> \<and> (length ws mod 256 \<noteq> 0 \<longrightarrow> t = 0)))"

lemma ata_drive_status:
  assumes "ata_drive P v"
  shows "\<exists>d'. wait_ready P d = Some d' \<and> v d' = (v d)\<lparr>delay := 0\<rparr>"
proof (induction "delay (v d)" arbitrary: d rule: less_induct)
  case less
  obtain b d1 where r: "inb P 0x1F7 d = (b, d1)" by (cases "inb P 0x1F7 d")
  have b: "b AND 0x40 \<noteq> 0 \<and> b AND 0x80 = 0 \<longleftrightarrow> delay (v d) = 0" and d1: "v d1 = (v d)\<lparr>delay := delay (v d) - 1\<rparr>"
    using assms r unfolding ata_drive_def by blast+
  have w: "wait_ready P d = (if delay (v d) = 0 then Some d1 else wait_ready P d1)"
    unfolding b [symmetric] by (subst wait_ready.simps)
      (simp add: ATA_STATUS_COMMAND_REG_def r STATUS_RDY_def STATUS_BSY_def)
  show ?case
  proof (cases "delay (v d) = 0")
    case True
    then show ?thesis using w d1 by simp
  next
    case False
    then have "delay (v d1) < delay (v d)" using d1 by simp
    from less [OF this] obtain d' where "wait_ready P d1 = Some d'" "v d' = (v d1)\<lparr>delay := 0\<rparr>" by blast
    then show ?thesis using w d1 False by simp
  qed
qed

lemma ata_drive_data:
  assumes "ata_drive P v" "delay (v d) = 0" "pending (v d) = w # ws"
  obtains t where "fst (inw P 0x1F0 d) = w" "v (snd (inw P 0x1F0 d)) = (v d)\<lparr>pending := ws, delay := t\<rparr>"
    "length ws mod 256 \<noteq> 0 \<longrightarrow> t = 0"
  using assms unfolding ata_drive_def by blast

lemma ata_drive_command:
  assumes "ata_drive P v" "reg_count (v d) \<noteq> 0"
  obtains t where "v (outb P 0x1F7 0x20 d) =
    (v d)\<lparr>pending := sector_words (disk (v d)) (reg_lba (v d)) (unat (reg_count (v d))), delay := t\<rparr>"
  using assms unfolding ata_drive_def by blast

section \<open>Reading\<close>

text \<open>\<open>blit m a dk b n\<close>: memory \<open>m\<close> with \<open>n\<close> bytes of \<open>dk\<close>, from \<open>b\<close> on, copied to \<open>a\<close>.\<close>

definition blit :: "memory \<Rightarrow> u64 \<Rightarrow> memory \<Rightarrow> u64 \<Rightarrow> nat \<Rightarrow> memory" where
  "blit m a dk b n = (\<lambda>x. if unat (x - a) < n then dk (b + (x - a)) else m x)"

lemma blit_0 [simp]: "blit m a dk b 0 = m"
  by (simp add: blit_def)

lemma blit_in: "x \<in> rng a n \<Longrightarrow> blit m a dk b n x = dk (b + (x - a))"
  by (simp add: blit_def)

lemma blit_out: "x \<notin> rng a n \<Longrightarrow> blit m a dk b n x = m x"
  by (simp add: blit_def)

lemma unat_sub_shift:
  fixes x a :: u64
  assumes "unat (x - a) \<ge> unat k"
  shows "unat (x - (a + k)) = unat (x - a) - unat k"
  using assms by (simp add: unat_sub_le [symmetric] algebra_simps)

lemma unat_sub_shift_wrap:
  fixes x a :: u64
  assumes "unat (x - a) < unat k"
  shows "unat (x - (a + k)) = 2 ^ 64 + unat (x - a) - unat k"
proof -
  have "x - (a + k) = (x - a) - k" by (simp add: algebra_simps)
  moreover have "unat ((x - a) - k) = 2 ^ 64 + unat (x - a) - unat k"
    using assms by (subst unat_sub_if') simp
  ultimately show ?thesis by (simp only:)
qed

lemma blit_append:
  assumes "unat k + n \<le> 2 ^ 64"
  shows "blit (blit m a dk b (unat k)) (a + k) dk (b + k) n = blit m a dk b (unat k + n)"
proof (rule ext)
  fix x
  show "blit (blit m a dk b (unat k)) (a + k) dk (b + k) n x = blit m a dk b (unat k + n) x"
  proof (cases "unat (x - a) < unat k")
    case True
    then have "\<not> unat (x - (a + k)) < n" using unat_sub_shift_wrap [OF True] assms by linarith
    with True show ?thesis by (simp add: blit_def)
  next
    case False
    then show ?thesis using unat_sub_shift [of k x a] by (auto simp: blit_def algebra_simps)
  qed
qed

lemma blit_step:
  assumes "k + n \<le> 2 ^ 64" "k < 2 ^ 64"
  shows "blit (blit m a dk b k) (a + of_nat k) dk (b + of_nat k) n = blit m a dk b (k + n)"
proof -
  have "unat (of_nat k :: u64) = k" using assms(2) by (rule unat_of_nat_u64)
  with blit_append [of "of_nat k" n m a dk b] assms(1) show ?thesis by simp
qed

lemma st16_ld16: "st16 m a (ld16 dk b) = blit m a dk b 2"
proof -
  have w: "ucast (ld16 dk b) = dk b" "ucast (drop_bit 8 (ld16 dk b)) = dk (b + 1)"
    by (rule bit_word_eqI; auto simp: ld16_def numeral_2_eq_2 bit_simps dest: bit_imp_le_length)+
  have "unat (x - a) < 2 \<longleftrightarrow> x = a \<or> x = a + 1" for x
  proof -
    have "unat (x - a) < 2 \<longleftrightarrow> x - a = 0 \<or> x - a = 1"
      by (metis One_nat_def less_2_cases_iff unat_0 unat_1 unsigned_word_eqI)
    then show ?thesis by (auto simp: algebra_simps)
  qed
  then show ?thesis using w by (auto simp: st16_def numeral_2_eq_2 blit_def fun_eq_iff)
qed

definition words_at :: "memory \<Rightarrow> u64 \<Rightarrow> nat \<Rightarrow> nat \<Rightarrow> u16 list" where
  "words_at dk b i n = map (\<lambda>k. ld16 dk (b + of_nat (2 * k))) [i..<i + n]"

lemma words_at_Suc: "words_at dk b i (Suc n) = ld16 dk (b + of_nat (2 * i)) # words_at dk b (Suc i) n"
  by (simp add: words_at_def upt_conv_Cons del: upt_Suc)

lemma words_at_append: "words_at dk b i (n + k) = words_at dk b i n @ words_at dk b (i + n) k"
  using upt_add_eq_append [of i "i + n" k] by (simp add: words_at_def add.assoc [symmetric])

lemma length_words_at [simp]: "length (words_at dk b i n) = n"
  by (simp add: words_at_def)

lemma read_words_blit:
  assumes drive: "ata_drive P v"
  shows "delay (v d) = 0 \<or> n = 0 \<Longrightarrow> pending (v d) = words_at dk b i n @ rest \<Longrightarrow> n \<le> 256 \<Longrightarrow> length rest mod 256 = 0
    \<Longrightarrow> \<exists>d' t. read_words P buf i n (m, d) = (blit m (buf + of_nat (2 * i)) dk (b + of_nat (2 * i)) (2 * n), d')
        \<and> v d' = (v d)\<lparr>pending := rest, delay := t\<rparr>"
proof (induction n arbitrary: i m d)
  case 0
  then show ?case by (intro exI [of _ d] exI [of _ "delay (v d)"]) (simp add: words_at_def)
next
  case (Suc n)
  let ?a = "buf + of_nat (2 * i)" and ?c = "b + of_nat (2 * i)" and ?ws = "words_at dk b (Suc i) n @ rest"
  have pend: "pending (v d) = ld16 dk ?c # ?ws" using Suc.prems(2) by (simp add: words_at_Suc)
  have dly0: "delay (v d) = 0" using Suc.prems(1) by simp
  obtain t where t: "fst (inw P 0x1F0 d) = ld16 dk ?c"
    "v (snd (inw P 0x1F0 d)) = (v d)\<lparr>pending := ?ws, delay := t\<rparr>" "length ?ws mod 256 \<noteq> 0 \<longrightarrow> t = 0"
    by (rule ata_drive_data [OF drive dly0 pend])
  let ?d = "snd (inw P 0x1F0 d)"
  have "length ?ws mod 256 = n" using Suc.prems(3,4) by (simp add: mod_add_eq [symmetric, of n])
  then have dly: "delay (v ?d) = 0 \<or> n = 0" using t by auto
  have step: "read_words P buf i (Suc n) (m, d) = read_words P buf (Suc i) n (blit m ?a dk ?c 2, ?d)"
    using t(1) by (simp add: ATA_DATA_REG_def st16_ld16 [symmetric] split_beta)
  obtain d' t' where d': "read_words P buf (Suc i) n (blit m ?a dk ?c 2, ?d)
       = (blit (blit m ?a dk ?c 2) (buf + of_nat (2 * Suc i)) dk (b + of_nat (2 * Suc i)) (2 * n), d')"
     "v d' = (v ?d)\<lparr>pending := rest, delay := t'\<rparr>"
    using Suc.IH [of ?d "Suc i" "blit m ?a dk ?c 2", OF dly] t(2) Suc.prems(3,4) by auto
  have "blit (blit m ?a dk ?c 2) (?a + of_nat 2) dk (?c + of_nat 2) (2 * n) = blit m ?a dk ?c (2 + 2 * n)"
    using Suc.prems(3) by (intro blit_step) simp_all
  then have "blit (blit m ?a dk ?c 2) (buf + of_nat (2 * Suc i)) dk (b + of_nat (2 * Suc i)) (2 * n) = blit m ?a dk ?c (2 * Suc n)"
    by (simp add: algebra_simps)
  then show ?case using step d' t(2) by auto
qed

lemma read_sectors_blit:
  assumes drive: "ata_drive P v"
  shows "pending (v d) = words_at dk b (256 * j) (256 * n) \<Longrightarrow> 512 * n < 2 ^ 64
    \<Longrightarrow> \<exists>d' t. read_sectors P buf j n (m, d)
          = Some (blit m (buf + of_nat (512 * j)) dk (b + of_nat (512 * j)) (512 * n), d')
        \<and> v d' = (v d)\<lparr>pending := [], delay := t\<rparr>"
proof (induction n arbitrary: j m d)
  case 0
  then show ?case by (intro exI [of _ d] exI [of _ "delay (v d)"]) (simp add: words_at_def)
next
  case (Suc n)
  let ?a = "buf + of_nat (512 * j)" and ?c = "b + of_nat (512 * j)"
  obtain d1 where d1: "wait_ready P d = Some d1" "v d1 = (v d)\<lparr>delay := 0\<rparr>"
    using ata_drive_status [OF drive] by blast
  have pend: "pending (v d1) = words_at dk b (j * 256) 256 @ words_at dk b (256 * Suc j) (256 * n)"
    using Suc.prems(1) d1(2) words_at_append [of dk b "256 * j" 256 "256 * n"] by (simp add: algebra_simps)
  obtain d2 t2 where d2: "read_words P buf (j * 256) 256 (m, d1) = (blit m ?a dk ?c 512, d2)"
     "v d2 = (v d1)\<lparr>pending := words_at dk b (256 * Suc j) (256 * n), delay := t2\<rparr>"
    using read_words_blit [OF drive _ pend, of buf m] d1(2) by (auto simp: algebra_simps)
  obtain d' t where d': "read_sectors P buf (Suc j) n (blit m ?a dk ?c 512, d2)
       = Some (blit (blit m ?a dk ?c 512) (buf + of_nat (512 * Suc j)) dk (b + of_nat (512 * Suc j)) (512 * n), d')"
     "v d' = (v d2)\<lparr>pending := [], delay := t\<rparr>"
    using Suc.IH [of d2 "Suc j" "blit m ?a dk ?c 512"] d2(2) Suc.prems(2) by auto
  have "blit (blit m ?a dk ?c 512) (?a + of_nat 512) dk (?c + of_nat 512) (512 * n) = blit m ?a dk ?c (512 + 512 * n)"
    using Suc.prems(2) by (intro blit_step) simp_all
  then have "blit (blit m ?a dk ?c 512) (buf + of_nat (512 * Suc j)) dk (b + of_nat (512 * Suc j)) (512 * n)
      = blit m ?a dk ?c (512 * Suc n)"
    by (simp add: algebra_simps)
  then show ?case using d1 d2 d' by auto
qed

lemma byte_of_word: "ucast (ucast x :: u8) = take_bit 8 (x :: u32)"
  by (rule bit_word_eqI) (auto simp: bit_simps)

lemma low_byte: "x AND 0xFF = take_bit 8 (x :: u32)" "x AND 0xF = take_bit 4 (x :: u32)"
  by (simp_all add: take_bit_eq_mask mask_eq_exp_minus_1)

lemma low_nibble_of_head: "take_bit 4 (take_bit 8 (0xE0 OR x)) = take_bit 4 (x :: u32)"
proof -
  have "(0xE0 :: u32) = push_bit 5 7" by simp
  then show ?thesis by (simp only:) (rule bit_word_eqI, auto simp: bit_simps)
qed

lemma word_of_bytes:
  fixes x :: u32
  shows "push_bit 24 (take_bit 4 (drop_bit 24 x)) OR push_bit 16 (take_bit 8 (drop_bit 16 x))
      OR push_bit 8 (take_bit 8 (drop_bit 8 x)) OR take_bit 8 x = take_bit 28 x"
  (is "?l = _")
proof (rule bit_word_eqI)
  fix n
  have "bit ?l n \<longleftrightarrow> (24 \<le> n \<and> n < 28 \<or> 16 \<le> n \<and> n < 24 \<or> 8 \<le> n \<and> n < 16 \<or> n < 8) \<and> bit x n"
    by (auto simp: bit_or_iff bit_push_bit_iff bit_take_bit_iff bit_drop_bit_eq dest: bit_imp_le_length)
  also have "\<dots> \<longleftrightarrow> bit (take_bit 28 x) n" by (auto simp: bit_take_bit_iff)
  finally show "bit ?l n \<longleftrightarrow> bit (take_bit 28 x) n" .
qed

lemma reg_lba_loaded:
  assumes "unat lba < 2 ^ 28"
  shows "push_bit 24 (ucast (ucast (0xE0 OR (drop_bit 24 lba AND 0xFF)) :: u8) AND 0xF)
      OR push_bit 16 (ucast (ucast (drop_bit 16 lba AND 0xFF) :: u8))
      OR push_bit 8 (ucast (ucast (drop_bit 8 lba AND 0xFF) :: u8)) OR ucast (ucast (lba AND 0xFF) :: u8) = (lba :: u32)"
proof -
  have "take_bit 28 lba = lba"
    using less_mask_eq [of lba 28] assms by (simp add: word_less_nat_alt flip: take_bit_eq_mask)
  with word_of_bytes [of lba] show ?thesis
    by (simp only: byte_of_word low_byte low_nibble_of_head take_bit_take_bit) simp
qed

lemma ata_read_blit:
  fixes s :: "('d, 'a) io_state_scheme"
  assumes drive: "ata_drive P v" and lba: "unat lba < 2 ^ 28" and n: "n \<noteq> 0"
  shows "\<exists>d'. ata_read P buf lba n s
      = Inr (s\<lparr>mem := blit (mem s) buf (disk (v (dev s))) (ucast lba * 512) (512 * unat n), dev := d'\<rparr>)
    \<and> disk (v d') = disk (v (dev s))"
proof -
  obtain d1 where d1: "wait_ready P (dev s) = Some d1" "v d1 = (v (dev s))\<lparr>delay := 0\<rparr>"
    using ata_drive_status [OF drive] by blast
  define d2 where "d2 = load_lba_nsectors P lba n d1"
  have regs: "\<And>d x. v (outb P 0x1F2 x d) = (v d)\<lparr>reg_count := x\<rparr>" "\<And>d x. v (outb P 0x1F3 x d) = (v d)\<lparr>reg_number := x\<rparr>"
    "\<And>d x. v (outb P 0x1F4 x d) = (v d)\<lparr>reg_cyl_low := x\<rparr>" "\<And>d x. v (outb P 0x1F5 x d) = (v d)\<lparr>reg_cyl_high := x\<rparr>"
    "\<And>d x. v (outb P 0x1F6 x d) = (v d)\<lparr>reg_head := x\<rparr>"
    using drive unfolding ata_drive_def by blast+
  have d2: "disk (v d2) = disk (v (dev s))" "reg_count (v d2) = n" "reg_lba (v d2) = lba"
    using d1(2) reg_lba_loaded [OF lba]
    by (simp_all add: d2_def load_lba_nsectors_def Let_def regs reg_lba_def ATA_DRIVE_HEAD_REG_def
        ATA_SECTOR_COUNT_REG_def ATA_SECTOR_NUMBER_REG_def ATA_CYLINDER_LOW_REG_def ATA_CYLINDER_HIGH_REG_def)
  define d3 where "d3 = outb P 0x1F7 0x20 d2"
  obtain t where d3: "v d3 = (v d2)\<lparr>pending := sector_words (disk (v d2)) (reg_lba (v d2)) (unat (reg_count (v d2))), delay := t\<rparr>"
    using ata_drive_command [OF drive, of d2] n d2(2) unfolding d3_def by blast
  have pend: "pending (v d3) = words_at (disk (v (dev s))) (ucast lba * 512) (256 * 0) (256 * unat n)"
    unfolding d3 by (simp add: d2 sector_words_def words_at_def)
  have "unat n < 256" using unsigned_less [of n, where 'a = nat] by simp
  with read_sectors_blit [OF drive pend, of buf "mem s"] obtain d' t where "read_sectors P buf 0 (unat n) (mem s, d3)
      = Some (blit (mem s) buf (disk (v (dev s))) (ucast lba * 512) (512 * unat n), d')"
    "v d' = (v d3)\<lparr>pending := [], delay := t\<rparr>" by auto
  moreover have "disk (v d3) = disk (v (dev s))" using d3 d2(1) by simp
  ultimately show ?thesis using d1(1)
    by (intro exI [of _ d']) (simp add: ata_read_def d2_def [symmetric] Let_def d3_def ATA_STATUS_COMMAND_REG_def COMMAND_READ_def)
qed

lemma u32_div_mod_512:
  shows "unat (off div SECTOR_SIZE) = unat off div 512" and "unat (off mod SECTOR_SIZE) = unat off mod 512"
  by (simp_all add: SECTOR_SIZE_def unat_div unat_mod)

lemma unat_u32_u64 [simp]: "unat (ucast (x :: u32) :: u64) = unat x"
  using unsigned_less [of x, where 'a = nat] by (simp add: unsigned_ucast_eq take_bit_nat_eq_self)

lemma sector_base: "ucast (off div SECTOR_SIZE) * 512 + ucast (off mod SECTOR_SIZE) = (ucast off :: u64)"
proof -
  let ?q = "ucast (off div SECTOR_SIZE) * 512 :: u64" and ?r = "ucast (off mod SECTOR_SIZE) :: u64"
  have off: "unat off < 2 ^ 32" using unsigned_less [of off, where 'a = nat] by simp
  have q: "unat ?q = unat off div 512 * 512"
    using off by (simp add: unat_word_ariths(2) u32_div_mod_512 div_less_dividend)
  have r: "unat ?r = unat off mod 512" by (simp add: u32_div_mod_512)
  have "unat (?q + ?r) = unat ?q + unat ?r"
    using off q r by (intro unat_add_nowrap) (simp add: div_mult_mod_eq)
  also have "\<dots> = unat off" unfolding q r by (rule div_mult_mod_eq)
  finally have "unat (?q + ?r) = unat (ucast off :: u64)" by simp
  then show ?thesis by (simp only: word_unat_eq_iff)
qed

lemma sectors_for:
  fixes len :: u32
  assumes "0 < unat len" "unat len \<le> 255 * 512"
  defines "n \<equiv> (len + SECTOR_SIZE - 1) div SECTOR_SIZE"
  shows "unat n = (unat len + 511) div 512" and "unat (ucast n :: u8) = unat n" and "0 < unat n"
    and "unat (ucast (n * SECTOR_SIZE) :: u64) = 512 * unat n" and "unat len \<le> 512 * unat n"
proof -
  have eq: "len + SECTOR_SIZE - 1 = len + 511" by (simp add: SECTOR_SIZE_def)
  have "unat (len + 511) = unat len + 511" using assms(2) by (subst unat_add_nowrap) simp_all
  then show n: "unat n = (unat len + 511) div 512"
    unfolding n_def eq by (simp add: SECTOR_SIZE_def unat_div)
  then have b: "unat n < 256" "0 < unat n" "unat len \<le> 512 * unat n" using assms(1,2) by linarith+
  then show "0 < unat n" "unat len \<le> 512 * unat n" by simp_all
  show "unat (ucast n :: u8) = unat n" using b(1) by (simp add: unsigned_ucast_eq take_bit_nat_eq_self)
  have "unat (n * SECTOR_SIZE) = unat n * 512"
    using b(1) by (simp add: SECTOR_SIZE_def unat_word_ariths)
  then show "unat (ucast (n * SECTOR_SIZE) :: u64) = 512 * unat n" by simp
qed

lemma heap_dev [simp]:
  "heap_inv (s\<lparr>dev := d\<rparr>) bs \<longleftrightarrow> heap_inv s bs" "heap_ok (s\<lparr>dev := d\<rparr>) \<longleftrightarrow> heap_ok s"
  "heap_objects (s\<lparr>dev := d\<rparr>) = heap_objects s" "room (s\<lparr>dev := d\<rparr>) A \<longleftrightarrow> room s A"
  by (simp_all add: heap_ok_def heap_objects_def room_def heap_inv_def)

lemma dev_mem: "s\<lparr>dev := d, mem := m\<rparr> = s\<lparr>mem := m, dev := d\<rparr>"
  by (cases s) simp

lemma free_dev [simp]: "free p (s\<lparr>dev := d\<rparr>) = (free p s)\<lparr>dev := d\<rparr>"
  by (simp add: free_def Let_def split_beta)

lemma ata_read_bytes_spec:
  fixes s :: "('d, 'a) io_state_scheme"
  assumes drive: "ata_drive P v" and heap: "heap_ok s" and buf: "room s (rng buf (unat len))" "buf \<noteq> 0"
    and len: "0 < unat len" "unat len \<le> 255 * 512" and fit: "unat off mod 512 + unat len \<le> 512 * ((unat len + 511) div 512)"
  shows "ata_read_bytes P buf off len s = Inl (Panic ''kernel heap exhausted'')
    \<or> (\<exists>s'. ata_read_bytes P buf off len s = Inr s' \<and> heap_ok s' \<and> heap_objects s' = heap_objects s
        \<and> disk (v (dev s')) = disk (v (dev s))
        \<and> (\<forall>i < unat len. mem s' (buf + of_nat i) = disk (v (dev s)) (ucast off + of_nat i))
        \<and> (\<forall>A x. room s A \<longrightarrow> x \<in> A \<longrightarrow> x \<notin> rng buf (unat len) \<longrightarrow> mem s' x = mem s x))"
proof -
  define n where "n = (len + SECTOR_SIZE - 1) div SECTOR_SIZE"
  define sz :: u64 where "sz = ucast (n * SECTOR_SIZE)"
  note sec = sectors_for [OF len, folded n_def, folded sz_def]
  have sz: "0 < unat sz" "unat sz \<le> 2 ^ 32" using sec len(2) by simp_all
  show ?thesis
  proof (cases "kmalloc sz s")
    case (Inl e)
    with kmalloc_total [OF heap sz] have "e = Panic ''kernel heap exhausted''" by auto
    with Inl show ?thesis by (simp add: ata_read_bytes_def Let_def n_def [symmetric] sz_def [symmetric])
  next
    case (Inr r)
    then obtain p s1 where call: "kmalloc sz s = Inr (p, s1)" by (cases r) auto
    define dk where "dk = disk (v (dev s))"
    define so :: u64 where "so = ucast (off mod SECTOR_SIZE)"
    define b :: u64 where "b = ucast (off div SECTOR_SIZE) * 512"
    have dev: "dev s1 = dev s" by (subst kmalloc_fields [OF call]) simp
    have lba: "unat (off div SECTOR_SIZE) < 2 ^ 28"
      using unsigned_less [of off, where 'a = nat] by (simp add: u32_div_mod_512)
    have n8: "(ucast n :: u8) \<noteq> 0" using sec(2,3) by auto
    obtain d' where rd: "ata_read P p (off div SECTOR_SIZE) (ucast n) s1 = Inr (s1\<lparr>mem := blit (mem s1) p dk b (unat sz), dev := d'\<rparr>)"
      and d': "disk (v d') = dk"
      using ata_read_blit [OF drive lba n8, of p s1] unfolding dev dk_def [symmetric] b_def [symmetric] sec(2,4) by blast
    define m1 where "m1 = blit (mem s1) p dk b (unat sz)"
    define m2 where "m2 = memcpy m1 buf (p + so) (ucast len)"
    let ?A = "rng buf (unat len)"
    have ul: "unat (ucast len :: u64) = unat len" by (rule unat_u32_u64)
    have so: "unat so = unat off mod 512"
      unfolding so_def by (simp add: u32_div_mod_512)
    have src: "p + so + of_nat i \<in> rng p (unat sz) \<and> p + so + of_nat i - p = so + of_nat i" if "i < unat len" for i
    proof -
      have "unat (of_nat i :: u64) = i" using that len(2) by (intro unat_of_nat_u64) simp
      then have "unat (so + of_nat i) = unat off mod 512 + i"
        using so that fit len(2) by (subst unat_add_nowrap) simp_all
      then show ?thesis using that fit sec(1,4) by simp
    qed
    have disj: "?A \<inter> rng p (unat sz) = {}" by (rule kmalloc_room(4) [OF heap sz call buf(1)])
    have sub: "rng (p + so) (unat len) \<subseteq> rng p (unat sz)"
    proof
      fix x assume "x \<in> rng (p + so) (unat len)"
      then show "x \<in> rng p (unat sz)" using src [of "unat (x - (p + so))"] by (simp add: algebra_simps)
    qed
    have m2: "m2 = (\<lambda>a. if a - buf < ucast len then m1 (p + so + (a - buf)) else m1 a)"
      unfolding m2_def by (rule memcpy_eq) (use disj sub ul in auto)
    have w: "\<forall>x. x \<notin> rng p (unat sz) \<union> ?A \<longrightarrow> m2 x = mem s1 x"
      using ul by (simp add: m2 m1_def blit_out word_less_nat_alt)
    note tmp = temporary_object [OF heap sz call buf(1) w]
    define s' where "s' = (free p (s1\<lparr>mem := m2\<rparr>))\<lparr>dev := d'\<rparr>"
    have "ata_read_bytes P buf off len s = Inr s'"
      using buf(2) call rd
      by (simp add: ata_read_bytes_def Let_def n_def [symmetric] sz_def [symmetric] so_def [symmetric] s'_def m2_def m1_def
dev_mem)
    moreover have "mem s' (buf + of_nat i) = dk (ucast off + of_nat i)" if i: "i < unat len" for i
    proof -
      have ui: "unat (of_nat i :: u64) = i" using i len(2) by (intro unat_of_nat_u64) simp
      have "buf + of_nat i \<in> ?A" using i ui by simp
      then have "mem s' (buf + of_nat i) = m2 (buf + of_nat i)" unfolding s'_def using tmp(4) by simp
      also have "\<dots> = m1 (p + so + of_nat i)" using i ui ul by (simp add: m2 word_less_nat_alt)
      also have "\<dots> = dk (b + (so + of_nat i))" unfolding m1_def using src [OF i] blit_in by metis
      finally show ?thesis using sector_base [of off] by (simp add: b_def so_def add.assoc [symmetric])
    qed
    moreover have "heap_ok s'" "heap_objects s' = heap_objects s" "disk (v (dev s')) = dk"
      using tmp(1,2) d' by (simp_all add: s'_def)
    moreover have "mem s' x = mem s x" if "room s A" "x \<in> A" "x \<notin> ?A" for A x
      using tmp(3) [OF that] by (simp add: s'_def)
    ultimately show ?thesis unfolding dk_def by blast
  qed
qed

section \<open>Properties\<close>


text \<open>A drive that stays busy for one read of the status register before every sector.\<close>

definition sample_ports :: "ata_view ports" where
  "sample_ports = \<lparr>
     inb = (\<lambda>p d. (if delay d = 0 then 0x40 else 0x80, d\<lparr>delay := delay d - 1\<rparr>)),
     outb = (\<lambda>p x d.
       if p = 0x1F2 then d\<lparr>reg_count := x\<rparr> else if p = 0x1F3 then d\<lparr>reg_number := x\<rparr>
       else if p = 0x1F4 then d\<lparr>reg_cyl_low := x\<rparr> else if p = 0x1F5 then d\<lparr>reg_cyl_high := x\<rparr>
       else if p = 0x1F6 then d\<lparr>reg_head := x\<rparr>
       else d\<lparr>pending := sector_words (disk d) (reg_lba d) (unat (reg_count d)), delay := 1\<rparr>),
     inw = (\<lambda>p d. case pending d of [] \<Rightarrow> (0, d)
       | w # ws \<Rightarrow> (w, d\<lparr>pending := ws, delay := if length ws mod 256 = 0 then 1 else 0\<rparr>)),
     outw = (\<lambda>p w d. d)\<rparr>"

definition sample_drive :: ata_view where
  "sample_drive = \<lparr>disk = ucast, reg_count = 0, reg_number = 0, reg_cyl_low = 0, reg_cyl_high = 0,
     reg_head = 0, pending = [], delay = 0\<rparr>"

definition sample_io_boot :: "ata_view io_state" where
  "sample_io_boot = \<lparr>mem = (\<lambda>_. 0), n_regions = 0, regions = [], kernel_brk = KERNEL_BRK_START, heap_base = 0,
     statics = sample_statics, mms = (\<lambda>_. zero_mm), vmas = (\<lambda>_. zero_vma), dev = sample_drive\<rparr>"

definition sample_io :: "ata_view io_state" where
  "sample_io = projr (kmalloc_init sample_io_boot)"

lemma sample_ports_drive: "ata_drive sample_ports (\<lambda>d. d)"
  unfolding ata_drive_def
  by (intro conjI allI impI) (auto simp: sample_ports_def split: if_splits)

lemma sample_io_facts: "heap_inv sample_io sample_blocks" "heap_ok sample_io" "dev sample_io = sample_drive"
proof -
  have brk: "kernel_brk sample_io_boot = KERNEL_BRK_START" by (simp add: sample_io_boot_def)
  note hi = init_heap_state [OF brk, folded sample_io_def]
  show "heap_inv sample_io sample_blocks" by (rule hi(1))
  then show "heap_ok sample_io" by (auto simp: heap_ok_def)
  have "\<exists>b h m. sample_io_boot\<lparr>kernel_brk := b, heap_base := h, mem := m\<rparr> = sample_io"
    using hi(3) brk by (auto simp: kmalloc_init_def sbrk_def Let_def rbind_eq_Inr split: if_splits)
  then obtain b h m where k: "sample_io = sample_io_boot\<lparr>kernel_brk := b, heap_base := h, mem := m\<rparr>" by metis
  show "dev sample_io = sample_drive" unfolding k by (simp add: sample_io_boot_def)
qed

lemma static_room: "unat a \<ge> 0xffffffff80000000 \<Longrightarrow> unat a + n \<le> 2 ^ 64 \<Longrightarrow> room s (rng a n)"
  unfolding room_def
  by (auto simp del: in_rng simp: in_rng_nat heap_span_def BRK_LIMIT_def KERNEL_BRK_START_def KERNEL_BRK_PAGES_def
      word_less_nat_alt)


end
