(* ===== verification/Layout.thy ===== *)
theory Layout
  imports Memory
begin

text \<open>
  Structures in memory, described the way the headers declare them: the list of the fields in order
  with their sizes. Padding the compiler inserts is a field of its own. A field is read and written
  at the offset that the sizes before it add up to.
\<close>

type_synonym layout = "(string \<times> nat) list"

definition sizeof :: "layout \<Rightarrow> nat" where
  "sizeof l = sum_list (map snd l)"

fun offset_of :: "layout \<Rightarrow> string \<Rightarrow> nat" where
  "offset_of [] f = 0"
| "offset_of ((g, n) # l) f = (if g = f then 0 else n + offset_of l f)"

definition fld :: "layout \<Rightarrow> string \<Rightarrow> u64 \<Rightarrow> u64" where
  "fld l f a = a + of_nat (offset_of l f)"

lemma offset_of_in:
  assumes "(f, n) \<in> set l" "distinct (map fst l)"
  shows "offset_of l f + n \<le> sizeof l"
  using assms
proof (induction l)
  case (Cons x l)
  then show ?case by (cases x) (force simp: sizeof_def)
qed simp

text \<open>Different fields of one structure do not overlap.\<close>

lemma fields_apart:
  assumes "(f, n) \<in> set l" "(g, k) \<in> set l" "f \<noteq> g" "distinct (map fst l)" "sizeof l \<le> 2 ^ 64"
  shows "rng (fld l f a) n \<inter> rng (fld l g a) k = {}"
proof -
  have ord: "offset_of l f + n \<le> offset_of l g \<or> offset_of l g + k \<le> offset_of l f"
    using assms(1-4)
  proof (induction l)
    case (Cons x l)
    then show ?case by (cases x) force
  qed simp
  have in_rng: "x \<in> rng (fld l f a) n \<longleftrightarrow> offset_of l f \<le> unat (x - a) \<and> unat (x - a) < offset_of l f + n"
    if m: "(f, n) \<in> set l" for f n x
  proof -
    have le: "offset_of l f + n \<le> 2 ^ 64" using offset_of_in [OF m assms(4)] assms(5) by simp
    show ?thesis
    proof (cases "n = 0")
      case False
      then have u: "unat (of_nat (offset_of l f) :: u64) = offset_of l f" using le by (intro unat_of_nat_u64) simp
      have "x \<in> rng (fld l f a) n \<longleftrightarrow> x - a \<in> rng (of_nat (offset_of l f)) n"
        by (simp add: fld_def algebra_simps)
      also have "\<dots> \<longleftrightarrow> offset_of l f \<le> unat (x - a) \<and> unat (x - a) < offset_of l f + n"
        using in_rng_nat [of "of_nat (offset_of l f)" n "x - a"] u le by simp
      finally show ?thesis .
    qed simp
  qed
  show ?thesis using ord in_rng [OF assms(1)] in_rng [OF assms(2)] by (auto simp del: Memory.in_rng)
qed

text \<open>Loads and stores byte by byte, for evaluation at given addresses.\<close>

lemma nat_4_8: "(4 :: nat) = Suc (Suc (Suc (Suc 0)))" "(8 :: nat) = Suc (Suc (Suc (Suc (Suc (Suc (Suc (Suc 0)))))))"
  by simp_all

lemma ld16_bytes: "ld16 m a = ucast (m a) OR push_bit 8 (ucast (m (a + 1)))"
  by (simp add: ld16_def numeral_2_eq_2)

lemma ld32_bytes:
  "ld32 m a = ucast (m a) OR push_bit 8 (ucast (m (a + 1)) OR push_bit 8 (ucast (m (a + 2)) OR push_bit 8 (ucast (m (a + 3)))))"
  by (subst ld32_def, subst nat_4_8(1)) (simp add: add.assoc)

lemma ld64_bytes:
  "ld64 m a = ucast (m a) OR push_bit 8 (ucast (m (a + 1)) OR push_bit 8 (ucast (m (a + 2)) OR push_bit 8 (ucast (m (a + 3))
     OR push_bit 8 (ucast (m (a + 4)) OR push_bit 8 (ucast (m (a + 5)) OR push_bit 8 (ucast (m (a + 6))
     OR push_bit 8 (ucast (m (a + 7)))))))))"
  by (subst ld64_def, subst nat_4_8(2)) (simp add: add.assoc)

lemma st16_bytes: "st16 m a v = m(a := ucast v, a + 1 := ucast (drop_bit 8 v))"
  by (simp add: st16_def numeral_2_eq_2)

lemma st32_bytes:
  "st32 m a v = m(a := ucast v, a + 1 := ucast (drop_bit 8 v), a + 2 := ucast (drop_bit 8 (drop_bit 8 v)),
     a + 3 := ucast (drop_bit 8 (drop_bit 8 (drop_bit 8 v))))"
  by (subst st32_def, subst nat_4_8(1)) (simp add: add.assoc)

lemma st64_bytes:
  "st64 m a v = m(a := ucast v, a + 1 := ucast (drop_bit 8 v), a + 2 := ucast (drop_bit 8 (drop_bit 8 v)),
     a + 3 := ucast (drop_bit 8 (drop_bit 8 (drop_bit 8 v))),
     a + 4 := ucast (drop_bit 8 (drop_bit 8 (drop_bit 8 (drop_bit 8 v)))),
     a + 5 := ucast (drop_bit 8 (drop_bit 8 (drop_bit 8 (drop_bit 8 (drop_bit 8 v))))),
     a + 6 := ucast (drop_bit 8 (drop_bit 8 (drop_bit 8 (drop_bit 8 (drop_bit 8 (drop_bit 8 v)))))),
     a + 7 := ucast (drop_bit 8 (drop_bit 8 (drop_bit 8 (drop_bit 8 (drop_bit 8 (drop_bit 8 (drop_bit 8 v))))))))"
  by (subst st64_def, subst nat_4_8(2)) (simp add: add.assoc)

lemmas load_store_bytes = ld16_bytes ld32_bytes ld64_bytes st16_bytes st32_bytes st64_bytes

end
