(* ===== verification/Ext2.thy ===== *)
theory Ext2
  imports Ata Layout
begin

text \<open>
  The ext2 file system (\<^verbatim>\<open>src/src/fs/ext2.c\<close>, \<^verbatim>\<open>src/src/include/ext2.h\<close>), read-only as in the code:
  mounting, finding an inode, mapping a block of a file to a block of the disk, reading a file,
  resolving a path and listing a directory. All structures live in memory; objects the code keeps on
  its stack have their address as an extra argument.
\<close>

section \<open>Structures\<close>

definition ext2_sb :: layout where
  "ext2_sb = [(''s_inodes_count'', 4), (''s_blocks_count'', 4), (''s_r_blocks_count'', 4), (''s_free_blocks_count'', 4),
     (''s_free_inodes_count'', 4), (''s_first_data_block'', 4), (''s_log_block_size'', 4), (''s_log_frag_size'', 4),
     (''s_blocks_per_group'', 4), (''s_frags_per_group'', 4), (''s_inodes_per_group'', 4), (''s_mtime'', 4),
     (''s_wtime'', 4), (''s_mnt_count'', 2), (''s_max_mnt_count'', 2), (''s_magic'', 2), (''s_state'', 2),
     (''s_errors'', 2), (''s_minor_rev_level'', 2), (''s_lastcheck'', 4), (''s_checkinterval'', 4),
     (''s_creator_os'', 4), (''s_rev_level'', 4), (''s_def_resuid'', 2), (''s_def_resgid'', 2), (''s_first_ino'', 4),
     (''s_inode_size'', 2), (''s_block_group_nr'', 2), (''s_feature_compat'', 4), (''s_feature_incompat'', 4),
     (''s_feature_ro_compat'', 4), (''s_uuid'', 16), (''s_volume_name'', 16), (''s_last_mounted'', 64),
     (''s_algo_bitmap'', 4), (''s_prealloc_blocks'', 1), (''s_prealloc_dir_blocks'', 1), (''pad1'', 2),
     (''s_journal_uuid'', 16), (''s_journal_inum'', 4), (''s_journal_dev'', 4), (''s_last_orphan'', 4),
     (''s_hash_seed'', 16), (''s_def_hash_version'', 1), (''pad2'', 3), (''s_default_mount_options'', 4),
     (''s_first_meta_bg'', 4)]"

definition ext2_bgd :: layout where
  "ext2_bgd = [(''bg_block_bitmap'', 4), (''bg_inode_bitmap'', 4), (''bg_inode_table'', 4), (''bg_free_blocks_count'', 2),
     (''bg_free_inodes_count'', 2), (''bg_used_dirs_count'', 2), (''bg_pad'', 2), (''bg_reserved'', 12)]"

definition ext2_ino :: layout where
  "ext2_ino = [(''i_mode'', 2), (''i_uid'', 2), (''i_size'', 4), (''i_atime'', 4), (''i_ctime'', 4), (''i_mtime'', 4),
     (''i_dtime'', 4), (''i_gid'', 2), (''i_links_count'', 2), (''i_blocks'', 4), (''i_flags'', 4), (''i_osd1'', 4),
     (''i_block'', 60), (''i_generation'', 4), (''i_file_acl'', 4), (''i_dir_acl'', 4), (''i_faddr'', 4), (''i_osd2'', 12)]"

definition ext2_dirent :: layout where
  "ext2_dirent = [(''inode'', 4), (''rec_len'', 2), (''name_len'', 1), (''file_type'', 1), (''name'', 0)]"

text \<open>\<^verbatim>\<open>struct ext2_fs\<close> is not packed: four bytes of padding align the pointer at its end.\<close>

definition ext2_fs :: layout where
  "ext2_fs = [(''block_size'', 4), (''sb'', 264), (''rooti'', 128), (''padding'', 4), (''bgdt'', 8)]"

text \<open>\<^verbatim>\<open>struct dirent\<close> of \<^verbatim>\<open>file.h\<close>, what \<^verbatim>\<open>getdents\<close> hands to user space.\<close>

definition dirent :: layout where
  "dirent = [(''ino'', 4), (''rec_len'', 4), (''name'', 0)]"

lemma layout_sizes [simp]:
  "sizeof ext2_sb = 264" "sizeof ext2_bgd = 32" "sizeof ext2_ino = 128" "sizeof ext2_fs = 408"
  "sizeof ext2_dirent = 8" "sizeof dirent = 8"
  by (simp_all add: sizeof_def ext2_sb_def ext2_bgd_def ext2_ino_def ext2_fs_def ext2_dirent_def dirent_def)

text \<open>The fields the code uses, at their offsets.\<close>

lemma sb_offsets [simp]:
  "fld ext2_sb ''s_blocks_count'' a = a + 4" "fld ext2_sb ''s_log_block_size'' a = a + 24"
  "fld ext2_sb ''s_blocks_per_group'' a = a + 32" "fld ext2_sb ''s_inodes_per_group'' a = a + 40"
  by (simp_all add: fld_def ext2_sb_def)

lemma bgd_offsets [simp]: "fld ext2_bgd ''bg_inode_table'' a = a + 8"
  by (simp add: fld_def ext2_bgd_def)

lemma ino_offsets [simp]:
  "fld ext2_ino ''i_mode'' a = a" "fld ext2_ino ''i_size'' a = a + 4" "fld ext2_ino ''i_blocks'' a = a + 28"
  "fld ext2_ino ''i_block'' a = a + 40"
  by (simp_all add: fld_def ext2_ino_def)

lemma dirent_offsets [simp]:
  "fld ext2_dirent ''inode'' a = a" "fld ext2_dirent ''rec_len'' a = a + 4" "fld ext2_dirent ''name_len'' a = a + 6"
  "fld ext2_dirent ''name'' a = a + 8" "fld dirent ''ino'' a = a" "fld dirent ''rec_len'' a = a + 4"
  "fld dirent ''name'' a = a + 8"
  by (simp_all add: fld_def ext2_dirent_def dirent_def)

lemma fs_offsets [simp]:
  "fld ext2_fs ''block_size'' a = a" "fld ext2_fs ''sb'' a = a + 4" "fld ext2_fs ''rooti'' a = a + 268"
  "fld ext2_fs ''bgdt'' a = a + 400"
  by (simp_all add: fld_def ext2_fs_def)

section \<open>Operations\<close>

definition SB_START_BYTES :: u32 where "SB_START_BYTES = 1024"
definition EXT2_ROOT_INO :: u32 where "EXT2_ROOT_INO = 2"
definition EXT2_NDIR_BLK :: int where "EXT2_NDIR_BLK = 12"
definition EXT2_IND_BLK :: int where "EXT2_IND_BLK = EXT2_NDIR_BLK"
definition EXT2_DIND_BLK :: int where "EXT2_DIND_BLK = EXT2_IND_BLK + 1"
definition EXT2_TIND_BLK :: int where "EXT2_TIND_BLK = EXT2_DIND_BLK + 1"

text \<open>The kernel's state with \<^verbatim>\<open>rootfs\<close>, the pointer to the mounted file system.\<close>

record 'd fs_state = "'d io_state" +
  rootfs :: u64

definition fs_block_size :: "memory \<Rightarrow> u64 \<Rightarrow> u32" where
  "fs_block_size m fs = ld32 m (fld ext2_fs ''block_size'' fs)"

definition fs_bgdt :: "memory \<Rightarrow> u64 \<Rightarrow> u64" where
  "fs_bgdt m fs = ld64 m (fld ext2_fs ''bgdt'' fs)"

definition read_blk :: "'d ports \<Rightarrow> u64 \<Rightarrow> u64 \<Rightarrow> u32 \<Rightarrow> u32 \<Rightarrow> ('d, 'a) io_state_scheme \<Rightarrow> ('d, 'a) io_state_scheme res" where
  "read_blk P fs buf boff len s = ata_read_bytes P buf (boff * fs_block_size (mem s) fs) len s"

definition ext2_get_inode :: "'d ports \<Rightarrow> u64 \<Rightarrow> u64 \<Rightarrow> u32 \<Rightarrow> ('d, 'a) io_state_scheme \<Rightarrow> ('d, 'a) io_state_scheme res" where
  "ext2_get_inode P fs buf ino s =
     (let m = mem s;
          inodes_per_group = ld32 m (fld ext2_sb ''s_inodes_per_group'' (fld ext2_fs ''sb'' fs))
      in if inodes_per_group = 0 then Inl (Undefined ''division by zero'')
         else let bg = fs_bgdt m fs + ucast (ino div inodes_per_group) * of_nat (sizeof ext2_bgd);
                  ioff = (ino mod inodes_per_group) - 1;
                  off = ld32 m (fld ext2_bgd ''bg_inode_table'' bg) * fs_block_size m fs + ioff * of_nat (sizeof ext2_ino)
              in ata_read_bytes P buf off (of_nat (sizeof ext2_ino)) s)"

text \<open>\<open>sb\<close> and \<open>r_inodes\<close> are the addresses of the two local objects.\<close>

definition ext2_mount_rootfs ::
    "'d ports \<Rightarrow> u64 \<Rightarrow> u64 \<Rightarrow> ('d, 'a) io_state_scheme \<Rightarrow> (u64 \<times> ('d, 'a) io_state_scheme) res" where
  "ext2_mount_rootfs P sb r_inodes s =
     rbind (kmalloc (of_nat (sizeof ext2_fs)) s) (\<lambda>(fs, s).
     if fs = 0 then Inl (Panic ''out of memory'') else
     let s = s\<lparr>mem := memset (mem s) sb 0 (of_nat (sizeof ext2_sb))\<rparr> in
     rbind (ata_read_bytes P sb SB_START_BYTES (of_nat (sizeof ext2_sb)) s) (\<lambda>s.
     let m = memcpy (mem s) (fld ext2_fs ''sb'' fs) sb (of_nat (sizeof ext2_sb));
         log_bs = ld32 m (fld ext2_sb ''s_log_block_size'' sb)
     in if unat log_bs \<ge> 21 then Inl (Undefined ''shift overflows int'') else
     let m = st32 m (fld ext2_fs ''block_size'' fs) (push_bit (unat log_bs) 1024);
         s = s\<lparr>mem := m\<rparr>;
         per_group = ld32 m (fld ext2_sb ''s_blocks_per_group'' sb)
     in if per_group = 0 then Inl (Undefined ''division by zero'') else
     let bgdt_elems = ld32 m (fld ext2_sb ''s_blocks_count'' sb) div per_group in
     rbind (kmalloc (scast bgdt_elems * of_nat (sizeof ext2_bgd)) s) (\<lambda>(bgdt, s).
     let s = s\<lparr>mem := st64 (mem s) (fld ext2_fs ''bgdt'' fs) bgdt\<rparr> in
     rbind (read_blk P fs (fs_bgdt (mem s) fs) 2 (bgdt_elems * of_nat (sizeof ext2_bgd)) s) (\<lambda>s.
     rbind (read_blk P fs r_inodes (ld32 (mem s) (fld ext2_bgd ''bg_inode_table'' (fs_bgdt (mem s) fs)))
              (11 * of_nat (sizeof ext2_ino)) s) (\<lambda>s.
     Inr (fs, s\<lparr>mem := memcpy (mem s) (fld ext2_fs ''rooti'' fs) (r_inodes + of_nat (sizeof ext2_ino))
                              (of_nat (sizeof ext2_ino))\<rparr>))))))"

text \<open>
  The offsets to follow from the inode to block \<open>blk\<close> of a file. The code computes with
  \<^verbatim>\<open>long\<close>, which no value here exceeds, while \<open>blk\<close> stays an \<^verbatim>\<open>unsigned int\<close>.
\<close>

definition ext2_block_offsets :: "u32 \<Rightarrow> u32 \<Rightarrow> int list res" where
  "ext2_block_offsets block_size blk =
     (let ptrs_per_block = uint (block_size div 4);
          direct_blocks = EXT2_NDIR_BLK;
          indirect_blocks = ptrs_per_block;
          double_blocks = indirect_blocks * indirect_blocks;
          triple_blocks = double_blocks * double_blocks
      in if uint blk < direct_blocks then Inr [uint blk]
      else let blk = blk - word_of_int direct_blocks
      in if uint blk - direct_blocks < indirect_blocks then Inr [EXT2_IND_BLK, uint blk]
      else let blk = blk - word_of_int indirect_blocks
      in if uint blk - indirect_blocks < double_blocks
         then Inr [EXT2_DIND_BLK, uint blk div ptrs_per_block, uint blk mod ptrs_per_block]
      else let blk = blk - word_of_int double_blocks
      in if uint blk - double_blocks < triple_blocks
         then Inr [EXT2_TIND_BLK, uint blk div (ptrs_per_block * ptrs_per_block), uint blk div ptrs_per_block,
                   uint blk mod ptrs_per_block]
      else Inl (Panic ''block too big''))"

text \<open>The loop of \<open>ext2_get_block\<close>: the buffer holds the pointers until the last block is read into it.\<close>

primrec get_block_loop :: "'d ports \<Rightarrow> u64 \<Rightarrow> u64 \<Rightarrow> int list \<Rightarrow> ('d, 'a) io_state_scheme \<Rightarrow> ('d, 'a) io_state_scheme res" where
  "get_block_loop P fs buf [] s = Inr s"
| "get_block_loop P fs buf (i # is) s =
     rbind (read_blk P fs buf (ld32 (mem s) (buf + 4 * word_of_int i)) (fs_block_size (mem s) fs) s)
       (get_block_loop P fs buf is)"

definition ext2_get_block ::
    "'d ports \<Rightarrow> u64 \<Rightarrow> u64 \<Rightarrow> u64 \<Rightarrow> u32 \<Rightarrow> ('d, 'a) io_state_scheme \<Rightarrow> ('d, 'a) io_state_scheme res" where
  "ext2_get_block P fs inp buf blk s =
     (if blk > ld32 (mem s) (fld ext2_ino ''i_blocks'' inp)
      then Inl (Panic ''get block at index greater than file size'')
      else rbind (ext2_block_offsets (fs_block_size (mem s) fs) blk) (\<lambda>offsets.
        rbind (read_blk P fs buf (ld32 (mem s) (fld ext2_ino ''i_block'' inp + 4 * word_of_int (hd offsets)))
                 (fs_block_size (mem s) fs) s)
          (get_block_loop P fs buf (tl offsets))))"

text \<open>\<open>k\<close> blocks from block \<open>i\<close> on.\<close>

primrec get_blocks_loop ::
    "'d ports \<Rightarrow> u64 \<Rightarrow> u64 \<Rightarrow> u64 \<Rightarrow> nat \<Rightarrow> nat \<Rightarrow> ('d, 'a) io_state_scheme \<Rightarrow> ('d, 'a) io_state_scheme res" where
  "get_blocks_loop P fs inp buf i 0 s = Inr s"
| "get_blocks_loop P fs inp buf i (Suc k) s =
     rbind (ext2_get_block P fs inp (buf + ucast (of_nat i * fs_block_size (mem s) fs)) (of_nat i) s)
       (get_blocks_loop P fs inp buf (Suc i) k)"

definition ext2_get_blocks ::
    "'d ports \<Rightarrow> u64 \<Rightarrow> u64 \<Rightarrow> u64 \<Rightarrow> u32 \<Rightarrow> ('d, 'a) io_state_scheme \<Rightarrow> ('d, 'a) io_state_scheme res" where
  "ext2_get_blocks P fs inp buf n s = get_blocks_loop P fs inp buf 0 (unat n) s"

definition ext2_read_file ::
    "'d ports \<Rightarrow> u64 \<Rightarrow> u32 \<Rightarrow> ('d, 'a) io_state_scheme \<Rightarrow> (u64 \<times> ('d, 'a) io_state_scheme) res" where
  "ext2_read_file P fs ino s =
     rbind (kcalloc 1 (of_nat (sizeof ext2_ino)) s) (\<lambda>(inode_buf, s).
     rbind (ext2_get_inode P fs inode_buf ino s) (\<lambda>s.
     let bs = fs_block_size (mem s) fs;
         i_size = ld32 (mem s) (fld ext2_ino ''i_size'' inode_buf)
     in if bs = 0 then Inl (Undefined ''division by zero'') else
     let nblk = (i_size + bs - 1) div bs in
     rbind (kmalloc (ucast (nblk * bs)) s) (\<lambda>(buf, s).
     rbind (ext2_get_blocks P fs inode_buf buf nblk s) (\<lambda>s.
     let i_size = ld32 (mem s) (fld ext2_ino ''i_size'' inode_buf);
         s = s\<lparr>mem := memset (mem s) (buf + ucast i_size) 0 (ucast (nblk * fs_block_size (mem s) fs - i_size))\<rparr>
     in Inr (buf, free inode_buf s)))))"

subsection \<open>Paths and directories\<close>

text \<open>The length of the path component at \<open>p\<close>, counted on from \<open>l\<close>.\<close>

partial_function (option) comp_len :: "memory \<Rightarrow> u64 \<Rightarrow> nat \<Rightarrow> nat option" where
  "comp_len m p l =
     (if m (p + of_nat l) \<noteq> 0x2F \<and> m (p + of_nat l) \<noteq> 0 then comp_len m p (Suc l) else Some l)"

text \<open>
  The scan of a directory block for the name at \<open>compbuf\<close>: the first entry that matches, if any. The
  entry's \<open>rec_len\<close> leads to the next one, so a scan need not end.
\<close>

partial_function (option) dir_scan :: "memory \<Rightarrow> u64 \<Rightarrow> u32 \<Rightarrow> u64 \<Rightarrow> u32 \<Rightarrow> u64 option option" where
  "dir_scan m dirbuf block_size compbuf doff =
     (if doff < block_size
      then let de = dirbuf + ucast doff;
               step = ucast (ld16 m (fld ext2_dirent ''rec_len'' de))
           in if ld32 m (fld ext2_dirent ''inode'' de) = 0 then dir_scan m dirbuf block_size compbuf (doff + step)
              else (case strncmp m compbuf (fld ext2_dirent ''name'' de) (ucast (m (fld ext2_dirent ''name_len'' de))) of
                 None \<Rightarrow> None
               | Some c \<Rightarrow> if c = 0 then Some (Some de) else dir_scan m dirbuf block_size compbuf (doff + step))
      else Some None)"

text \<open>
  One turn of the loop of \<open>ext2_namei\<close>: the component at \<open>comp_start\<close> is copied to the local array
  \<^verbatim>\<open>comp\<close> of 256 bytes (at \<open>compbuf\<close>), looked up in the first block of the directory \<open>inp\<close>, and \<open>inp\<close> becomes the inode
  found. The result is where the next component starts and the inode number.
\<close>

definition namei_step ::
    "'d ports \<Rightarrow> u64 \<Rightarrow> u64 \<Rightarrow> u64 \<Rightarrow> u64 \<Rightarrow> u64 \<Rightarrow> ('d, 'a) io_state_scheme \<Rightarrow> (u64 \<times> u32 \<times> ('d, 'a) io_state_scheme) res" where
  "namei_step P fs compbuf dirbuf inp comp_start s =
     rbind (ends (comp_len (mem s) comp_start 0)) (\<lambda>l.
     if l \<ge> 256 then Inl (Undefined ''path component longer than comp'') else
     let m = memcpy (mem s) compbuf comp_start (of_nat l);
         m = m(compbuf + of_nat l := 0);
         comp_start = comp_start + of_nat l;
         comp_start = (if m comp_start = 0x2F then comp_start + 1 else comp_start)
     in rbind (ext2_get_block P fs inp dirbuf 0 (s\<lparr>mem := m\<rparr>)) (\<lambda>s.
     rbind (ends (dir_scan (mem s) dirbuf (fs_block_size (mem s) fs) compbuf 0)) (\<lambda>found.
     case found of None \<Rightarrow> Inl (Panic ''path does not exist'')
     | Some de \<Rightarrow> let ino = ld32 (mem s) (fld ext2_dirent ''inode'' de)
                  in rbind (ext2_get_inode P fs inp ino s) (\<lambda>s. Inr (comp_start, ino, s)))))"

partial_function (option) namei_loop ::
    "'d ports \<Rightarrow> u64 \<Rightarrow> u64 \<Rightarrow> u64 \<Rightarrow> u64 \<Rightarrow> u64 \<Rightarrow> u32 \<Rightarrow> ('d, 'a) io_state_scheme \<Rightarrow> (u32 \<times> ('d, 'a) io_state_scheme) res option" where
  "namei_loop P fs compbuf dirbuf inp comp_start ino s =
     (if mem s comp_start = 0 then Some (Inr (ino, s))
      else case namei_step P fs compbuf dirbuf inp comp_start s of
          Inl e \<Rightarrow> Some (Inl e)
        | Inr (comp_start, ino, s) \<Rightarrow> namei_loop P fs compbuf dirbuf inp comp_start ino s)"

definition ext2_namei ::
    "'d ports \<Rightarrow> u64 \<Rightarrow> u64 \<Rightarrow> u64 \<Rightarrow> ('d, 'a) io_state_scheme \<Rightarrow> (u32 \<times> ('d, 'a) io_state_scheme) res" where
  "ext2_namei P fs compbuf path s =
     rbind (kmalloc (ucast (fs_block_size (mem s) fs)) s) (\<lambda>(dirbuf, s).
     rbind (kcalloc 1 (of_nat (sizeof ext2_ino)) s) (\<lambda>(inp, s).
     let s = s\<lparr>mem := memcpy (mem s) inp (fld ext2_fs ''rooti'' fs) (of_nat (sizeof ext2_ino))\<rparr> in
     rbind (rbind (ends (namei_loop P fs compbuf dirbuf inp (path + 1) EXT2_ROOT_INO s)) (\<lambda>r. r)) (\<lambda>(ino, s).
     Inr (ino, free inp (free dirbuf s)))))"

text \<open>What \<open>ext2_ls\<close> prints for an inode with mode \<open>im\<close>, before the name.\<close>

definition mode_bit :: "u32 \<Rightarrow> u32 \<Rightarrow> char \<Rightarrow> char" where
  "mode_bit im flag c = (if im AND flag \<noteq> 0 then c else CHR ''-'')"

definition mode_string :: "u32 \<Rightarrow> string" where
  "mode_string im =
     [CHR ''-'', mode_bit im 0x100 CHR ''r'', mode_bit im 0x80 CHR ''w'', mode_bit im 0x40 CHR ''x'',
      mode_bit im 0x20 CHR ''r'', mode_bit im 0x10 CHR ''w'', mode_bit im 0x8 CHR ''x'',
      mode_bit im 0x4 CHR ''r'', mode_bit im 0x2 CHR ''w'', mode_bit im 0x1 CHR ''x'', CHR '' '']"

definition dirent_name :: "memory \<Rightarrow> u64 \<Rightarrow> string" where
  "dirent_name m de =
     map (\<lambda>i. char_of (unat (m (fld ext2_dirent ''name'' de + of_nat i)))) [0..<unat (m (fld ext2_dirent ''name_len'' de))]"

partial_function (option) ls_loop ::
    "'d ports \<Rightarrow> u64 \<Rightarrow> u64 \<Rightarrow> u64 \<Rightarrow> u32 \<Rightarrow> string \<Rightarrow> ('d, 'a) io_state_scheme \<Rightarrow> (string \<times> ('d, 'a) io_state_scheme) res option" where
  "ls_loop P fs data inp doff out s =
     (if doff < fs_block_size (mem s) fs
      then let de = data + ucast doff
           in if ld32 (mem s) (fld ext2_dirent ''inode'' de) = 0 then ls_loop P fs data inp doff out s
              else (case ext2_get_inode P fs inp (ld32 (mem s) (fld ext2_dirent ''inode'' de)) s of
                  Inl e \<Rightarrow> Some (Inl e)
                | Inr s \<Rightarrow> ls_loop P fs data inp (doff + ucast (ld16 (mem s) (fld ext2_dirent ''rec_len'' de)))
                    (out @ mode_string (ucast (ld16 (mem s) (fld ext2_ino ''i_mode'' inp))) @ dirent_name (mem s) de @ [CHR 0x0A]) s)
      else Some (Inr (out, s)))"

text \<open>The path is ignored; \<open>inp\<close> is the local inode.\<close>

definition ext2_ls ::
    "'d ports \<Rightarrow> u64 \<Rightarrow> u64 \<Rightarrow> u64 \<Rightarrow> ('d, 'a) io_state_scheme \<Rightarrow> (string \<times> ('d, 'a) io_state_scheme) res" where
  "ext2_ls P inp fs path s =
     rbind (kmalloc (ucast (fs_block_size (mem s) fs)) s) (\<lambda>(data, s).
     rbind (read_blk P fs data (ld32 (mem s) (fld ext2_ino ''i_block'' (fld ext2_fs ''rooti'' fs)))
              (fs_block_size (mem s) fs) s) (\<lambda>s.
     rbind (ends (ls_loop P fs data inp 0 [] s)) (\<lambda>r. r)))"

text \<open>
  The loop of \<open>ext2_getdents\<close> copies entries from the directory block to the user buffer, which it
  never compares with \<open>count\<close>.
\<close>

partial_function (option) getdents_loop :: "memory \<Rightarrow> u32 \<Rightarrow> u64 \<Rightarrow> u64 \<Rightarrow> u32 \<Rightarrow> u32 \<Rightarrow> (u32 \<times> memory) option" where
  "getdents_loop m block_size data buf doff us_doff =
     (if doff < block_size
      then let de = data + ucast doff; us_de = buf + ucast us_doff
           in if ld32 m (fld ext2_dirent ''inode'' de) = 0
              then getdents_loop m block_size data buf doff us_doff
              else let name_len = m (fld ext2_dirent ''name_len'' de);
                       m = st32 m (fld dirent ''ino'' us_de) (ld32 m (fld ext2_dirent ''inode'' de));
                       m = st32 m (fld dirent ''rec_len'' us_de) (of_nat (sizeof dirent) + ucast name_len + 1);
                       m = snd (strlcpy m (fld dirent ''name'' us_de) (fld ext2_dirent ''name'' de)
                                  (ucast (m (fld ext2_dirent ''name_len'' de))))
                   in getdents_loop m block_size data buf (doff + ucast (ld16 m (fld ext2_dirent ''rec_len'' de)))
                        (us_doff + ld32 m (fld dirent ''rec_len'' us_de))
      else Some (us_doff, m))"

definition ext2_getdents ::
    "'d ports \<Rightarrow> u64 \<Rightarrow> u32 \<Rightarrow> u64 \<Rightarrow> u64 \<Rightarrow> ('d, 'a) fs_state_scheme \<Rightarrow> (u64 \<times> ('d, 'a) fs_state_scheme) res" where
  "ext2_getdents P inp f_ino buf count s =
     rbind (kmalloc (ucast (fs_block_size (mem s) (rootfs s))) s) (\<lambda>(data, s).
     rbind (ext2_get_inode P (rootfs s) inp f_ino s) (\<lambda>s.
     rbind (read_blk P (rootfs s) data (ld32 (mem s) (fld ext2_ino ''i_block'' inp))
              (fs_block_size (mem s) (rootfs s)) s) (\<lambda>s.
     rbind (ends (getdents_loop (mem s) (fs_block_size (mem s) (rootfs s)) data buf 0 0)) (\<lambda>(us_doff, m).
     Inr (ucast us_doff, free data (s\<lparr>mem := m\<rparr>))))))"

end
