(* ===== verification/Ext2_Read.thy ===== *)
theory Ext2_Read
  imports Ext2
begin

text \<open>
  Correctness of reading: the offsets of a block against the ext2 format, and what the buffers hold
  after an inode, a block, and a whole file have been read.
\<close>

section \<open>The block map\<close>

text \<open>
  The path from an inode to block \<open>b\<close> of its file, by the ext2 format: twelve direct blocks, then one
  single, one double and one triple indirect block of \<open>p\<close> pointers each.
\<close>

definition block_path :: "nat \<Rightarrow> nat \<Rightarrow> nat list" where
  "block_path p b =
     (if b < 12 then [b]
      else if b < 12 + p then [12, b - 12]
      else if b < 12 + p + p * p then [13, (b - 12 - p) div p, (b - 12 - p) mod p]
      else let c = b - 12 - p - p * p in [14, c div (p * p), c div p mod p, c mod p])"

text \<open>
  The blocks for which the code agrees with the format. The comparisons in the code subtract the size
  of the previous level a second time, so at the start of each further level it is one level behind.
\<close>

definition offsets_agree :: "nat \<Rightarrow> nat \<Rightarrow> bool" where
  "offsets_agree p b \<longleftrightarrow> b < 12 + p \<or> 24 + p \<le> b \<and> b < 12 + p + p * p
     \<or> 12 + 2 * p + p * p \<le> b \<and> b < 12 + p + 2 * (p * p)"

lemma uint_minus:
  fixes b :: u32
  assumes "0 \<le> k" "k \<le> uint b"
  shows "uint (b - word_of_int k) = uint b - k"
proof -
  have "k < 2 ^ 32" using assms uint_lt2p [of b] by simp
  then have "uint (word_of_int k :: u32) = k" using assms(1) by (simp add: unsigned_of_int take_bit_int_eq_self)
  then show ?thesis using assms by (simp add: uint_sub_if')
qed

lemma block_offsets_path:
  assumes p: "unat bs div 4 = p" "12 < p" "p < 2 ^ 16" and agree: "offsets_agree p (unat blk)"
  shows "ext2_block_offsets bs blk = Inr (map int (block_path p (unat blk)))"
proof -
  define b where "b = unat blk"
  have ub: "uint blk = int b" by (simp add: b_def)
  have ptrs: "uint (bs div 4) = int p" using p(1) by (simp add: uint_nat unat_div)
  note defs = ext2_block_offsets_def Let_def ptrs EXT2_NDIR_BLK_def EXT2_IND_BLK_def EXT2_DIND_BLK_def EXT2_TIND_BLK_def
  have sub12: "uint (blk - 12) = int b - 12" if "12 \<le> b"
    using uint_minus [of 12 blk] that ub by simp
  have subp: "uint (blk - 12 - word_of_int (int p)) = int b - 12 - int p" if "12 + p \<le> b"
    using uint_minus [of "int p" "blk - 12"] that sub12 by simp
  have subpp: "uint (blk - 12 - word_of_int (int p) - word_of_int (int p * int p)) = int b - 12 - int p - int p * int p"
    if "12 + p + p * p \<le> b"
  proof -
    have "int (12 + p + p * p) \<le> int b" using that by (simp only: of_nat_le_iff)
    then show ?thesis using uint_minus [of "int p * int p" "blk - 12 - word_of_int (int p)"] subp that by simp
  qed
  consider (direct) "b < 12" | (single) "12 \<le> b" "b < 12 + p" | (double) "24 + p \<le> b" "b < 12 + p + p * p"
    | (triple) "12 + 2 * p + p * p \<le> b" "b < 12 + p + 2 * (p * p)"
    using agree unfolding offsets_agree_def b_def [symmetric] by linarith
  then have "ext2_block_offsets bs blk = Inr (map int (block_path p b))"
  proof cases
    case direct
    then show ?thesis by (simp add: defs ub block_path_def)
  next
    case single
    then show ?thesis using sub12 by (simp add: defs ub block_path_def of_nat_diff)
  next
    case double
    define c where "c = b - 12 - p"
    have c: "int b - 12 - int p = int c" "c < p * p" using double by (simp_all add: c_def of_nat_diff)
    have "int c < int (p * p)" using c(2) by (simp only: of_nat_less_iff)
    then have "int c - int p < int p * int p" by simp
    moreover have "block_path p b = [13, c div p, c mod p]" using double by (simp add: block_path_def c_def)
    ultimately show ?thesis using double sub12 subp c(1) by (simp add: defs ub zdiv_int zmod_int)
  next
    case triple
    define c where "c = b - 12 - p - p * p"
    have le: "12 + p + p * p \<le> b" "p \<le> c" using triple by (simp_all add: c_def)
    have c: "int b - 12 - int p - int p * int p = int c" "c < p * p" using triple by (simp_all add: c_def of_nat_diff)
    have lt: "int c < int p * int p" using c(2) by (simp only: of_nat_less_iff flip: of_nat_mult)
    have "int p * int p \<le> (int p * int p) * (int p * int p)"
      using le_square [of "p * p"] by (simp only: of_nat_le_iff flip: of_nat_mult)
    then have t: "int c - int p * int p < (int p * int p) * (int p * int p)" using lt by linarith
    have "c div p < p" using c(2) p(2) by (simp add: div_less_iff_less_mult)
    moreover have "\<not> int b - 12 - int p - int p < int p * int p" using c(1) le(2) by linarith
    moreover have "\<not> int b - 24 < int p" using triple(1) p(2) by linarith
    moreover have "int c div (int p * int p) = 0" by (rule div_pos_pos_trivial) (use lt in simp_all)
    moreover have "block_path p b = [14, c div (p * p), c div p mod p, c mod p]"
      using le(1) by (simp add: block_path_def Let_def c_def)
    ultimately show ?thesis using triple le sub12 subp subpp c t by (simp add: defs ub zdiv_int zmod_int)
  qed
  then show ?thesis by (simp only: b_def)
qed

text \<open>Following the path never leaves the inode's fifteen pointers, nor a block of pointers.\<close>

lemma block_path_bounds:
  assumes "0 < p" "offsets_agree p b"
  shows "hd (block_path p b) < 15" and "\<forall>i \<in> set (tl (block_path p b)). i < p" and "block_path p b \<noteq> []"
proof -
  show "hd (block_path p b) < 15" "block_path p b \<noteq> []" by (simp_all add: block_path_def Let_def)
  consider "b < 12" | "12 \<le> b" "b < 12 + p" | "12 + p \<le> b" "b < 12 + p + p * p"
    | "12 + p + p * p \<le> b" "b < 12 + p + 2 * (p * p)"
    using assms(2) unfolding offsets_agree_def by linarith
  then show "\<forall>i \<in> set (tl (block_path p b)). i < p"
  proof cases
    case 3
    then have "b - 12 - p < p * p" by linarith
    then have "(b - 12 - p) div p < p" using assms(1) by (simp add: div_less_iff_less_mult)
    with 3 show ?thesis using assms(1) by (simp add: block_path_def)
  next
    case 4
    define c where "c = b - 12 - p - p * p"
    have "c < p * p" using 4 by (simp add: c_def)
    moreover have "block_path p b = [14, c div (p * p), c div p mod p, c mod p]"
      using 4 by (simp add: block_path_def Let_def c_def)
    ultimately show ?thesis using assms(1) by simp
  qed (use assms(1) in \<open>auto simp: block_path_def\<close>)
qed

section \<open>Reading from the disk\<close>

abbreviation heap_panic :: "'x res" where
  "heap_panic \<equiv> Inl (Panic ''kernel heap exhausted'')"

text \<open>
  \<open>disk_read v s s' buf n off\<close>: from \<open>s\<close> to \<open>s'\<close>, \<open>n\<close> bytes of the disk from \<open>off\<close> on have been read to
  \<open>buf\<close>, and nothing else has changed that anyone may rely on.
\<close>

definition disk_read :: "('d \<Rightarrow> ata_view) \<Rightarrow> ('d, 'a) io_state_scheme \<Rightarrow> ('d, 'a) io_state_scheme \<Rightarrow> u64 \<Rightarrow> nat \<Rightarrow> u64 \<Rightarrow> bool" where
  "disk_read v s s' buf n off \<longleftrightarrow> heap_ok s' \<and> heap_objects s' = heap_objects s
     \<and> disk (v (dev s')) = disk (v (dev s))
     \<and> (\<forall>i < n. mem s' (buf + of_nat i) = disk (v (dev s)) (off + of_nat i))
     \<and> (\<forall>A x. room s A \<longrightarrow> x \<in> A \<longrightarrow> x \<notin> rng buf n \<longrightarrow> mem s' x = mem s x)"

lemma disk_read_trans:
  assumes "disk_read v s s1 buf n o1" "disk_read v s1 s2 buf n o2"
  shows "disk_read v s s2 buf n o2"
  using assms room_objects [of s1 s] by (simp add: disk_read_def del: in_rng)

lemma disk_read_room: "disk_read v s s' buf n off \<Longrightarrow> room s' A \<longleftrightarrow> room s A"
  unfolding disk_read_def using room_objects by blast

lemma disk_read_keeps:
  assumes "disk_read v s s' buf n off" "room s A" "A \<inter> rng buf n = {}" "x \<in> A"
  shows "mem s' x = mem s x"
  using assms unfolding disk_read_def by blast

lemma ldn_shift:
  "(\<And>i. i < n \<Longrightarrow> m (a + of_nat i) = m' (b + of_nat i)) \<Longrightarrow> ldn n m a = ldn n m' b"
proof (induction n arbitrary: a b)
  case (Suc n)
  have "m a = m' b" using Suc.prems [of 0] by simp
  moreover have "ldn n m (a + 1) = (ldn n m' (b + 1) :: 'a word)"
  proof (rule Suc.IH)
    fix i assume "i < n"
    then show "m (a + 1 + of_nat i) = m' (b + 1 + of_nat i)" using Suc.prems [of "Suc i"] by (simp add: add.assoc)
  qed
  ultimately show ?case by simp
qed simp

lemma disk_read_byte:
  "disk_read v s s' buf n off \<Longrightarrow> i < n \<Longrightarrow> mem s' (buf + of_nat i) = disk (v (dev s)) (off + of_nat i)"
  by (simp add: disk_read_def)

lemma disk_read_ld32:
  assumes "disk_read v s s' buf n off" "4 * i + 4 \<le> n"
  shows "ld32 (mem s') (buf + 4 * of_nat i) = ld32 (disk (v (dev s))) (off + 4 * of_nat i)"
  unfolding ld32_def
proof (rule ldn_shift)
  fix j :: nat assume j: "j < 4"
  have "mem s' (buf + of_nat (4 * i + j)) = disk (v (dev s)) (off + of_nat (4 * i + j))"
    by (rule disk_read_byte [OF assms(1)]) (use assms(2) j in linarith)
  then show "mem s' (buf + 4 * of_nat i + of_nat j) = disk (v (dev s)) (off + 4 * of_nat i + of_nat j)"
    by (simp add: ac_simps)
qed

lemma disk_read_keeps_ld32:
  assumes "disk_read v s s' buf n off" "room s A" "A \<inter> rng buf n = {}" "rng a 4 \<subseteq> A"
  shows "ld32 (mem s') a = ld32 (mem s) a"
  by (rule ld32_cong) (use disk_read_keeps [OF assms(1-3)] assms(4) in blast)

text \<open>Reading at a multiple of the sector size, or inside one sector.\<close>

lemma read_bytes_cases:
  fixes s :: "('d, 'a) io_state_scheme"
  assumes "ata_drive P v" "heap_ok s" "room s (rng buf (unat len))" "buf \<noteq> 0" "0 < unat len" "unat len \<le> 255 * 512"
    and fit: "512 dvd unat off \<or> unat off mod 512 + unat len \<le> 512"
  obtains "ata_read_bytes P buf off len s = heap_panic"
  | s' where "ata_read_bytes P buf off len s = Inr s'" "disk_read v s s' buf (unat len) (ucast off)"
proof -
  have "unat len \<le> 512 * ((unat len + 511) div 512)" by linarith
  moreover have "0 < (unat len + 511) div 512" using assms(5) by (simp add: div_greater_zero_iff)
  ultimately have "unat off mod 512 + unat len \<le> 512 * ((unat len + 511) div 512)" using fit by auto
  from ata_read_bytes_spec [OF assms(1-6) this] that show thesis unfolding disk_read_def by blast
qed

section \<open>Blocks\<close>

text \<open>
  Block sizes the driver can read at once. A block's place on the disk is computed in 32 bits, as in
  the code, so only the first 4 GiB of a volume can be addressed.
\<close>

definition block_size_ok :: "u32 \<Rightarrow> bool" where
  "block_size_ok bs \<longleftrightarrow> 512 dvd unat bs \<and> 1024 \<le> unat bs \<and> unat bs \<le> 255 * 512"

definition block_byte :: "u32 \<Rightarrow> u32 \<Rightarrow> u64" where
  "block_byte bs b = ucast (b * bs)"

lemma block_aligned: "block_size_ok bs \<Longrightarrow> 512 dvd unat (b * bs)"
proof -
  assume "block_size_ok bs"
  then have "512 dvd unat b * unat bs" by (simp add: block_size_ok_def)
  then have "512 dvd (unat b * unat bs) mod 2 ^ 32" by (simp add: dvd_mod)
  then show ?thesis by (simp add: unat_word_ariths)
qed

text \<open>The block reached from block \<open>b\<close> over the pointers at the given indices.\<close>

primrec follow :: "memory \<Rightarrow> u32 \<Rightarrow> u32 \<Rightarrow> nat list \<Rightarrow> u32" where
  "follow dk bs b [] = b"
| "follow dk bs b (i # is) = follow dk bs (ld32 dk (block_byte bs b + 4 * of_nat i)) is"

lemma read_blk_cases:
  fixes s :: "('d, 'a) io_state_scheme"
  assumes "ata_drive P v" "heap_ok s" "room s (rng buf (unat bs))" "buf \<noteq> 0" "fs_block_size (mem s) fs = bs" "block_size_ok bs"
  obtains "read_blk P fs buf b bs s = heap_panic"
  | s' where "read_blk P fs buf b bs s = Inr s'" "disk_read v s s' buf (unat bs) (block_byte bs b)"
proof (rule read_bytes_cases [OF assms(1-4), of "b * bs"])
  show "512 dvd unat (b * bs) \<or> unat (b * bs) mod 512 + unat bs \<le> 512" using block_aligned [OF assms(6)] by simp
qed (use assms(5,6) that in \<open>auto simp: block_size_ok_def read_blk_def block_byte_def\<close>)

text \<open>What a call that reads from the disk needs of its surroundings.\<close>

definition fs_ready :: "'d ports \<Rightarrow> ('d \<Rightarrow> ata_view) \<Rightarrow> u64 \<Rightarrow> u32 \<Rightarrow> ('d, 'a) io_state_scheme \<Rightarrow> bool" where
  "fs_ready P v fs bs s \<longleftrightarrow> ata_drive P v \<and> heap_ok s \<and> room s (rng fs 408)
     \<and> fs_block_size (mem s) fs = bs \<and> block_size_ok bs"

lemma rng_offset:
  assumes "n + k \<le> t" "t < 2 ^ 64" "x \<in> rng (a + of_nat n) k"
  shows "unat (x - a) = unat (x - (a + of_nat n)) + n"
proof -
  have u: "unat (of_nat n :: u64) = n" using assms(1,2) by (intro unat_of_nat_u64) simp
  have "x - a = (x - (a + of_nat n)) + of_nat n" by simp
  moreover have "unat ((x - (a + of_nat n)) + of_nat n) = unat (x - (a + of_nat n)) + n"
    using assms u by (subst unat_add_nowrap) simp_all
  ultimately show ?thesis by (simp only:)
qed

lemma rng_offset_sub:
  assumes "n + k \<le> t" "t < 2 ^ 64"
  shows "rng (a + of_nat n) k \<subseteq> rng a t"
  using rng_offset [OF assms] assms(1) by fastforce

lemma fs_field_sub: "n + 4 \<le> 408 \<Longrightarrow> rng (fs + of_nat n) 4 \<subseteq> rng fs 408"
  by (rule rng_offset_sub) simp_all

lemma fs_ready_read:
  assumes "fs_ready P v fs bs s" "disk_read v s s' buf n off" "rng fs 408 \<inter> rng buf n = {}"
  shows "fs_ready P v fs bs s'"
proof -
  have "ld32 (mem s') fs = ld32 (mem s) fs"
    by (rule disk_read_keeps_ld32 [OF assms(2) _ assms(3)]) (use assms(1) fs_field_sub [of 0 fs] in \<open>simp_all add: fs_ready_def\<close>)
  then show ?thesis using assms(1,2) disk_read_room [OF assms(2)]
    by (simp add: fs_ready_def fs_block_size_def) (simp add: disk_read_def)
qed

lemma get_block_loop_reads:
  assumes "\<forall>i \<in> set is. 4 * i + 4 \<le> unat bs" and "buf \<noteq> 0" "rng fs 408 \<inter> rng buf (unat bs) = {}"
  shows "fs_ready P v fs bs s1 \<Longrightarrow> room s (rng buf (unat bs)) \<Longrightarrow> disk_read v s s1 buf (unat bs) (block_byte bs b) \<Longrightarrow>
    get_block_loop P fs buf (map int is) s1 = heap_panic
    \<or> (\<exists>s'. get_block_loop P fs buf (map int is) s1 = Inr s' \<and> fs_ready P v fs bs s'
         \<and> disk_read v s s' buf (unat bs) (block_byte bs (follow (disk (v (dev s))) bs b is)))"
  using assms(1)
proof (induction "is" arbitrary: s1 b)
  case Nil
  then show ?case by simp
next
  case (Cons i "is")
  have rdy: "ata_drive P v" "heap_ok s1" "fs_block_size (mem s1) fs = bs" "block_size_ok bs"
    using Cons.prems(1) by (simp_all add: fs_ready_def)
  have rm: "room s1 (rng buf (unat bs))" using Cons.prems(2) disk_read_room [OF Cons.prems(3)] by simp
  let ?b = "ld32 (disk (v (dev s))) (block_byte bs b + 4 * of_nat i)"
  have ptr: "ld32 (mem s1) (buf + 4 * word_of_int (int i)) = ?b"
    using disk_read_ld32 [OF Cons.prems(3), of i] Cons.prems(4) by simp
  show ?case
  proof (rule read_blk_cases [OF rdy(1,2) rm assms(2) rdy(3,4), of ?b])
    assume "read_blk P fs buf ?b bs s1 = heap_panic"
    then show ?thesis by (simp add: ptr [simplified] rdy(3))
  next
    fix s2 assume s2: "read_blk P fs buf ?b bs s1 = Inr s2" "disk_read v s1 s2 buf (unat bs) (block_byte bs ?b)"
    have "disk_read v s s2 buf (unat bs) (block_byte bs ?b)" by (rule disk_read_trans [OF Cons.prems(3) s2(2)])
    moreover have "fs_ready P v fs bs s2" by (rule fs_ready_read [OF Cons.prems(1) s2(2) assms(3)])
    ultimately show ?thesis using Cons.IH [of s2 ?b] Cons.prems(2,4) s2(1) by (simp add: ptr [simplified] rdy(3))
  qed
qed

text \<open>The block that holds block \<open>b\<close> of the file whose inode is stored at \<open>inp\<close> of \<open>m\<close>.\<close>

definition file_block :: "memory \<Rightarrow> u32 \<Rightarrow> memory \<Rightarrow> u64 \<Rightarrow> nat \<Rightarrow> u32" where
  "file_block dk bs m inp b =
     (let path = block_path (unat bs div 4) b
      in follow dk bs (ld32 m (inp + 40 + 4 * of_nat (hd path))) (tl path))"

lemma block_ptrs:
  assumes "block_size_ok bs"
  shows "256 \<le> unat bs div 4" "unat bs div 4 < 2 ^ 16" "4 * (unat bs div 4) = unat bs"
proof -
  obtain k where "unat bs = 512 * k" using assms by (auto simp: block_size_ok_def)
  then show "4 * (unat bs div 4) = unat bs" "256 \<le> unat bs div 4" "unat bs div 4 < 2 ^ 16"
    using assms by (simp_all add: block_size_ok_def)
qed

lemma get_block_reads:
  fixes s :: "('d, 'a) io_state_scheme"
  assumes rdy: "fs_ready P v fs bs s" and buf: "room s (rng buf (unat bs))" "buf \<noteq> 0" "rng fs 408 \<inter> rng buf (unat bs) = {}"
    and blk: "blk \<le> ld32 (mem s) (inp + 28)" "offsets_agree (unat bs div 4) (unat blk)"
  shows "ext2_get_block P fs inp buf blk s = heap_panic
    \<or> (\<exists>s'. ext2_get_block P fs inp buf blk s = Inr s' \<and> fs_ready P v fs bs s'
         \<and> disk_read v s s' buf (unat bs) (block_byte bs (file_block (disk (v (dev s))) bs (mem s) inp (unat blk))))"
proof -
  have f: "ata_drive P v" "heap_ok s" "fs_block_size (mem s) fs = bs" "block_size_ok bs"
    using rdy by (simp_all add: fs_ready_def)
  note ptrs = block_ptrs [OF f(4)]
  obtain i "is" where path: "block_path (unat bs div 4) (unat blk) = i # is"
    using block_path_bounds(3) [of "unat bs div 4" "unat blk"] ptrs blk(2) by (cases "block_path (unat bs div 4) (unat blk)") auto
  have is_ok: "\<forall>i \<in> set is. 4 * i + 4 \<le> unat bs"
  proof
    fix j assume "j \<in> set is"
    then have "j < unat bs div 4" using block_path_bounds(2) [of "unat bs div 4" "unat blk"] path ptrs(1) blk(2) by simp
    then show "4 * j + 4 \<le> unat bs" using ptrs(3) by linarith
  qed
  have offs: "ext2_block_offsets bs blk = Inr (map int (i # is))"
    using block_offsets_path [OF refl _ ptrs(2) blk(2)] ptrs(1) path by simp
  let ?b = "ld32 (mem s) (inp + 40 + 4 * of_nat i)"
  have fb: "file_block (disk (v (dev s))) bs (mem s) inp (unat blk) = follow (disk (v (dev s))) bs ?b is"
    by (simp add: file_block_def path)
  have call: "ext2_get_block P fs inp buf blk s = rbind (read_blk P fs buf ?b bs s) (get_block_loop P fs buf (map int is))"
    using leD [OF blk(1)] by (simp add: ext2_get_block_def f(3) offs)
  show ?thesis
  proof (rule read_blk_cases [OF f(1,2) buf(1,2) f(3,4), of ?b])
    assume "read_blk P fs buf ?b bs s = heap_panic"
    then show ?thesis by (simp add: call)
  next
    fix s1 assume s1: "read_blk P fs buf ?b bs s = Inr s1" "disk_read v s s1 buf (unat bs) (block_byte bs ?b)"
    from get_block_loop_reads [OF is_ok buf(2,3) fs_ready_read [OF rdy s1(2) buf(3)] buf(1) s1(2)] s1(1)
    show ?thesis by (simp add: call fb)
  qed
qed

section \<open>Inodes\<close>

text \<open>
  Where the format keeps inode \<open>ino\<close>: in the inode table of the group \<open>(ino - 1) / inodes_per_group\<close>, at
  index \<open>(ino - 1) mod inodes_per_group\<close>.
\<close>

definition inodes_per_group :: "memory \<Rightarrow> u64 \<Rightarrow> u32" where
  "inodes_per_group m fs = ld32 m (fs + 44)"

definition inode_byte :: "memory \<Rightarrow> u64 \<Rightarrow> u32 \<Rightarrow> u64" where
  "inode_byte m fs ino =
     (let ipg = inodes_per_group m fs;
          table = ld32 m (fs_bgdt m fs + ucast ((ino - 1) div ipg) * 32 + 8)
      in ucast (table * fs_block_size m fs + ((ino - 1) mod ipg) * 128))"

lemma pred_div_mod:
  fixes ino ipg :: u32
  assumes "ino mod ipg \<noteq> 0"
  shows "(ino - 1) div ipg = ino div ipg" "(ino - 1) mod ipg = ino mod ipg - 1"
proof -
  let ?i = "unat ino" and ?g = "unat ipg"
  have r: "?i mod ?g \<noteq> 0" using assms by (metis unat_mod unat_eq_zero)
  then have i: "0 < ?i" by (auto intro: ccontr)
  then have u: "unat (ino - 1) = ?i - 1" by (simp add: unat_sub_le)
  obtain n where n: "?i = Suc n" using i by (cases ?i) auto
  have "n div ?g = ?i div ?g" "n mod ?g = ?i mod ?g - 1"
    using r unfolding n by (simp_all add: div_Suc mod_Suc split: if_splits)
  then have "unat ((ino - 1) div ipg) = unat (ino div ipg)" "unat ((ino - 1) mod ipg) = unat (ino mod ipg - 1)"
    using u n r assms by (simp_all add: unat_div unat_mod unat_sub_le)
  then show "(ino - 1) div ipg = ino div ipg" "(ino - 1) mod ipg = ino mod ipg - 1"
    by (simp_all only: word_unat_eq_iff)
qed

lemma inode_aligned:
  assumes "block_size_ok bs"
  shows "unat (t * bs + k * 128 :: u32) mod 512 + 128 \<le> 512"
proof -
  obtain c where c: "unat bs = 512 * c" using assms by (auto simp: block_size_ok_def)
  have "unat (t * bs + k * 128) = (unat t * unat bs + unat k * 128) mod 2 ^ 32"
    by (simp add: unat_word_ariths mod_simps)
  also have "\<dots> mod 512 = (unat t * unat bs + unat k * 128) mod 512"
    by (simp add: mod_mod_cancel)
  also have "\<dots> = (128 * (unat k mod 4))"
    unfolding c by (simp add: mod_add_eq [symmetric] mod_mult_mult2 [of "unat k" 128 4, simplified] mult.commute [of 128])
  also have "\<dots> + 128 \<le> 512" by simp
  finally show ?thesis .
qed

lemma unat_numeral_u32: "unat (128 :: u32) = 128"
  by simp

lemma get_inode_reads:
  fixes s :: "('d, 'a) io_state_scheme"
  assumes rdy: "fs_ready P v fs bs s" and buf: "room s (rng buf 128)" "buf \<noteq> 0" "rng fs 408 \<inter> rng buf 128 = {}"
    and ino: "ino mod inodes_per_group (mem s) fs \<noteq> 0" "inodes_per_group (mem s) fs \<noteq> 0"
  shows "ext2_get_inode P fs buf ino s = heap_panic
    \<or> (\<exists>s'. ext2_get_inode P fs buf ino s = Inr s' \<and> fs_ready P v fs bs s'
         \<and> disk_read v s s' buf 128 (inode_byte (mem s) fs ino))"
proof -
  have f: "ata_drive P v" "heap_ok s" "fs_block_size (mem s) fs = bs" "block_size_ok bs"
    using rdy by (simp_all add: fs_ready_def)
  let ?g = "inodes_per_group (mem s) fs"
  define t where "t = ld32 (mem s) (fs_bgdt (mem s) fs + ucast (ino div ?g) * 32 + 8)"
  let ?off = "t * bs + (ino mod ?g - 1) * 128"
  have call: "ext2_get_inode P fs buf ino s = ata_read_bytes P buf ?off 128 s"
    using ino(2) by (simp add: ext2_get_inode_def Let_def f(3) t_def inodes_per_group_def add.assoc)
  have loc: "inode_byte (mem s) fs ino = ucast ?off"
    by (simp add: inode_byte_def Let_def f(3) pred_div_mod [OF ino(1)] t_def)
  have buf': "room s (rng buf (unat (128 :: u32)))" using buf(1) by simp
  have fit: "512 dvd unat ?off \<or> unat ?off mod 512 + unat (128 :: u32) \<le> 512"
    using inode_aligned [OF f(4), of t "ino mod ?g - 1"] by (intro disjI2) (simp only: unat_numeral_u32)
  show ?thesis
  proof (rule read_bytes_cases [OF f(1,2) buf' buf(2) _ _ fit])
    fix s1 assume s1: "ata_read_bytes P buf ?off 128 s = Inr s1" "disk_read v s s1 buf (unat (128 :: u32)) (ucast ?off)"
    then have "disk_read v s s1 buf 128 (ucast ?off)" by simp
    from fs_ready_read [OF rdy this buf(3)] this s1(1) show ?thesis by (simp add: call loc)
  qed (simp_all add: call)
qed

section \<open>Files\<close>

text \<open>Byte \<open>j\<close> of the file whose inode is stored at \<open>inp\<close> of \<open>m\<close>.\<close>

definition file_byte :: "memory \<Rightarrow> u32 \<Rightarrow> memory \<Rightarrow> u64 \<Rightarrow> nat \<Rightarrow> u8" where
  "file_byte dk bs m inp j = dk (block_byte bs (file_block dk bs m inp (j div unat bs)) + of_nat (j mod unat bs))"

text \<open>
  \<open>filled v s s' buf n t f\<close>: from \<open>s\<close> to \<open>s'\<close>, of the \<open>t\<close> bytes at \<open>buf\<close> the first \<open>n\<close> have become those
  of \<open>f\<close>, and nothing outside has changed.
\<close>

definition filled ::
    "('d \<Rightarrow> ata_view) \<Rightarrow> ('d, 'a) io_state_scheme \<Rightarrow> ('d, 'a) io_state_scheme \<Rightarrow> u64 \<Rightarrow> nat \<Rightarrow> nat \<Rightarrow> (nat \<Rightarrow> u8) \<Rightarrow> bool" where
  "filled v s s' buf n t f \<longleftrightarrow> heap_ok s' \<and> heap_objects s' = heap_objects s
     \<and> disk (v (dev s')) = disk (v (dev s)) \<and> (\<forall>i < n. mem s' (buf + of_nat i) = f i)
     \<and> (\<forall>A x. room s A \<longrightarrow> x \<in> A \<longrightarrow> x \<notin> rng buf t \<longrightarrow> mem s' x = mem s x)"

lemma filled_room: "filled v s s' buf n t f \<Longrightarrow> room s' A \<longleftrightarrow> room s A"
  unfolding filled_def using room_objects by blast

lemma filled_more:
  assumes fl: "filled v s s1 buf n t f" and rd: "disk_read v s1 s2 (buf + of_nat n) k off"
    and f: "\<forall>j < k. f (n + j) = disk (v (dev s)) (off + of_nat j)" and t: "n + k \<le> t" "t < 2 ^ 64" and rm: "room s (rng buf t)"
  shows "filled v s s2 buf (n + k) t f"
proof -
  have sub: "rng (buf + of_nat n) k \<subseteq> rng buf t" by (rule rng_offset_sub [OF t])
  have "mem s2 (buf + of_nat i) = f i" if i: "i < n + k" for i
  proof (cases "i < n")
    case True
    have u: "unat (of_nat i :: u64) = i" using i t by (intro unat_of_nat_u64) simp
    have in_t: "buf + of_nat i \<in> rng buf t" using u i t by simp
    have "buf + of_nat i \<notin> rng (buf + of_nat n) k"
      using rng_offset [OF t, of "buf + of_nat i" buf] u True by (simp del: in_rng) (metis add_diff_cancel_left' le_add2 leD)
    then have "mem s2 (buf + of_nat i) = mem s1 (buf + of_nat i)"
      using rd rm in_t filled_room [OF fl] unfolding disk_read_def by blast
    then show ?thesis using fl True by (simp add: filled_def)
  next
    case False
    then obtain j where j: "i = n + j" "j < k" using i by (metis add_diff_inverse_nat nat_add_left_cancel_less)
    have "disk (v (dev s1)) = disk (v (dev s))" using fl by (simp add: filled_def)
    then show ?thesis using disk_read_byte [OF rd j(2)] f j by (simp add: add.assoc)
  qed
  moreover have "mem s2 x = mem s x" if "room s A" "x \<in> A" "x \<notin> rng buf t" for A x
  proof -
    have "mem s2 x = mem s1 x" using rd sub that filled_room [OF fl] unfolding disk_read_def by blast
    also have "\<dots> = mem s x" using fl that unfolding filled_def by blast
    finally show ?thesis .
  qed
  ultimately show ?thesis using fl rd by (auto simp: filled_def disk_read_def simp del: in_rng)
qed

lemma filled_keeps_ld32:
  assumes "filled v s s' buf n t f" "room s A" "A \<inter> rng buf t = {}" "rng a 4 \<subseteq> A"
  shows "ld32 (mem s') a = ld32 (mem s) a"
  by (rule ld32_cong) (use assms in \<open>unfold filled_def, blast\<close>)

text \<open>The inode in memory is all that the block map reads there.\<close>

lemma file_block_cong:
  assumes "block_size_ok bs" "offsets_agree (unat bs div 4) b" "\<And>a. rng a 4 \<subseteq> rng inp 128 \<Longrightarrow> ld32 m' a = ld32 m a"
  shows "file_block dk bs m' inp b = file_block dk bs m inp b"
proof -
  let ?h = "hd (block_path (unat bs div 4) b)"
  have "?h < 15" using block_path_bounds(1) block_ptrs(1) [OF assms(1)] assms(2) by simp
  then have "rng (inp + of_nat (40 + 4 * ?h)) 4 \<subseteq> rng inp 128" by (intro rng_offset_sub) simp_all
  then show ?thesis using assms(3) [of "inp + of_nat (40 + 4 * ?h)"] by (simp add: file_block_def Let_def add.assoc)
qed

lemma block_fits:
  fixes bs :: u32
  assumes "Suc i * unat bs \<le> n * unat bs" "n * unat bs < 2 ^ 32"
  shows "ucast (of_nat i * bs) = (of_nat (i * unat bs) :: u64)"
proof -
  have "i * unat bs < 2 ^ 32" using assms by simp
  have "unat (of_nat i * bs) = (i * unat bs) mod 2 ^ 32"
    by (simp add: unat_word_ariths unat_of_nat mod_simps)
  also have "\<dots> = i * unat bs" using \<open>i * unat bs < 2 ^ 32\<close> by simp
  finally have "unat (ucast (of_nat i * bs) :: u64) = i * unat bs" by simp
  then show ?thesis by (rule u64_of_unat)
qed

lemma get_blocks_loop_reads:
  fixes s :: "('d, 'a) io_state_scheme" and v :: "'d \<Rightarrow> ata_view" and bs :: u32 and inp :: u64
  assumes bs: "block_size_ok bs" and buf: "room s (rng buf (n * unat bs))" "buf \<noteq> 0"
      "\<forall>i < n. buf + of_nat (i * unat bs) \<noteq> 0" "rng fs 408 \<inter> rng buf (n * unat bs) = {}"
    and inp: "room s (rng inp 128)" "rng inp 128 \<inter> rng buf (n * unat bs) = {}"
    and n: "n * unat bs < 2 ^ 32" "n \<le> 12 + unat bs div 4" "n \<le> Suc (unat (ld32 (mem s) (inp + 28)))"
  defines "f \<equiv> file_byte (disk (v (dev s))) bs (mem s) inp"
  shows "fs_ready P v fs bs s1 \<Longrightarrow> filled v s s1 buf (i * unat bs) (n * unat bs) f \<Longrightarrow> i + k = n \<Longrightarrow>
    get_blocks_loop P fs inp buf i k s1 = heap_panic
    \<or> (\<exists>s'. get_blocks_loop P fs inp buf i k s1 = Inr s' \<and> fs_ready P v fs bs s'
         \<and> filled v s s' buf (n * unat bs) (n * unat bs) f)"
proof (induction k arbitrary: i s1)
  case 0
  then show ?case by simp
next
  case (Suc k)
  let ?b = "unat bs" and ?dk = "disk (v (dev s))"
  have i: "Suc i * ?b \<le> n * ?b" "i < n" using Suc.prems(3) by (auto intro: mult_le_mono1)
  have "i * 1 \<le> i * ?b" using bs by (intro mult_le_mono2) (simp add: block_size_ok_def)
  also have "\<dots> \<le> n * ?b" using i(2) by simp
  finally have n32: "i < 2 ^ 32" using n(1) by linarith
  have ui: "unat (of_nat i :: u32) = i" using n32 by (simp add: unsigned_of_nat take_bit_nat_eq_self)
  have sub: "rng (buf + of_nat (i * ?b)) ?b \<subseteq> rng buf (n * ?b)"
    using i(1) n(1) by (intro rng_offset_sub) simp_all
  have dk1: "disk (v (dev s1)) = ?dk" using Suc.prems(2) by (simp add: filled_def)
  have ld: "ld32 (mem s1) a = ld32 (mem s) a" if "rng a 4 \<subseteq> rng inp 128" for a
    by (rule filled_keeps_ld32 [OF Suc.prems(2) inp that])
  have "rng (inp + of_nat 28) 4 \<subseteq> rng inp 128" by (rule rng_offset_sub) simp_all
  from ld [OF this] have blk: "of_nat i \<le> ld32 (mem s1) (inp + 28)"
    using n(3) i(2) ui by (simp add: word_le_nat_alt)
  have agree: "offsets_agree (?b div 4) (unat (of_nat i :: u32))" using n(2) i(2) ui by (simp add: offsets_agree_def)
  have rm1: "room s1 (rng (buf + of_nat (i * ?b)) ?b)"
    using room_mono [OF buf(1) sub] filled_room [OF Suc.prems(2)] by simp
  have call: "get_blocks_loop P fs inp buf i (Suc k) s1
      = rbind (ext2_get_block P fs inp (buf + of_nat (i * ?b)) (of_nat i) s1) (get_blocks_loop P fs inp buf (Suc i) k)"
    using Suc.prems(1) by (simp add: fs_ready_def block_fits [OF i(1) n(1)])
  have fb: "file_block ?dk bs (mem s1) inp i = file_block ?dk bs (mem s) inp i"
    by (rule file_block_cong [OF bs _ ld]) (use agree ui in simp_all)
  have fi: "f (i * ?b + j) = ?dk (block_byte bs (file_block ?dk bs (mem s) inp i) + of_nat j)" if "j < ?b" for j
    using that by (simp add: f_def file_byte_def)
  from get_block_reads [OF Suc.prems(1) rm1 _ _ blk agree] buf(3,4) i(2) sub
  consider "ext2_get_block P fs inp (buf + of_nat (i * ?b)) (of_nat i) s1 = heap_panic"
    | s2 where "ext2_get_block P fs inp (buf + of_nat (i * ?b)) (of_nat i) s1 = Inr s2" "fs_ready P v fs bs s2"
      "disk_read v s1 s2 (buf + of_nat (i * ?b)) ?b (block_byte bs (file_block ?dk bs (mem s) inp i))"
    unfolding dk1 ui fb by blast
  then show ?case
  proof cases
    case 1
    show ?thesis unfolding call 1 by simp
  next
    case (2 s2)
    have "filled v s s2 buf (i * ?b + ?b) (n * ?b) f"
      using filled_more [OF Suc.prems(2) 2(3)] fi i(1) n(1) buf(1) by simp
    then have "filled v s s2 buf (Suc i * ?b) (n * ?b) f" by (simp add: add.commute)
    from Suc.IH [OF 2(2) this] Suc.prems(3) show ?thesis unfolding call 2(1) by simp
  qed
qed

text \<open>
  \<open>grown v s s'\<close>: the heap may have more objects in \<open>s'\<close>, but what was there in \<open>s\<close>, on the disk and in
  memory, is unchanged.
\<close>

definition grown :: "('d \<Rightarrow> ata_view) \<Rightarrow> ('d, 'a) io_state_scheme \<Rightarrow> ('d, 'a) io_state_scheme \<Rightarrow> bool" where
  "grown v s s' \<longleftrightarrow> heap_ok s' \<and> heap_objects s \<subseteq> heap_objects s' \<and> disk (v (dev s')) = disk (v (dev s))
     \<and> (\<forall>A x. room s A \<longrightarrow> x \<in> A \<longrightarrow> mem s' x = mem s x)"

text \<open>An area that no caller of \<open>s\<close> can name.\<close>

definition fresh_area :: "('d, 'a) io_state_scheme \<Rightarrow> u64 set \<Rightarrow> bool" where
  "fresh_area s B \<longleftrightarrow> (\<forall>A. room s A \<longrightarrow> A \<inter> B = {})"

lemma grown_room: "grown v s s' \<Longrightarrow> room s A \<Longrightarrow> room s' A"
  unfolding grown_def using room_more by blast

lemma grown_trans:
  assumes "grown v s s1" "grown v s1 s2"
  shows "grown v s s2"
proof -
  have "mem s2 x = mem s x" if "room s A" "x \<in> A" for A x
  proof -
    have "mem s2 x = mem s1 x" using assms(2) grown_room [OF assms(1) that(1)] that(2) unfolding grown_def by blast
    also have "\<dots> = mem s x" using assms(1) that unfolding grown_def by blast
    finally show ?thesis .
  qed
  then show ?thesis using assms unfolding grown_def by auto
qed

lemma fresh_grown: "grown v s s' \<Longrightarrow> fresh_area s' B \<Longrightarrow> fresh_area s B"
  unfolding fresh_area_def using grown_room by blast

lemma grown_ld32: "grown v s s' \<Longrightarrow> room s A \<Longrightarrow> rng a 4 \<subseteq> A \<Longrightarrow> ld32 (mem s') a = ld32 (mem s) a"
  by (rule ld32_cong) (unfold grown_def, blast)

lemma grown_ld64: "grown v s s' \<Longrightarrow> room s A \<Longrightarrow> rng a 8 \<subseteq> A \<Longrightarrow> ld64 (mem s') a = ld64 (mem s) a"
  by (rule ld64_cong) (unfold grown_def, blast)

lemma grown_fs_ready:
  assumes "grown v s s'" "fs_ready P v fs bs s"
  shows "fs_ready P v fs bs s'"
proof -
  have "ld32 (mem s') fs = ld32 (mem s) fs"
    by (rule grown_ld32 [OF assms(1), of "rng fs 408"]) (use assms(2) fs_field_sub [of 0 fs] in \<open>simp_all add: fs_ready_def\<close>)
  moreover have "heap_ok s'" using assms(1) by (simp add: grown_def)
  ultimately show ?thesis using assms(2) grown_room [OF assms(1)] by (simp add: fs_ready_def fs_block_size_def)
qed

lemma grown_kmalloc:
  assumes ok: "heap_ok s" and n: "0 < unat n" "unat n \<le> 2 ^ 32" and call: "kmalloc n s = Inr (p, s')"
  shows "grown v s s'" and "fresh_area s (rng p (unat n))" and "room s' (rng p (unat n))"
    and "\<exists>k. n \<le> k \<and> heap_objects s' = insert (p, k) (heap_objects s) \<and> p \<notin> fst ` heap_objects s"
    and "\<forall>i < unat n. p + of_nat i \<noteq> 0"
proof -
  note km = kmalloc_room [OF ok n call]
  have dev: "dev s' = dev s" by (subst kmalloc_fields [OF call]) simp
  show "grown v s s'" using km(1,3,5) unfolding grown_def dev by blast
  show "fresh_area s (rng p (unat n))" using km(4) unfolding fresh_area_def by blast
  show "room s' (rng p (unat n))" by (rule km(2))
  show "\<exists>k. n \<le> k \<and> heap_objects s' = insert (p, k) (heap_objects s) \<and> p \<notin> fst ` heap_objects s" by (rule km(3))
  then obtain k where k: "n \<le> k" "(p, k) \<in> heap_objects s'" by blast
  show "\<forall>i < unat n. p + of_nat i \<noteq> 0"
  proof (intro allI impI)
    fix i assume i: "i < unat n"
    then have "unat (of_nat i :: u64) = i" using n(2) by (intro unat_of_nat_u64) simp
    then have "p + of_nat i \<in> rng p (unat k)" using i k(1) by (simp add: word_le_nat_alt)
    from objects_in_span [OF km(1) k(2) this] show "p + of_nat i \<noteq> 0"
      by (auto simp: heap_span_def KERNEL_BRK_START_def)
  qed
qed

lemma grown_write:
  assumes g: "grown v s s1" and rm: "room s1 B" and fr: "fresh_area s B" and w: "\<forall>x. x \<notin> B \<longrightarrow> m x = mem s1 x"
  shows "grown v s (s1\<lparr>mem := m\<rparr>)" and "heap_ok (s1\<lparr>mem := m\<rparr>)" and "heap_objects (s1\<lparr>mem := m\<rparr>) = heap_objects s1"
proof -
  have "heap_ok s1" using g by (simp add: grown_def)
  note hw = heap_write [OF this rm, of m]
  show ok: "heap_ok (s1\<lparr>mem := m\<rparr>)" "heap_objects (s1\<lparr>mem := m\<rparr>) = heap_objects s1" using hw w by blast+
  have "m x = mem s x" if "room s A" "x \<in> A" for A x
  proof -
    have "m x = mem s1 x" using fr that w unfolding fresh_area_def by blast
    also have "\<dots> = mem s x" using g that unfolding grown_def by blast
    finally show ?thesis .
  qed
  then show "grown v s (s1\<lparr>mem := m\<rparr>)" using g ok by (auto simp: grown_def)
qed

lemma grown_read:
  assumes g: "grown v s s1" and rd: "filled v s1 s2 p n t f" and fr: "fresh_area s (rng p t)"
  shows "grown v s s2"
proof -
  have "mem s2 x = mem s x" if "room s A" "x \<in> A" for A x
  proof -
    have "x \<notin> rng p t" using fr that unfolding fresh_area_def by blast
    then have "mem s2 x = mem s1 x" using rd grown_room [OF g that(1)] that(2) unfolding filled_def by blast
    also have "\<dots> = mem s x" using g that unfolding grown_def by blast
    finally show ?thesis .
  qed
  then show ?thesis using g rd unfolding grown_def filled_def by auto
qed

lemma disk_read_filled: "disk_read v s s' buf n off \<Longrightarrow> filled v s s' buf n n (\<lambda>i. disk (v (dev s)) (off + of_nat i))"
  by (simp add: disk_read_def filled_def)

lemma grown_free:
  assumes g: "grown v s s1" and p: "(p, k) \<in> heap_objects s1" "p \<notin> fst ` heap_objects s"
  shows "grown v s (free p s1)" and "heap_objects (free p s1) = heap_objects s1 - {(p, k)}"
    and "room (free p s1) B \<Longrightarrow> x \<in> B \<Longrightarrow> mem (free p s1) x = mem s1 x"
proof -
  have ok: "heap_ok s1" using g by (simp add: grown_def)
  note fo = free_object [OF ok p(1)] and fr = free_room [OF ok p(1)]
  show ob: "heap_objects (free p s1) = heap_objects s1 - {(p, k)}" by (rule fo(2))
  show "mem (free p s1) x = mem s1 x" if "room (free p s1) B" "x \<in> B" by (rule fr [OF that])
  have dev: "dev (free p s1) = dev s1" using arg_cong [OF fo(4), of dev] by simp
  have "(p, k) \<notin> heap_objects s" using p(2) by (metis fst_conv image_eqI)
  then have sub: "heap_objects s \<subseteq> heap_objects (free p s1)" using g ob unfolding grown_def by blast
  have "mem (free p s1) x = mem s x" if "room s A" "x \<in> A" for A x
  proof -
    have "mem (free p s1) x = mem s1 x" by (rule fr [OF room_more [OF that(1) sub] that(2)])
    also have "\<dots> = mem s x" using g that unfolding grown_def by blast
    finally show ?thesis .
  qed
  then show "grown v s (free p s1)" using g fo(1) sub dev by (auto simp: grown_def)
qed

lemma nblk_facts:
  fixes sz bs :: u32
  assumes "0 < unat bs" "unat sz + unat bs < 2 ^ 32"
  defines "n \<equiv> (sz + bs - 1) div bs"
  shows "unat n = (unat sz + unat bs - 1) div unat bs" and "unat (n * bs) = unat n * unat bs"
    and "unat sz \<le> unat n * unat bs" and "unat n * unat bs < 2 ^ 32"
proof -
  let ?k = "unat sz + unat bs - 1"
  have "unat (sz + bs) = unat sz + unat bs" using assms(2) by (intro unat_add_nowrap) simp
  then have k: "unat (sz + bs - 1) = ?k" using assms(1) by (simp add: unat_sub_le)
  then show n: "unat n = ?k div unat bs" unfolding n_def by (simp add: unat_div)
  have le: "?k div unat bs * unat bs \<le> ?k" by (rule div_times_less_eq_dividend)
  have "?k < 2 ^ 32" using assms(2) by linarith
  with le show lt: "unat n * unat bs < 2 ^ 32" unfolding n by (rule order_le_less_trans)
  then show "unat (n * bs) = unat n * unat bs" by (simp add: unat_word_ariths)
  have "?k mod unat bs < unat bs" using assms(1) by simp
  moreover have "?k div unat bs * unat bs + ?k mod unat bs = ?k" by (rule div_mult_mod_eq)
  ultimately have "unat sz \<le> ?k div unat bs * unat bs" using assms(1) by linarith
  then show "unat sz \<le> unat n * unat bs" using n by simp
qed

text \<open>
  The mounted file system in memory: its structure, and the group descriptor that \<open>ino\<close> needs, are
  where callers keep them.
\<close>

definition inode_known :: "('d, 'a) io_state_scheme \<Rightarrow> u64 \<Rightarrow> u32 \<Rightarrow> bool" where
  "inode_known s fs ino \<longleftrightarrow> inodes_per_group (mem s) fs \<noteq> 0 \<and> ino mod inodes_per_group (mem s) fs \<noteq> 0
     \<and> room s (rng (fs_bgdt (mem s) fs + ucast ((ino - 1) div inodes_per_group (mem s) fs) * 32) 32)"

lemma grown_inode:
  assumes g: "grown v s s'" and rdy: "fs_ready P v fs bs s" and kn: "inode_known s fs ino"
  shows "inode_byte (mem s') fs ino = inode_byte (mem s) fs ino" and "inode_known s' fs ino"
proof -
  have fs: "room s (rng fs 408)" using rdy by (simp add: fs_ready_def)
  have ipg: "inodes_per_group (mem s') fs = inodes_per_group (mem s) fs"
    using grown_ld32 [OF g fs fs_field_sub [of 44 fs]] by (simp add: inodes_per_group_def)
  have "rng (fs + of_nat 400) 8 \<subseteq> rng fs 408" by (rule rng_offset_sub) simp_all
  from grown_ld64 [OF g fs this] have bg: "fs_bgdt (mem s') fs = fs_bgdt (mem s) fs" by (simp add: fs_bgdt_def)
  have bs: "fs_block_size (mem s') fs = fs_block_size (mem s) fs"
    using grown_ld32 [OF g fs fs_field_sub [of 0 fs]] by (simp add: fs_block_size_def)
  let ?e = "fs_bgdt (mem s) fs + ucast ((ino - 1) div inodes_per_group (mem s) fs) * 32"
  have "rng (?e + of_nat 8) 4 \<subseteq> rng ?e 32" by (rule rng_offset_sub) simp_all
  then have "ld32 (mem s') (?e + 8) = ld32 (mem s) (?e + 8)"
    using grown_ld32 [OF g, of "rng ?e 32" "?e + 8"] kn by (simp add: inode_known_def)
  then show "inode_byte (mem s') fs ino = inode_byte (mem s) fs ino" by (simp add: inode_byte_def ipg bg bs Let_def)
  show "inode_known s' fs ino" using kn grown_room [OF g] by (simp add: inode_known_def ipg bg)
qed

text \<open>The first half of \<open>ext2_read_file\<close>: a new object with a copy of the inode.\<close>

lemma load_inode:
  fixes s :: "('d, 'a) io_state_scheme"
  assumes rdy: "fs_ready P v fs bs s" and kn: "inode_known s fs ino"
  obtains "\<forall>g. rbind (kcalloc 1 128 s) (\<lambda>(ib, s). rbind (ext2_get_inode P fs ib ino s) (g ib)) = (heap_panic :: 'x res)"
  | ib k s2 where "\<forall>g :: u64 \<Rightarrow> ('d, 'a) io_state_scheme \<Rightarrow> 'x res.
        rbind (kcalloc 1 128 s) (\<lambda>(ib, s). rbind (ext2_get_inode P fs ib ino s) (g ib)) = g ib s2"
      "grown v s s2" "fs_ready P v fs bs s2" "room s2 (rng ib 128)" "rng ib 128 \<inter> rng fs 408 = {}"
      "heap_objects s2 = insert (ib, k) (heap_objects s)" "ib \<notin> fst ` heap_objects s"
      "\<forall>i < 128. mem s2 (ib + of_nat i) = disk (v (dev s)) (inode_byte (mem s) fs ino + of_nat i)"
proof -
  have f: "heap_ok s" "room s (rng fs 408)" using rdy by (simp_all add: fs_ready_def)
  have unat_128: "unat (128 :: u64) = 128" by simp
  have sz: "0 < unat (128 :: u64)" "unat (128 :: u64) \<le> 2 ^ 32" by simp_all
  from kmalloc_total [OF f(1) sz] consider "kmalloc 128 s = heap_panic" | ib s0 where "kmalloc 128 s = Inr (ib, s0)" by blast
  then show thesis
  proof cases
    case 1
    then show thesis by (intro that(1)) (simp add: kcalloc_def)
  next
    case (2 ib s0)
    note km = grown_kmalloc [OF f(1) sz 2, unfolded unat_128]
    let ?s1 = "s0\<lparr>mem := memset (mem s0) ib 0 128\<rparr>"
    have w: "\<forall>x. x \<notin> rng ib 128 \<longrightarrow> memset (mem s0) ib 0 128 x = mem s0 x" using memset_out [of _ ib 128] by simp
    note g1 = grown_write [where v = v, OF km(1) km(3,2) w]
    have call: "kcalloc 1 128 s = Inr (ib, ?s1)" by (simp add: kcalloc_def 2)
    have rm: "room ?s1 (rng ib 128)" using km(3) room_objects [OF g1(3)] by simp
    have dj: "rng fs 408 \<inter> rng ib 128 = {}" using km(2) f(2) unfolding fresh_area_def by blast
    have ib0: "ib \<noteq> 0" using km(5) [rule_format, of 0] by simp
    note gi = grown_inode [OF g1(1) rdy kn]
    have kn1: "ino mod inodes_per_group (mem ?s1) fs \<noteq> 0" "inodes_per_group (mem ?s1) fs \<noteq> 0"
      using gi(2) by (simp_all add: inode_known_def)
    from get_inode_reads [OF grown_fs_ready [OF g1(1) rdy] rm ib0 dj kn1]
    consider "ext2_get_inode P fs ib ino ?s1 = heap_panic"
      | s2 where "ext2_get_inode P fs ib ino ?s1 = Inr s2" "fs_ready P v fs bs s2"
          "disk_read v ?s1 s2 ib 128 (inode_byte (mem s) fs ino)"
      unfolding gi(1) by blast
    then show thesis
    proof cases
      case 1
      then show thesis by (intro that(1)) (simp add: call)
    next
      case (2 s2)
      obtain k where k: "heap_objects s0 = insert (ib, k) (heap_objects s)" "ib \<notin> fst ` heap_objects s" using km(4) by blast
      have g2: "grown v s s2" by (rule grown_read [OF g1(1) disk_read_filled [OF 2(3)] km(2)])
      have ob: "heap_objects s2 = heap_objects s0" using 2(3) g1(3) by (simp add: disk_read_def)
      have dk: "disk (v (dev ?s1)) = disk (v (dev s))" using g1(1) by (simp add: grown_def)
      have byte: "\<forall>i < 128. mem s2 (ib + of_nat i) = disk (v (dev s)) (inode_byte (mem s) fs ino + of_nat i)"
        using disk_read_byte [OF 2(3)] unfolding dk by blast
      have run: "\<forall>g :: u64 \<Rightarrow> ('d, 'a) io_state_scheme \<Rightarrow> 'x res.
          rbind (kcalloc 1 128 s) (\<lambda>(ib, s). rbind (ext2_get_inode P fs ib ino s) (g ib)) = g ib s2"
        using call 2(1) by simp
      have rm2: "room s2 (rng ib 128)" using km(3) room_objects [OF ob] by blast
      have dj': "rng ib 128 \<inter> rng fs 408 = {}" using dj by blast
      show thesis by (rule that(2) [OF run g2 2(2) rm2 dj' _ k(2) byte]) (simp only: ob k(1))
    qed
  qed
qed

lemma copied_field:
  assumes "\<forall>i < 128. m (ib + of_nat i) = m' (loc + of_nat i)" "k + 4 \<le> 128"
  shows "ld32 m (ib + of_nat k) = ld32 m' (loc + of_nat k)"
  unfolding ld32_def
proof (rule ldn_shift)
  fix i :: nat assume "i < 4"
  then have "k + i < 128" using assms(2) by linarith
  with assms(1) have "m (ib + of_nat (k + i)) = m' (loc + of_nat (k + i))" by blast
  then show "m (ib + of_nat k + of_nat i) = m' (loc + of_nat k + of_nat i)" by (simp add: add.assoc)
qed

lemma copied_inode:
  assumes "\<forall>i < 128. m (ib + of_nat i) = m' (loc + of_nat i)" "block_size_ok bs" "offsets_agree (unat bs div 4) b"
  shows "file_block dk bs m ib b = file_block dk bs m' loc b"
proof -
  let ?h = "hd (block_path (unat bs div 4) b)"
  have "?h < 15" using block_path_bounds(1) block_ptrs(1) [OF assms(2)] assms(3) by simp
  then have "ld32 m (ib + of_nat (40 + 4 * ?h)) = ld32 m' (loc + of_nat (40 + 4 * ?h))"
    by (intro copied_field [OF assms(1)]) simp
  then show ?thesis by (simp add: file_block_def Let_def add.assoc)
qed

text \<open>The second half: a new object with the blocks of the file.\<close>

lemma load_blocks:
  fixes s :: "('d, 'a) io_state_scheme" and v :: "'d \<Rightarrow> ata_view" and bs n :: u32
  assumes rdy: "fs_ready P v fs bs s" and ib: "room s (rng ib 128)"
    and copy: "\<forall>i < 128. mem s (ib + of_nat i) = disk (v (dev s)) (loc + of_nat i)"
    and n: "0 < unat n" "unat n * unat bs < 2 ^ 32" "unat n \<le> 12 + unat bs div 4"
      "unat n \<le> Suc (unat (ld32 (disk (v (dev s))) (loc + 28)))"
  defines "dk \<equiv> disk (v (dev s))"
  obtains "\<forall>g. rbind (kmalloc (ucast (n * bs)) s) (\<lambda>(buf, s). rbind (ext2_get_blocks P fs ib buf n s) (g buf)) = (heap_panic :: 'x res)"
  | buf k s' where "\<forall>g :: u64 \<Rightarrow> ('d, 'a) io_state_scheme \<Rightarrow> 'x res.
        rbind (kmalloc (ucast (n * bs)) s) (\<lambda>(buf, s). rbind (ext2_get_blocks P fs ib buf n s) (g buf)) = g buf s'"
      "grown v s s'" "fs_ready P v fs bs s'" "room s' (rng buf (unat n * unat bs))" "fresh_area s (rng buf (unat n * unat bs))"
      "heap_objects s' = insert (buf, k) (heap_objects s)" "buf \<notin> fst ` heap_objects s" "unat n * unat bs \<le> unat k"
      "\<forall>j < unat n * unat bs. mem s' (buf + of_nat j) = file_byte dk bs dk loc j"
proof -
  have f: "heap_ok s" "room s (rng fs 408)" "block_size_ok bs" using rdy by (simp_all add: fs_ready_def)
  have bs0: "0 < unat bs" using f(3) by (simp add: block_size_ok_def)
  let ?t = "unat n * unat bs" and ?sz = "ucast (n * bs) :: u64"
  have t: "unat ?sz = ?t" using n(2) by (simp add: unat_word_ariths)
  have sz: "0 < unat ?sz" "unat ?sz \<le> 2 ^ 32" unfolding t using n(1,2) bs0 by simp_all
  from kmalloc_total [OF f(1) sz] consider "kmalloc ?sz s = heap_panic" | buf s3 where "kmalloc ?sz s = Inr (buf, s3)" by blast
  then show thesis
  proof cases
    case 1
    then show thesis by (intro that(1)) simp
  next
    case (2 buf s3)
    note km = grown_kmalloc [OF f(1) sz 2, unfolded t]
    have g: "grown v s s3" by (rule km(1))
    have dk3: "disk (v (dev s3)) = dk" using g by (simp add: grown_def dk_def)
    have same: "mem s3 x = mem s x" if "x \<in> rng ib 128" for x using g ib that unfolding grown_def by blast
    have copy3: "\<forall>i < 128. mem s3 (ib + of_nat i) = dk (loc + of_nat i)"
    proof (intro allI impI)
      fix i :: nat assume "i < 128"
      then have "ib + of_nat i \<in> rng ib 128" by (simp add: unat_of_nat_u64)
      with copy \<open>i < 128\<close> same show "mem s3 (ib + of_nat i) = dk (loc + of_nat i)" by (simp add: dk_def)
    qed
    have dj: "rng fs 408 \<inter> rng buf ?t = {}" "rng ib 128 \<inter> rng buf ?t = {}"
      using km(2) f(2) ib unfolding fresh_area_def by blast+
    have nz: "\<forall>i < unat n. buf + of_nat (i * unat bs) \<noteq> 0"
    proof (intro allI impI)
      fix i assume "i < unat n"
      then have "i * unat bs < ?t" using bs0 by simp
      then show "buf + of_nat (i * unat bs) \<noteq> 0" using km(5) by blast
    qed
    have b0: "buf \<noteq> 0" using nz n(1) by force
    have nb: "unat n \<le> Suc (unat (ld32 (mem s3) (ib + 28)))" using copied_field [OF copy3, of 28] n(4) by (simp add: dk_def)
    have init: "filled v s3 s3 buf (0 * unat bs) ?t (file_byte (disk (v (dev s3))) bs (mem s3) ib)"
      using g by (simp add: filled_def grown_def)
    from get_blocks_loop_reads [OF f(3) km(3) b0 nz dj(1) grown_room [OF g ib] dj(2) n(2,3) nb grown_fs_ready [OF g rdy] init, of "unat n"]
    consider "ext2_get_blocks P fs ib buf n s3 = heap_panic"
      | s4 where "ext2_get_blocks P fs ib buf n s3 = Inr s4" "fs_ready P v fs bs s4"
          "filled v s3 s4 buf ?t ?t (file_byte (disk (v (dev s3))) bs (mem s3) ib)"
      unfolding ext2_get_blocks_def by auto
    then show thesis
    proof cases
      case 1
      then show thesis using 2 by (intro that(1)) simp
    next
      case (2 s4)
      obtain k where k: "?sz \<le> k" "heap_objects s3 = insert (buf, k) (heap_objects s)" "buf \<notin> fst ` heap_objects s" using km(4) by blast
      have ob: "heap_objects s4 = heap_objects s3" using 2(3) by (simp add: filled_def)
      have byte: "\<forall>j < ?t. mem s4 (buf + of_nat j) = file_byte dk bs dk loc j"
      proof (intro allI impI)
        fix j assume j: "j < ?t"
        then have "j div unat bs < unat n" by (simp add: less_mult_imp_div_less)
        then have "offsets_agree (unat bs div 4) (j div unat bs)" using n(3) by (simp add: offsets_agree_def)
        from copied_inode [OF copy3 f(3) this] 2(3) j show "mem s4 (buf + of_nat j) = file_byte dk bs dk loc j"
          by (simp add: filled_def file_byte_def dk3)
      qed
      have rm: "room s4 (rng buf ?t)" using km(3) room_objects [OF ob] by blast
      have kt: "?t \<le> unat k" using k(1) t by (simp add: word_le_nat_alt)
      have run: "\<forall>g :: u64 \<Rightarrow> ('d, 'a) io_state_scheme \<Rightarrow> 'x res.
          rbind (kmalloc ?sz s) (\<lambda>(buf, s). rbind (ext2_get_blocks P fs ib buf n s) (g buf)) = g buf s4"
        using \<open>kmalloc ?sz s = Inr (buf, s3)\<close> 2(1) by simp
      show thesis
        by (rule that(2) [OF run grown_read [OF g 2(3) km(2)] 2(2) rm km(2) _ k(3) kt byte]) (simp only: ob k(2))
    qed
  qed
qed

text \<open>\<open>ext2_read_file\<close> in three parts.\<close>

definition read_file_end ::
    "u64 \<Rightarrow> u64 \<Rightarrow> u32 \<Rightarrow> u64 \<Rightarrow> ('d, 'a) io_state_scheme \<Rightarrow> (u64 \<times> ('d, 'a) io_state_scheme) res" where
  "read_file_end fs inode_buf nblk buf s =
     (let i_size = ld32 (mem s) (fld ext2_ino ''i_size'' inode_buf);
          s = s\<lparr>mem := memset (mem s) (buf + ucast i_size) 0 (ucast (nblk * fs_block_size (mem s) fs - i_size))\<rparr>
      in Inr (buf, free inode_buf s))"

definition read_file_blocks ::
    "'d ports \<Rightarrow> u64 \<Rightarrow> u64 \<Rightarrow> ('d, 'a) io_state_scheme \<Rightarrow> (u64 \<times> ('d, 'a) io_state_scheme) res" where
  "read_file_blocks P fs inode_buf s =
     (let bs = fs_block_size (mem s) fs;
          i_size = ld32 (mem s) (fld ext2_ino ''i_size'' inode_buf)
      in if bs = 0 then Inl (Undefined ''division by zero'')
         else let nblk = (i_size + bs - 1) div bs
              in rbind (kmalloc (ucast (nblk * bs)) s) (\<lambda>(buf, s).
                 rbind (ext2_get_blocks P fs inode_buf buf nblk s) (read_file_end fs inode_buf nblk buf)))"

lemma ext2_read_file_parts:
  "ext2_read_file P fs ino s
   = rbind (kcalloc 1 128 s) (\<lambda>(ib, s). rbind (ext2_get_inode P fs ib ino s) (read_file_blocks P fs ib))"
  unfolding ext2_read_file_def read_file_blocks_def [abs_def] read_file_end_def [abs_def] layout_sizes of_nat_numeral ..

lemma read_file_end_result:
  fixes s s2 s4 :: "('d, 'a) io_state_scheme"
  assumes g2: "grown v s s2" and g4: "grown v s2 s4" and rdy: "fs_ready P v fs bs s4"
    and buf: "room s4 (rng buf (unat n * unat bs))" "fresh_area s2 (rng buf (unat n * unat bs))"
    and ob4: "heap_objects s4 = insert (buf, k) (heap_objects s2)" "buf \<notin> fst ` heap_objects s2"
    and ob2: "heap_objects s2 = insert (ib, j) (heap_objects s)" "ib \<notin> fst ` heap_objects s"
    and sz: "ld32 (mem s4) (ib + 4) = i_size" "unat i_size \<le> unat n * unat bs" "unat n * unat bs < 2 ^ 32"
      "unat n * unat bs \<le> unat k"
  shows "\<exists>s'. read_file_end fs ib n buf s4 = Inr (buf, s') \<and> grown v s s' \<and> heap_objects s' = insert (buf, k) (heap_objects s)
    \<and> (\<forall>i < unat n * unat bs. mem s' (buf + of_nat i) = (if i < unat i_size then mem s4 (buf + of_nat i) else 0))"
proof -
  let ?t = "unat n * unat bs" and ?z = "ucast (n * bs - i_size) :: u64" and ?a = "buf + ucast i_size"
  define m where "m = memset (mem s4) ?a 0 ?z"
  have nb: "unat (n * bs) = ?t" using sz(3) by (simp add: unat_word_ariths)
  have z: "unat ?z = ?t - unat i_size" using sz(2) nb by (simp add: unat_sub_le)
  have a: "?a = buf + of_nat (unat i_size)" by (simp add: unsigned_ucast_eq)
  have sub: "rng ?a (unat ?z) \<subseteq> rng buf ?t" unfolding a using z sz(2,3) by (intro rng_offset_sub) simp_all
  have w: "\<forall>x. x \<notin> rng buf ?t \<longrightarrow> m x = mem s4 x" unfolding m_def using memset_out sub by blast
  note g5 = grown_write [OF g4 buf w]
  have "heap_objects (s4\<lparr>mem := m\<rparr>) = insert (buf, k) (insert (ib, j) (heap_objects s))"
    by (simp only: g5(3) ob4(1) ob2(1))
  then have ibin: "(ib, j) \<in> heap_objects (s4\<lparr>mem := m\<rparr>)" by simp
  note fr = grown_free [OF grown_trans [OF g2 g5(1)] ibin ob2(2)]
  let ?s' = "free ib (s4\<lparr>mem := m\<rparr>)"
  have ne: "(buf, k) \<noteq> (ib, j)" "(ib, j) \<notin> heap_objects s" using ob4(2) ob2 by (force, force)
  have ob: "heap_objects ?s' = insert (buf, k) (heap_objects s)"
    unfolding fr(2) g5(3) ob4(1) ob2(1) using ne by blast
  have "rng buf ?t \<subseteq> rng buf (unat k)" by (rule rng_mono [OF sz(4)])
  then have rm: "room ?s' (rng buf ?t)" unfolding room_def ob by blast
  have "mem ?s' (buf + of_nat i) = (if i < unat i_size then mem s4 (buf + of_nat i) else 0)" if i: "i < ?t" for i
  proof -
    have ui: "unat (of_nat i :: u64) = i" using i sz(3) by (intro unat_of_nat_u64) simp
    have "mem ?s' (buf + of_nat i) = m (buf + of_nat i)" using fr(3) [OF rm] i ui by simp
    also have "\<dots> = (if i < unat i_size then mem s4 (buf + of_nat i) else 0)"
    proof (cases "i < unat i_size")
      case True
      have "buf + of_nat i \<notin> rng ?a (unat ?z)"
        using rng_offset [of "unat i_size" "unat ?z" ?t "buf + of_nat i" buf] z sz(2,3) ui True unfolding a
        by (auto simp del: in_rng)
      then show ?thesis unfolding m_def using True by (simp add: memset_out)
    next
      case False
      have "buf + of_nat i \<in> rng ?a (unat ?z)" unfolding a using False i z ui by (simp add: unat_sub_le)
      then show ?thesis unfolding m_def using False by (simp add: memset_in)
    qed
    finally show ?thesis .
  qed
  moreover have "read_file_end fs ib n buf s4 = Inr (buf, ?s')"
    using rdy by (simp add: read_file_end_def sz(1) m_def fs_ready_def Let_def)
  ultimately show ?thesis using fr(1) ob by blast
qed

lemma read_file_reads:
  fixes s :: "('d, 'a) io_state_scheme" and v :: "'d \<Rightarrow> ata_view" and fs :: u64 and ino bs :: u32
  assumes rdy: "fs_ready P v fs bs s" and kn: "inode_known s fs ino"
  defines "dk \<equiv> disk (v (dev s))"
  defines "loc \<equiv> inode_byte (mem s) fs ino"
  defines "i_size \<equiv> ld32 dk (loc + 4)"
  defines "n \<equiv> (unat i_size + unat bs - 1) div unat bs"
  assumes sz: "0 < unat i_size" "unat i_size + unat bs < 2 ^ 32" "n \<le> 12 + unat bs div 4"
      "n \<le> Suc (unat (ld32 dk (loc + 28)))"
  shows "ext2_read_file P fs ino s = heap_panic
    \<or> (\<exists>buf s' k. ext2_read_file P fs ino s = Inr (buf, s') \<and> grown v s s'
         \<and> heap_objects s' = insert (buf, k) (heap_objects s) \<and> buf \<notin> fst ` heap_objects s \<and> n * unat bs \<le> unat k
         \<and> (\<forall>j < unat i_size. mem s' (buf + of_nat j) = file_byte dk bs dk loc j)
         \<and> (\<forall>j. unat i_size \<le> j \<longrightarrow> j < n * unat bs \<longrightarrow> mem s' (buf + of_nat j) = 0))"
proof -
  have bs0: "0 < unat bs" using rdy by (simp add: fs_ready_def block_size_ok_def)
  then have bs_nz: "bs \<noteq> 0" by auto
  define nblk where "nblk = (i_size + bs - 1) div bs"
  note nb = nblk_facts [OF bs0 sz(2), folded nblk_def, folded n_def]
  have n0: "0 < unat nblk" using nb(1,3) sz(1) by (auto intro: ccontr)
  show ?thesis
  proof (rule load_inode [OF rdy kn, where 'x = "u64 \<times> ('d, 'a) io_state_scheme"])
    assume "\<forall>g. rbind (kcalloc 1 128 s) (\<lambda>(ib, s). rbind (ext2_get_inode P fs ib ino s) (g ib)) = (heap_panic :: (u64 \<times> ('d, 'a) io_state_scheme) res)"
    then show ?thesis by (simp add: ext2_read_file_parts)
  next
    fix ib k s2
    assume r2: "\<forall>g :: u64 \<Rightarrow> ('d, 'a) io_state_scheme \<Rightarrow> (u64 \<times> ('d, 'a) io_state_scheme) res.
        rbind (kcalloc 1 128 s) (\<lambda>(ib, s). rbind (ext2_get_inode P fs ib ino s) (g ib)) = g ib s2"
      and g2: "grown v s s2" "fs_ready P v fs bs s2" "room s2 (rng ib 128)" "rng ib 128 \<inter> rng fs 408 = {}"
        "heap_objects s2 = insert (ib, k) (heap_objects s)" "ib \<notin> fst ` heap_objects s"
      and copy: "\<forall>i < 128. mem s2 (ib + of_nat i) = disk (v (dev s)) (inode_byte (mem s) fs ino + of_nat i)"
    have dk2: "disk (v (dev s2)) = dk" using g2(1) by (simp add: grown_def dk_def)
    have copy2: "\<forall>i < 128. mem s2 (ib + of_nat i) = disk (v (dev s2)) (loc + of_nat i)" using copy by (simp add: dk2 dk_def loc_def)
    have sz2: "ld32 (mem s2) (ib + 4) = i_size" using copied_field [OF copy2, of 4] by (simp add: dk2 i_size_def)
    have "read_file_blocks P fs ib s2 = rbind (kmalloc (ucast (nblk * bs)) s2) (\<lambda>(buf, s).
        rbind (ext2_get_blocks P fs ib buf nblk s) (read_file_end fs ib nblk buf))"
      using g2(2) bs_nz by (simp add: read_file_blocks_def Let_def sz2 nblk_def fs_ready_def)
    then have run: "ext2_read_file P fs ino s = rbind (kmalloc (ucast (nblk * bs)) s2) (\<lambda>(buf, s).
        rbind (ext2_get_blocks P fs ib buf nblk s) (read_file_end fs ib nblk buf))"
      by (simp only: ext2_read_file_parts r2)
    have lim: "unat nblk \<le> 12 + unat bs div 4" "unat nblk \<le> Suc (unat (ld32 (disk (v (dev s2))) (loc + 28)))"
      using sz(3,4) nb(1) dk2 by (simp_all add: n_def)
    show ?thesis
    proof (rule load_blocks [OF g2(2,3) copy2 n0 nb(4) lim, where 'x = "u64 \<times> ('d, 'a) io_state_scheme"])
      assume "\<forall>g. rbind (kmalloc (ucast (nblk * bs)) s2) (\<lambda>(buf, s). rbind (ext2_get_blocks P fs ib buf nblk s) (g buf)) = (heap_panic :: (u64 \<times> ('d, 'a) io_state_scheme) res)"
      then show ?thesis by (simp add: run)
    next
      fix buf j s4
      assume r4: "\<forall>g :: u64 \<Rightarrow> ('d, 'a) io_state_scheme \<Rightarrow> (u64 \<times> ('d, 'a) io_state_scheme) res.
          rbind (kmalloc (ucast (nblk * bs)) s2) (\<lambda>(buf, s). rbind (ext2_get_blocks P fs ib buf nblk s) (g buf)) = g buf s4"
        and g4: "grown v s2 s4" "fs_ready P v fs bs s4" "room s4 (rng buf (unat nblk * unat bs))" "fresh_area s2 (rng buf (unat nblk * unat bs))"
          "heap_objects s4 = insert (buf, j) (heap_objects s2)" "buf \<notin> fst ` heap_objects s2" "unat nblk * unat bs \<le> unat j"
        and byte: "\<forall>i < unat nblk * unat bs. mem s4 (buf + of_nat i) = file_byte (disk (v (dev s2))) bs (disk (v (dev s2))) loc i"
      have "rng (ib + of_nat 4) 4 \<subseteq> rng ib 128" by (rule rng_offset_sub) simp_all
      then have sz4: "ld32 (mem s4) (ib + 4) = i_size" using grown_ld32 [OF g4(1) g2(3), of "ib + 4"] sz2 by simp
      have call: "ext2_read_file P fs ino s = read_file_end fs ib nblk buf s4" by (simp only: run r4)
      from read_file_end_result [OF g2(1) g4(1-6) g2(5,6) sz4 nb(3,4) g4(7)]
      obtain s' where s': "read_file_end fs ib nblk buf s4 = Inr (buf, s')" "grown v s s'" "heap_objects s' = insert (buf, j) (heap_objects s)"
        "\<forall>i < unat nblk * unat bs. mem s' (buf + of_nat i) = (if i < unat i_size then mem s4 (buf + of_nat i) else 0)" by blast
      have nn: "unat nblk = n" using nb(1) n_def by simp
      have "buf \<notin> fst ` heap_objects s" using g4(6) g2(5) by auto
      then show ?thesis using s' call byte g4(7) nb(3) dk2 unfolding nn by (intro disjI2 exI [of _ buf] exI [of _ s'] exI [of _ j]) auto
    qed
  qed
qed

section \<open>Directories\<close>

text \<open>The entries of a directory block from offset \<open>doff\<close> on, linked by their \<open>rec_len\<close> up to its end.\<close>

fun dir_chain :: "memory \<Rightarrow> u64 \<Rightarrow> u32 \<Rightarrow> u32 \<Rightarrow> u64 list \<Rightarrow> bool" where
  "dir_chain m dirbuf bs doff [] \<longleftrightarrow> bs \<le> doff"
| "dir_chain m dirbuf bs doff (de # des) \<longleftrightarrow> doff < bs \<and> de = dirbuf + ucast doff
     \<and> dir_chain m dirbuf bs (doff + ucast (ld16 m (de + 4))) des"

definition entry_matches :: "memory \<Rightarrow> u64 \<Rightarrow> u64 \<Rightarrow> bool" where
  "entry_matches m nm de \<longleftrightarrow> ld32 m de \<noteq> 0 \<and> strncmp m nm (de + 8) (ucast (m (de + 6))) = Some 0"

lemma dir_scan_find:
  assumes "\<forall>de \<in> set des. strncmp m nm (de + 8) (ucast (m (de + 6))) \<noteq> None" "dir_chain m dirbuf bs doff des"
  shows "dir_scan m dirbuf bs nm doff = Some (find (entry_matches m nm) des)"
  using assms
proof (induction des arbitrary: doff)
  case Nil
  then have "\<not> doff < bs" by (simp add: leD)
  then show ?case by (subst dir_scan.simps) simp
next
  case (Cons de des)
  then obtain c where c: "strncmp m nm (de + 8) (ucast (m (de + 6))) = Some c" by auto
  have de: "de = dirbuf + ucast doff" "doff < bs" using Cons.prems(2) by simp_all
  have step: "dir_scan m dirbuf bs nm doff = (if ld32 m de = 0 \<or> c \<noteq> 0
      then dir_scan m dirbuf bs nm (doff + ucast (ld16 m (de + 4))) else Some (Some de))"
    using c unfolding de(1) by (subst dir_scan.simps) (use de(2) in \<open>simp add: Let_def\<close>)
  have rest: "dir_scan m dirbuf bs nm (doff + ucast (ld16 m (de + 4))) = Some (find (entry_matches m nm) des)"
  proof (rule Cons.IH)
    show "dir_chain m dirbuf bs (doff + ucast (ld16 m (de + 4))) des"
      using Cons.prems(2) unfolding dir_chain.simps by blast
  qed (use Cons.prems(1) in simp)
  have "entry_matches m nm de \<longleftrightarrow> ld32 m de \<noteq> 0 \<and> c = 0" by (simp add: entry_matches_def c)
  then show ?case unfolding step rest by simp
qed

section \<open>Properties\<close>

text \<open>
  C25. For the blocks of a file that are direct, singly indirect, and all but the first few of the
  doubly indirect ones (and a part of the triply indirect ones), the offsets the code computes are
  those of the ext2 format: the path of the block, with every index inside its block of pointers.
\<close>

theorem ext2_block_offsets_correct:
  assumes "block_size_ok bs" and "offsets_agree (unat bs div 4) (unat blk)"
  shows "ext2_block_offsets bs blk = Inr (map int (block_path (unat bs div 4) (unat blk)))
    \<and> hd (block_path (unat bs div 4) (unat blk)) < 15
    \<and> (\<forall>i \<in> set (tl (block_path (unat bs div 4) (unat blk))). i < unat bs div 4)"
  using block_offsets_path [OF refl _ block_ptrs(2) [OF assms(1)] assms(2)] block_ptrs(1) [OF assms(1)]
    block_path_bounds [OF _ assms(2)] by simp

theorem ext2_block_offsets_correct_witness: "ext2_block_offsets 1024 300 = Inr [13, 0, 32]"
proof -
  have "block_size_ok 1024" by (simp add: block_size_ok_def)
  moreover have "offsets_agree (unat (1024 :: u32) div 4) (unat (300 :: u32))" by (simp add: offsets_agree_def)
  ultimately show ?thesis using ext2_block_offsets_correct [of 1024 300] by (simp add: block_path_def)
qed

text \<open>
  The first twelve doubly indirect blocks of a file are looked up in the single indirect block,
  with an index past its end.
\<close>

lemma ext2_block_offsets_past_end:
  assumes "block_size_ok bs" and "12 + unat bs div 4 \<le> unat blk" and "unat blk < 24 + unat bs div 4"
  shows "ext2_block_offsets bs blk = Inr [12, int (unat blk) - 12] \<and> int (unat bs div 4) \<le> int (unat blk) - 12"
proof -
  define b p where "b = unat blk" and "p = unat bs div 4"
  have p: "uint (bs div 4) = int p" by (simp add: p_def uint_nat unat_div)
  have ub: "uint blk = int b" by (simp add: b_def)
  have b: "12 + p \<le> b" "b < 24 + p" using assms(2,3) by (simp_all add: b_def p_def)
  then have "uint (blk - 12) = int b - 12" using uint_minus [of 12 blk] ub by simp
  then have "ext2_block_offsets bs blk = Inr [12, int b - 12]"
    using b by (simp add: ext2_block_offsets_def Let_def p ub EXT2_NDIR_BLK_def EXT2_IND_BLK_def)
  moreover have "int p \<le> int b - 12" using b by simp
  ultimately show ?thesis unfolding b_def p_def by blast
qed

lemma ext2_block_offsets_past_end_witness: "ext2_block_offsets 1024 268 = Inr [12, 256]"
proof -
  have "block_size_ok 1024" by (simp add: block_size_ok_def)
  then show ?thesis using ext2_block_offsets_past_end [of 1024 268] by simp
qed


text \<open>
  A volume of 1 KiB blocks with the inode table at block 5: inode 2 is a file of five bytes in block 9.
\<close>

definition sample_disk :: memory where
  "sample_disk = (st32 (st32 (st32 (\<lambda>_. 0) 5252 5) 5276 2) 5288 9)(9216 := 104, 9217 := 101, 9218 := 108, 9219 := 108, 9220 := 111)"

definition sample_fs_mem :: "memory \<Rightarrow> memory" where
  "sample_fs_mem m = st32 (st64 (st32 (st32 m 0xffffffff80300000 1024) 0xffffffff8030002c 8)
     0xffffffff80300190 0xffffffff80301000) 0xffffffff80301008 5"

definition sample_ext2 :: "ata_view io_state" where
  "sample_ext2 = sample_io\<lparr>mem := sample_fs_mem (mem sample_io), dev := sample_drive\<lparr>disk := sample_disk\<rparr>\<rparr>"

lemma sample_fs_fields:
  "ld32 (sample_fs_mem m) 0xffffffff80300000 = 1024" "ld32 (sample_fs_mem m) 0xffffffff8030002c = 8"
  "ld64 (sample_fs_mem m) 0xffffffff80300190 = 0xffffffff80301000" "ld32 (sample_fs_mem m) 0xffffffff80301008 = 5"
  by (simp_all add: sample_fs_mem_def load_store_bytes)

lemma sample_fs_mem_out:
  assumes "x \<notin> rng 0xffffffff80300000 0x2000"
  shows "sample_fs_mem m x = m x"
proof -
  have "x \<notin> rng a n" if "rng a n \<subseteq> rng 0xffffffff80300000 0x2000" for a n using assms that by blast
  then show ?thesis unfolding sample_fs_mem_def
    by (simp add: st32_other st64_other rng_subset_nat del: in_rng)
qed

lemma sample_ext2_facts:
  "fs_ready sample_ports (\<lambda>d. d) 0xffffffff80300000 1024 sample_ext2"
  "inodes_per_group (mem sample_ext2) 0xffffffff80300000 = 8" "fs_bgdt (mem sample_ext2) 0xffffffff80300000 = 0xffffffff80301000"
  "inode_byte (mem sample_ext2) 0xffffffff80300000 2 = 5248" "disk (dev sample_ext2) = sample_disk"
  "inode_known sample_ext2 0xffffffff80300000 2"
proof -
  let ?fs = "0xffffffff80300000 :: u64"
  have rm: "room sample_io (rng ?fs 0x2000)" by (rule static_room) simp_all
  have hw: "heap_ok sample_ext2"
    unfolding sample_ext2_def using heap_write(1) [OF sample_io_facts(2) rm] sample_fs_mem_out by simp
  have m: "mem sample_ext2 = sample_fs_mem (mem sample_io)" by (simp add: sample_ext2_def)
  have bsz: "fs_block_size (mem sample_ext2) ?fs = 1024" by (simp add: m fs_block_size_def sample_fs_fields)
  have "room sample_ext2 (rng ?fs 408)" by (rule static_room) simp_all
  then show "fs_ready sample_ports (\<lambda>d. d) ?fs 1024 sample_ext2"
    using hw sample_ports_drive bsz by (simp add: fs_ready_def block_size_ok_def)
  show ipg: "inodes_per_group (mem sample_ext2) ?fs = 8" by (simp add: m inodes_per_group_def sample_fs_fields)
  show bg: "fs_bgdt (mem sample_ext2) ?fs = 0xffffffff80301000" by (simp add: m fs_bgdt_def sample_fs_fields)
  show "inode_byte (mem sample_ext2) ?fs 2 = 5248"
    unfolding inode_byte_def ipg bg bsz by (simp add: m sample_fs_fields)
  show "disk (dev sample_ext2) = sample_disk" by (simp add: sample_ext2_def)
  have "room sample_ext2 (rng 0xffffffff80301000 32)" by (rule static_room) simp_all
  then show "inode_known sample_ext2 ?fs 2" by (simp add: inode_known_def ipg bg)
qed




text \<open>
  C29. The search of a directory block returns, in a chain of entries that reaches the end of the
  block, the first entry in use that compares equal. With zero-terminated names that is an entry of
  the same name, or one whose name is \<open>name_len\<close> bytes long and a prefix of what is looked up.
\<close>

theorem dir_scan_first_match:
  assumes "dir_chain m dirbuf bs 0 des" and "cstr m nm xs" and "\<forall>de \<in> set des. cstr m (de + 8) (name de)"
  shows "dir_scan m dirbuf bs nm 0 = Some (find (\<lambda>de. ld32 m de \<noteq> 0
    \<and> (ucast (m (de + 6)) = (of_nat (common_len xs (name de)) :: u64) \<or> xs = name de)) des)"
proof -
  have cmp: "strncmp m nm (de + 8) n = Some (if n = of_nat (common_len xs (name de)) then 0 else lex_diff xs (name de))"
    if "de \<in> set des" for de n using strncmp_cstr [OF assms(2)] assms(3) that by blast
  have eq: "lex_diff xs (name de) = 0 \<longleftrightarrow> xs = name de" if "de \<in> set des" for de
    using lex_diff_eq_0 cstr_nonzero assms(2,3) that by blast
  have "find (entry_matches m nm) des = find (\<lambda>de. ld32 m de \<noteq> 0
    \<and> (ucast (m (de + 6)) = (of_nat (common_len xs (name de)) :: u64) \<or> xs = name de)) des"
    by (rule find_cong) (auto simp: entry_matches_def cmp eq)
  then show ?thesis using dir_scan_find [OF _ assms(1), of nm] cmp by simp
qed

text \<open>A directory block with the one entry \<^verbatim>\<open>ab\<close>, in which \<^verbatim>\<open>abc\<close> is looked up.\<close>

definition sample_dir :: memory where
  "sample_dir = (\<lambda>_. 0)(0 := 11, 5 := 4, 6 := 2, 8 := 97, 9 := 98, 2048 := 97, 2049 := 98, 2050 := 99)"

theorem dir_scan_first_match_witness: "dir_scan sample_dir 0 1024 2048 0 = Some (Some 0)"
proof -
  have "dir_chain sample_dir 0 1024 0 [0]" by (simp add: sample_dir_def load_store_bytes)
  moreover have "cstr sample_dir 2048 [97, 98, 99]" "\<forall>de \<in> set [0]. cstr sample_dir (de + 8) [97, 98]"
    by (simp_all add: sample_dir_def)
  moreover have "sample_dir 6 = 2" "ld32 sample_dir 0 = 11" by (simp_all add: sample_dir_def load_store_bytes)
  ultimately show ?thesis using dir_scan_first_match [of sample_dir 0 1024 "[0]" 2048 "[97, 98, 99]" "\<lambda>_. [97, 98]"] by simp
qed

end
