(* ===== verification/Sched.thy ===== *)
theory Sched
  imports Ext2
begin

text \<open>
  Processes: the run queue and the context switch (\<^verbatim>\<open>src/src/kernel/sched.c\<close>), waiting and exiting
  (\<^verbatim>\<open>src/src/kernel/exit.c\<close>). Task structures and open files are objects of their own, addressed by
  pointers like the address spaces of \<^verbatim>\<open>vmm.c\<close>; a pointer that may be null is tested where the code
  follows it. A context switch replaces \<open>current\<close>: the state a scheduling routine returns is the one in
  which the task switched to continues.
\<close>

section \<open>Tasks\<close>

definition TASK_FILE_MAX :: nat where "TASK_FILE_MAX = 16"
definition PREEMPT_TICK_COUNT :: u64 where "PREEMPT_TICK_COUNT = 10"

datatype task_state = TASK_RUNNING | TASK_SLEEPING | TASK_WAITING | TASK_ZOMBIE

record task_struct =
  pid :: u32
  state :: task_state
  exit_status :: u32
  regs :: u64
  t_mm :: u64
  stack_bottom :: u64
  stack_top :: u64
  sp :: u64
  t_next :: u64
  t_prev :: u64
  parent :: u64
  children :: u64
  sibling :: u64
  fdtab :: "u64 list"
  alive_ticks :: u64

text \<open>The tables of operations an open file can point to.\<close>

datatype file_ops = No_ops | ext2_file_operations | ext2_dir_operations | stdin_ops | stdout_ops

record kfile =
  ops :: file_ops
  ino :: u32
  file_refcnt :: u32

text \<open>
  The processes of the kernel: the task structures and open files, the running task, the root of the
  process tree, and what the processor is told on a switch: the stack for system calls, the stack for
  interrupts, the page table and the stack pointer.
\<close>

record 'd proc_state = "'d fs_state" +
  tasks :: "u64 \<Rightarrow> task_struct"
  files :: "u64 \<Rightarrow> kfile"
  current :: u64
  proc_root :: u64
  current_task_stack :: u64
  tss_rsp0 :: u64
  cr3 :: u64
  cpu_rsp :: u64

definition set_task :: "u64 \<Rightarrow> (task_struct \<Rightarrow> task_struct) \<Rightarrow> ('d, 'a) proc_state_scheme \<Rightarrow> ('d, 'a) proc_state_scheme" where
  "set_task p f s = s\<lparr>tasks := (tasks s)(p := f (tasks s p))\<rparr>"

definition set_file :: "u64 \<Rightarrow> (kfile \<Rightarrow> kfile) \<Rightarrow> ('d, 'a) proc_state_scheme \<Rightarrow> ('d, 'a) proc_state_scheme" where
  "set_file p f s = s\<lparr>files := (files s)(p := f (files s p))\<rparr>"

section \<open>The run queue\<close>

text \<open>\<open>rsp\<close> is the stack pointer that \<^verbatim>\<open>switch_to_asm\<close> saves for the task that stops running.\<close>

definition switch_to :: "u64 \<Rightarrow> u64 \<Rightarrow> ('d, 'a) proc_state_scheme \<Rightarrow> ('d, 'a) proc_state_scheme res" where
  "switch_to rsp t s =
     (let current_old = current s;
          s = s\<lparr>current := t\<rparr>
      in if pid (tasks s current_old) = pid (tasks s (current s))
         then Inl (Panic ''kernel bug: switch to same process'')
         else let s = s\<lparr>current_task_stack := stack_top (tasks s t), tss_rsp0 := sp (tasks s t),
                        cr3 := p4 (mms s (t_mm (tasks s t))), cpu_rsp := sp (tasks s t)\<rparr>
              in Inr (set_task current_old (sp_update (\<lambda>_. rsp)) s))"

definition tree_insert_proc :: "u64 \<Rightarrow> u64 \<Rightarrow> ('d, 'a) proc_state_scheme \<Rightarrow> ('d, 'a) proc_state_scheme" where
  "tree_insert_proc par t s =
     (let s = set_task t (parent_update (\<lambda>_. par)) s;
          s = (if children (tasks s par) \<noteq> 0
               then set_task t (sibling_update (\<lambda>_. sibling (tasks s (children (tasks s par))))) s
               else set_task t (sibling_update (\<lambda>_. 0)) s)
      in set_task par (children_update (\<lambda>_. t)) s)"

definition sched_rr_insert_proc :: "u64 \<Rightarrow> ('d, 'a) proc_state_scheme \<Rightarrow> ('d, 'a) proc_state_scheme res" where
  "sched_rr_insert_proc t s =
     (let s = set_task t (t_next_update (\<lambda>_. t_next (tasks s (current s)))) s;
          s = set_task t (t_prev_update (\<lambda>_. current s)) s
      in if t_next (tasks s (current s)) = 0 then Inl (Undefined ''store through null current->next'')
         else let s = set_task (t_next (tasks s (current s))) (t_prev_update (\<lambda>_. t)) s
              in Inr (set_task (current s) (t_next_update (\<lambda>_. t)) s))"

definition sched_rr_remove_proc :: "u64 \<Rightarrow> ('d, 'a) proc_state_scheme \<Rightarrow> ('d, 'a) proc_state_scheme res" where
  "sched_rr_remove_proc t s =
     (if t_prev (tasks s t) = 0 \<or> t_next (tasks s t) = 0 then Inl (Undefined ''store through null list pointer'')
      else let s = set_task (t_prev (tasks s t)) (t_next_update (\<lambda>_. t_next (tasks s t))) s;
               s = set_task (t_next (tasks s t)) (t_prev_update (\<lambda>_. t_prev (tasks s t))) s;
               s = set_task t (t_next_update (\<lambda>_. 0)) s
           in Inr (set_task t (t_prev_update (\<lambda>_. 0)) s))"

definition schedule :: "u64 \<Rightarrow> ('d, 'a) proc_state_scheme \<Rightarrow> ('d, 'a) proc_state_scheme res" where
  "schedule rsp s =
     (let s = set_task (current s) (alive_ticks_update (\<lambda>_. 0)) s
      in if current s = t_next (tasks s (current s)) then Inr s
         else switch_to rsp (t_next (tasks s (current s))) s)"

definition schedule_sleep :: "u64 \<Rightarrow> ('d, 'a) proc_state_scheme \<Rightarrow> ('d, 'a) proc_state_scheme res" where
  "schedule_sleep rsp s =
     (let s = set_task (current s) (alive_ticks_update (\<lambda>_. 0)) s;
          nxt = t_next (tasks s (current s))
      in rbind (sched_rr_remove_proc (current s) s) (switch_to rsp nxt))"

definition sched_maybe_preempt :: "u64 \<Rightarrow> ('d, 'a) proc_state_scheme \<Rightarrow> ('d, 'a) proc_state_scheme res" where
  "sched_maybe_preempt rsp s =
     (let ticks = alive_ticks (tasks s (current s));
          s = set_task (current s) (alive_ticks_update (\<lambda>_. ticks + 1)) s
      in if ticks < PREEMPT_TICK_COUNT then Inr s else schedule rsp s)"

section \<open>The end of a task\<close>

text \<open>The loop of \<open>task_free\<close> over the descriptors from \<open>i\<close> on.\<close>

primrec put_files :: "u64 list \<Rightarrow> ('d, 'a) proc_state_scheme \<Rightarrow> ('d, 'a) proc_state_scheme" where
  "put_files [] s = s"
| "put_files (f # fs) s =
     put_files fs
       (if f \<noteq> 0
        then let s = set_file f (file_refcnt_update (\<lambda>r. r - 1)) s
             in if file_refcnt (files s f) = 0 then free f s else s
        else s)"

definition task_free :: "u64 \<Rightarrow> ('d, 'a) proc_state_scheme \<Rightarrow> ('d, 'a) proc_state_scheme res" where
  "task_free t s =
     rbind (mm_free (t_mm (tasks s t)) s) (\<lambda>s.
     let s = free (stack_bottom (tasks s t)) s;
         s = put_files (fdtab (tasks s t)) s
     in Inr (free t s))"

text \<open>The search for a zombie along the siblings; null when there is none.\<close>

partial_function (option) find_zombie :: "(u64 \<Rightarrow> task_struct) \<Rightarrow> u64 \<Rightarrow> u64 option" where
  "find_zombie T child =
     (if child = 0 then Some 0
      else if state (T child) = TASK_ZOMBIE then Some child
      else find_zombie T (sibling (T child)))"

text \<open>
  One pass of \<open>do_wait\<close> up to \<^verbatim>\<open>goto retry\<close>: either a child is reaped and its pid returned, or the
  task goes to sleep, and makes another pass when it runs again.
\<close>

datatype wait_outcome = Reaped u32 | Retry

definition do_wait ::
    "u64 \<Rightarrow> u64 \<Rightarrow> u64 \<Rightarrow> ('d, 'a) proc_state_scheme \<Rightarrow> (wait_outcome \<times> ('d, 'a) proc_state_scheme) res" where
  "do_wait rsp t wstatus s =
     rbind (ends (find_zombie (tasks s) (children (tasks s t)))) (\<lambda>child.
     if child = 0
     then let s = set_task (current s) (state_update (\<lambda>_. TASK_WAITING)) s
          in rbind (schedule_sleep rsp s) (\<lambda>s. Inr (Retry, s))
     else let s = s\<lparr>mem := st32 (mem s) wstatus (exit_status (tasks s t))\<rparr>;
              ret = pid (tasks s child)
          in rbind (task_free child s) (\<lambda>s. Inr (Reaped ret, s)))"

definition do_exit :: "u64 \<Rightarrow> u64 \<Rightarrow> u32 \<Rightarrow> ('d, 'a) proc_state_scheme \<Rightarrow> ('d, 'a) proc_state_scheme res" where
  "do_exit rsp t status s =
     (let s = set_task t (state_update (\<lambda>_. TASK_ZOMBIE)) s;
          s = set_task t (exit_status_update (\<lambda>_. status)) s;
          par = parent (tasks s t)
      in if par = 0 then Inl (Undefined ''read through null parent'')
         else rbind (if state (tasks s par) = TASK_WAITING
                     then rbind (sched_rr_insert_proc par s) (\<lambda>s. Inr (set_task par (state_update (\<lambda>_. TASK_RUNNING)) s))
                     else Inr s)
                (schedule_sleep rsp))"

end
