(* ===== verification/Run_Queue.thy ===== *)
theory Run_Queue
  imports Sched
begin

text \<open>
  The run queue as a ring: the list of runnable tasks, starting with the one that runs, against the
  two pointers of every task structure. Scheduling rotates the list, forking and waking insert behind
  its head, sleeping and exiting drop its head.
\<close>

section \<open>Rings\<close>

definition link :: "(u64 \<Rightarrow> task_struct) \<Rightarrow> u64 \<Rightarrow> u64 \<Rightarrow> bool" where
  "link T a b \<longleftrightarrow> t_next (T a) = b \<and> t_prev (T b) = a"

definition ring :: "(u64 \<Rightarrow> task_struct) \<Rightarrow> u64 list \<Rightarrow> bool" where
  "ring T xs \<longleftrightarrow> xs \<noteq> [] \<and> distinct xs \<and> 0 \<notin> set xs \<and> successively (link T) (xs @ [hd xs])"

text \<open>The queue of a state: the ring from the running task on.\<close>

definition run_queue :: "('d, 'a) proc_state_scheme \<Rightarrow> u64 list \<Rightarrow> bool" where
  "run_queue s xs \<longleftrightarrow> ring (tasks s) xs \<and> current s = hd xs"

lemma successively_weaken:
  assumes "successively P ys" "\<And>a b. a \<in> set (butlast ys) \<Longrightarrow> b \<in> set (tl ys) \<Longrightarrow> P a b \<Longrightarrow> Q a b"
  shows "successively Q ys"
  using assms
proof (induction ys rule: induct_list012)
  case (3 x y zs)
  have "successively Q (y # zs)"
  proof (rule 3(2))
    show "successively P (y # zs)" using 3(3) by simp
    fix a b assume "a \<in> set (butlast (y # zs))" "b \<in> set (tl (y # zs))" "P a b"
    then show "Q a b" using 3(4) [of a b] by simp
  qed
  moreover have "Q x y" using 3(3) 3(4) [of x y] by simp
  ultimately show ?case by simp
qed simp_all

lemma ring_Cons: "ring T (x # xs) \<longleftrightarrow> distinct (x # xs) \<and> 0 \<notin> set (x # xs) \<and> successively (link T) (x # xs @ [x])"
  by (simp add: ring_def)

lemma ring_next: "ring T (x # xs) \<Longrightarrow> t_next (T x) = hd (xs @ [x]) \<and> t_prev (T (hd (xs @ [x]))) = x"
  by (cases xs) (auto simp: ring_Cons link_def)

lemma ring_prev: "ring T (x # xs) \<Longrightarrow> t_prev (T x) = last (x # xs) \<and> t_next (T (last (x # xs))) = x"
  using successively_append_iff [of "link T" "x # xs" "[x]"] by (auto simp: ring_Cons link_def)

lemma ring_rotate:
  assumes "ring T (x # xs)"
  shows "ring T (xs @ [x])"
proof (cases xs)
  case (Cons y ys)
  have "successively (link T) (y # ys @ [x])" "link T x y" using assms Cons by (simp_all add: ring_Cons)
  then have "successively (link T) (y # ys @ [x, y])"
    using successively_append_iff [of "link T" "y # ys @ [x]" "[y]"] by simp
  with assms Cons show ?thesis by (auto simp: ring_def)
qed (use assms in simp)

lemma ring_cong:
  assumes "\<And>t. t \<in> set xs \<Longrightarrow> t_next (T' t) = t_next (T t) \<and> t_prev (T' t) = t_prev (T t)"
  shows "ring T' xs \<longleftrightarrow> ring T xs"
proof -
  have *: "ring T2 xs" if "ring T1 xs" "\<And>t. t \<in> set xs \<Longrightarrow> t_next (T2 t) = t_next (T1 t) \<and> t_prev (T2 t) = t_prev (T1 t)" for T1 T2
  proof -
    have "successively (link T2) (xs @ [hd xs])"
      by (rule successively_weaken [of "link T1"])
        (use that in \<open>auto simp: ring_def link_def butlast_append tl_append split: if_splits list.splits\<close>)
    with that(1) show ?thesis by (simp add: ring_def)
  qed
  show ?thesis using *[of T T'] *[of T' T] assms by metis
qed

lemma ring_insert:
  assumes r: "ring T (x # xs)" and t: "t \<notin> set (x # xs)" "t \<noteq> 0" and y: "y = hd (xs @ [x])"
    and nx: "\<And>a. t_next (T' a) = (if a = x then t else if a = t then y else t_next (T a))"
    and pv: "\<And>a. t_prev (T' a) = (if a = y then t else if a = t then x else t_prev (T a))"
  shows "ring T' (x # t # xs)"
proof -
  obtain l where l: "xs @ [x] = y # l" using y by (cases xs) auto
  have ne: "t \<noteq> x" "t \<noteq> y" using t y by (cases xs; auto)+
  have "distinct (xs @ [x])" using r by (auto simp: ring_Cons)
  then have yl: "y \<notin> set l" unfolding l by simp
  have bl: "butlast (y # l) = xs" using l by (metis butlast_snoc)
  have "set l \<subseteq> set (x # xs)" using l by (metis set_append list.set(1,2) insert_subset set_subset_Cons Un_insert_right sup_bot_right)
  then have tl: "t \<notin> set l" using t(1) by blast
  have "successively (link T') (y # l)"
  proof (rule successively_weaken [of "link T"])
    show "successively (link T) (y # l)" using r unfolding ring_Cons l by (cases l) auto
    fix a b assume ab: "a \<in> set (butlast (y # l))" "b \<in> set (tl (y # l))" "link T a b"
    then have "a \<noteq> x" "a \<noteq> t" "b \<noteq> y" "b \<noteq> t" using bl r t(1) yl tl by (auto simp: ring_Cons)
    then show "link T' a b" using ab(3) by (simp add: link_def nx pv)
  qed
  then have "successively (link T') (x # t # xs @ [x])" unfolding l using ne by (simp add: link_def nx pv)
  then show ?thesis using r t by (auto simp: ring_Cons)
qed

lemma ring_remove:
  assumes r: "ring T (x # y # xs)" and z: "z = last (y # xs)"
    and nx: "\<And>a. a \<noteq> x \<Longrightarrow> t_next (T' a) = (if a = z then y else t_next (T a))"
    and pv: "\<And>a. a \<noteq> x \<Longrightarrow> t_prev (T' a) = (if a = y then z else t_prev (T a))"
  shows "ring T' (y # xs)"
proof -
  let ?l = "y # xs"
  have d: "distinct ?l" "x \<notin> set ?l" using r by (simp_all add: ring_Cons)
  have zl: "?l = butlast ?l @ [z]" unfolding z by simp
  then have zb: "z \<notin> set (butlast ?l)" using d(1) by (metis distinct_append not_distinct_conv_prefix disjoint_iff list.set_intros(1))
  have "successively (link T') ?l"
  proof (rule successively_weaken [of "link T"])
    show "successively (link T) ?l"
      using r successively_append_iff [of "link T" ?l "[x]"] by (simp add: ring_Cons)
    fix a b assume ab: "a \<in> set (butlast ?l)" "b \<in> set (tl ?l)" "link T a b"
    have "a \<noteq> x" using in_set_butlastD [OF ab(1)] d(2) by auto
    moreover have "a \<noteq> z" using ab(1) zb by auto
    moreover have "b \<noteq> x" "b \<noteq> y" using ab(2) d by auto
    ultimately show "link T' a b" using ab(3) by (simp add: link_def nx pv)
  qed
  moreover have "z \<in> set ?l" unfolding z by (rule last_in_set) simp
  then have "z \<noteq> x" "y \<noteq> x" using d by auto
  then have "link T' z y" by (simp add: link_def nx pv)
  ultimately have "successively (link T') (?l @ [y])" unfolding successively_append_iff using z by simp
  then show ?thesis using r by (simp add: ring_Cons)
qed

section \<open>The operations\<close>

text \<open>Everything of a task but its place in the queue.\<close>

definition same_task :: "task_struct \<Rightarrow> task_struct \<Rightarrow> bool" where
  "same_task a b \<longleftrightarrow> a\<lparr>t_next := 0, t_prev := 0\<rparr> = b\<lparr>t_next := 0, t_prev := 0\<rparr>"

lemma same_task_fields:
  "same_task a b \<Longrightarrow> state a = state b \<and> pid a = pid b \<and> parent a = parent b \<and> children a = children b
     \<and> sibling a = sibling b \<and> alive_ticks a = alive_ticks b \<and> sp a = sp b \<and> stack_top a = stack_top b \<and> t_mm a = t_mm b"
  by (cases a; cases b) (simp add: same_task_def)

lemma set_task_simps [simp]:
  "tasks (set_task p f s) = (tasks s)(p := f (tasks s p))" "current (set_task p f s) = current s"
  "mms (set_task p f s) = mms s" "mem (set_task p f s) = mem s"
  by (simp_all add: set_task_def)

lemma insert_proc_ring:
  assumes q: "run_queue s (x # xs)" and t: "t \<notin> set (x # xs)" "t \<noteq> 0"
  shows "\<exists>s'. sched_rr_insert_proc t s = Inr s' \<and> run_queue s' (x # t # xs) \<and> (\<forall>a. same_task (tasks s' a) (tasks s a))"
proof -
  let ?y = "hd (xs @ [x])"
  have r: "ring (tasks s) (x # xs)" and cur: "current s = x" using q by (simp_all add: run_queue_def)
  have nx: "t_next (tasks s x) = ?y" using ring_next [OF r] by simp
  have y: "?y \<in> set (x # xs)" by (cases xs) auto
  then have y0: "?y \<noteq> 0" using r by (auto simp: ring_Cons)
  have tx: "t \<noteq> x" "t \<noteq> ?y" using t y by auto
  define s' where "s' = set_task x (t_next_update (\<lambda>_. t)) (set_task ?y (t_prev_update (\<lambda>_. t))
      (set_task t (t_prev_update (\<lambda>_. x)) (set_task t (t_next_update (\<lambda>_. ?y)) s)))"
  have call: "sched_rr_insert_proc t s = Inr s'"
    using tx y0 by (simp add: sched_rr_insert_proc_def Let_def cur nx s'_def)
  have "ring (tasks s') (x # t # xs)"
    by (rule ring_insert [OF r t refl]) (use tx in \<open>auto simp: s'_def\<close>)
  then have "run_queue s' (x # t # xs)" using cur by (simp add: run_queue_def s'_def)
  moreover have "same_task (tasks s' a) (tasks s a)" for a by (auto simp: s'_def same_task_def)
  ultimately show ?thesis using call by blast
qed

lemma remove_proc_ring:
  assumes r: "ring (tasks s) (x # y # xs)"
  shows "\<exists>s'. sched_rr_remove_proc x s = Inr s' \<and> ring (tasks s') (y # xs) \<and> current s' = current s \<and> mms s' = mms s
    \<and> mem s' = mem s \<and> t_next (tasks s' x) = 0 \<and> t_prev (tasks s' x) = 0 \<and> (\<forall>a. same_task (tasks s' a) (tasks s a))"
proof -
  let ?z = "last (y # xs)"
  have nx: "t_next (tasks s x) = y" and pv: "t_prev (tasks s x) = ?z" using ring_next [OF r] ring_prev [OF r] by simp_all
  have z: "?z \<in> set (y # xs)" by (rule last_in_set) simp
  have d: "x \<notin> set (y # xs)" "0 \<notin> set (y # xs)" using r by (simp_all add: ring_Cons)
  have "?z \<noteq> x" using z d(1) by metis
  moreover have "?z \<noteq> 0" using z d(2) by metis
  ultimately have ne: "?z \<noteq> x" "y \<noteq> x" "?z \<noteq> 0" "y \<noteq> 0" using d by auto
  define s' where "s' = set_task x (t_prev_update (\<lambda>_. 0)) (set_task x (t_next_update (\<lambda>_. 0))
      (set_task y (t_prev_update (\<lambda>_. ?z)) (set_task ?z (t_next_update (\<lambda>_. y)) s)))"
  have call: "sched_rr_remove_proc x s = Inr s'"
    using ne by (simp add: sched_rr_remove_proc_def Let_def nx pv s'_def del: last.simps)
  have "ring (tasks s') (y # xs)"
    by (rule ring_remove [OF r refl]) (use ne in \<open>auto simp: s'_def simp del: last.simps\<close>)
  moreover have "same_task (tasks s' a) (tasks s a)" for a by (auto simp: s'_def same_task_def)
  moreover have "t_next (tasks s' x) = 0" "t_prev (tasks s' x) = 0" "current s' = current s" "mms s' = mms s" "mem s' = mem s"
    by (simp_all add: s'_def)
  ultimately show ?thesis using call by blast
qed

text \<open>What scheduling leaves alone in every task.\<close>

definition same_id :: "task_struct \<Rightarrow> task_struct \<Rightarrow> bool" where
  "same_id a b \<longleftrightarrow> pid a = pid b \<and> state a = state b \<and> parent a = parent b \<and> children a = children b
     \<and> sibling a = sibling b \<and> exit_status a = exit_status b \<and> fdtab a = fdtab b"

lemma same_task_id: "same_task a b \<Longrightarrow> same_id a b"
  by (cases a; cases b) (simp add: same_task_def same_id_def)

lemma same_id_refl [simp]: "same_id a a"
  by (simp add: same_id_def)

lemma same_id_trans: "same_id a b \<Longrightarrow> same_id b c \<Longrightarrow> same_id a c"
  by (simp add: same_id_def)

lemma switch_to_other:
  assumes "pid (tasks s (current s)) \<noteq> pid (tasks s t)"
  shows "\<exists>s'. switch_to rsp t s = Inr s' \<and> current s' = t \<and> mem s' = mem s \<and> mms s' = mms s
    \<and> tasks s' = (tasks s)(current s := (tasks s (current s))\<lparr>sp := rsp\<rparr>)
    \<and> current_task_stack s' = stack_top (tasks s t) \<and> tss_rsp0 s' = sp (tasks s t) \<and> cr3 s' = p4 (mms s (t_mm (tasks s t)))"
  using assms by (simp add: switch_to_def Let_def) (simp add: set_task_def)

lemma schedule_rotates:
  assumes q: "run_queue s (x # y # xs)" and p: "pid (tasks s x) \<noteq> pid (tasks s y)"
  shows "\<exists>s'. schedule rsp s = Inr s' \<and> run_queue s' (y # xs @ [x]) \<and> mem s' = mem s \<and> alive_ticks (tasks s' x) = 0
    \<and> cr3 s' = p4 (mms s (t_mm (tasks s y))) \<and> (\<forall>a. same_id (tasks s' a) (tasks s a))"
proof -
  let ?s = "set_task x (alive_ticks_update (\<lambda>_. 0)) s"
  have r: "ring (tasks s) (x # y # xs)" and cur: "current s = x" using q by (simp_all add: run_queue_def)
  have xy: "x \<noteq> y" using r by (simp add: ring_Cons)
  have nx: "t_next (tasks s x) = y" using ring_next [OF r] by simp
  have "pid (tasks ?s (current ?s)) \<noteq> pid (tasks ?s y)" using p xy by (simp add: cur)
  from switch_to_other [OF this, of rsp] obtain s' where s': "switch_to rsp y ?s = Inr s'" "current s' = y" "mem s' = mem s"
    "tasks s' = (tasks ?s)(x := (tasks ?s x)\<lparr>sp := rsp\<rparr>)" "cr3 s' = p4 (mms s (t_mm (tasks s y)))"
    using xy by (auto simp: cur)
  have "schedule rsp s = Inr s'" using s'(1) xy by (simp add: schedule_def Let_def cur nx)
  moreover have "ring (tasks s') (x # y # xs)" using r by (subst ring_cong [of _ _ "tasks s"]) (simp_all add: s'(4))
  then have "run_queue s' (y # xs @ [x])" using ring_rotate [of "tasks s'" x "y # xs"] s'(2) by (simp add: run_queue_def)
  moreover have "alive_ticks (tasks s' x) = 0" "\<forall>a. same_id (tasks s' a) (tasks s a)"
    by (simp_all add: s'(4) same_id_def)
  ultimately show ?thesis using s'(3,5) by blast
qed

lemma schedule_alone:
  assumes q: "run_queue s [x]"
  shows "schedule rsp s = Inr (set_task x (alive_ticks_update (\<lambda>_. 0)) s) \<and> run_queue (set_task x (alive_ticks_update (\<lambda>_. 0)) s) [x]"
proof -
  have r: "ring (tasks s) [x]" and cur: "current s = x" using q by (simp_all add: run_queue_def)
  have "ring (tasks (set_task x (alive_ticks_update (\<lambda>_. 0)) s)) [x]"
    using r by (subst ring_cong [of _ _ "tasks s"]) simp_all
  then show ?thesis using ring_next [OF r] by (simp add: schedule_def Let_def cur run_queue_def)
qed

lemma schedule_sleep_drops:
  assumes q: "run_queue s (x # y # xs)" and p: "pid (tasks s x) \<noteq> pid (tasks s y)"
  shows "\<exists>s'. schedule_sleep rsp s = Inr s' \<and> run_queue s' (y # xs) \<and> mem s' = mem s \<and> (\<forall>a. same_id (tasks s' a) (tasks s a))"
proof -
  let ?s = "set_task x (alive_ticks_update (\<lambda>_. 0)) s"
  have r: "ring (tasks s) (x # y # xs)" and cur: "current s = x" using q by (simp_all add: run_queue_def)
  have xy: "x \<noteq> y" "x \<notin> set (y # xs)" using r by (simp_all add: ring_Cons)
  have nx: "t_next (tasks s x) = y" using ring_next [OF r] by simp
  have "ring (tasks ?s) (x # y # xs)" using r by (subst ring_cong [of _ _ "tasks s"]) simp_all
  from remove_proc_ring [OF this] obtain s1 where s1: "sched_rr_remove_proc x ?s = Inr s1" "ring (tasks s1) (y # xs)"
    "current s1 = x" "mem s1 = mem s" "\<forall>a. same_task (tasks s1 a) (tasks ?s a)" by (auto simp: cur)
  have id1: "\<forall>a. same_id (tasks s1 a) (tasks s a)"
  proof
    fix a
    have "same_id (tasks s1 a) (tasks ?s a)" using s1(5) same_task_id by blast
    moreover have "same_id (tasks ?s a) (tasks s a)" by (simp add: same_id_def)
    ultimately show "same_id (tasks s1 a) (tasks s a)" by (rule same_id_trans)
  qed
  have "pid (tasks s1 (current s1)) \<noteq> pid (tasks s1 y)" using p id1 s1(3) by (simp add: same_id_def)
  from switch_to_other [OF this, of rsp] obtain s' where s': "switch_to rsp y s1 = Inr s'" "current s' = y" "mem s' = mem s1"
    "tasks s' = (tasks s1)(x := (tasks s1 x)\<lparr>sp := rsp\<rparr>)" by (auto simp: s1(3))
  have "schedule_sleep rsp s = Inr s'" using s1(1) s'(1) by (simp add: schedule_sleep_def Let_def cur nx)
  moreover have "ring (tasks s') (y # xs)" using s1(2) xy(2) by (subst ring_cong [of _ _ "tasks s1"]) (auto simp: s'(4))
  moreover have "same_id (tasks s' a) (tasks s a)" for a using id1 by (simp add: s'(4) same_id_def)
  ultimately show ?thesis using s' s1(4) by (simp add: run_queue_def)
qed

text \<open>The last runnable task must not go to sleep.\<close>

lemma schedule_sleep_alone:
  assumes q: "run_queue s [x]"
  shows "schedule_sleep rsp s = Inl (Panic ''kernel bug: switch to same process'')"
proof -
  have r: "ring (tasks s) [x]" and cur: "current s = x" using q by (simp_all add: run_queue_def)
  have "t_next (tasks s x) = x" "t_prev (tasks s x) = x" "x \<noteq> 0" using ring_next [OF r] ring_prev [OF r] r by (simp_all add: ring_Cons)
  then show ?thesis by (simp add: schedule_sleep_def Let_def cur sched_rr_remove_proc_def switch_to_def)
qed

section \<open>Round robin\<close>

text \<open>
  A queue whose head is served, with one operation that moves on: every element of the queue is served
  within as many turns as the queue is long.
\<close>

primrec turns :: "('s \<Rightarrow> 's res) \<Rightarrow> nat \<Rightarrow> 's \<Rightarrow> 's res" where
  "turns turn 0 s = Inr s"
| "turns turn (Suc k) s = rbind (turn s) (turns turn k)"

locale round_robin =
  fixes queue :: "'s \<Rightarrow> 'p list \<Rightarrow> bool"
    and turn :: "'s \<Rightarrow> 's res"
  assumes turn_queue: "queue s (x # xs) \<Longrightarrow> \<exists>s'. turn s = Inr s' \<and> queue s' (xs @ [x])"
begin

lemma turns_rotate:
  "queue s xs \<Longrightarrow> xs \<noteq> [] \<Longrightarrow> \<exists>s'. turns turn k s = Inr s' \<and> queue s' (rotate k xs)"
proof (induction k arbitrary: s xs)
  case (Suc k)
  obtain x l where xs: "xs = x # l" using Suc.prems(2) by (cases xs) auto
  with turn_queue Suc.prems(1) obtain s1 where s1: "turn s = Inr s1" "queue s1 (l @ [x])" by blast
  from Suc.IH [OF s1(2)] obtain s' where "turns turn k s1 = Inr s'" "queue s' (rotate k (l @ [x]))" by blast
  moreover have "rotate k (l @ [x]) = rotate (Suc k) xs" by (simp add: xs rotate1_rotate_swap)
  ultimately show ?case using s1(1) by simp
qed simp

lemma served:
  assumes "queue s xs" "p \<in> set xs"
  shows "\<exists>k < length xs. \<exists>s' ys. turns turn k s = Inr s' \<and> queue s' (p # ys)"
proof -
  obtain k where k: "k < length xs" "xs ! k = p" using assms(2) by (auto simp: in_set_conv_nth)
  have "xs \<noteq> []" using assms(2) by auto
  from turns_rotate [OF assms(1) this] obtain s' where s': "turns turn k s = Inr s'" "queue s' (rotate k xs)" by blast
  have "rotate k xs = p # drop (Suc k) xs @ take k xs"
    using k by (simp add: rotate_drop_take Cons_nth_drop_Suc flip: Cons_nth_drop_Suc)
  with s' k(1) show ?thesis by auto
qed

end

definition pids_distinct :: "('d, 'a) proc_state_scheme \<Rightarrow> u64 list \<Rightarrow> bool" where
  "pids_distinct s xs \<longleftrightarrow> distinct (map (\<lambda>t. pid (tasks s t)) xs)"

interpretation rr: round_robin "\<lambda>s xs. run_queue s xs \<and> pids_distinct s xs" "schedule rsp" for rsp
proof (unfold_locales, goal_cases)
  case (1 s x xs)
  note a = 1
  show ?case
  proof (cases xs)
    case Nil
    then show ?thesis using schedule_alone [of s x rsp] a by (simp add: pids_distinct_def)
  next
    case (Cons y ys)
    then have "pid (tasks s x) \<noteq> pid (tasks s y)" using a by (auto simp: pids_distinct_def)
    from schedule_rotates [of s x y ys, OF _ this, of rsp] a Cons
    obtain s' where s': "schedule rsp s = Inr s'" "run_queue s' (y # ys @ [x])" "\<forall>t. same_id (tasks s' t) (tasks s t)" by auto
    have "map (\<lambda>t. pid (tasks s' t)) (xs @ [x]) = map (\<lambda>t. pid (tasks s t)) (xs @ [x])" using s'(3) by (simp add: same_id_def)
    then have "pids_distinct s' (xs @ [x])" unfolding pids_distinct_def using a by (simp only: pids_distinct_def) auto
    with s'(1,2) Cons show ?thesis by simp
  qed
qed

section \<open>Timer ticks\<close>

lemma preempt_queue:
  assumes q: "run_queue s (x # xs)" and p: "pids_distinct s (x # xs)"
  shows "\<exists>s'. sched_maybe_preempt rsp s = Inr s' \<and> (\<forall>a. same_id (tasks s' a) (tasks s a)) \<and> mem s' = mem s
    \<and> (if alive_ticks (tasks s x) < PREEMPT_TICK_COUNT
       then run_queue s' (x # xs) \<and> alive_ticks (tasks s' x) = alive_ticks (tasks s x) + 1
       else run_queue s' (xs @ [x]) \<and> alive_ticks (tasks s' x) = 0)"
proof -
  let ?t = "alive_ticks (tasks s x)" and ?s = "set_task x (alive_ticks_update (\<lambda>_. alive_ticks (tasks s x) + 1)) s"
  have r: "ring (tasks s) (x # xs)" and cur: "current s = x" using q by (simp_all add: run_queue_def)
  have "ring (tasks ?s) (x # xs)" using r by (subst ring_cong [of _ _ "tasks s"]) simp_all
  then have q': "run_queue ?s (x # xs)" by (simp add: run_queue_def cur)
  have id: "\<forall>a. same_id (tasks ?s a) (tasks s a)" by (simp add: same_id_def)
  show ?thesis
  proof (cases "?t < PREEMPT_TICK_COUNT")
    case True
    then show ?thesis using q' id by (simp add: sched_maybe_preempt_def Let_def cur)
  next
    case False
    then have call: "sched_maybe_preempt rsp s = schedule rsp ?s" by (simp add: sched_maybe_preempt_def Let_def cur)
    show ?thesis
    proof (cases xs)
      case Nil
      then show ?thesis unfolding call using schedule_alone [of ?s x rsp] q' False by (simp add: same_id_def)
    next
      case (Cons y ys)
      have "x \<noteq> y" using r Cons by (simp add: ring_Cons)
      then have "pid (tasks ?s x) \<noteq> pid (tasks ?s y)" using p Cons by (auto simp: pids_distinct_def)
      from schedule_rotates [OF _ this, of ys rsp] q' Cons
      obtain s' where s': "schedule rsp ?s = Inr s'" "run_queue s' (xs @ [x])" "mem s' = mem s" "alive_ticks (tasks s' x) = 0"
        "\<forall>a. same_id (tasks s' a) (tasks ?s a)" by auto
      have "\<forall>a. same_id (tasks s' a) (tasks s a)" using s'(5) id same_id_trans by blast
      then show ?thesis unfolding call using s' False by auto
    qed
  qed
qed

section \<open>Exit\<close>

lemma set_task_queue:
  assumes "run_queue s xs" "\<And>t. t_next (f t) = t_next t \<and> t_prev (f t) = t_prev t"
  shows "run_queue (set_task p f s) xs"
  using assms by (simp add: run_queue_def) (subst ring_cong [of _ _ "tasks s"], simp_all)

lemma do_exit_queue:
  assumes q: "run_queue s (x # xs)" and par: "p = parent (tasks s x)" "p \<noteq> 0" "p \<noteq> x"
    and wq: "state (tasks s p) = TASK_WAITING \<Longrightarrow> p \<notin> set xs" "state (tasks s p) \<noteq> TASK_WAITING \<Longrightarrow> xs \<noteq> []"
    and pids: "pid (tasks s x) \<noteq> pid (tasks s (if state (tasks s p) = TASK_WAITING then p else hd xs))"
  shows "\<exists>s'. do_exit rsp x st s = Inr s' \<and> run_queue s' (if state (tasks s p) = TASK_WAITING then p # xs else xs)
    \<and> state (tasks s' x) = TASK_ZOMBIE \<and> exit_status (tasks s' x) = st
    \<and> (\<forall>a. a \<noteq> x \<longrightarrow> same_id (tasks s' a) ((tasks s a)\<lparr>state := if a = p \<and> state (tasks s p) = TASK_WAITING then TASK_RUNNING else state (tasks s a)\<rparr>))
    \<and> same_id (tasks s' x) ((tasks s x)\<lparr>state := TASK_ZOMBIE, exit_status := st\<rparr>)"
proof -
  let ?s1 = "set_task x (exit_status_update (\<lambda>_. st)) (set_task x (state_update (\<lambda>_. TASK_ZOMBIE)) s)"
  have q1: "run_queue ?s1 (x # xs)" by (intro set_task_queue q) simp_all
  show ?thesis
  proof (cases "state (tasks s p) = TASK_WAITING")
    case True
    have pn: "p \<notin> set (x # xs)" using wq(1) [OF True] par(3) by simp
    from insert_proc_ring [OF q1 pn par(2)] obtain s2 where s2: "sched_rr_insert_proc p ?s1 = Inr s2" "run_queue s2 (x # p # xs)"
      "\<forall>a. same_task (tasks s2 a) (tasks ?s1 a)" by blast
    have i2: "same_id (tasks s2 a) (tasks ?s1 a)" for a using s2(3) same_task_id by blast
    let ?s3 = "set_task p (state_update (\<lambda>_. TASK_RUNNING)) s2"
    have q3: "run_queue ?s3 (x # p # xs)" by (intro set_task_queue s2(2)) simp_all
    have "pid (tasks ?s3 x) \<noteq> pid (tasks ?s3 p)" using pids True i2 [of x] i2 [of p] par(3) by (simp add: same_id_def)
    from schedule_sleep_drops [OF q3 this, of rsp] obtain s' where s': "schedule_sleep rsp ?s3 = Inr s'" "run_queue s' (p # xs)"
      "\<forall>a. same_id (tasks s' a) (tasks ?s3 a)" by blast
    have call: "do_exit rsp x st s = Inr s'" using par True s2(1) s'(1) by (simp add: do_exit_def Let_def)
    have "state (tasks s' x) = TASK_ZOMBIE" "exit_status (tasks s' x) = st"
      using s'(3) i2 [of x] par(3) by (simp_all add: same_id_def)
    moreover have "\<forall>a. a \<noteq> x \<longrightarrow> same_id (tasks s' a) ((tasks s a)\<lparr>state := if a = p then TASK_RUNNING else state (tasks s a)\<rparr>)"
      using s'(3) i2 par(3) by (simp add: same_id_def)
    moreover have "same_id (tasks s' x) ((tasks s x)\<lparr>state := TASK_ZOMBIE, exit_status := st\<rparr>)"
      using s'(3) i2 [of x] par(3) by (simp add: same_id_def)
    ultimately show ?thesis using call s'(2) True by simp
  next
    case False
    then obtain y ys where xs: "xs = y # ys" using wq(2) by (cases xs) auto
    have "x \<noteq> y" using q xs by (simp add: run_queue_def ring_Cons)
    then have "pid (tasks ?s1 x) \<noteq> pid (tasks ?s1 y)" using pids False xs by simp
    from schedule_sleep_drops [OF q1 [unfolded xs] this, of rsp] obtain s' where s': "schedule_sleep rsp ?s1 = Inr s'" "run_queue s' xs"
      "\<forall>a. same_id (tasks s' a) (tasks ?s1 a)" unfolding xs by blast
    have "do_exit rsp x st s = Inr s'" using par False s'(1) by (simp add: do_exit_def Let_def)
    then show ?thesis using s' False by (simp add: same_id_def)
  qed
qed

section \<open>Properties\<close>

lemma ring_rotate_many: "ring T (ys @ zs) \<Longrightarrow> ring T (zs @ ys)"
proof (induction ys arbitrary: zs)
  case (Cons y ys)
  then have "ring T (ys @ (zs @ [y]))" using ring_rotate [of T y "ys @ zs"] by simp
  from Cons.IH [OF this] show ?case by simp
qed simp

text \<open>Two tasks in the queue, 16 running and 32 its parent, and a third one, 48, outside.\<close>

definition sample_task :: "u32 \<Rightarrow> task_state \<Rightarrow> u64 \<Rightarrow> u64 \<Rightarrow> u64 \<Rightarrow> task_struct" where
  "sample_task i st n p par = \<lparr>pid = i, state = st, exit_status = 0, regs = 0, t_mm = 0, stack_bottom = 0, stack_top = 0,
     sp = 0, t_next = n, t_prev = p, parent = par, children = 0, sibling = 0, fdtab = replicate 16 0, alive_ticks = 0\<rparr>"

definition sample_procs :: "unit proc_state" where
  "sample_procs = \<lparr>mem = (\<lambda>_. 0), n_regions = 0, regions = [], kernel_brk = KERNEL_BRK_START, heap_base = 0,
     statics = sample_statics, mms = (\<lambda>_. zero_mm), vmas = (\<lambda>_. zero_vma), dev = (), rootfs = 0,
     tasks = (\<lambda>_. sample_task 3 TASK_ZOMBIE 0 0 0)(16 := sample_task 1 TASK_RUNNING 32 32 32, 32 := sample_task 2 TASK_RUNNING 16 16 0),
     files = (\<lambda>_. \<lparr>ops = No_ops, ino = 0, file_refcnt = 0\<rparr>), current = 16, proc_root = 32,
     current_task_stack = 0, tss_rsp0 = 0, cr3 = 0, cpu_rsp = 0\<rparr>"

lemma sample_queue: "run_queue sample_procs [16, 32]" "pids_distinct sample_procs [16, 32]"
  by (simp_all add: run_queue_def ring_Cons link_def sample_procs_def sample_task_def pids_distinct_def)

lemmas sample_task_simps = sample_procs_def sample_task_def

text \<open>
  C30. Inserting a task that is not in the run queue puts it right behind the running one, with all
  pointers of the ring consistent, and changes nothing else of any task.
\<close>

theorem sched_rr_insert_correct:
  assumes "run_queue s (x # xs)" and "t \<notin> set (x # xs)" and "t \<noteq> 0"
  shows "\<exists>s'. sched_rr_insert_proc t s = Inr s' \<and> run_queue s' (x # t # xs) \<and> (\<forall>a. same_task (tasks s' a) (tasks s a))"
  by (rule insert_proc_ring [OF assms])

theorem sched_rr_insert_correct_witness:
  "\<exists>s'. sched_rr_insert_proc 48 sample_procs = Inr s' \<and> run_queue s' [16, 48, 32]"
  using sched_rr_insert_correct [OF sample_queue(1), of 48] by auto

text \<open>
  C31. Removing any task of a queue of at least two leaves the ring of the others in their order, clears
  the pointers of the removed task and changes nothing else of any task.
\<close>

theorem sched_rr_remove_correct:
  assumes "ring (tasks s) (ys @ t # zs)" and "ys @ zs \<noteq> []"
  shows "\<exists>s'. sched_rr_remove_proc t s = Inr s' \<and> ring (tasks s') (ys @ zs)
    \<and> t_next (tasks s' t) = 0 \<and> t_prev (tasks s' t) = 0 \<and> (\<forall>a. same_task (tasks s' a) (tasks s a))"
proof -
  have "ring (tasks s) (t # zs @ ys)" using ring_rotate_many [OF assms(1)] by simp
  moreover obtain y l where l: "zs @ ys = y # l" using assms(2) by (cases "zs @ ys") auto
  ultimately have "ring (tasks s) (t # y # l)" by simp
  from remove_proc_ring [OF this] obtain s' where s': "sched_rr_remove_proc t s = Inr s'" "ring (tasks s') (y # l)"
    "t_next (tasks s' t) = 0" "t_prev (tasks s' t) = 0" "\<forall>a. same_task (tasks s' a) (tasks s a)" by blast
  have "ring (tasks s') (ys @ zs)" by (rule ring_rotate_many) (use s'(2) l in simp)
  with s' show ?thesis by blast
qed

theorem sched_rr_remove_correct_witness:
  "\<exists>s'. sched_rr_remove_proc 32 sample_procs = Inr s' \<and> ring (tasks s') [16]"
  using sched_rr_remove_correct [of sample_procs "[16]" 32 "[]"] sample_queue(1) by (auto simp: run_queue_def)

text \<open>
  C32. Scheduling is round robin: with distinct pids, repeated calls of \<open>schedule\<close> never fail and bring
  every task of the run queue to run, within fewer calls than the queue is long.
\<close>

theorem schedule_round_robin:
  assumes "run_queue s xs" and "pids_distinct s xs" and "t \<in> set xs"
  shows "\<exists>k < length xs. \<exists>s'. turns (schedule rsp) k s = Inr s' \<and> current s' = t"
  using rr.served [of s xs t rsp] assms by (auto simp: run_queue_def)

theorem schedule_round_robin_witness:
  "\<exists>k < 2. \<exists>s'. turns (schedule 0) k sample_procs = Inr s' \<and> current s' = 32"
  using schedule_round_robin [OF sample_queue, of 32 0] by (simp add: numeral_2_eq_2)



text \<open>
  A second child makes the first one unreachable: after two insertions below a parent, a search of
  the children for a zombie ends without a result although the first child is one.
\<close>

theorem tree_insert_loses_child:
  assumes "children (tasks s p) = 0" and "a \<noteq> 0" and "b \<noteq> 0" and "distinct [p, a, b]"
    and "state (tasks s a) = TASK_ZOMBIE" and "state (tasks s b) \<noteq> TASK_ZOMBIE"
  shows "\<exists>s'. tree_insert_proc p b (tree_insert_proc p a s) = s' \<and> parent (tasks s' a) = p
    \<and> state (tasks s' a) = TASK_ZOMBIE \<and> find_zombie (tasks s') (children (tasks s' p)) = Some 0"
proof -
  let ?s = "tree_insert_proc p b (tree_insert_proc p a s)"
  have f: "children (tasks ?s p) = b" "sibling (tasks ?s b) = 0" "state (tasks ?s b) = state (tasks s b)"
    "parent (tasks ?s a) = p" "state (tasks ?s a) = TASK_ZOMBIE"
    using assms by (auto simp: tree_insert_proc_def Let_def)
  have "find_zombie (tasks ?s) b = find_zombie (tasks ?s) 0" using assms(3,6) f(2,3) by (subst find_zombie.simps) simp
  also have "\<dots> = Some 0" by (subst find_zombie.simps) simp
  finally show ?thesis using f by simp
qed

theorem tree_insert_loses_child_witness:
  "find_zombie (tasks (tree_insert_proc 16 32 (tree_insert_proc 16 48 sample_procs)))
     (children (tasks (tree_insert_proc 16 32 (tree_insert_proc 16 48 sample_procs)) 16)) = Some 0"
  using tree_insert_loses_child [of sample_procs 16 48 32] by (simp add: sample_task_simps)

end
