(* ===== verification/Vgaterm.thy ===== *)
theory Vgaterm
  imports Run_Queue
begin

text \<open>
  The text terminal (\<^verbatim>\<open>src/src/kernel/vgaterm.c\<close>) and the parts of the formatted printing
  (\<^verbatim>\<open>src/src/lib/printf.c\<close>) that the kernel's consoles use: literal text, \<^verbatim>\<open>%c\<close> and \<^verbatim>\<open>%.*s\<close>.
  The screen is memory: 25 rows of 80 two-byte cells.
\<close>

section \<open>The terminal\<close>

definition VGATERM_WIDTH :: u64 where "VGATERM_WIDTH = 80"
definition VGATERM_HEIGHT :: u64 where "VGATERM_HEIGHT = 25"
definition VGATERM_BUF_START :: u64 where "VGATERM_BUF_START = 0xffffffff800b8000"

datatype vga_color = VGA_COLOR_BLACK | VGA_COLOR_BLUE | VGA_COLOR_GREEN | VGA_COLOR_CYAN | VGA_COLOR_RED
  | VGA_COLOR_MAGENTA | VGA_COLOR_BROWN | VGA_COLOR_LIGHT_GREY | VGA_COLOR_DARK_GREY | VGA_COLOR_LIGHT_BLUE
  | VGA_COLOR_LIGHT_GREEN | VGA_COLOR_LIGHT_CYAN | VGA_COLOR_LIGHT_RED | VGA_COLOR_LIGHT_MAGENTA
  | VGA_COLOR_LIGHT_BROWN | VGA_COLOR_WHITE

fun color_code :: "vga_color \<Rightarrow> u8" where
  "color_code VGA_COLOR_BLACK = 0" | "color_code VGA_COLOR_BLUE = 1" | "color_code VGA_COLOR_GREEN = 2"
| "color_code VGA_COLOR_CYAN = 3" | "color_code VGA_COLOR_RED = 4" | "color_code VGA_COLOR_MAGENTA = 5"
| "color_code VGA_COLOR_BROWN = 6" | "color_code VGA_COLOR_LIGHT_GREY = 7" | "color_code VGA_COLOR_DARK_GREY = 8"
| "color_code VGA_COLOR_LIGHT_BLUE = 9" | "color_code VGA_COLOR_LIGHT_GREEN = 10" | "color_code VGA_COLOR_LIGHT_CYAN = 11"
| "color_code VGA_COLOR_LIGHT_RED = 12" | "color_code VGA_COLOR_LIGHT_MAGENTA = 13"
| "color_code VGA_COLOR_LIGHT_BROWN = 14" | "color_code VGA_COLOR_WHITE = 15"

text \<open>A character is a signed \<^verbatim>\<open>char\<close>, widened before the colour is added.\<close>

definition VGATERM_ENTRY :: "u8 \<Rightarrow> u8 \<Rightarrow> u16" where
  "VGATERM_ENTRY c color = scast c OR push_bit 8 (ucast color)"

definition VGATERM_COLOR :: "vga_color \<Rightarrow> vga_color \<Rightarrow> u8" where
  "VGATERM_COLOR fg bg = color_code fg OR push_bit 4 (color_code bg)"

definition VGATERM_ADDR :: "u64 \<Rightarrow> u64 \<Rightarrow> u64" where
  "VGATERM_ADDR x y = y * VGATERM_WIDTH + x"

record 'd term_state = "'d proc_state" +
  vgaterm_y :: u64
  vgaterm_x :: u64
  vgaterm_color :: u8
  vgaterm_buf :: u64

text \<open>\<^verbatim>\<open>vgaterm_buf[i]\<close> of the two-byte cells at \<open>b\<close>.\<close>

definition cell :: "u64 \<Rightarrow> u64 \<Rightarrow> u64" where
  "cell b i = b + i * 2"

definition vgaterm_scroll :: "('d, 'a) term_state_scheme \<Rightarrow> ('d, 'a) term_state_scheme" where
  "vgaterm_scroll s =
     (let b = vgaterm_buf s;
          m = fold (\<lambda>row. fold (\<lambda>col m. st16 m (cell b (VGATERM_ADDR (of_nat col) (of_nat row)))
                (ld16 m (cell b (VGATERM_ADDR (of_nat col) (of_nat row + 1))))) [0..<unat VGATERM_WIDTH])
                [0..<unat VGATERM_HEIGHT] (mem s);
          m = fold (\<lambda>col m. st16 m (cell b (VGATERM_ADDR (of_nat col) VGATERM_HEIGHT)) 0) [0..<unat VGATERM_WIDTH] m
      in s\<lparr>mem := m\<rparr>)"

definition vgaterm_newline :: "('d, 'a) term_state_scheme \<Rightarrow> ('d, 'a) term_state_scheme" where
  "vgaterm_newline s =
     (let s = (if vgaterm_y s = VGATERM_HEIGHT - 1 then vgaterm_scroll s else s\<lparr>vgaterm_y := vgaterm_y s + 1\<rparr>)
      in s\<lparr>vgaterm_x := 0\<rparr>)"

text \<open>The arguments of \<open>vgaterm_set_cursor\<close> are ignored by the code.\<close>

definition vgaterm_set_cursor :: "'d ports \<Rightarrow> ('d, 'a) term_state_scheme \<Rightarrow> ('d, 'a) term_state_scheme" where
  "vgaterm_set_cursor P s =
     (let pos = (ucast (vgaterm_y s * VGATERM_WIDTH + vgaterm_x s) :: u16);
          d = outb P 0x3D4 0x0F (dev s);
          d = outb P 0x3D5 (ucast (pos AND 0xFF)) d;
          d = outb P 0x3D4 0x0E d
      in s\<lparr>dev := outb P 0x3D5 (ucast (drop_bit 8 pos AND 0xFF)) d\<rparr>)"

definition vgaterm_putchar :: "'d ports \<Rightarrow> u8 \<Rightarrow> ('d, 'a) term_state_scheme \<Rightarrow> ('d, 'a) term_state_scheme" where
  "vgaterm_putchar P c s =
     (if c = 0x0A then vgaterm_newline s
      else let s = s\<lparr>mem := st16 (mem s) (cell (vgaterm_buf s) (vgaterm_y s * VGATERM_WIDTH + vgaterm_x s))
                       (VGATERM_ENTRY c (vgaterm_color s))\<rparr>;
               s = s\<lparr>vgaterm_x := vgaterm_x s + 1\<rparr>;
               s = (if vgaterm_x s = VGATERM_WIDTH
                    then let s = s\<lparr>vgaterm_x := 0\<rparr>;
                             s = s\<lparr>vgaterm_y := vgaterm_y s + 1\<rparr>
                         in if vgaterm_y s = VGATERM_HEIGHT then s\<lparr>vgaterm_y := 0\<rparr> else s
                    else s)
           in vgaterm_set_cursor P s)"

definition vgaterm_setcolor :: "vga_color \<Rightarrow> vga_color \<Rightarrow> ('d, 'a) term_state_scheme \<Rightarrow> ('d, 'a) term_state_scheme" where
  "vgaterm_setcolor fg bg s = s\<lparr>vgaterm_color := VGATERM_COLOR fg bg\<rparr>"

text \<open>The length is computed again at every turn.\<close>

partial_function (option) vgaterm_print_loop ::
    "'d ports \<Rightarrow> u64 \<Rightarrow> u64 \<Rightarrow> ('d, 'a) term_state_scheme \<Rightarrow> ('d, 'a) term_state_scheme option" where
  "vgaterm_print_loop P str i s =
     (case strlen (mem s) str of None \<Rightarrow> None
      | Some n \<Rightarrow> if i < n then vgaterm_print_loop P str (i + 1) (vgaterm_putchar P (mem s (str + i)) s) else Some s)"

definition vgaterm_print :: "'d ports \<Rightarrow> u64 \<Rightarrow> ('d, 'a) term_state_scheme \<Rightarrow> ('d, 'a) term_state_scheme option" where
  "vgaterm_print P str s = vgaterm_print_loop P str 0 s"

definition vgaterm_clear :: "('d, 'a) term_state_scheme \<Rightarrow> ('d, 'a) term_state_scheme" where
  "vgaterm_clear s =
     (let s = s\<lparr>vgaterm_y := 0, vgaterm_x := 0, vgaterm_color := VGATERM_COLOR VGA_COLOR_LIGHT_GREY VGA_COLOR_BLACK,
                vgaterm_buf := VGATERM_BUF_START\<rparr>
      in s\<lparr>mem := fold (\<lambda>y. fold (\<lambda>x m. st16 m (cell (vgaterm_buf s) (of_nat y * VGATERM_WIDTH + of_nat x))
                     (VGATERM_ENTRY 0x20 (vgaterm_color s))) [0..<unat VGATERM_WIDTH]) [0..<unat VGATERM_HEIGHT] (mem s)\<rparr>)"

section \<open>Printing\<close>

text \<open>\<^verbatim>\<open>_out_char\<close> and \<^verbatim>\<open>_putchar\<close>: a zero byte is not printed.\<close>

definition out_char :: "'d ports \<Rightarrow> u8 \<Rightarrow> ('d, 'a) term_state_scheme \<Rightarrow> ('d, 'a) term_state_scheme" where
  "out_char P c s = (if c \<noteq> 0 then vgaterm_putchar P c s else s)"

text \<open>A format with no conversion.\<close>

definition printf_text :: "'d ports \<Rightarrow> string \<Rightarrow> ('d, 'a) term_state_scheme \<Rightarrow> ('d, 'a) term_state_scheme" where
  "printf_text P fmt s = fold (\<lambda>c. out_char P (of_char c)) fmt s"

text \<open>\<^verbatim>\<open>printf("%c", c)\<close>\<close>

definition printf_char :: "'d ports \<Rightarrow> u8 \<Rightarrow> ('d, 'a) term_state_scheme \<Rightarrow> ('d, 'a) term_state_scheme" where
  "printf_char P c s = out_char P c s"

text \<open>
  \<^verbatim>\<open>printf("%.*s", n, p)\<close>: the precision is read as an \<^verbatim>\<open>int\<close>, a negative one counts as 0; with no
  width there is no padding. The result counts the characters.
\<close>

primrec print_string_loop ::
    "'d ports \<Rightarrow> nat \<Rightarrow> u64 \<Rightarrow> u32 \<Rightarrow> ('d, 'a) term_state_scheme \<Rightarrow> u32 \<times> ('d, 'a) term_state_scheme" where
  "print_string_loop P 0 p idx s = (idx, s)"
| "print_string_loop P (Suc precision) p idx s =
     (if mem s p \<noteq> 0 then print_string_loop P precision (p + 1) (idx + 1) (out_char P (mem s p) s) else (idx, s))"

definition printf_string :: "'d ports \<Rightarrow> u64 \<Rightarrow> u64 \<Rightarrow> ('d, 'a) term_state_scheme \<Rightarrow> u32 \<times> ('d, 'a) term_state_scheme" where
  "printf_string P n p s =
     (let prec = (ucast n :: u32);
          precision = (if 0 <s prec then prec else 0)
      in print_string_loop P (unat precision) p 0 s)"

section \<open>The screen as a list of cells\<close>

text \<open>
  What a terminal shows: its cells in order, the position of the next character and the colour. The list
  has a 26th row, which the code uses when it scrolls although the screen ends before it.
\<close>

record term_view =
  cells :: "u16 list"
  row :: nat
  col :: nat
  colour :: u8

definition cells_of :: "memory \<Rightarrow> u64 \<Rightarrow> u16 list" where
  "cells_of m b = map (\<lambda>i. ld16 m (cell b (of_nat i))) [0..<2080]"

definition term_view :: "('d, 'a) term_state_scheme \<Rightarrow> term_view" where
  "term_view s = \<lparr>cells = cells_of (mem s) (vgaterm_buf s), row = unat (vgaterm_y s), col = unat (vgaterm_x s),
     colour = vgaterm_color s\<rparr>"

definition scroll_view :: "term_view \<Rightarrow> term_view" where
  "scroll_view v = v\<lparr>cells := drop 80 (cells v) @ replicate 80 0\<rparr>"

definition newline_view :: "term_view \<Rightarrow> term_view" where
  "newline_view v = (if row v = 24 then scroll_view v else v\<lparr>row := row v + 1\<rparr>)\<lparr>col := 0\<rparr>"

definition type_view :: "u8 \<Rightarrow> term_view \<Rightarrow> term_view" where
  "type_view c v =
     (if c = 0x0A then newline_view v
      else let v = v\<lparr>cells := (cells v)[row v * 80 + col v := VGATERM_ENTRY c (colour v)]\<rparr>
           in if col v = 79 then v\<lparr>col := 0, row := (row v + 1) mod 25\<rparr> else v\<lparr>col := col v + 1\<rparr>)"

definition on_screen :: "('d, 'a) term_state_scheme \<Rightarrow> bool" where
  "on_screen s \<longleftrightarrow> vgaterm_x s < 80 \<and> vgaterm_y s < 25"

lemma length_cells [simp]: "length (cells_of m b) = 2080"
  by (simp add: cells_of_def)

lemma nth_cells [simp]: "i < 2080 \<Longrightarrow> cells_of m b ! i = ld16 m (cell b (of_nat i))"
  by (simp add: cells_of_def)

lemma cells_update [simp]:
  assumes "i < 2080"
  shows "cells_of (st16 m (cell b (of_nat i)) v) b = (cells_of m b)[i := v]"
proof (rule nth_equalityI)
  fix j assume "j < length (cells_of (st16 m (cell b (of_nat i)) v) b)"
  then have j: "j < 2080" by simp
  show "cells_of (st16 m (cell b (of_nat i)) v) b ! j = (cells_of m b)[i := v] ! j"
  proof (cases "i = j")
    case False
    then have "rng (cell b (of_nat i)) 2 \<inter> rng (cell b (of_nat j)) 2 = {}"
      using slots_apart [of i j 2 b] assms j by (simp add: cell_def)
    then show ?thesis using False j assms by (simp add: ld16_st16_disjoint)
  qed (use j in \<open>simp add: ld16_st16\<close>)
qed simp

lemma cell_other: "i < 2080 \<Longrightarrow> x \<notin> rng b 4160 \<Longrightarrow> st16 m (cell b (of_nat i)) v x = m x"
  using rng_part [of "of_nat (i * 2)" 2 4160 x b] unat_of_nat_u64 [of "i * 2"]
  by (intro st16_other) (auto simp: cell_def)

text \<open>The nested loops run over the cells in order.\<close>

lemma fold_rows: "fold (\<lambda>r. fold (\<lambda>c. h (r * w + c)) [0..<w]) [0..<n] = fold h [0..<n * w]"
proof (induction n)
  case (Suc n)
  have "[0..<Suc n * w] = [0..<n * w] @ map (\<lambda>c. n * w + c) [0..<w]"
    using upt_add_eq_append [of 0 "n * w" w] map_add_upt [of "n * w" w] by (simp add: add.commute)
  then show ?case using Suc by (simp add: fold_map comp_def)
qed simp

text \<open>A loop of stores to cells is the same loop on the list of cells, and stays inside it.\<close>

lemma fold_cells:
  assumes "\<forall>i \<in> set is. f i < 2080"
    and "\<And>i m. i \<in> set is \<Longrightarrow> g m i = h (cells_of m b) i"
  shows "cells_of (fold (\<lambda>i m. st16 m (cell b (of_nat (f i))) (g m i)) is m) b = fold (\<lambda>i xs. xs[f i := h xs i]) is (cells_of m b)
    \<and> (\<forall>x. x \<notin> rng b 4160 \<longrightarrow> fold (\<lambda>i m. st16 m (cell b (of_nat (f i))) (g m i)) is m x = m x)"
  using assms
proof (induction "is" arbitrary: m)
  case (Cons i "is")
  then show ?case by (simp add: cell_other)
qed simp

lemma fold_shift:
  "k + w \<le> length xs \<Longrightarrow> fold (\<lambda>i xs. xs[i := xs ! (i + w)]) [0..<k] xs = take k (drop w xs) @ drop k xs"
proof (induction k)
  case (Suc k)
  then have "fold (\<lambda>i xs. xs[i := xs ! (i + w)]) [0..<Suc k] xs
      = (take k (drop w xs) @ drop k xs)[k := (take k (drop w xs) @ drop k xs) ! (k + w)]" by simp
  also have "\<dots> = take (Suc k) (drop w xs) @ drop (Suc k) xs"
    by (rule nth_equalityI) (use Suc.prems in \<open>auto simp: nth_append nth_list_update less_Suc_eq ac_simps\<close>)
  finally show ?case .
qed simp

lemma fold_fill:
  "n + k \<le> length xs \<Longrightarrow> fold (\<lambda>i xs. xs[n + i := v]) [0..<k] xs = take n xs @ replicate k v @ drop (n + k) xs"
proof (induction k)
  case (Suc k)
  then have "fold (\<lambda>i xs. xs[n + i := v]) [0..<Suc k] xs = (take n xs @ replicate k v @ drop (n + k) xs)[n + k := v]" by simp
  also have "\<dots> = take n xs @ replicate (Suc k) v @ drop (n + Suc k) xs"
    by (rule nth_equalityI) (use Suc.prems in \<open>auto simp: nth_append nth_list_update less_Suc_eq nth_Cons'\<close>)
  finally show ?case .
qed simp

lemma addr_cells:
  "VGATERM_ADDR (of_nat c) (of_nat r) = of_nat (r * 80 + c)" "VGATERM_ADDR (of_nat c) (of_nat r + 1) = of_nat (r * 80 + c + 80)"
  "VGATERM_ADDR (of_nat c) VGATERM_HEIGHT = of_nat (2000 + c)"
  by (simp_all add: VGATERM_ADDR_def VGATERM_WIDTH_def VGATERM_HEIGHT_def algebra_simps)

text \<open>Scrolling moves every row up by one; the last of the 26 rows is zeroed.\<close>

lemma scroll_cells:
  shows "cells_of (mem (vgaterm_scroll s)) (vgaterm_buf s) = drop 80 (cells_of (mem s) (vgaterm_buf s)) @ replicate 80 0"
    and "x \<notin> rng (vgaterm_buf s) 4160 \<Longrightarrow> mem (vgaterm_scroll s) x = mem s x"
proof -
  let ?b = "vgaterm_buf s"
  define m1 where "m1 = fold (\<lambda>i m. st16 m (cell ?b (of_nat i)) (ld16 m (cell ?b (of_nat (i + 80))))) [0..<2000] (mem s)"
  define m2 where "m2 = fold (\<lambda>i m. st16 m (cell ?b (of_nat (2000 + i))) 0) [0..<80] m1"
  have m1: "m1 = fold (\<lambda>r. fold (\<lambda>c m. st16 m (cell ?b (of_nat (r * 80 + c))) (ld16 m (cell ?b (of_nat (r * 80 + c + 80))))) [0..<80]) [0..<25] (mem s)"
    using fold_rows [of "\<lambda>i m. st16 m (cell ?b (of_nat i)) (ld16 m (cell ?b (of_nat (i + 80))))" 80 25]
    by (simp only: m1_def) simp
  have m2: "mem (vgaterm_scroll s) = m2"
    unfolding vgaterm_scroll_def Let_def m2_def m1 addr_cells by (simp add: VGATERM_WIDTH_def VGATERM_HEIGHT_def)
  have 1: "cells_of m1 ?b = fold (\<lambda>i xs. xs[i := xs ! (i + 80)]) [0..<2000] (cells_of (mem s) ?b)"
    "\<forall>x. x \<notin> rng ?b 4160 \<longrightarrow> m1 x = mem s x"
    using fold_cells [of "[0..<2000]" "\<lambda>i. i" "\<lambda>m i. ld16 m (cell ?b (of_nat (i + 80)))" "\<lambda>xs i. xs ! (i + 80)" ?b "mem s"]
    by (auto simp: m1_def simp del: of_nat_add in_rng)
  have 2: "cells_of m2 ?b = fold (\<lambda>i xs. xs[2000 + i := 0]) [0..<80] (cells_of m1 ?b)" "\<forall>x. x \<notin> rng ?b 4160 \<longrightarrow> m2 x = m1 x"
    using fold_cells [of "[0..<80]" "\<lambda>i. 2000 + i" "\<lambda>m i. 0" "\<lambda>xs i. 0" ?b m1]
    by (auto simp: m2_def simp del: of_nat_add in_rng)
  show "cells_of (mem (vgaterm_scroll s)) ?b = drop 80 (cells_of (mem s) ?b) @ replicate 80 0"
    unfolding m2 2(1) 1(1) by (subst fold_shift, simp, subst fold_fill, simp_all)
  show "x \<notin> rng ?b 4160 \<Longrightarrow> mem (vgaterm_scroll s) x = mem s x" unfolding m2 using 1(2) 2(2) by simp
qed

lemma scroll_rest [simp]:
  "vgaterm_x (vgaterm_scroll s) = vgaterm_x s" "vgaterm_y (vgaterm_scroll s) = vgaterm_y s"
  "vgaterm_color (vgaterm_scroll s) = vgaterm_color s" "vgaterm_buf (vgaterm_scroll s) = vgaterm_buf s"
  "term_state.more (vgaterm_scroll s) = term_state.more s"
  by (simp_all add: vgaterm_scroll_def Let_def)

lemma putchar_view:
  assumes "on_screen s"
  shows "term_view (vgaterm_putchar P c s) = type_view c (term_view s)" (is ?view)
    and "on_screen (vgaterm_putchar P c s)" (is ?on)
    and "vgaterm_buf (vgaterm_putchar P c s) = vgaterm_buf s" (is ?buf)
    and "x \<notin> rng (vgaterm_buf s) 4160 \<Longrightarrow> mem (vgaterm_putchar P c s) x = mem s x"
proof -
  define i j where "i = unat (vgaterm_x s)" and "j = unat (vgaterm_y s)"
  let ?pos = "vgaterm_y s * VGATERM_WIDTH + vgaterm_x s"
  have ij: "i < 80" "j < 25" using assms by (auto simp: on_screen_def i_def j_def word_less_nat_alt)
  have un: "unat (vgaterm_x s) = i" "unat (vgaterm_y s) = j" "unat (vgaterm_x s + 1) = Suc i" "unat (vgaterm_y s + 1) = Suc j"
    using ij by (simp_all add: i_def j_def unat_word_ariths)
  have nm: "vgaterm_x s + 1 = VGATERM_WIDTH \<longleftrightarrow> i = 79" "vgaterm_y s + 1 = VGATERM_HEIGHT \<longleftrightarrow> j = 24"
    "vgaterm_y s = VGATERM_HEIGHT - 1 \<longleftrightarrow> j = 24"
    using un by (simp_all add: word_unat_eq_iff VGATERM_WIDTH_def VGATERM_HEIGHT_def)
  have pos: "?pos = of_nat (j * 80 + i)" "j * 80 + i < 2080" using ij by (simp_all add: i_def j_def VGATERM_WIDTH_def)
  have store: "cells_of (st16 (mem s) (cell (vgaterm_buf s) ?pos) v) (vgaterm_buf s) = (cells_of (mem s) (vgaterm_buf s))[j * 80 + i := v]" for v
    unfolding pos(1) using pos(2) by (rule cells_update)
  have other: "x \<notin> rng (vgaterm_buf s) 4160 \<Longrightarrow> st16 (mem s) (cell (vgaterm_buf s) ?pos) v x = mem s x" for v
    unfolding pos(1) using pos(2) by (rule cell_other)
  note defs = vgaterm_putchar_def vgaterm_newline_def vgaterm_set_cursor_def Let_def nm
  show ?view using ij by (simp add: defs un store term_view_def type_view_def newline_view_def scroll_view_def scroll_cells(1))
  show ?on using ij by (auto simp: defs un on_screen_def word_less_nat_alt)
  show ?buf by (simp add: defs)
  show "x \<notin> rng (vgaterm_buf s) 4160 \<Longrightarrow> mem (vgaterm_putchar P c s) x = mem s x"
    using other by (simp add: defs scroll_cells(2) del: in_rng)
qed

section \<open>Output devices\<close>

text \<open>
  What the printing code relies on: a device takes one character at a time, stays ready, changes
  nothing but its own part of the state, and shows the character in a known way.
\<close>

locale char_device =
  fixes put :: "u8 \<Rightarrow> 's \<Rightarrow> 's" and ready :: "'s \<Rightarrow> bool" and same :: "'s \<Rightarrow> 's \<Rightarrow> bool"
    and view :: "'s \<Rightarrow> 'v" and step :: "u8 \<Rightarrow> 'v \<Rightarrow> 'v"
  assumes put_ready: "ready s \<Longrightarrow> ready (put c s)"
    and put_same: "ready s \<Longrightarrow> same s (put c s)"
    and put_view: "ready s \<Longrightarrow> view (put c s) = step c (view s)"
    and same_refl: "same s s"
    and same_trans: "same s s' \<Longrightarrow> same s' s'' \<Longrightarrow> same s s''"
begin

lemma text_ready: "ready s \<Longrightarrow> ready (fold put cs s)"
  by (induction cs arbitrary: s) (auto intro: put_ready)

lemma text_same: "ready s \<Longrightarrow> same s (fold put cs s)"
  by (induction cs arbitrary: s) (auto intro: same_refl same_trans put_same put_ready)

lemma text_view: "ready s \<Longrightarrow> view (fold put cs s) = fold step cs (view s)"
  by (induction cs arbitrary: s) (simp_all add: put_ready put_view)

end

text \<open>Two states that differ in the terminal only: its registers, its cursor and its memory.\<close>

definition console_only :: "('d, 'a) term_state_scheme \<Rightarrow> ('d, 'a) term_state_scheme \<Rightarrow> bool" where
  "console_only s s' \<longleftrightarrow> (\<exists>m d x y. s' = s\<lparr>mem := m, dev := d, vgaterm_x := x, vgaterm_y := y\<rparr>
     \<and> (\<forall>a. a \<notin> rng (vgaterm_buf s) 4160 \<longrightarrow> m a = mem s a))"

definition show_char :: "u8 \<Rightarrow> term_view \<Rightarrow> term_view" where
  "show_char c v = (if c \<noteq> 0 then type_view c v else v)"

lemma console_only_trans: "console_only s s' \<Longrightarrow> console_only s' s'' \<Longrightarrow> console_only s s''"
  unfolding console_only_def by (elim exE conjE) (simp del: in_rng, blast)

lemma console_only_refl: "console_only s s"
  unfolding console_only_def
  by (rule exI [of _ "mem s"], rule exI [of _ "dev s"], rule exI [of _ "vgaterm_x s"], rule exI [of _ "vgaterm_y s"]) simp

lemma putchar_console: "on_screen s \<Longrightarrow> console_only s (vgaterm_putchar P c s)"
proof -
  assume on: "on_screen s"
  let ?s = "vgaterm_putchar P c s"
  have "?s = s\<lparr>mem := mem ?s, dev := dev ?s, vgaterm_x := vgaterm_x ?s, vgaterm_y := vgaterm_y ?s\<rparr>"
    by (simp add: vgaterm_putchar_def vgaterm_newline_def vgaterm_set_cursor_def vgaterm_scroll_def Let_def)
  then show ?thesis unfolding console_only_def using putchar_view(4) [OF on, where P = P and c = c] by blast
qed

interpretation vga: char_device "out_char P" on_screen console_only term_view show_char
proof (unfold_locales, goal_cases)
  case (1 s c)
  then show ?case by (simp add: out_char_def putchar_view(2))
next
  case (2 s c)
  then show ?case by (simp add: out_char_def putchar_console console_only_refl)
next
  case (3 s c)
  then show ?case by (simp add: out_char_def show_char_def putchar_view(1))
next
  case (4 s)
  then show ?case by (rule console_only_refl)
next
  case (5 s s' s'')
  then show ?case by (rule console_only_trans)
qed

lemma printf_text_fold: "printf_text P fmt s = fold (out_char P) (map of_char fmt) s"
  by (simp add: printf_text_def fold_map comp_def)

text \<open>A cleared screen is blank; the row below it keeps what memory holds there.\<close>

lemma clear_view:
  "term_view (vgaterm_clear s) = \<lparr>cells = replicate 2000 0x0720 @ drop 2000 (cells_of (mem s) VGATERM_BUF_START),
     row = 0, col = 0, colour = 7\<rparr>"
  and clear_frame: "x \<notin> rng VGATERM_BUF_START 4160 \<Longrightarrow> mem (vgaterm_clear s) x = mem s x"
proof -
  let ?b = VGATERM_BUF_START
  have pos: "of_nat y * VGATERM_WIDTH + of_nat x = of_nat (y * 80 + x)" for x y :: nat by (simp add: VGATERM_WIDTH_def)
  have m: "mem (vgaterm_clear s) = fold (\<lambda>i m. st16 m (cell ?b (of_nat i)) 0x0720) [0..<2000] (mem s)"
    using fold_rows [of "\<lambda>i m. st16 m (cell ?b (of_nat i)) 0x0720" 80 25]
    unfolding vgaterm_clear_def Let_def pos by (simp add: VGATERM_WIDTH_def VGATERM_HEIGHT_def VGATERM_ENTRY_def VGATERM_COLOR_def)
  have "cells_of (mem (vgaterm_clear s)) ?b = fold (\<lambda>i xs. xs[0 + i := 0x0720]) [0..<2000] (cells_of (mem s) ?b)"
    and frame: "\<forall>x. x \<notin> rng ?b 4160 \<longrightarrow> mem (vgaterm_clear s) x = mem s x"
    using fold_cells [of "[0..<2000]" "\<lambda>i. i" "\<lambda>m i. 0x0720" "\<lambda>xs i. 0x0720" ?b "mem s"] unfolding m by auto
  then have "cells_of (mem (vgaterm_clear s)) ?b = replicate 2000 0x0720 @ drop 2000 (cells_of (mem s) ?b)"
    by (subst (asm) fold_fill) simp_all
  then show "term_view (vgaterm_clear s) = \<lparr>cells = replicate 2000 0x0720 @ drop 2000 (cells_of (mem s) ?b), row = 0, col = 0, colour = 7\<rparr>"
    by (simp add: term_view_def vgaterm_clear_def Let_def VGATERM_COLOR_def)
  show "x \<notin> rng ?b 4160 \<Longrightarrow> mem (vgaterm_clear s) x = mem s x" using frame by blast
qed


definition null_ports :: "unit ports" where
  "null_ports = \<lparr>inb = (\<lambda>p d. (0x55, d)), outb = (\<lambda>p x d. d), inw = (\<lambda>p d. (0, d)), outw = (\<lambda>p x d. d)\<rparr>"

definition sample_term :: "unit term_state" where
  "sample_term = proc_state.extend sample_procs (term_state.fields 0 0 0x07 VGATERM_BUF_START)"


end
