(* ===== verification/Tty.thy ===== *)
theory Tty
  imports Vgaterm Layout
begin

text \<open>
  The keyboard (\<^verbatim>\<open>src/src/drivers/ps2.c\<close>) and the line it feeds (\<^verbatim>\<open>src/src/kernel/tty.c\<close>): scan
  codes become keys, keys become characters of the buffer of \<^verbatim>\<open>struct tty\<close>, and a task that reads
  sleeps until the end of a line.
\<close>

section \<open>Keys\<close>

text \<open>
  \<^verbatim>\<open>enum ps2_key\<close>: the names in order (without the prefix \<^verbatim>\<open>KEY_\<close>), and the number of a name. A key is
  a byte, since \<^verbatim>\<open>sc_map\<close> holds one value, 255, that is no member of the enumeration.
\<close>

definition ps2_key :: "string list" where
  "ps2_key = [
     ''RESERVED'', ''ESC'', ''1'', ''2'', ''3'', ''4'', ''5'', ''6'', ''7'', ''8'', ''9'', ''0'', ''MINUS'',
     ''EQUAL'', ''BACKSPACE'', ''TAB'', ''Q'', ''W'', ''E'', ''R'', ''T'', ''Y'', ''U'', ''I'', ''O'', ''P'',
     ''LEFTBRACE'', ''RIGHTBRACE'', ''ENTER'', ''LEFTCTRL'', ''A'', ''S'', ''D'', ''F'', ''G'', ''H'', ''J'', ''K'',
     ''L'', ''SEMICOLON'', ''APOSTROPHE'', ''GRAVE'', ''LEFTSHIFT'', ''BACKSLASH'', ''Z'', ''X'', ''C'', ''V'',
     ''B'', ''N'', ''M'', ''COMMA'', ''DOT'', ''SLASH'', ''RIGHTSHIFT'', ''KPASTERISK'', ''LEFTALT'', ''SPACE'',
     ''CAPSLOCK'', ''F1'', ''F2'', ''F3'', ''F4'', ''F5'', ''F6'', ''F7'', ''F8'', ''F9'', ''F10'', ''NUMLOCK'',
     ''SCROLLLOCK'', ''KP7'', ''KP8'', ''KP9'', ''KPMINUS'', ''KP4'', ''KP5'', ''KP6'', ''KPPLUS'', ''KP1'', ''KP2'',
     ''KP3'', ''KP0'', ''KPDOT'', ''102ND'', ''F11'', ''F12'', ''RO'', ''KPENTER'', ''RIGHTCTRL'', ''KPSLASH'',
     ''SYSRQ'', ''RIGHTALT'', ''HOME'', ''UP'', ''PAGEUP'', ''LEFT'', ''RIGHT'', ''END'', ''DOWN'', ''PAGEDOWN'',
     ''INSERT'', ''DELETE'', ''PAUSE'', ''LEFTMETA'', ''RIGHTMETA'', ''COMPOSE'']"

fun key_index :: "string list \<Rightarrow> string \<Rightarrow> nat" where
  "key_index [] k = 0"
| "key_index (x # xs) k = (if x = k then 0 else Suc (key_index xs k))"

definition KEY :: "string \<Rightarrow> u8" where
  "KEY k = of_nat (key_index ps2_key k)"

text \<open>The key of a scan code: the names in the initialiser, and the one number among them.\<close>

definition sc_names :: "string list" where
  "sc_names = [
     ''RESERVED'', ''F9'', ''RESERVED'', ''F5'', ''F3'', ''F1'', ''F2'', ''F12'',
     ''ESC'', ''F10'', ''F8'', ''F6'', ''F4'', ''TAB'', ''GRAVE'', ''F2'',
     ''RESERVED'', ''LEFTALT'', ''LEFTSHIFT'', ''RESERVED'', ''LEFTCTRL'', ''Q'', ''1'', ''F3'',
     ''RESERVED'', ''LEFTALT'', ''Z'', ''S'', ''A'', ''W'', ''2'', ''F4'',
     ''RESERVED'', ''C'', ''X'', ''D'', ''E'', ''4'', ''3'', ''F5'',
     ''RESERVED'', ''SPACE'', ''V'', ''F'', ''T'', ''R'', ''5'', ''F6'',
     ''RESERVED'', ''N'', ''B'', ''H'', ''G'', ''Y'', ''6'', ''F7'',
     ''RESERVED'', ''RIGHTALT'', ''M'', ''J'', ''U'', ''7'', ''8'', ''F8'',
     ''RESERVED'', ''COMMA'', ''K'', ''I'', ''O'', ''0'', ''9'', ''F9'',
     ''RESERVED'', ''DOT'', ''SLASH'', ''L'', ''SEMICOLON'', ''P'', ''MINUS'', ''F10'',
     ''RESERVED'', ''RESERVED'', ''APOSTROPHE'', ''RESERVED'', ''LEFTBRACE'', ''EQUAL'', ''F11'', ''SYSRQ'',
     ''CAPSLOCK'', ''RIGHTSHIFT'', ''ENTER'', ''RIGHTBRACE'', ''BACKSLASH'', ''BACKSLASH'', ''F12'', ''SCROLLLOCK'',
     ''DOWN'', ''102ND'', ''PAUSE'', ''UP'', ''DELETE'', ''END'', ''BACKSPACE'', ''INSERT'',
     ''RESERVED'', ''KP1'', ''RIGHT'', ''KP4'', ''KP7'', ''PAGEDOWN'', ''HOME'', ''PAGEUP'',
     ''KP0'', ''KPDOT'', ''KP2'', ''KP5'', ''KP6'', ''KP8'', ''ESC'', ''NUMLOCK'',
     ''F11'', ''KPPLUS'', ''KP3'', ''KPMINUS'', ''KPASTERISK'', ''KP9'', ''SCROLLLOCK'', ''102ND'',
     ''RESERVED'', ''RESERVED'', ''RESERVED'', ''RESERVED'', ''RESERVED'', ''RESERVED'', ''RESERVED'', ''RESERVED'',
     ''RESERVED'', ''RESERVED'', ''RESERVED'', ''RESERVED'', ''RESERVED'', ''RESERVED'', ''RESERVED'', ''RESERVED'',
     ''RESERVED'', ''RIGHTALT'', ''RESERVED'', ''RESERVED'', ''RIGHTCTRL'', ''RESERVED'', ''RESERVED'', ''RESERVED'',
     ''RESERVED'', ''RESERVED'', ''RESERVED'', ''RESERVED'', ''RESERVED'', ''CAPSLOCK'', ''RESERVED'', ''LEFTMETA'',
     ''RESERVED'', ''RESERVED'', ''RESERVED'', ''RESERVED'', ''RESERVED'', ''RESERVED'', ''RESERVED'', ''RIGHTMETA'',
     ''RESERVED'', ''RESERVED'', ''RESERVED'', ''RESERVED'', ''RESERVED'', ''RESERVED'', ''RESERVED'', ''COMPOSE'',
     ''RESERVED'', ''RESERVED'', ''RESERVED'', ''RESERVED'', ''RESERVED'', ''RESERVED'', ''RESERVED'', ''RESERVED'',
     ''RESERVED'', ''RESERVED'', ''RESERVED'', ''RESERVED'', ''RESERVED'', ''RESERVED'', ''RESERVED'', ''RESERVED'',
     ''RESERVED'', ''RESERVED'', ''RESERVED'', ''RESERVED'', ''RESERVED'', ''RESERVED'', ''RESERVED'', ''RESERVED'',
     ''RESERVED'', ''RESERVED'', ''KPSLASH'', ''RESERVED'', ''RESERVED'', ''RESERVED'', ''RESERVED'', ''RESERVED'',
     ''RESERVED'', ''RESERVED'', ''RESERVED'', ''RESERVED'', ''RESERVED'', ''RESERVED'', ''RESERVED'', ''RESERVED'',
     ''RESERVED'', ''RESERVED'', ''KPENTER'', ''RESERVED'', ''RESERVED'', ''RESERVED'', ''RESERVED'', ''RESERVED'',
     ''RESERVED'', ''RESERVED'', ''RESERVED'', ''RESERVED'', ''RESERVED'', ''RESERVED'', ''RESERVED'', ''RESERVED'',
     ''RESERVED'', ''END'', ''RESERVED'', ''LEFT'', ''HOME'', ''RESERVED'', ''RESERVED'', ''RESERVED'',
     ''INSERT'', ''DELETE'', ''DOWN'', ''RESERVED'', ''RIGHT'', ''UP'', ''RESERVED'', ''PAUSE'',
     ''RESERVED'', ''RESERVED'', ''PAGEDOWN'', ''RESERVED'', ''SYSRQ'', ''PAGEUP'', ''RESERVED'', ''RESERVED'']"

definition sc_map :: "u8 list" where
  "sc_map = (map KEY sc_names)[0x92 := 255]"

text \<open>The character of a key.\<close>

definition key_map :: "u8 \<Rightarrow> u8" where
  "key_map key = (case map_of (map (\<lambda>(k, c). (KEY k, c)) [
     (''A'', 0x61), (''B'', 0x62), (''C'', 0x63), (''D'', 0x64), (''E'', 0x65), (''F'', 0x66), (''G'', 0x67),
     (''H'', 0x68), (''I'', 0x69), (''J'', 0x6A), (''K'', 0x6B), (''L'', 0x6C), (''M'', 0x6D), (''N'', 0x6E),
     (''O'', 0x6F), (''P'', 0x70), (''Q'', 0x71), (''R'', 0x72), (''S'', 0x73), (''T'', 0x74), (''U'', 0x75),
     (''V'', 0x76), (''W'', 0x77), (''X'', 0x78), (''Y'', 0x79), (''Z'', 0x7A), (''1'', 0x31), (''2'', 0x32),
     (''3'', 0x33), (''4'', 0x34), (''5'', 0x35), (''6'', 0x36), (''7'', 0x37), (''8'', 0x38), (''9'', 0x39),
     (''SPACE'', 0x20), (''SEMICOLON'', 0x3B), (''ENTER'', 0x0A), (''SLASH'', 0x2F)]) key of Some c \<Rightarrow> c | None \<Rightarrow> 0)"

section \<open>The terminal line\<close>

definition TTY_BUF_SIZE :: u32 where "TTY_BUF_SIZE = 1024"

text \<open>\<^verbatim>\<open>struct tty\<close>, with the padding before its first pointer.\<close>

definition tty :: layout where
  "tty = [(''bufi'', 4), (''buf'', 1024), (''padding'', 4), (''waiting_task'', 8), (''stdin'', 8), (''stdout'', 8)]"

lemma tty_layout [simp]:
  "sizeof tty = 1056" "fld tty ''bufi'' a = a" "fld tty ''buf'' a = a + 4" "fld tty ''waiting_task'' a = a + 1032"
  "fld tty ''stdin'' a = a + 1040" "fld tty ''stdout'' a = a + 1048"
  by (simp_all add: sizeof_def fld_def tty_def)

definition sizeof_file :: u64 where "sizeof_file = 16"

definition zero_file :: kfile where
  "zero_file = \<lparr>ops = No_ops, ino = 0, file_refcnt = 0\<rparr>"

text \<open>
  The state of the whole kernel: \<open>global_tty\<close> of \<^verbatim>\<open>tty.c\<close>, \<open>release\<close> of \<^verbatim>\<open>ps2.c\<close>, and \<open>next_pid\<close> of
  \<^verbatim>\<open>fork.c\<close>.
\<close>

record 'd kernel_state = "'d term_state" +
  global_tty :: u64
  release :: bool
  next_pid :: u32

definition stdout_write :: "'d ports \<Rightarrow> u64 \<Rightarrow> u64 \<Rightarrow> ('d, 'a) kernel_state_scheme \<Rightarrow> u64 \<times> ('d, 'a) kernel_state_scheme" where
  "stdout_write P buf n s = (case printf_string P n buf s of (idx, s) \<Rightarrow> (scast idx, s))"

text \<open>
  \<open>stdin_read\<close> up to the call of \<open>schedule_sleep\<close>, and the rest of it, which runs when the task is
  scheduled again.
\<close>

definition stdin_read :: "u64 \<Rightarrow> ('d, 'a) kernel_state_scheme \<Rightarrow> ('d, 'a) kernel_state_scheme res" where
  "stdin_read rsp s =
     (if ld64 (mem s) (fld tty ''waiting_task'' (global_tty s)) \<noteq> 0 then Inl (Panic ''tty cannot manage >1 waiting task'')
      else schedule_sleep rsp (s\<lparr>mem := st64 (mem s) (fld tty ''waiting_task'' (global_tty s)) (current s)\<rparr>))"

definition stdin_read_resume :: "u64 \<Rightarrow> u64 \<Rightarrow> ('d, 'a) kernel_state_scheme \<Rightarrow> u64 \<times> ('d, 'a) kernel_state_scheme" where
  "stdin_read_resume buf n s =
     (let bufi = scast (ld32 (mem s) (fld tty ''bufi'' (global_tty s)));
          nbytes = (if bufi > n then n else bufi);
          m = memcpy (mem s) buf (fld tty ''buf'' (global_tty s)) nbytes
      in (nbytes, s\<lparr>mem := st32 m (fld tty ''bufi'' (global_tty s)) 0\<rparr>))"

definition tty_init :: "('d, 'a) kernel_state_scheme \<Rightarrow> ('d, 'a) kernel_state_scheme res" where
  "tty_init s =
     rbind (kcalloc 1 (of_nat (sizeof tty)) s) (\<lambda>(t, s).
     let s = s\<lparr>global_tty := t\<rparr> in
     rbind (kcalloc 1 sizeof_file s) (\<lambda>(f, s).
     let s = s\<lparr>mem := st64 (mem s) (fld tty ''stdin'' (global_tty s)) f\<rparr>;
         s = set_file f (\<lambda>_. zero_file\<lparr>ops := stdin_ops, file_refcnt := 1\<rparr>) s
     in rbind (kcalloc 1 sizeof_file s) (\<lambda>(f, s).
     let s = s\<lparr>mem := st64 (mem s) (fld tty ''stdout'' (global_tty s)) f\<rparr>
     in Inr (set_file f (\<lambda>_. zero_file\<lparr>ops := stdout_ops, file_refcnt := 1\<rparr>) s))))"

text \<open>An index outside \<^verbatim>\<open>buf\<close>, which the test lets through when it equals the size, is undefined.\<close>

definition tty_send_key :: "'d ports \<Rightarrow> u8 \<Rightarrow> ('d, 'a) kernel_state_scheme \<Rightarrow> ('d, 'a) kernel_state_scheme res" where
  "tty_send_key P key s =
     (let t = global_tty s;
          bufi = ld32 (mem s) (fld tty ''bufi'' t)
      in if TTY_BUF_SIZE <s bufi then Inl (Panic ''tty buf exceeded'')
         else if bufi \<ge> TTY_BUF_SIZE then Inl (Undefined ''index outside of buf'')
         else let c = key_map key;
                  m = st32 (mem s) (fld tty ''bufi'' t) (bufi + 1);
                  s = s\<lparr>mem := m(fld tty ''buf'' t + ucast bufi := c)\<rparr>;
                  waiting_task = ld64 (mem s) (fld tty ''waiting_task'' t)
              in rbind (if key = KEY ''ENTER'' \<and> waiting_task \<noteq> 0
                        then rbind (sched_rr_insert_proc waiting_task s) (\<lambda>s.
                             Inr (s\<lparr>mem := st64 (mem s) (fld tty ''waiting_task'' t) 0\<rparr>))
                        else Inr s)
                   (\<lambda>s. Inr (printf_char P c s)))"

definition tty_install_stdin_stdout :: "u64 \<Rightarrow> ('d, 'a) kernel_state_scheme \<Rightarrow> ('d, 'a) kernel_state_scheme" where
  "tty_install_stdin_stdout t s =
     (let s = set_task t (fdtab_update (\<lambda>fs. fs[0 := ld64 (mem s) (fld tty ''stdin'' (global_tty s))])) s
      in set_task t (fdtab_update (\<lambda>fs. fs[1 := ld64 (mem s) (fld tty ''stdout'' (global_tty s))])) s)"

section \<open>The keyboard\<close>

definition PS2_DATA :: u16 where "PS2_DATA = 0x60"
definition PS2_COMMAND :: u16 where "PS2_COMMAND = 0x64"
definition PS2_STATUS :: u16 where "PS2_STATUS = 0x64"

partial_function (option) ps2_wait_ready :: "'d ports \<Rightarrow> 'd \<Rightarrow> 'd option" where
  "ps2_wait_ready P d =
     (case inb P PS2_STATUS d of (status, d) \<Rightarrow> if status AND 1 \<noteq> 0 then Some d else ps2_wait_ready P d)"

definition ps2_key_in :: "'d ports \<Rightarrow> ('d, 'a) kernel_state_scheme \<Rightarrow> ('d, 'a) kernel_state_scheme res" where
  "ps2_key_in P s =
     (case inb P PS2_DATA (dev s) of (data, d) \<Rightarrow>
      let s = s\<lparr>dev := d\<rparr>
      in if release s then Inr (s\<lparr>release := False\<rparr>)
         else if data = 0xf0 then Inr (s\<lparr>release := True\<rparr>)
         else tty_send_key P (sc_map ! unat data) s)"

text \<open>The assignment has the parameter on both sides.\<close>

definition ps2_set_tty :: "u64 \<Rightarrow> ('d, 'a) kernel_state_scheme \<Rightarrow> ('d, 'a) kernel_state_scheme" where
  "ps2_set_tty t s = s"

definition ps2_init :: "'d ports \<Rightarrow> ('d, 'a) kernel_state_scheme \<Rightarrow> ('d, 'a) kernel_state_scheme res" where
  "ps2_init P s =
     (let d = outb P PS2_COMMAND 0xAD (dev s);
          d = outb P PS2_COMMAND 0xA7 d;
          d = snd (inb P PS2_DATA d);
          d = outb P PS2_COMMAND 0xAA d
      in rbind (ends (ps2_wait_ready P d)) (\<lambda>d.
         case inb P PS2_DATA d of (answer, d) \<Rightarrow>
         if answer \<noteq> 0x55 then Inl (Panic ''PS2 selftest failed'')
         else let d = outb P PS2_COMMAND 0xAE d
              in case inb P 0x20 d of (config, d) \<Rightarrow>
                 let config = config OR 1;
                     d = outb P PS2_COMMAND 0x60 d
                 in Inr (s\<lparr>dev := outb P PS2_DATA config d\<rparr>)))"

section \<open>The line in memory\<close>

text \<open>The characters typed so far and the task that waits for them, in the object at \<open>t\<close>.\<close>

definition tty_text :: "memory \<Rightarrow> u64 \<Rightarrow> u8 list" where
  "tty_text m t = map (\<lambda>i. m (t + 4 + of_nat i)) [0..<unat (ld32 m t)]"

definition tty_waiting :: "memory \<Rightarrow> u64 \<Rightarrow> u64" where
  "tty_waiting m t = ld64 m (t + 1032)"

lemma length_tty_text [simp]: "length (tty_text m t) = unat (ld32 m t)"
  by (simp add: tty_text_def)

lemma tty_part: "unat p + n \<le> 1056 \<Longrightarrow> x \<in> rng (t + p) n \<Longrightarrow> x \<in> rng t 1056"
  by (rule rng_part) simp_all

lemma buf_byte: "i < 1024 \<Longrightarrow> t + 4 + of_nat i \<in> rng t 1056"
  using unat_of_nat_u64 [of "4 + i"] by (simp add: add.assoc)

lemma tty_cong:
  assumes same: "\<And>x. x \<in> rng t 1056 \<Longrightarrow> m' x = m x"
  shows "ld32 m' t = ld32 m t" "tty_waiting m' t = tty_waiting m t"
    and "unat (ld32 m t) \<le> 1024 \<Longrightarrow> tty_text m' t = tty_text m t"
proof -
  show l: "ld32 m' t = ld32 m t" by (rule ld32_cong) (use same tty_part [of 0 4 _ t] in auto)
  show "tty_waiting m' t = tty_waiting m t"
    unfolding tty_waiting_def by (rule ld64_cong) (use same tty_part [of 1032 8 _ t] in auto)
  show "unat (ld32 m t) \<le> 1024 \<Longrightarrow> tty_text m' t = tty_text m t"
    unfolding tty_text_def l by (rule map_cong) (use same buf_byte in auto)
qed

text \<open>The two stores of \<open>tty_send_key\<close> append one character.\<close>

lemma store_key:
  fixes c :: u8
  assumes "unat (ld32 m t) < 1024"
  defines "m' \<equiv> (st32 m t (ld32 m t + 1))(t + 4 + ucast (ld32 m t) := c)"
  shows "tty_text m' t = tty_text m t @ [c]" "unat (ld32 m' t) = Suc (unat (ld32 m t))" "tty_waiting m' t = tty_waiting m t"
    and "x \<notin> rng t 1056 \<Longrightarrow> m' x = m x"
proof -
  define k where "k = unat (ld32 m t)"
  have k: "k < 1024" "ucast (ld32 m t) = (of_nat k :: u64)" "unat (ld32 m t) = k" using assms(1) by (simp_all add: k_def)
  have a: "unat (4 + of_nat i :: u64) = 4 + i" if "i < 1024" for i using unat_of_nat_u64 [of "4 + i"] that by simp
  have byte: "t + 4 + of_nat i \<notin> rng t 4" "t + 4 + of_nat i = t + 4 + of_nat j \<longleftrightarrow> i = j" "t + 4 + of_nat i \<notin> rng (t + 1032) 8"
    if "i < 1024" "j < 1024" for i j
  proof -
    show "t + 4 + of_nat i \<notin> rng t 4" using a [OF that(1)] by (simp add: add.assoc)
    have "t + 4 + of_nat i \<in> rng (t + (4 + of_nat i)) 1" by (simp add: add.assoc)
    from rng_parts_apart [OF _ _ this, of 1032 8] show "t + 4 + of_nat i \<notin> rng (t + 1032) 8" using a [OF that(1)] that(1) by simp
    have "4 + of_nat i = (4 + of_nat j :: u64) \<Longrightarrow> i = j" using a [OF that(1)] a [OF that(2)] by (metis add_left_cancel)
    then show "t + 4 + of_nat i = t + 4 + of_nat j \<longleftrightarrow> i = j" by (auto simp: add.assoc)
  qed
  have l: "ld32 m' t = ld32 m t + 1"
  proof -
    have "ld32 m' t = ld32 (st32 m t (ld32 m t + 1)) t" by (rule ld32_cong) (use byte(1) [OF k(1,1)] in \<open>auto simp: m'_def k(2)\<close>)
    then show ?thesis by (simp add: ld32_st32)
  qed
  show u: "unat (ld32 m' t) = Suc (unat (ld32 m t))" using k by (simp add: l unat_word_ariths)
  have at: "m' (t + 4 + of_nat i) = (if i = k then c else m (t + 4 + of_nat i))" if "i < 1024" for i
    using byte(2) [OF that k(1)] byte(1) [OF that that] by (simp add: m'_def k(2) st32_other)
  show "tty_text m' t = tty_text m t @ [c]" unfolding tty_text_def u using k by (simp add: at)
  have "x \<notin> rng t 4" if "x \<in> rng (t + 1032) 8" for x using rng_parts_apart [of 0 4 1032 8 x t] that by auto
  then show "tty_waiting m' t = tty_waiting m t"
    unfolding tty_waiting_def by (intro ld64_cong) (use byte(3) [OF k(1,1)] in \<open>auto simp: m'_def k(2) st32_other simp del: in_rng\<close>)
  show "x \<notin> rng t 1056 \<Longrightarrow> m' x = m x" using buf_byte [OF k(1)] by (auto simp: m'_def k(2) st32_other)
qed

section \<open>Typing\<close>

text \<open>Two states that differ in the terminal and in the line only.\<close>

definition line_only :: "('d, 'a) kernel_state_scheme \<Rightarrow> ('d, 'a) kernel_state_scheme \<Rightarrow> bool" where
  "line_only s s' \<longleftrightarrow> (\<exists>m d x y. s' = s\<lparr>mem := m, dev := d, vgaterm_x := x, vgaterm_y := y\<rparr>
     \<and> (\<forall>a. a \<notin> rng (vgaterm_buf s) 4160 \<longrightarrow> a \<notin> rng (global_tty s) 1056 \<longrightarrow> m a = mem s a))"

definition tty_apart :: "('d, 'a) kernel_state_scheme \<Rightarrow> bool" where
  "tty_apart s \<longleftrightarrow> on_screen s \<and> rng (vgaterm_buf s) 4160 \<inter> rng (global_tty s) 1056 = {}"

lemma line_only_trans: "line_only s s' \<Longrightarrow> line_only s' s'' \<Longrightarrow> line_only s s''"
  unfolding line_only_def by (elim exE conjE) (simp del: in_rng, blast)

lemma line_only_refl: "line_only s s"
  unfolding line_only_def
  by (rule exI [of _ "mem s"], rule exI [of _ "dev s"], rule exI [of _ "vgaterm_x s"], rule exI [of _ "vgaterm_y s"]) simp

lemma line_only_fields:
  "line_only s s' \<Longrightarrow> vgaterm_buf s' = vgaterm_buf s \<and> global_tty s' = global_tty s \<and> tasks s' = tasks s \<and> current s' = current s"
  by (auto simp: line_only_def)

text \<open>Echoing a character leaves the line alone.\<close>

lemma echo:
  assumes "tty_apart s"
  shows "line_only s (printf_char P c s)" "tty_apart (printf_char P c s)"
    and "x \<in> rng (global_tty s) 1056 \<Longrightarrow> mem (printf_char P c s) x = mem s x"
proof -
  have on: "on_screen s" using assms by (simp add: tty_apart_def)
  have only: "console_only s (printf_char P c s)" unfolding printf_char_def by (rule vga.put_same [OF on])
  then show "line_only s (printf_char P c s)" unfolding console_only_def line_only_def by blast
  moreover have "on_screen (printf_char P c s)" unfolding printf_char_def by (rule vga.put_ready [OF on])
  ultimately show "tty_apart (printf_char P c s)" 
    using assms line_only_fields [of s "printf_char P c s"] by (simp add: tty_apart_def del: in_rng)
  show "x \<in> rng (global_tty s) 1056 \<Longrightarrow> mem (printf_char P c s) x = mem s x"
    using only assms unfolding console_only_def tty_apart_def by (auto simp: disjoint_iff)
qed

lemma sint_small: "(b :: u32) < 0x80000000 \<Longrightarrow> sint b = uint b"
proof -
  assume "b < 0x80000000"
  then have "uint b < 2 ^ 31" by (simp add: word_less_def)
  moreover have "- (2 ^ 31) \<le> uint b" by (rule order_trans [OF _ uint_ge_0]) simp
  ultimately have "signed_take_bit 31 (uint b) = uint b" by (intro signed_take_bit_int_eq_self)
  then show "sint b = uint b" by (simp add: sint_uint)
qed

lemma not_full: "unat (b :: u32) < 1024 \<Longrightarrow> \<not> TTY_BUF_SIZE <s b \<and> \<not> b \<ge> TTY_BUF_SIZE"
proof -
  assume "unat b < 1024"
  then have b: "b < 1024" by (simp add: word_less_nat_alt)
  then have "sint b = uint b" "uint b < 1024" by (auto simp: word_less_def intro!: sint_small)
  then show ?thesis using b by (simp add: TTY_BUF_SIZE_def word_sless_alt not_le)
qed

lemma send_key:
  assumes "tty_apart s" "unat (ld32 (mem s) (global_tty s)) < 1024" "key \<noteq> KEY ''ENTER'' \<or> tty_waiting (mem s) (global_tty s) = 0"
  obtains s' where "tty_send_key P key s = Inr s'" "line_only s s'" "tty_apart s'"
    "tty_text (mem s') (global_tty s) = tty_text (mem s) (global_tty s) @ [key_map key]"
    "tty_waiting (mem s') (global_tty s) = tty_waiting (mem s) (global_tty s)"
proof -
  let ?t = "global_tty s" and ?b = "ld32 (mem s) (global_tty s)"
  define s1 where "s1 = s\<lparr>mem := (st32 (mem s) ?t (?b + 1))(?t + 4 + ucast ?b := key_map key)\<rparr>"
  note st = store_key [OF assms(2), where c = "key_map key"]
  have w: "ld64 (mem s1) (?t + 1032) = tty_waiting (mem s) ?t" using st(3) by (simp add: s1_def tty_waiting_def)
  have "tty_send_key P key s = Inr (printf_char P (key_map key) s1)"
    using not_full [OF assms(2)] assms(3) w by (auto simp: tty_send_key_def Let_def s1_def)
  moreover have "line_only s s1" unfolding line_only_def
    by (rule exI [of _ "mem s1"], rule exI [of _ "dev s"], rule exI [of _ "vgaterm_x s"], rule exI [of _ "vgaterm_y s"])
      (use st(4) in \<open>simp add: s1_def del: in_rng\<close>)
  moreover have ap: "tty_apart s1" using assms(1) by (simp add: tty_apart_def on_screen_def s1_def)
  note e = echo [OF ap, where P = P and c = "key_map key"]
  have g: "global_tty s1 = ?t" by (simp add: s1_def)
  have "unat (ld32 (mem s1) ?t) \<le> 1024" using st(2) assms(2) by (simp add: s1_def)
  then have "tty_text (mem (printf_char P (key_map key) s1)) ?t = tty_text (mem s1) ?t"
    "tty_waiting (mem (printf_char P (key_map key) s1)) ?t = tty_waiting (mem s1) ?t"
    using tty_cong [of ?t "mem (printf_char P (key_map key) s1)" "mem s1"] e(3) unfolding g by blast+
  moreover have "tty_text (mem s1) ?t = tty_text (mem s) ?t @ [key_map key]" "tty_waiting (mem s1) ?t = tty_waiting (mem s) ?t"
    using st(1,3) by (simp_all add: s1_def)
  ultimately show thesis using that e(1,2) line_only_trans [OF _ e(1)] by metis
qed

lemma enter_char [simp]: "key_map (KEY ''ENTER'') = 0x0A"
  by code_simp

lemma insert_only_tasks: "sched_rr_insert_proc t s = Inr s' \<Longrightarrow> \<exists>T. s' = s\<lparr>tasks := T\<rparr>"
  by (auto simp: sched_rr_insert_proc_def set_task_def Let_def split: if_splits)

lemma clear_waiting:
  assumes "unat (ld32 m t) \<le> 1024"
  shows "ld32 (st64 m (t + 1032) v) t = ld32 m t" "tty_text (st64 m (t + 1032) v) t = tty_text m t"
    "tty_waiting (st64 m (t + 1032) v) t = v"
proof -
  have off: "x \<notin> rng (t + 1032) 8" if "x \<in> rng (t + p) n" "unat p + n \<le> 1032" for x p n
    using rng_parts_apart [of p n 1032 8 x t] that by simp
  show l: "ld32 (st64 m (t + 1032) v) t = ld32 m t"
    by (rule ld32_cong) (use off [of _ 0 4] in \<open>simp add: st64_other del: in_rng\<close>)
  show "tty_text (st64 m (t + 1032) v) t = tty_text m t"
    unfolding tty_text_def l
  proof (rule map_cong [OF refl], rule st64_other)
    fix i assume "i \<in> set [0..<unat (ld32 m t)]"
    then have i: "i < 1024" using assms by simp
    show "t + 4 + of_nat i \<notin> rng (t + 1032) 8"
      by (rule off [of _ "4 + of_nat i" 1]) (use i unat_of_nat_u64 [of "4 + i"] in \<open>simp_all add: add.assoc\<close>)
  qed
  show "tty_waiting (st64 m (t + 1032) v) t = v" by (simp add: tty_waiting_def ld64_st64)
qed

text \<open>The end of a line wakes the task that waits for it.\<close>

lemma send_enter:
  assumes "tty_apart s" "unat (ld32 (mem s) (global_tty s)) < 1024" "tty_waiting (mem s) (global_tty s) = w" "w \<noteq> 0"
    "run_queue s (x # xs)" "w \<notin> set (x # xs)"
  obtains s' where "tty_send_key P (KEY ''ENTER'') s = Inr s'" "run_queue s' (x # w # xs)" "global_tty s' = global_tty s"
    "tty_text (mem s') (global_tty s) = tty_text (mem s) (global_tty s) @ [0x0A]" "tty_waiting (mem s') (global_tty s) = 0"
    "\<And>a. a \<notin> rng (vgaterm_buf s) 4160 \<Longrightarrow> a \<notin> rng (global_tty s) 1056 \<Longrightarrow> mem s' a = mem s a"
proof -
  let ?t = "global_tty s" and ?b = "ld32 (mem s) (global_tty s)"
  define s1 where "s1 = s\<lparr>mem := (st32 (mem s) ?t (?b + 1))(?t + 4 + ucast ?b := 0x0A)\<rparr>"
  note st = store_key [OF assms(2), where c = "0x0A"]
  have wt: "ld64 ((st32 (mem s) ?t (?b + 1))(?t + 4 + ucast ?b := 0x0A)) (?t + 1032) = w" using st(3) assms(3) by (simp add: tty_waiting_def)
  then have w1: "ld64 (mem s1) (?t + 1032) = w" by (simp add: s1_def)
  have "run_queue s1 (x # xs)" using assms(5) by (simp add: run_queue_def s1_def)
  from insert_proc_ring [OF this assms(6,4)] obtain s2 where s2: "sched_rr_insert_proc w s1 = Inr s2" "run_queue s2 (x # w # xs)" by blast
  from insert_only_tasks [OF s2(1)] obtain T where T: "s2 = s1\<lparr>tasks := T\<rparr>" by blast
  define s3 where "s3 = s2\<lparr>mem := st64 (mem s2) (?t + 1032) 0\<rparr>"
  have run: "tty_send_key P (KEY ''ENTER'') s = Inr (printf_char P 0x0A s3)"
    using not_full [OF assms(2)] assms(4) wt w1 s2(1) by (simp add: tty_send_key_def Let_def s3_def flip: s1_def)
  have m3: "mem s3 = st64 (mem s1) (?t + 1032) 0" "global_tty s3 = ?t" "vgaterm_buf s3 = vgaterm_buf s" by (simp_all add: s3_def T s1_def)
  have ap: "tty_apart s3" using assms(1) by (simp add: tty_apart_def on_screen_def s3_def T s1_def)
  note e = echo [OF ap, where P = P and c = "0x0A"]
  have le: "unat (ld32 (mem s1) ?t) \<le> 1024" using st(2) assms(2) by (simp add: s1_def)
  have l3: "ld32 (mem s3) ?t = ld32 (mem s1) ?t" "tty_text (mem s3) ?t = tty_text (mem s1) ?t" "tty_waiting (mem s3) ?t = 0"
    unfolding m3(1) using clear_waiting [OF le] by simp_all
  moreover have "tty_text (mem (printf_char P 0x0A s3)) ?t = tty_text (mem s3) ?t"
    "tty_waiting (mem (printf_char P 0x0A s3)) ?t = tty_waiting (mem s3) ?t"
    using tty_cong [of ?t "mem (printf_char P 0x0A s3)" "mem s3"] e(3) le l3(1) unfolding m3(2) by (simp_all del: in_rng)
  moreover have "tty_text (mem s1) ?t = tty_text (mem s) ?t @ [0x0A]" using st(1) by (simp add: s1_def)
  moreover have "run_queue (printf_char P 0x0A s3) (x # w # xs)"
    using s2(2) line_only_fields [OF e(1)] by (simp add: run_queue_def s3_def)
  moreover have "mem (printf_char P 0x0A s3) a = mem s a" if "a \<notin> rng (vgaterm_buf s) 4160" "a \<notin> rng ?t 1056" for a
  proof -
    have "a \<notin> rng (?t + 1032) 8" using tty_part [of 1032 8 a ?t] that(2) by auto
    then have "mem s3 a = mem s1 a" unfolding m3(1) by (rule st64_other)
    moreover have "mem s1 a = mem s a" using st(4) [OF that(2)] by (simp add: s1_def)
    moreover have "mem (printf_char P 0x0A s3) a = mem s3 a"
      using e(1) that unfolding line_only_def m3(2,3) by auto
    ultimately show ?thesis by simp
  qed
  ultimately show thesis using that [OF run] line_only_fields [OF e(1)] m3(2) l3(2,3) by simp
qed

text \<open>What the reader gets when it runs again.\<close>

lemma resume_read:
  assumes "unat (ld32 (mem s) (global_tty s)) \<le> 1024" "rng buf (unat n) \<inter> rng (global_tty s) 1056 = {}"
    "stdin_read_resume buf n s = (r, s')"
  shows "r = of_nat (min (unat n) (length (tty_text (mem s) (global_tty s))))"
    and "\<forall>i < unat r. mem s' (buf + of_nat i) = tty_text (mem s) (global_tty s) ! i" and "tty_text (mem s') (global_tty s) = []"
proof -
  let ?t = "global_tty s" and ?b = "ld32 (mem s) (global_tty s)"
  have "?b < 0x80000000" using assms(1) by (simp add: word_less_nat_alt)
  then have sc: "scast ?b = (of_nat (unat ?b) :: u64)" by (simp add: scast_eq sint_small)
  define k where "k = unat ?b"
  have k: "k \<le> 1024" "unat (of_nat k :: u64) = k" using assms(1) by (simp_all add: k_def unat_of_nat_u64)
  have r: "r = (if of_nat k > n then n else of_nat k)"
    and s': "s' = s\<lparr>mem := st32 (memcpy (mem s) buf (?t + 4) r) ?t 0\<rparr>"
    using assms(3) by (auto simp: stdin_read_resume_def Let_def sc k_def)
  have ur: "unat r = min (unat n) k" using r k(2) by (auto simp: word_less_nat_alt min_def)
  show "r = of_nat (min (unat n) (length (tty_text (mem s) ?t)))" 
    using ur by (simp flip: k_def ur)
  show "tty_text (mem s') ?t = []" by (simp add: s' tty_text_def ld32_st32)
  have cp: "rng buf (unat r) \<inter> rng (?t + 4) (unat r) = {}"
    using assms(2) tty_part [of 4 "unat r" _ ?t] ur k(1) by (auto simp: disjoint_iff)
  show "\<forall>i < unat r. mem s' (buf + of_nat i) = tty_text (mem s) ?t ! i"
  proof (intro allI impI)
    fix i assume i: "i < unat r"
    have u: "unat (of_nat i :: u64) = i" using i ur k(1) by (intro unat_of_nat_u64) simp
    have "buf + of_nat i \<in> rng buf (unat n)" using i ur u by simp
    then have "buf + of_nat i \<notin> rng ?t 1056" using assms(2) by blast
    then have "buf + of_nat i \<notin> rng ?t 4" by simp
    then show "mem s' (buf + of_nat i) = tty_text (mem s) ?t ! i"
      using i u ur by (simp add: s' st32_other memcpy_eq [OF cp] word_less_nat_alt tty_text_def flip: k_def)
  qed
qed

text \<open>
  The first task runs, the task at 48 waits for input; nothing is typed yet.
\<close>

definition sample_kernel :: "unit kernel_state" where
  "sample_kernel = term_state.extend (sample_term\<lparr>mem := st64 (\<lambda>_. 0) (0x100000 + 1032) 48\<rparr>) (kernel_state.fields 0x100000 False 1000)"

end
