(* ===== verification/Process.thy ===== *)
theory Process
  imports Tty
begin

text \<open>
  Creating and replacing processes (\<^verbatim>\<open>src/src/kernel/fork.c\<close>, \<^verbatim>\<open>src/src/fs/exec.c\<close> and the rest of
  \<^verbatim>\<open>src/src/kernel/sched.c\<close>), files of a process (\<^verbatim>\<open>src/src/fs/open.c\<close>) and the system calls
  (\<^verbatim>\<open>src/src/kernel/sys.c\<close>). A system call that puts its task to sleep ends, for the caller of the
  model, with the point at which the task goes on when it runs again.
\<close>

section \<open>Saved registers and frames\<close>

definition regs_layout :: layout where
  "regs_layout = [(''r15'', 8), (''r14'', 8), (''r13'', 8), (''r12'', 8), (''r11'', 8), (''r10'', 8), (''r9'', 8), (''r8'', 8),
     (''rbp'', 8), (''rsi'', 8), (''rdi'', 8), (''rdx'', 8), (''rcx'', 8), (''rbx'', 8), (''rax'', 8), (''rip'', 8), (''rsp'', 8)]"

definition inactive_task_frame :: layout where
  "inactive_task_frame = [(''r15'', 8), (''r14'', 8), (''r13'', 8), (''r12'', 8), (''rbx'', 8), (''rbp'', 8), (''ret_addr'', 8)]"

definition fork_frame :: layout where
  "fork_frame = [(''itf'', 56), (''regs'', 136)]"

definition KERNEL_STACK_SIZE :: u64 where "KERNEL_STACK_SIZE = 8192"

definition sizeof_task_struct :: u64 where "sizeof_task_struct = 232"

lemma frame_layouts [simp]:
  "sizeof regs_layout = 136" "sizeof fork_frame = 192" "fld fork_frame ''itf'' a = a" "fld fork_frame ''regs'' a = a + 56"
  "fld inactive_task_frame ''rbp'' a = a + 40" "fld inactive_task_frame ''ret_addr'' a = a + 48"
  "fld regs_layout ''rsi'' a = a + 72" "fld regs_layout ''rdi'' a = a + 80" "fld regs_layout ''rdx'' a = a + 88"
  "fld regs_layout ''rax'' a = a + 112" "fld regs_layout ''rip'' a = a + 120" "fld regs_layout ''rsp'' a = a + 128"
  by (simp_all add: sizeof_def fld_def regs_layout_def fork_frame_def inactive_task_frame_def)

text \<open>What \<open>kcalloc\<close> leaves in a new task structure.\<close>

definition zero_task :: task_struct where
  "zero_task = \<lparr>pid = 0, state = TASK_RUNNING, exit_status = 0, regs = 0, t_mm = 0, stack_bottom = 0, stack_top = 0, sp = 0,
     t_next = 0, t_prev = 0, parent = 0, children = 0, sibling = 0, fdtab = replicate TASK_FILE_MAX 0, alive_ticks = 0\<rparr>"

text \<open>
  Addresses the linker or the compiler fixes: the return path to user mode (\<^verbatim>\<open>pop_regs_and_sysret\<close>), the
  string \<^verbatim>\<open>"/init"\<close>, and the local objects of \<^verbatim>\<open>ext2_namei\<close> and \<^verbatim>\<open>ext2_getdents\<close>.
\<close>

record code_addrs =
  pop_regs_and_sysret :: u64
  init_path :: u64
  namei_comp :: u64
  getdents_inode :: u64

section \<open>Fork\<close>

definition init_task_stack :: "code_addrs \<Rightarrow> u64 \<Rightarrow> ('d, 'a) kernel_state_scheme \<Rightarrow> ('d, 'a) kernel_state_scheme res" where
  "init_task_stack A t s =
     rbind (kcalloc 1 KERNEL_STACK_SIZE s) (\<lambda>(bottom, s).
     let s = set_task t (stack_bottom_update (\<lambda>_. bottom)) s;
         s = set_task t (stack_top_update (\<lambda>_. stack_bottom (tasks s t) + KERNEL_STACK_SIZE)) s;
         s = set_task t (sp_update (\<lambda>_. stack_top (tasks s t) - of_nat (sizeof fork_frame))) s;
         ff = sp (tasks s t);
         m = st64 (mem s) (fld inactive_task_frame ''rbp'' (fld fork_frame ''itf'' ff)) 0;
         m = st64 m (fld inactive_task_frame ''ret_addr'' (fld fork_frame ''itf'' ff)) (pop_regs_and_sysret A)
     in Inr (set_task t (regs_update (\<lambda>_. fld fork_frame ''regs'' ff)) (s\<lparr>mem := m\<rparr>)))"

text \<open>The loop over the descriptors: the child shares the open files, from descriptor \<open>i\<close> on.\<close>

primrec share_files :: "u64 \<Rightarrow> nat \<Rightarrow> u64 list \<Rightarrow> ('d, 'a) kernel_state_scheme \<Rightarrow> ('d, 'a) kernel_state_scheme" where
  "share_files new i [] s = s"
| "share_files new i (f # fs) s =
     share_files new (Suc i) fs
       (if f \<noteq> 0
        then let s = set_file f (file_refcnt_update (\<lambda>r. r + 1)) s
             in set_task new (fdtab_update (\<lambda>tab. tab[i := f])) s
        else s)"

definition do_fork :: "code_addrs \<Rightarrow> u64 \<Rightarrow> ('d, 'a) kernel_state_scheme \<Rightarrow> (u64 \<times> ('d, 'a) kernel_state_scheme) res" where
  "do_fork A t s =
     rbind (kcalloc 1 sizeof_task_struct s) (\<lambda>(new, s).
     let s = set_task new (\<lambda>_. zero_task) s;
         s = set_task new (state_update (\<lambda>_. TASK_RUNNING)) s
     in rbind (mm_dupe (t_mm (tasks s t)) s) (\<lambda>(mm, s).
     let s = set_task new (t_mm_update (\<lambda>_. mm)) s;
         s = set_task new (pid_update (\<lambda>_. next_pid s)) s;
         s = s\<lparr>next_pid := next_pid s + 1\<rparr>;
         s = share_files new 0 (fdtab (tasks s t)) s
     in rbind (init_task_stack A new s) (\<lambda>s.
     let m = memcpy (mem s) (regs (tasks s new)) (regs (tasks s t)) (of_nat (sizeof regs_layout))
     in Inr (new, s\<lparr>mem := st64 m (fld regs_layout ''rax'' (regs (tasks s new))) 0\<rparr>))))"

definition sched_fork :: "code_addrs \<Rightarrow> u64 \<Rightarrow> ('d, 'a) kernel_state_scheme \<Rightarrow> (u32 \<times> ('d, 'a) kernel_state_scheme) res" where
  "sched_fork A t s =
     rbind (do_fork A t s) (\<lambda>(new, s).
     rbind (sched_rr_insert_proc new s) (\<lambda>s.
     let s = tree_insert_proc t new s
     in Inr (pid (tasks s new), s)))"

section \<open>Exec\<close>

definition PT_LOAD :: u32 where "PT_LOAD = 1"

definition Elf64_Ehdr :: layout where
  "Elf64_Ehdr = [(''e_ident'', 16), (''e_type'', 2), (''e_machine'', 2), (''e_version'', 4), (''e_entry'', 8), (''e_phoff'', 8),
     (''e_shoff'', 8), (''e_flags'', 4), (''e_ehsize'', 2), (''e_phentsize'', 2), (''e_phnum'', 2), (''e_shentsize'', 2),
     (''e_shnum'', 2), (''e_shstrndx'', 2)]"

definition Elf64_Phdr :: layout where
  "Elf64_Phdr = [(''p_type'', 4), (''p_flags'', 4), (''p_offset'', 8), (''p_vaddr'', 8), (''p_paddr'', 8), (''p_filesz'', 8),
     (''p_memsz'', 8), (''p_align'', 8)]"

definition map_segment :: "u64 \<Rightarrow> u64 \<Rightarrow> u64 \<Rightarrow> ('d, 'a) kernel_state_scheme \<Rightarrow> ('d, 'a) kernel_state_scheme res" where
  "map_segment mm elf ph s =
     (let map_addr = page_base (ld64 (mem s) (fld Elf64_Phdr ''p_vaddr'' ph));
          map_offset = page_base (ld64 (mem s) (fld Elf64_Phdr ''p_offset'' ph));
          extraspace = page_off (ld64 (mem s) (fld Elf64_Phdr ''p_vaddr'' ph))
      in rbind (anon_mmap_user mm map_addr (DIV_CEIL (ld64 (mem s) (fld Elf64_Phdr ''p_memsz'' ph) + extraspace) PAGE_SIZE)
                  (ucast PAGE_PROT_READ) s) (\<lambda>s.
         mm_copy_from_buf mm (elf + map_offset) map_addr (ld64 (mem s) (fld Elf64_Phdr ''p_filesz'' ph) + extraspace) s))"

text \<open>
  The loop over the program headers. The header is read again at every turn; since \<^verbatim>\<open>e_phnum\<close> has 16 bits,
  a budget of \<open>2 ^ 16\<close> turns is always enough.
\<close>

primrec load_segments :: "nat \<Rightarrow> u64 \<Rightarrow> u64 \<Rightarrow> u64 \<Rightarrow> nat \<Rightarrow> ('d, 'a) kernel_state_scheme \<Rightarrow> ('d, 'a) kernel_state_scheme res" where
  "load_segments 0 task buf ph_arr i s = Inr s"
| "load_segments (Suc k) task buf ph_arr i s =
     (if i < unat (ld16 (mem s) (fld Elf64_Ehdr ''e_phnum'' buf))
      then let ph = ph_arr + of_nat (i * sizeof Elf64_Phdr)
           in rbind (if ld32 (mem s) (fld Elf64_Phdr ''p_type'' ph) = PT_LOAD
                     then map_segment (t_mm (tasks s task)) buf ph s else Inr s)
                (load_segments k task buf ph_arr (Suc i))
      else Inr s)"

text \<open>More turns than the budget change nothing.\<close>

lemma load_segments_budget:
  fixes s :: "('d, 'a) kernel_state_scheme"
  assumes "65536 \<le> i + k"
  shows "load_segments (k + j) task buf ph_arr i s = load_segments k task buf ph_arr i s"
  using assms
proof (induction k arbitrary: i s)
  case 0
  have w: "unat w < 65536" for w :: u16 using unsigned_less [of w] by simp
  have "\<not> i < unat (ld16 (mem s) (fld Elf64_Ehdr ''e_phnum'' buf))"
    using 0 w [of "ld16 (mem s) (fld Elf64_Ehdr ''e_phnum'' buf)"] by linarith
  then show ?case by (cases j) simp_all
next
  case (Suc k)
  have IH: "load_segments (k + j) task buf ph_arr (Suc i) = (load_segments k task buf ph_arr (Suc i) :: ('d, 'a) kernel_state_scheme \<Rightarrow> _)"
    by (intro ext Suc.IH) (use Suc.prems in simp)
  show ?case by (simp add: IH)
qed

definition exec_elf :: "'d ports \<Rightarrow> code_addrs \<Rightarrow> u64 \<Rightarrow> u64 \<Rightarrow> ('d, 'a) kernel_state_scheme \<Rightarrow> ('d, 'a) kernel_state_scheme res" where
  "exec_elf P A task path s =
     rbind (ext2_namei P (rootfs s) (namei_comp A) path s) (\<lambda>(ino, s).
     rbind (ext2_read_file P (rootfs s) ino s) (\<lambda>(buf, s).
     rbind (mm_new s) (\<lambda>(mm, s).
     let s = set_task task (t_mm_update (\<lambda>_. mm)) s;
         ph_arr = buf + ld64 (mem s) (fld Elf64_Ehdr ''e_phoff'' buf)
     in rbind (load_segments (2 ^ 16) task buf ph_arr 0 s) (\<lambda>s.
     let s = s\<lparr>mem := st64 (mem s) (fld regs_layout ''rip'' (regs (tasks s task))) (ld64 (mem s) (fld Elf64_Ehdr ''e_entry'' buf))\<rparr>;
         s = free buf s
     in rbind (anon_mmap_user (t_mm (tasks s task)) USER_STACK_BASE USER_STACK_PAGES (ucast (PAGE_PROT_READ OR PAGE_PROT_WRITE)) s) (\<lambda>s.
     Inr (s\<lparr>mem := st64 (mem s) (fld regs_layout ''rsp'' (regs (tasks s task)))
                     (USER_STACK_BASE + PAGE_SIZE * USER_STACK_PAGES)\<rparr>))))))"

definition sched_exec :: "'d ports \<Rightarrow> code_addrs \<Rightarrow> u64 \<Rightarrow> u64 \<Rightarrow> ('d, 'a) kernel_state_scheme \<Rightarrow> (u32 \<times> ('d, 'a) kernel_state_scheme) res" where
  "sched_exec P A path t s =
     (let mm_old = t_mm (tasks s t)
      in rbind (exec_elf P A t path s) (\<lambda>s.
         let s = s\<lparr>cr3 := p4 (mms s (addr_kernel_mm (statics s)))\<rparr>
         in rbind (mm_free mm_old s) (\<lambda>s.
            Inr (0, s\<lparr>cr3 := p4 (mms s (t_mm (tasks s t)))\<rparr>))))"

definition create_init :: "'d ports \<Rightarrow> code_addrs \<Rightarrow> ('d, 'a) kernel_state_scheme \<Rightarrow> (u64 \<times> ('d, 'a) kernel_state_scheme) res" where
  "create_init P A s =
     rbind (kcalloc 1 sizeof_task_struct s) (\<lambda>(t, s).
     let s = set_task t (\<lambda>_. zero_task) s
     in rbind (init_task_stack A t s) (\<lambda>s.
        rbind (exec_elf P A t (init_path A) s) (\<lambda>s.
        let s = set_task t (pid_update (\<lambda>_. 1)) s;
            s = set_task t (alive_ticks_update (\<lambda>_. 0)) s;
            s = set_task t (t_next_update (\<lambda>_. t)) s;
            s = set_task t (t_prev_update (\<lambda>_. t)) s;
            s = set_task t (state_update (\<lambda>_. TASK_RUNNING)) s
        in Inr (t, tty_install_stdin_stdout t s))))"

definition start_init :: "'d ports \<Rightarrow> code_addrs \<Rightarrow> ('d, 'a) kernel_state_scheme \<Rightarrow> ('d, 'a) kernel_state_scheme res" where
  "start_init P A s =
     rbind (create_init P A s) (\<lambda>(t, s).
     Inr (s\<lparr>proc_root := t, current := t, current_task_stack := stack_top (tasks s t), tss_rsp0 := sp (tasks s t),
            cr3 := p4 (mms s (t_mm (tasks s t))), cpu_rsp := sp (tasks s t)\<rparr>))"

section \<open>Open files\<close>

definition EXT2_S_IFREG :: u16 where "EXT2_S_IFREG = 0x8000"
definition EXT2_S_IFDIR :: u16 where "EXT2_S_IFDIR = 0x4000"

text \<open>The first free descriptor from \<open>i\<close> on, or the length of the table.\<close>

fun free_fd :: "u64 list \<Rightarrow> nat" where
  "free_fd [] = 0"
| "free_fd (f # fs) = (if f = 0 then 0 else Suc (free_fd fs))"

definition do_open :: "'d ports \<Rightarrow> code_addrs \<Rightarrow> u64 \<Rightarrow> ('d, 'a) kernel_state_scheme \<Rightarrow> (u32 \<times> ('d, 'a) kernel_state_scheme) res" where
  "do_open P A path s =
     rbind (kcalloc 1 sizeof_file s) (\<lambda>(f, s).
     let s = set_file f (\<lambda>_. zero_file) s
     in rbind (ext2_namei P (rootfs s) (namei_comp A) path s) (\<lambda>(n, s).
     let s = set_file f (ino_update (\<lambda>_. n)) s;
         i = free_fd (fdtab (tasks s (current s)))
     in if i \<ge> TASK_FILE_MAX then Inl (Panic ''out of file descriptors'') else
     let s = set_task (current s) (fdtab_update (\<lambda>tab. tab[i := f])) s
     in rbind (kcalloc 1 (of_nat (sizeof ext2_ino)) s) (\<lambda>(inode_buf, s).
     rbind (ext2_get_inode P (rootfs s) inode_buf (ino (files s f)) s) (\<lambda>s.
     let i_mode = ld16 (mem s) (fld ext2_ino ''i_mode'' inode_buf)
     in rbind (if i_mode AND EXT2_S_IFREG \<noteq> 0 then Inr (set_file f (ops_update (\<lambda>_. ext2_file_operations)) s)
               else if i_mode AND EXT2_S_IFDIR \<noteq> 0 then Inr (set_file f (ops_update (\<lambda>_. ext2_dir_operations)) s)
               else Inl (Panic ''unsupported file mode'')) (\<lambda>s.
     Inr (of_nat i, free inode_buf s))))))"

text \<open>\<^verbatim>\<open>current->fdtab[fd]\<close>; an index outside of the table is undefined.\<close>

definition fd_file :: "u32 \<Rightarrow> ('d, 'a) kernel_state_scheme \<Rightarrow> u64 res" where
  "fd_file fd s = (if unat fd < TASK_FILE_MAX then Inr (fdtab (tasks s (current s)) ! unat fd) else Inl (Undefined ''index outside of fdtab''))"

definition do_close :: "u32 \<Rightarrow> ('d, 'a) kernel_state_scheme \<Rightarrow> (u32 \<times> ('d, 'a) kernel_state_scheme) res" where
  "do_close fd s =
     rbind (fd_file fd s) (\<lambda>f.
     if f = 0 then Inl (Panic ''bad fd'')
     else let s = free f s
          in Inr (0, set_task (current s) (fdtab_update (\<lambda>tab. tab[unat fd := 0])) s))"

section \<open>System calls\<close>

text \<open>How a handler ends: with a result, asleep at a point to go on from, or never (\<^verbatim>\<open>exit\<close>).\<close>

datatype sleep_point = In_read u64 u64 | In_wait u64

datatype sys_end = Result u64 | Asleep sleep_point | Gone

type_synonym ('d, 'a) handler = "('d, 'a) kernel_state_scheme \<Rightarrow> (sys_end \<times> ('d, 'a) kernel_state_scheme) res"

definition with_ops :: "u32 \<Rightarrow> (u64 \<Rightarrow> file_ops \<Rightarrow> ('d, 'a) handler) \<Rightarrow> ('d, 'a) handler" where
  "with_ops fd body s =
     rbind (fd_file fd s) (\<lambda>f.
     if f = 0 then Inl (Panic ''fd does not exist'')
     else if ops (files s f) = No_ops then Inl (Undefined ''read through null ops'')
     else body f (ops (files s f)) s)"

definition sys_read :: "u64 \<Rightarrow> u32 \<Rightarrow> u64 \<Rightarrow> u64 \<Rightarrow> ('d, 'a) handler" where
  "sys_read rsp fd buf count = with_ops fd (\<lambda>f fops s.
     if fops = stdin_ops then rbind (stdin_read rsp s) (\<lambda>s. Inr (Asleep (In_read buf count), s))
     else Inl (Panic ''ENOSYS''))"

definition sys_write :: "'d ports \<Rightarrow> u32 \<Rightarrow> u64 \<Rightarrow> u64 \<Rightarrow> ('d, 'a) handler" where
  "sys_write P fd buf count = with_ops fd (\<lambda>f fops s.
     if fops = stdout_ops then (case stdout_write P buf count s of (n, s) \<Rightarrow> Inr (Result n, s))
     else Inl (Panic ''ENOSYS''))"

definition sys_getdents :: "'d ports \<Rightarrow> code_addrs \<Rightarrow> u32 \<Rightarrow> u64 \<Rightarrow> u64 \<Rightarrow> ('d, 'a) handler" where
  "sys_getdents P A fd buf sz = with_ops fd (\<lambda>f fops s.
     if fops = ext2_dir_operations
     then rbind (ext2_getdents P (getdents_inode A) (ino (files s f)) buf sz s) (\<lambda>(n, s). Inr (Result (scast (ucast n :: u32)), s))
     else Inl (Panic ''ENOSYS''))"

definition sys_wait :: "u64 \<Rightarrow> u64 \<Rightarrow> ('d, 'a) handler" where
  "sys_wait rsp wstatus s =
     rbind (do_wait rsp (current s) wstatus s) (\<lambda>(r, s).
     Inr (case r of Reaped n \<Rightarrow> Result (scast n) | Retry \<Rightarrow> Asleep (In_wait wstatus), s))"

definition sys_open :: "'d ports \<Rightarrow> code_addrs \<Rightarrow> u64 \<Rightarrow> ('d, 'a) handler" where
  "sys_open P A path s = rbind (do_open P A path s) (\<lambda>(r, s). Inr (Result (scast r), s))"

definition sys_close :: "u32 \<Rightarrow> ('d, 'a) handler" where
  "sys_close fd s = rbind (do_close fd s) (\<lambda>(r, s). Inr (Result (scast r), s))"

definition sys_fork :: "code_addrs \<Rightarrow> ('d, 'a) handler" where
  "sys_fork A s = rbind (sched_fork A (current s) s) (\<lambda>(r, s). Inr (Result (scast r), s))"

definition sys_exec :: "'d ports \<Rightarrow> code_addrs \<Rightarrow> u64 \<Rightarrow> ('d, 'a) handler" where
  "sys_exec P A pathname s = rbind (sched_exec P A pathname (current s) s) (\<lambda>(r, s). Inr (Result (scast r), s))"

definition sys_exit :: "u64 \<Rightarrow> u32 \<Rightarrow> ('d, 'a) handler" where
  "sys_exit rsp status s = rbind (do_exit rsp (current s) status s) (\<lambda>s. Inr (Gone, s))"

definition SYS_READ :: u64 where "SYS_READ = 0"
definition SYS_WRITE :: u64 where "SYS_WRITE = 1"
definition SYS_OPEN :: u64 where "SYS_OPEN = 2"
definition SYS_CLOSE :: u64 where "SYS_CLOSE = 3"
definition SYS_FORK :: u64 where "SYS_FORK = 4"
definition SYS_EXEC :: u64 where "SYS_EXEC = 5"
definition SYS_EXIT :: u64 where "SYS_EXIT = 6"
definition SYS_WAIT :: u64 where "SYS_WAIT = 7"
definition SYS_GETDENTS :: u64 where "SYS_GETDENTS = 8"

text \<open>The store of a result in the saved \<^verbatim>\<open>rax\<close>, which a call that sleeps or exits does not reach.\<close>

definition set_result :: "u64 \<Rightarrow> sys_end \<times> ('d, 'a) kernel_state_scheme \<Rightarrow> sys_end \<times> ('d, 'a) kernel_state_scheme" where
  "set_result rg r = (case r of
       (Result v, s) \<Rightarrow> (Result v, s\<lparr>mem := st64 (mem s) (fld regs_layout ''rax'' rg) v\<rparr>)
     | (e, s) \<Rightarrow> (e, s))"

definition do_syscall :: "'d ports \<Rightarrow> code_addrs \<Rightarrow> u64 \<Rightarrow> u64 \<Rightarrow> ('d, 'a) handler" where
  "do_syscall P A rsp rg s =
     (let s = set_task (current s) (regs_update (\<lambda>_. rg)) s;
          rax = ld64 (mem s) (fld regs_layout ''rax'' rg);
          rdi = ld64 (mem s) (fld regs_layout ''rdi'' rg);
          rsi = ld64 (mem s) (fld regs_layout ''rsi'' rg);
          rdx = ld64 (mem s) (fld regs_layout ''rdx'' rg)
      in rbind (if rax = SYS_READ then sys_read rsp (ucast rdi) rsi rdx s
                else if rax = SYS_WRITE then sys_write P (ucast rdi) rsi rdx s
                else if rax = SYS_OPEN then sys_open P A rdi s
                else if rax = SYS_CLOSE then sys_close (ucast rdi) s
                else if rax = SYS_WAIT then sys_wait rsp rdi s
                else if rax = SYS_EXEC then sys_exec P A rdi s
                else if rax = SYS_FORK then sys_fork A s
                else if rax = SYS_EXIT then sys_exit rsp (ucast rdi) s
                else if rax = SYS_GETDENTS then sys_getdents P A (ucast rdi) rsi rdx s
                else Inl (Panic ''syscall not implemented''))
         (\<lambda>r. Inr (set_result rg r)))"

text \<open>What the sleeping task does when it is switched to again, up to its next sleep or its return.\<close>

definition resume_syscall :: "u64 \<Rightarrow> u64 \<Rightarrow> sleep_point \<Rightarrow> ('d, 'a) handler" where
  "resume_syscall rsp rg p s =
     rbind (case p of
         In_read buf n \<Rightarrow> (case stdin_read_resume buf n s of (r, s) \<Rightarrow> Inr (Result r, s))
       | In_wait wstatus \<Rightarrow> sys_wait rsp wstatus s)
       (\<lambda>r. Inr (set_result rg r))"

end
