(* ===== verification/Descriptors.thy ===== *)
theory Descriptors
  imports Ata Layout
begin

text \<open>
  The tables the processor reads: segment descriptors (\<^verbatim>\<open>src/src/mm/gdt.c\<close>), interrupt gates and the
  programming of the interrupt controllers (\<^verbatim>\<open>src/src/drivers/int.c\<close>). Loading the table registers and
  reloading the segment registers are single privileged instructions and are left out.
\<close>

section \<open>Segment descriptors\<close>

definition gdtr :: layout where
  "gdtr = [(''len'', 2), (''addr'', 8)]"

definition tss :: layout where
  "tss = [(''resv1'', 4), (''rsp0'', 8), (''rsp1'', 8), (''rsp2'', 8), (''rsp3'', 8), (''resv2'', 8), (''ist1'', 8),
     (''ist2'', 8), (''ist3'', 8), (''ist4'', 8), (''ist5'', 8), (''ist6'', 8), (''ist7'', 8), (''resv3'', 8),
     (''resv4'', 4), (''iopb'', 2)]"

lemma tss_size [simp]: "sizeof tss = 114"
  by (simp add: sizeof_def tss_def)

definition encode_gdt_entry :: "u64 \<Rightarrow> u32 \<Rightarrow> u32 \<Rightarrow> u8 \<Rightarrow> u8 \<Rightarrow> memory \<Rightarrow> memory res" where
  "encode_gdt_entry target base limit access_byte flags m =
     (if limit > 0xFFFFF then Inl (Panic ''GDT cannot encode limits larger than 0xFFFFF'')
      else let m = m(target := ucast (limit AND 0xFF));
               m = m(target + 1 := ucast (drop_bit 8 limit AND 0xFF));
               m = m(target + 6 := ucast (drop_bit 16 limit AND 0x0F));
               m = m(target + 2 := ucast (base AND 0xFF));
               m = m(target + 3 := ucast (drop_bit 8 base AND 0xFF));
               m = m(target + 4 := ucast (drop_bit 16 base AND 0xFF));
               m = m(target + 7 := ucast (drop_bit 24 base AND 0xFF));
               m = m(target + 5 := access_byte)
           in Inr (m(target + 6 := m (target + 6) OR push_bit 4 flags)))"

definition encode_tss_gdt_entry :: "u64 \<Rightarrow> u64 \<Rightarrow> u32 \<Rightarrow> u8 \<Rightarrow> u8 \<Rightarrow> memory \<Rightarrow> memory res" where
  "encode_tss_gdt_entry target base limit access_byte flags m =
     rbind (encode_gdt_entry target 0 limit access_byte flags m) (\<lambda>m.
     let m = m(target + 2 := ucast (base AND 0xFF));
         m = m(target + 3 := ucast (drop_bit 8 base AND 0xFF));
         m = m(target + 4 := ucast (drop_bit 16 base AND 0xFF));
         m = m(target + 7 := ucast (drop_bit 24 base AND 0xFF));
         m = m(target + 8 := ucast (drop_bit 32 base AND 0xFF));
         m = m(target + 9 := ucast (drop_bit 40 base AND 0xFF));
         m = m(target + 10 := ucast (drop_bit 48 base AND 0xFF));
         m = m(target + 11 := ucast (drop_bit 56 base AND 0xFF));
         m = m(target + 12 := 0);
         m = m(target + 13 := 0);
         m = m(target + 14 := 0)
     in Inr (m(target + 15 := 0)))"

text \<open>
  \<open>gdt_init\<close> with the addresses of the static table \<open>gdt\<close> and of \<open>__tss\<close>; the result also has the
  operand of \<^verbatim>\<open>lgdt\<close>, its length and address.
\<close>

definition gdt_init :: "u64 \<Rightarrow> u64 \<Rightarrow> memory \<Rightarrow> ((u16 \<times> u64) \<times> memory) res" where
  "gdt_init gdt tss_addr m =
     rbind (encode_gdt_entry gdt 0 0 0 0 m) (\<lambda>m.
     rbind (encode_gdt_entry (gdt + 8) 0 0xFFFFF 0x9A 0xA m) (\<lambda>m.
     rbind (encode_gdt_entry (gdt + 16) 0 0xFFFFF 0x92 0xC m) (\<lambda>m.
     rbind (encode_gdt_entry (gdt + 24) 0 0xFFFFF 0xF2 0xC m) (\<lambda>m.
     rbind (encode_gdt_entry (gdt + 32) 0 0xFFFFF 0xFA 0xA m) (\<lambda>m.
     let m = memset m tss_addr 0 (of_nat (sizeof tss))
     in rbind (encode_tss_gdt_entry (gdt + 40) tss_addr (of_nat (sizeof tss)) 0x89 0 m) (\<lambda>m.
        Inr ((56, gdt), m)))))))"

section \<open>Interrupt gates\<close>

definition IDT_MAX_DESCRIPTORS :: nat where "IDT_MAX_DESCRIPTORS = 256"

definition idt_entry :: layout where
  "idt_entry = [(''offset_1'', 2), (''selector'', 2), (''ist'', 1), (''attr'', 1), (''offset_2'', 2), (''offset_3'', 4),
     (''reserved'', 4)]"

lemma idt_entry_size [simp]: "sizeof idt_entry = 16"
  by (simp add: sizeof_def idt_entry_def)

definition idt_set_descriptor :: "u64 \<Rightarrow> u8 \<Rightarrow> u64 \<Rightarrow> u8 \<Rightarrow> memory \<Rightarrow> memory" where
  "idt_set_descriptor idt vector isr attr m =
     (let descriptor = idt + ucast vector * of_nat (sizeof idt_entry);
          m = st16 m (fld idt_entry ''offset_1'' descriptor) (ucast (isr AND 0xFFFF));
          m = st16 m (fld idt_entry ''offset_2'' descriptor) (ucast (drop_bit 16 isr AND 0xFFFF));
          m = st32 m (fld idt_entry ''offset_3'' descriptor) (ucast (drop_bit 32 isr AND 0xFFFFFFFF));
          m = st16 m (fld idt_entry ''selector'' descriptor) 0x08;
          m = m(fld idt_entry ''attr'' descriptor := attr);
          m = m(fld idt_entry ''ist'' descriptor := 0)
      in st32 m (fld idt_entry ''reserved'' descriptor) 0)"

section \<open>The interrupt controllers\<close>

definition PIC1_REMAP_BASE :: u32 where "PIC1_REMAP_BASE = 32"
definition PIC2_REMAP_BASE :: u32 where "PIC2_REMAP_BASE = 40"
definition PIC1_COMMAND :: u16 where "PIC1_COMMAND = 0x20"
definition PIC1_DATA :: u16 where "PIC1_DATA = 0x21"
definition PIC2_COMMAND :: u16 where "PIC2_COMMAND = 0xA0"
definition PIC2_DATA :: u16 where "PIC2_DATA = 0xA1"
definition PIC_EOI :: u8 where "PIC_EOI = 0x20"
definition ICW1_ICW4 :: u8 where "ICW1_ICW4 = 0x01"
definition ICW1_INIT :: u8 where "ICW1_INIT = 0x10"
definition ICW4_8086 :: u8 where "ICW4_8086 = 0x01"

definition io_wait :: "'d ports \<Rightarrow> 'd \<Rightarrow> 'd" where
  "io_wait P d = outb P 0x80 0 d"

definition send_eoi :: "'d ports \<Rightarrow> u8 \<Rightarrow> 'd \<Rightarrow> 'd" where
  "send_eoi P irq d =
     (let d = (if ucast irq \<ge> PIC2_REMAP_BASE then outb P PIC2_COMMAND PIC_EOI d else d)
      in outb P PIC1_COMMAND PIC_EOI d)"

definition remap_pic :: "'d ports \<Rightarrow> u32 \<Rightarrow> u32 \<Rightarrow> 'd \<Rightarrow> 'd" where
  "remap_pic P pic1_offset pic2_offset d =
     (case inb P PIC1_DATA d of (mask1, d) \<Rightarrow> case inb P PIC2_DATA d of (mask2, d) \<Rightarrow>
      let d = io_wait P (outb P PIC1_COMMAND (ICW1_INIT OR ICW1_ICW4) d);
          d = io_wait P (outb P PIC2_COMMAND (ICW1_INIT OR ICW1_ICW4) d);
          d = io_wait P (outb P PIC1_DATA (ucast pic1_offset) d);
          d = io_wait P (outb P PIC2_DATA (ucast pic2_offset) d);
          d = io_wait P (outb P PIC1_DATA 4 d);
          d = io_wait P (outb P PIC2_DATA 2 d);
          d = io_wait P (outb P PIC1_DATA ICW4_8086 d);
          d = io_wait P (outb P PIC2_DATA ICW4_8086 d);
          d = outb P PIC1_DATA mask1 d
      in outb P PIC2_DATA mask2 d)"

text \<open>
  The loop of \<open>idt_init\<close>: gates for \<open>n\<close> vectors from \<open>vector\<close> on; \<open>stubs\<close> is \<^verbatim>\<open>isr_stub_table\<close>,
  \<open>idt\<close> and \<open>vectors\<close> are the addresses of the static arrays.
\<close>

primrec idt_init_loop :: "(u8 \<Rightarrow> u64) \<Rightarrow> u64 \<Rightarrow> u64 \<Rightarrow> u8 \<Rightarrow> nat \<Rightarrow> memory \<Rightarrow> memory" where
  "idt_init_loop stubs idt vectors vector 0 m = m"
| "idt_init_loop stubs idt vectors vector (Suc n) m =
     (let m = idt_set_descriptor idt vector (stubs vector) 0x8E m;
          m = st32 m (vectors + ucast vector * 4) 1
      in idt_init_loop stubs idt vectors (vector + 1) n m)"

text \<open>The result also has the operand of \<^verbatim>\<open>lidt\<close>.\<close>

definition idt_init :: "'d ports \<Rightarrow> (u8 \<Rightarrow> u64) \<Rightarrow> u64 \<Rightarrow> u64 \<Rightarrow> ('d, 'a) io_state_scheme \<Rightarrow> (u16 \<times> u64) \<times> ('d, 'a) io_state_scheme" where
  "idt_init P stubs idt vectors s =
     (let s = s\<lparr>mem := idt_init_loop stubs idt vectors 0 48 (mem s)\<rparr>
      in ((of_nat (sizeof idt_entry * IDT_MAX_DESCRIPTORS) - 1, idt),
          s\<lparr>dev := remap_pic P PIC1_REMAP_BASE PIC2_REMAP_BASE (dev s)\<rparr>))"

section \<open>Reading descriptors back\<close>

text \<open>The fields of a descriptor as the processor decodes them.\<close>

definition gdt_limit :: "memory \<Rightarrow> u64 \<Rightarrow> u32" where
  "gdt_limit m t = ucast (m t) OR push_bit 8 (ucast (m (t + 1))) OR push_bit 16 (ucast (m (t + 6)) AND 0xF)"

definition gdt_base :: "memory \<Rightarrow> u64 \<Rightarrow> u32" where
  "gdt_base m t = ucast (m (t + 2)) OR push_bit 8 (ucast (m (t + 3))) OR push_bit 16 (ucast (m (t + 4)))
     OR push_bit 24 (ucast (m (t + 7)))"

definition tss_base :: "memory \<Rightarrow> u64 \<Rightarrow> u64" where
  "tss_base m t = ucast (gdt_base m t) OR push_bit 32 (ucast (ld32 m (t + 8)))"

definition gdt_access :: "memory \<Rightarrow> u64 \<Rightarrow> u8" where
  "gdt_access m t = m (t + 5)"

definition gdt_flags :: "memory \<Rightarrow> u64 \<Rightarrow> u8" where
  "gdt_flags m t = drop_bit 4 (m (t + 6))"

lemma byte_and: "(ucast (x AND 0xFF) :: u8) = ucast (x :: u32)" "(ucast (y AND 0xFF) :: u8) = ucast (y :: u64)"
proof -
  have "x AND 0xFF = take_bit 8 x" "y AND 0xFF = take_bit 8 y" by (simp_all add: take_bit_eq_mask mask_eq_exp_minus_1)
  then show "(ucast (x AND 0xFF) :: u8) = ucast x" "(ucast (y AND 0xFF) :: u8) = ucast y"
    by (simp_all only:) (rule bit_word_eqI; simp add: bit_simps)+
qed

lemma u32_of_bytes:
  fixes x :: u32
  shows "ucast (ucast x :: u8) OR push_bit 8 (ucast (ucast (drop_bit 8 x) :: u8)) OR push_bit 16 (ucast (ucast (drop_bit 16 x) :: u8))
    OR push_bit 24 (ucast (ucast (drop_bit 24 x) :: u8)) = x"
  (is "?l = x")
proof (rule bit_word_eqI)
  fix n assume n: "n < LENGTH(32)"
  have "bit ?l n \<longleftrightarrow> (n < 8 \<or> 8 \<le> n \<and> n < 16 \<or> 16 \<le> n \<and> n < 24 \<or> 24 \<le> n \<and> n < 32) \<and> bit x n"
    using n by (auto simp: bit_simps)
  then show "bit ?l n \<longleftrightarrow> bit x n" using n by auto
qed

lemma limit_of_bytes:
  fixes x :: u32
  shows "ucast (ucast x :: u8) OR push_bit 8 (ucast (ucast (drop_bit 8 x) :: u8)) OR push_bit 16 (take_bit 4 (drop_bit 16 x)) = take_bit 20 x"
  (is "?l = _")
proof (rule bit_word_eqI)
  fix n assume n: "n < LENGTH(32)"
  have "bit ?l n \<longleftrightarrow> (n < 8 \<or> 8 \<le> n \<and> n < 16 \<or> 16 \<le> n \<and> n < 20) \<and> bit x n"
    using n by (auto simp: bit_simps)
  then show "bit ?l n \<longleftrightarrow> bit (take_bit 20 x) n" using n by (auto simp: bit_take_bit_iff)
qed

text \<open>Byte 6 holds four bits of the limit and the four flags.\<close>

lemma byte6:
  fixes l :: u32 and f :: u8
  assumes "unat f < 16"
  shows "ucast (ucast (l AND 0x0F) OR push_bit 4 f :: u8) AND (0xF :: u32) = take_bit 4 l"
    and "drop_bit 4 (ucast (l AND 0x0F) OR push_bit 4 f) = f"
proof -
  have n: "l AND 0x0F = take_bit 4 l" "(x :: u32) AND 0xF = take_bit 4 x" for x by (simp_all add: take_bit_eq_mask mask_eq_exp_minus_1)
  have "take_bit 4 f = f"
    using less_mask_eq [of f 4] assms by (simp add: word_less_nat_alt flip: take_bit_eq_mask)
  then have f: "n < 4" if "bit f n" for n using that by (metis bit_take_bit_iff)
  show "ucast (ucast (l AND 0x0F) OR push_bit 4 f :: u8) AND (0xF :: u32) = take_bit 4 l"
    unfolding n by (rule bit_word_eqI) (auto simp: bit_simps)
  show "drop_bit 4 (ucast (l AND 0x0F) OR push_bit 4 f) = f"
    unfolding n by (rule bit_word_eqI) (auto simp: bit_simps dest: f)
qed

lemma encode_gdt_entry_bytes:
  assumes "limit \<le> 0xFFFFF" "unat flags < 16"
  shows "\<exists>m'. encode_gdt_entry t base limit acc flags m = Inr m' \<and> gdt_limit m' t = limit \<and> gdt_base m' t = base
    \<and> gdt_access m' t = acc \<and> gdt_flags m' t = flags \<and> (\<forall>x. x \<notin> rng t 8 \<longrightarrow> m' x = m x)"
proof -
  have "limit < 2 ^ 20" using assms(1) by (simp add: word_le_nat_alt word_less_nat_alt)
  then have lim: "take_bit 20 limit = limit" using less_mask_eq [of limit 20] by (simp flip: take_bit_eq_mask)
  define m' where "m' = projr (encode_gdt_entry t base limit acc flags m)"
  have m': "m' = m(t := ucast limit, t + 1 := ucast (drop_bit 8 limit), t + 2 := ucast base, t + 3 := ucast (drop_bit 8 base),
      t + 4 := ucast (drop_bit 16 base), t + 7 := ucast (drop_bit 24 base), t + 5 := acc,
      t + 6 := ucast (drop_bit 16 limit AND 0x0F) OR push_bit 4 flags)"
    and run: "encode_gdt_entry t base limit acc flags m = Inr m'"
    by (simp_all add: m'_def encode_gdt_entry_def Let_def byte_and leD [OF assms(1)] fun_upd_twist)
  have "gdt_limit m' t = limit" unfolding gdt_limit_def m' using limit_of_bytes [of limit] lim byte6(1) [OF assms(2)] by simp
  moreover have "gdt_base m' t = base" unfolding gdt_base_def m' using u32_of_bytes [of base] by simp
  moreover have "gdt_access m' t = acc" "gdt_flags m' t = flags"
    unfolding gdt_access_def gdt_flags_def m' using byte6(2) [OF assms(2)] by simp_all
  moreover have "m' x = m x" if "x \<notin> rng t 8" for x unfolding m' using that by auto
  ultimately show ?thesis using run by blast
qed

text \<open>A descriptor only depends on its own slot.\<close>

definition gdt_desc :: "memory \<Rightarrow> u64 \<Rightarrow> u32 \<times> u32 \<times> u8 \<times> u8" where
  "gdt_desc m t = (gdt_base m t, gdt_limit m t, gdt_access m t, gdt_flags m t)"

lemma gdt_desc_cong: "(\<And>x. x \<in> rng t 8 \<Longrightarrow> m x = m' x) \<Longrightarrow> gdt_desc m t = gdt_desc m' t"
  by (simp add: gdt_desc_def gdt_base_def gdt_limit_def gdt_access_def gdt_flags_def)

lemma encode_gdt_entry_desc:
  assumes "limit \<le> 0xFFFFF" "unat flags < 16"
  obtains m' where "encode_gdt_entry t base limit acc flags m = Inr m'" "gdt_desc m' t = (base, limit, acc, flags)"
    "\<And>x. x \<notin> rng t 8 \<Longrightarrow> m' x = m x"
  using encode_gdt_entry_bytes [OF assms, of t base acc m] unfolding gdt_desc_def by auto

lemma u64_of_halves:
  fixes x :: u64
  shows "ucast (ucast x :: u32) OR push_bit 32 (ucast (ucast (drop_bit 32 x) :: u32)) = x"
  (is "?l = x")
proof (rule bit_word_eqI)
  fix n assume n: "n < LENGTH(64)"
  have "bit ?l n \<longleftrightarrow> (n < 32 \<or> 32 \<le> n \<and> n < 64) \<and> bit x n" using n by (auto simp: bit_simps)
  then show "bit ?l n \<longleftrightarrow> bit x n" using n by auto
qed

text \<open>
  The system segment: the descriptor of \<open>encode_gdt_entry\<close> with a 64-bit base in place of the base 0.
\<close>

lemma byte_of_half: "(ucast (drop_bit k (ucast x :: u32)) :: u8) = ucast (drop_bit k (x :: u64))" if "k \<le> 24"
  by (rule bit_word_eqI) (use that in \<open>auto simp: bit_simps\<close>)

lemma encode_tss_desc:
  assumes "limit \<le> 0xFFFFF" "unat flags < 16"
  obtains m' where "encode_tss_gdt_entry t base limit acc flags m = Inr m'" "tss_base m' t = base"
    "gdt_limit m' t = limit" "gdt_access m' t = acc" "gdt_flags m' t = flags"
    "\<And>x. x \<notin> rng t 16 \<Longrightarrow> m' x = m x"
proof -
  obtain m1 where m1: "encode_gdt_entry t 0 limit acc flags m = Inr m1" "gdt_desc m1 t = (0, limit, acc, flags)"
    "\<And>x. x \<notin> rng t 8 \<Longrightarrow> m1 x = m x"
    using encode_gdt_entry_desc [OF assms] by blast
  define m' where "m' = m1(t + 2 := ucast base, t + 3 := ucast (drop_bit 8 base), t + 4 := ucast (drop_bit 16 base),
    t + 7 := ucast (drop_bit 24 base), t + 8 := ucast (drop_bit 32 base), t + 9 := ucast (drop_bit 40 base),
    t + 10 := ucast (drop_bit 48 base), t + 11 := ucast (drop_bit 56 base), t + 12 := 0, t + 13 := 0, t + 14 := 0, t + 15 := 0)"
  have run: "encode_tss_gdt_entry t base limit acc flags m = Inr m'"
    by (simp add: encode_tss_gdt_entry_def m1(1) m'_def byte_and Let_def)
  have lo: "gdt_base m' t = ucast base"
    using u32_of_bytes [of "ucast base"] byte_of_half [of 0 base] byte_of_half [of 8 base] byte_of_half [of 16 base] byte_of_half [of 24 base]
    by (simp add: gdt_base_def m'_def)
  have hi: "ld32 m' (t + 8) = ucast (drop_bit 32 base)"
    using u32_of_bytes [of "ucast (drop_bit 32 base)"] byte_of_half [of 0 "drop_bit 32 base"] byte_of_half [of 8 "drop_bit 32 base"]
      byte_of_half [of 16 "drop_bit 32 base"] byte_of_half [of 24 "drop_bit 32 base"]
    by (simp add: ld32_bytes m'_def add.assoc push_bit_or)
  have "tss_base m' t = base" using lo hi u64_of_halves [of base] by (simp add: tss_base_def)
  moreover have "gdt_limit m' t = limit" "gdt_access m' t = acc" "gdt_flags m' t = flags"
    using m1(2) by (simp_all add: gdt_desc_def gdt_limit_def gdt_access_def gdt_flags_def m'_def)
  moreover have "m' x = m x" if "x \<notin> rng t 16" for x
    using that m1(3) [of x] by (auto simp: m'_def)
  ultimately show thesis using run that by blast
qed

text \<open>A table filled from the start: the descriptors in its first slots.\<close>

definition gdt_slots :: "memory \<Rightarrow> u64 \<Rightarrow> (u32 \<times> u32 \<times> u8 \<times> u8) list \<Rightarrow> bool" where
  "gdt_slots m gdt ds \<longleftrightarrow> (\<forall>i<length ds. gdt_desc m (gdt + of_nat (i * 8)) = ds ! i)"

lemma gdt_slots_cong:
  assumes "\<And>x. x \<in> rng gdt (8 * length ds) \<Longrightarrow> m' x = m x" "length ds \<le> 4294967296" "gdt_slots m gdt ds"
  shows "gdt_slots m' gdt ds"
proof -
  have "gdt_desc m' (gdt + of_nat (i * 8)) = gdt_desc m (gdt + of_nat (i * 8))" if "i < length ds" for i
    by (rule gdt_desc_cong, rule assms(1), rule rng_part [of "of_nat (i * 8)" 8])
      (use assms(2) that in \<open>simp_all add: unat_of_nat_u64 del: of_nat_mult\<close>)
  then show ?thesis using assms(3) by (simp add: gdt_slots_def del: of_nat_mult)
qed

lemma encode_next_slot:
  assumes "gdt_slots m gdt ds" "length ds < 8192" "a = gdt + of_nat (length ds * 8)" "limit \<le> 0xFFFFF" "unat flags < 16"
  obtains m' where "encode_gdt_entry a base limit acc flags m = Inr m'"
    "gdt_slots m' gdt (ds @ [(base, limit, acc, flags)])" "\<And>x. x \<notin> rng gdt (8 * length ds + 8) \<Longrightarrow> m' x = m x"
proof -
  obtain m' where m': "encode_gdt_entry a base limit acc flags m = Inr m'" "gdt_desc m' a = (base, limit, acc, flags)"
    "\<And>x. x \<notin> rng a 8 \<Longrightarrow> m' x = m x"
    using encode_gdt_entry_desc [OF assms(4,5)] by blast
  have u: "unat (of_nat (length ds * 8) :: u64) = length ds * 8"
    using assms(2) by (simp add: unat_of_nat_u64 del: of_nat_mult)
  have "m' x = m x" if "x \<in> rng gdt (8 * length ds)" for x
    using m'(3) rng_parts_apart [of 0 "8 * length ds" "of_nat (length ds * 8)" 8 x gdt] that u assms(2,3)
    by (simp del: of_nat_mult in_rng)
  then have "gdt_slots m' gdt ds" by (rule gdt_slots_cong) (use assms(1,2) in simp_all)
  then have "gdt_slots m' gdt (ds @ [(base, limit, acc, flags)])"
    using m'(2) assms(3) by (auto simp: gdt_slots_def nth_append less_Suc_eq simp del: of_nat_mult)
  moreover have "m' x = m x" if "x \<notin> rng gdt (8 * length ds + 8)" for x
    using m'(3) rng_part [of "of_nat (length ds * 8)" 8 "8 * length ds + 8" x gdt] that u assms(2,3)
    by (simp del: of_nat_mult in_rng) blast
  ultimately show thesis using m'(1) that by blast
qed

definition gdt_segments :: "(u32 \<times> u32 \<times> u8 \<times> u8) list" where
  "gdt_segments = [(0, 0, 0, 0), (0, 0xFFFFF, 0x9A, 0xA), (0, 0xFFFFF, 0x92, 0xC), (0, 0xFFFFF, 0xF2, 0xC), (0, 0xFFFFF, 0xFA, 0xA)]"

lemma gdt_segments_encoded:
  obtains m0 m1 m2 m3 m4 where "encode_gdt_entry gdt 0 0 0 0 m = Inr m0" "encode_gdt_entry (gdt + 8) 0 0xFFFFF 0x9A 0xA m0 = Inr m1"
    "encode_gdt_entry (gdt + 16) 0 0xFFFFF 0x92 0xC m1 = Inr m2" "encode_gdt_entry (gdt + 24) 0 0xFFFFF 0xF2 0xC m2 = Inr m3"
    "encode_gdt_entry (gdt + 32) 0 0xFFFFF 0xFA 0xA m3 = Inr m4" "gdt_slots m4 gdt gdt_segments"
    "\<And>x. x \<notin> rng gdt 40 \<Longrightarrow> m4 x = m x"
proof -
  have start: "gdt_slots m gdt []" by (simp add: gdt_slots_def)
  obtain m0 where m0: "encode_gdt_entry gdt 0 0 0 0 m = Inr m0" "gdt_slots m0 gdt (take 1 gdt_segments)"
    "\<And>x. x \<notin> rng gdt 8 \<Longrightarrow> m0 x = m x"
    by (rule encode_next_slot [OF start, of gdt 0 0 0 0]) (simp_all add: gdt_segments_def)
  obtain m1 where m1: "encode_gdt_entry (gdt + 8) 0 0xFFFFF 0x9A 0xA m0 = Inr m1" "gdt_slots m1 gdt (take 2 gdt_segments)"
    "\<And>x. x \<notin> rng gdt 16 \<Longrightarrow> m1 x = m0 x"
    by (rule encode_next_slot [OF m0(2), of "gdt + 8" "0xFFFFF" "0xA" 0 "0x9A"]) (simp_all add: gdt_segments_def)
  obtain m2 where m2: "encode_gdt_entry (gdt + 16) 0 0xFFFFF 0x92 0xC m1 = Inr m2" "gdt_slots m2 gdt (take 3 gdt_segments)"
    "\<And>x. x \<notin> rng gdt 24 \<Longrightarrow> m2 x = m1 x"
    by (rule encode_next_slot [OF m1(2), of "gdt + 16" "0xFFFFF" "0xC" 0 "0x92"]) (simp_all add: gdt_segments_def)
  obtain m3 where m3: "encode_gdt_entry (gdt + 24) 0 0xFFFFF 0xF2 0xC m2 = Inr m3" "gdt_slots m3 gdt (take 4 gdt_segments)"
    "\<And>x. x \<notin> rng gdt 32 \<Longrightarrow> m3 x = m2 x"
    by (rule encode_next_slot [OF m2(2), of "gdt + 24" "0xFFFFF" "0xC" 0 "0xF2"]) (simp_all add: gdt_segments_def)
  obtain m4 where m4: "encode_gdt_entry (gdt + 32) 0 0xFFFFF 0xFA 0xA m3 = Inr m4" "gdt_slots m4 gdt gdt_segments"
    "\<And>x. x \<notin> rng gdt 40 \<Longrightarrow> m4 x = m3 x"
    by (rule encode_next_slot [OF m3(2), of "gdt + 32" "0xFFFFF" "0xA" 0 "0xFA"]) (simp_all add: gdt_segments_def)
  have "m4 x = m x" if "x \<notin> rng gdt 40" for x
    using that m0(3) [of x] m1(3) [of x] m2(3) [of x] m3(3) [of x] m4(3) [of x] by simp
  then show thesis using that m0(1) m1(1) m2(1) m3(1) m4(1,2) by blast
qed

text \<open>
  C35. With the TSS and the table apart, \<^verbatim>\<open>gdt_init\<close> never panics and leaves a table of exactly the
  descriptors the kernel relies on, as the processor decodes them: the null descriptor, flat code and
  data segments for the kernel (selectors 8 and 16) and flat data and code segments for user mode
  (selectors 24 and 32), and a system descriptor (selector 40) whose 64-bit base is the TSS and whose
  limit is its size; the TSS is zeroed, nothing else is written, and the operand of \<^verbatim>\<open>lgdt\<close> is the
  size and the address of the table.
\<close>

theorem gdt_init_correct:
  assumes apart: "rng tss_addr 114 \<inter> rng gdt 56 = {}"
  shows "\<exists>m'. gdt_init gdt tss_addr m = Inr ((56, gdt), m') \<and> gdt_slots m' gdt gdt_segments
    \<and> tss_base m' (gdt + 40) = tss_addr \<and> gdt_limit m' (gdt + 40) = 114 \<and> gdt_access m' (gdt + 40) = 0x89
    \<and> gdt_flags m' (gdt + 40) = 0
    \<and> (\<forall>x. m' x = (if x \<in> rng tss_addr 114 then 0 else if x \<in> rng gdt 56 then m' x else m x))"
proof -
  obtain m0 m1 m2 m3 m4 where segs: "encode_gdt_entry gdt 0 0 0 0 m = Inr m0" "encode_gdt_entry (gdt + 8) 0 0xFFFFF 0x9A 0xA m0 = Inr m1"
    "encode_gdt_entry (gdt + 16) 0 0xFFFFF 0x92 0xC m1 = Inr m2" "encode_gdt_entry (gdt + 24) 0 0xFFFFF 0xF2 0xC m2 = Inr m3"
    "encode_gdt_entry (gdt + 32) 0 0xFFFFF 0xFA 0xA m3 = Inr m4" and m4: "gdt_slots m4 gdt gdt_segments"
    "\<And>x. x \<notin> rng gdt 40 \<Longrightarrow> m4 x = m x"
    by (rule gdt_segments_encoded [of gdt m]) blast
  define m5 where "m5 = memset m4 tss_addr 0 114"
  have m5: "m5 x = (if x \<in> rng tss_addr 114 then 0 else m4 x)" for x by (simp add: m5_def memset_eq word_less_nat_alt)
  obtain m6 where m6: "encode_tss_gdt_entry (gdt + 40) tss_addr 114 0x89 0 m5 = Inr m6" "tss_base m6 (gdt + 40) = tss_addr"
    "gdt_limit m6 (gdt + 40) = 114" "gdt_access m6 (gdt + 40) = 0x89" "gdt_flags m6 (gdt + 40) = 0"
    "\<And>x. x \<notin> rng (gdt + 40) 16 \<Longrightarrow> m6 x = m5 x" by (rule encode_tss_desc [of 114 0 "gdt + 40" tss_addr "0x89" m5]) simp_all
  have run: "gdt_init gdt tss_addr m = Inr ((56, gdt), m6)"
    by (simp add: gdt_init_def segs m6(1) Let_def flip: m5_def)
  have off_tss: "x \<notin> rng tss_addr 114" if "x \<in> rng gdt 56" for x using apart that by blast
  have "m6 x = m4 x" if x: "x \<in> rng gdt 40" for x
  proof -
    have "x \<notin> rng tss_addr 114" using off_tss x by simp
    moreover have "x \<notin> rng (gdt + 40) 16" using rng_parts_apart [of 0 40 40 16 x gdt] x by simp
    ultimately show ?thesis using m5 m6(6) by simp
  qed
  then have "gdt_slots m6 gdt gdt_segments"
    by (intro gdt_slots_cong [OF _ _ m4(1)]) (simp_all add: gdt_segments_def del: in_rng)
  moreover have "m6 x = (if x \<in> rng tss_addr 114 then 0 else if x \<in> rng gdt 56 then m6 x else m x)" for x
  proof (cases "x \<in> rng gdt 56")
    case False
    then have "x \<notin> rng (gdt + 40) 16" "x \<notin> rng gdt 40" using rng_part [of 40 16 56 x gdt] by auto
    then show ?thesis using False m5 m6(6) m4(2) by (simp del: in_rng)
  qed (simp add: off_tss del: in_rng)
  ultimately show ?thesis using run m6(2-5) by (intro exI [of _ m6]) (simp del: in_rng)
qed

theorem gdt_init_correct_witness:
  "\<exists>m'. gdt_init 0x1000 0x2000 (\<lambda>_. 0) = Inr ((56, 0x1000), m') \<and> gdt_slots m' 0x1000 gdt_segments \<and> tss_base m' 0x1028 = 0x2000"
proof -
  have "rng 0x2000 114 \<inter> rng 0x1000 56 = {}" using rng_disjoint_nat [of "0x1000" 56 "0x2000" 114] by (simp add: Int_commute)
  from gdt_init_correct [OF this, of "\<lambda>_. 0"] show ?thesis by auto
qed

section \<open>The interrupt table\<close>

text \<open>A gate as the processor decodes it: handler, selector, stack index and attributes.\<close>

definition idt_gate :: "memory \<Rightarrow> u64 \<Rightarrow> u64 \<times> u16 \<times> u8 \<times> u8" where
  "idt_gate m t = (ucast (ld16 m t) OR push_bit 16 (ucast (ld16 m (t + 6))) OR push_bit 32 (ucast (ld32 m (t + 8))),
     ld16 m (t + 2), m (t + 4), m (t + 5))"

lemma u64_of_parts:
  fixes x :: u64
  shows "ucast (ucast (x AND 0xFFFF) :: u16) OR push_bit 16 (ucast (ucast (drop_bit 16 x AND 0xFFFF) :: u16))
    OR push_bit 32 (ucast (ucast (drop_bit 32 x AND 0xFFFFFFFF) :: u32)) = x"
  (is "?l = x")
proof (rule bit_word_eqI)
  fix n assume n: "n < LENGTH(64)"
  have m: "(0xFFFF :: u64) = mask 16" "(0xFFFFFFFF :: u64) = mask 32" by (simp_all add: mask_eq_exp_minus_1)
  have "bit ?l n \<longleftrightarrow> (n < 16 \<or> 16 \<le> n \<and> n < 32 \<or> 32 \<le> n \<and> n < 64) \<and> bit x n"
    unfolding m using n by (auto simp: bit_simps)
  then show "bit ?l n \<longleftrightarrow> bit x n" using n by auto
qed

lemma ld_gate_parts:
  "ucast (ucast v :: u8) OR push_bit 8 (ucast (ucast (drop_bit 8 v) :: u8)) = (v :: u16)"
  by (rule bit_word_eqI) (auto simp: bit_simps)

lemma idt_gate_set:
  "idt_gate (idt_set_descriptor idt vector isr attr m) (idt + ucast vector * 16) = (isr, 8, 0, attr)"
proof -
  define t where "t = idt + ucast vector * 16"
  define m' where "m' = idt_set_descriptor idt vector isr attr m"
  have m': "m' = st32 ((st16 (st32 (st16 (st16 m t (ucast (isr AND 0xFFFF))) (t + 6) (ucast (drop_bit 16 isr AND 0xFFFF)))
      (t + 8) (ucast (drop_bit 32 isr AND 0xFFFFFFFF))) (t + 2) 8)(t + 5 := attr, t + 4 := 0)) (t + 12) 0"
    by (simp add: m'_def t_def idt_set_descriptor_def fld_def Let_def) (simp add: idt_entry_def)
  have "ld16 m' t = ucast (isr AND 0xFFFF)" "ld16 m' (t + 6) = ucast (drop_bit 16 isr AND 0xFFFF)" "ld16 m' (t + 2) = 8"
    unfolding m' by (simp_all add: ld16_bytes st16_bytes st32_bytes add.assoc ld_gate_parts)
  moreover have "ld32 m' (t + 8) = ucast (drop_bit 32 isr AND 0xFFFFFFFF)"
    unfolding m' using ld32_st32 [of m "t + 8" "ucast (drop_bit 32 isr AND 0xFFFFFFFF)"]
    by (simp add: ld32_bytes st16_bytes st32_bytes add.assoc)
  moreover have "m' (t + 4) = 0" "m' (t + 5) = attr" unfolding m' by (simp_all add: st16_bytes st32_bytes add.assoc)
  ultimately show ?thesis using u64_of_parts [of isr] by (simp add: idt_gate_def flip: m'_def t_def)
qed

lemma idt_set_other:
  assumes "x \<notin> rng (idt + ucast vector * 16) 16"
  shows "idt_set_descriptor idt vector isr attr m x = m x"
proof -
  define t where "t = idt + ucast vector * 16"
  have "x \<noteq> t + of_nat k" if "k < 16" for k
    using assms that by (auto simp: unat_of_nat_u64 simp flip: t_def)
  from this [of 0] this [of 1] this [of 2] this [of 3] this [of 4] this [of 5] this [of 6] this [of 7] this [of 8] this [of 9]
    this [of 10] this [of 11] this [of 12] this [of 13] this [of 14] this [of 15]
  show ?thesis
    by (simp add: idt_set_descriptor_def fld_def Let_def flip: t_def) (simp add: idt_entry_def st16_bytes st32_bytes add.assoc)
qed

lemma idt_gate_cong: "(\<And>x. x \<in> rng t 16 \<Longrightarrow> m x = m' x) \<Longrightarrow> idt_gate m t = idt_gate m' t"
  by (simp add: idt_gate_def load_store_bytes add.assoc)

lemma idt_slot: "i < 256 \<Longrightarrow> (ucast (of_nat i :: u8) :: u64) = of_nat i"
  by (rule word_unat_eq_iff [THEN iffD2]) (simp add: unsigned_of_nat unsigned_ucast_eq take_bit_nat_eq_self)

text \<open>The loop, from vector \<open>i\<close> on: the gates it sets, and what it leaves alone.\<close>

lemma idt_init_loop_gates:
  assumes "i + n \<le> 256" "rng idt 4096 \<inter> rng vectors 1024 = {}"
  shows "(\<forall>k. i \<le> k \<and> k < i + n \<longrightarrow>
      idt_gate (idt_init_loop stubs idt vectors (of_nat i) n m) (idt + of_nat (k * 16)) = (stubs (of_nat k), 8, 0, 0x8E))
    \<and> (\<forall>x. x \<notin> rng (idt + of_nat (i * 16)) (n * 16) \<and> x \<notin> rng (vectors + of_nat (i * 4)) (n * 4) \<longrightarrow>
      idt_init_loop stubs idt vectors (of_nat i) n m x = m x)"
  using assms(1)
proof (induction n arbitrary: i m)
  case (Suc n)
  define m1 where "m1 = idt_set_descriptor idt (of_nat i) (stubs (of_nat i)) 0x8E m"
  define m2 where "m2 = st32 m1 (vectors + of_nat (i * 4)) 1"
  define m3 where "m3 = idt_init_loop stubs idt vectors (of_nat (Suc i)) n m2"
  have i: "i < 256" using Suc.prems by simp
  have run: "idt_init_loop stubs idt vectors (of_nat i) (Suc n) m = m3"
    using idt_slot [OF i] by (simp add: m1_def m2_def m3_def ac_simps)
  have IH: "\<forall>k. Suc i \<le> k \<and> k < Suc i + n \<longrightarrow> idt_gate m3 (idt + of_nat (k * 16)) = (stubs (of_nat k), 8, 0, 0x8E)"
    "\<forall>x. x \<notin> rng (idt + of_nat (Suc i * 16)) (n * 16) \<and> x \<notin> rng (vectors + of_nat (Suc i * 4)) (n * 4) \<longrightarrow> m3 x = m2 x"
    using Suc.IH [of "Suc i" m2] Suc.prems by (simp_all add: m3_def del: of_nat_Suc of_nat_mult)
  have u: "unat (of_nat (i * 16) :: u64) = i * 16" "unat (of_nat (Suc i * 16) :: u64) = Suc i * 16"
    "unat (of_nat (i * 4) :: u64) = i * 4" "unat (of_nat (Suc i * 4) :: u64) = Suc i * 4"
    by (rule unat_of_nat_u64, use i in simp)+
  have m2_other: "m2 x = m1 x" if "x \<notin> rng (vectors + of_nat (i * 4)) 4" for x using that by (simp add: m2_def st32_other)
  have m1_other: "m1 x = m x" if "x \<notin> rng (idt + of_nat (i * 16)) 16" for x
    using idt_set_other [of x idt "of_nat i"] that idt_slot [OF i] by (simp add: m1_def)
  have own: "m3 x = m1 x" if x: "x \<in> rng (idt + of_nat (i * 16)) 16" for x
  proof -
    have "x \<in> rng idt 4096" by (rule rng_part [OF _ _ x]) (use u i in simp_all)
    then have off: "x \<notin> rng vectors 1024" using assms(2) by blast
    have "x \<notin> rng (vectors + of_nat (i * 4)) 4"
      using off rng_part [of "of_nat (i * 4)" 4 1024 x vectors] u i by auto
    moreover have "x \<notin> rng (vectors + of_nat (Suc i * 4)) (n * 4)"
      using off rng_part [of "of_nat (Suc i * 4)" "n * 4" 1024 x vectors] u Suc.prems by auto
    moreover have "x \<notin> rng (idt + of_nat (Suc i * 16)) (n * 16)"
      by (rule rng_parts_apart [OF _ _ x]) (use u Suc.prems in simp_all)
    ultimately show ?thesis using IH(2) m2_other by simp
  qed
  have "idt_gate m3 (idt + of_nat (i * 16)) = idt_gate m1 (idt + of_nat (i * 16))"
    by (rule idt_gate_cong) (rule own)
  then have "idt_gate m3 (idt + of_nat (i * 16)) = (stubs (of_nat i), 8, 0, 0x8E)"
    using idt_gate_set [of idt "of_nat i" "stubs (of_nat i)" "0x8E" m] idt_slot [OF i] by (simp add: m1_def)
  then have "\<forall>k. i \<le> k \<and> k < i + Suc n \<longrightarrow> idt_gate m3 (idt + of_nat (k * 16)) = (stubs (of_nat k), 8, 0, 0x8E)"
    using IH(1) by (metis Suc_leI add_Suc_shift le_neq_implies_less)
  moreover have "m3 x = m x" if x: "x \<notin> rng (idt + of_nat (i * 16)) (Suc n * 16)" "x \<notin> rng (vectors + of_nat (i * 4)) (Suc n * 4)" for x
  proof -
    have "x \<notin> rng (idt + of_nat (i * 16)) 16" "x \<notin> rng (vectors + of_nat (i * 4)) 4" using x by simp_all
    moreover have "x \<notin> rng (idt + of_nat (Suc i * 16)) (n * 16)" "x \<notin> rng (vectors + of_nat (Suc i * 4)) (n * 4)"
      using x slots_rest [of n 16 idt i] slots_rest [of n 4 vectors i] Suc.prems by auto
    ultimately show ?thesis using IH(2) m2_other m1_other by simp
  qed
  ultimately show ?case unfolding run by blast
qed auto

text \<open>
  C36. \<^verbatim>\<open>idt_init\<close> fills the table so that each of the 48 vectors (32 exceptions, 16 hardware
  interrupts) is a present ring-0 interrupt gate whose handler address, split by the code into three
  fields, the processor reassembles to the stub of that vector, in the kernel code segment and with
  no stack switch; memory outside the two static arrays is unchanged, the operand of \<^verbatim>\<open>lidt\<close> covers
  the 256 entries, and the controllers are remapped to vectors 32 and 40.
\<close>

theorem idt_init_correct:
  assumes "rng idt 4096 \<inter> rng vectors 1024 = {}" "idt_init P stubs idt vectors s = (operand, s')"
  shows "operand = (4095, idt)
    \<and> (\<forall>k<48. idt_gate (mem s') (idt + of_nat (k * 16)) = (stubs (of_nat k), 8, 0, 0x8E))
    \<and> (\<forall>x. x \<notin> rng idt 768 \<and> x \<notin> rng vectors 192 \<longrightarrow> mem s' x = mem s x)
    \<and> dev s' = remap_pic P 32 40 (dev s)"
proof -
  have out: "operand = (4095, idt)" "mem s' = idt_init_loop stubs idt vectors 0 48 (mem s)" "dev s' = remap_pic P 32 40 (dev s)"
    using assms(2) by (auto simp: idt_init_def Let_def IDT_MAX_DESCRIPTORS_def PIC1_REMAP_BASE_def PIC2_REMAP_BASE_def)
  show ?thesis using idt_init_loop_gates [of 0 48 idt vectors stubs "mem s"] assms(1) out by (simp del: in_rng of_nat_mult)
qed

theorem idt_init_correct_witness:
  "idt_gate (mem (snd (idt_init sample_ports (\<lambda>v. 0xFFFFFFFF80001234 + ucast v) 0x1000 0x3000 sample_io))) 0x1210
    = (0xFFFFFFFF80001255, 8, 0, 0x8E)"
proof -
  have "rng 0x1000 4096 \<inter> rng 0x3000 1024 = {}" by (rule rng_disjoint_nat) simp_all
  from idt_init_correct [OF this surjective_pairing, of sample_ports "\<lambda>v. 0xFFFFFFFF80001234 + ucast v" sample_io]
  show ?thesis by (auto dest: spec [of _ 33])
qed

end
