(* ===== verification/Boot.thy ===== *)
theory Boot
  imports Process Descriptors
begin

text \<open>
  The two entries of the kernel from outside: the interrupt dispatcher (\<^verbatim>\<open>isr_main_entry\<close> of
  \<^verbatim>\<open>src/src/drivers/int.c\<close>) and \<^verbatim>\<open>kernel_main\<close> (\<^verbatim>\<open>src/src/kernel/main.c\<close>), which brings up all
  components in order and starts the first process.
\<close>

section \<open>Interrupts\<close>

definition isr_ctx :: layout where
  "isr_ctx = [(''r11'', 8), (''r10'', 8), (''r9'', 8), (''r8'', 8), (''rax'', 8), (''rcx'', 8), (''rdx'', 8), (''rsi'', 8),
     (''rdi'', 8), (''info'', 8), (''rip'', 8), (''cs'', 8), (''rflags'', 8), (''rsp'', 8), (''ss'', 8)]"

definition isr_main_entry :: "'d ports \<Rightarrow> u64 \<Rightarrow> u64 \<Rightarrow> ('d, 'a) kernel_state_scheme \<Rightarrow> ('d, 'a) kernel_state_scheme res" where
  "isr_main_entry P rsp ctx s =
     (let vec = (ucast (drop_bit 32 (ld64 (mem s) (fld isr_ctx ''info'' ctx)) AND 0xFFFF) :: u32);
          s = s\<lparr>dev := send_eoi P (ucast vec) (dev s)\<rparr>
      in if vec = 0x6 then Inl (Panic ''Illegal instruction'')
         else if vec = 0xD then Inl (Panic ''General protection fault'')
         else if vec = 0xE then Inl (Panic ''Page fault'')
         else if vec = 0x20 then sched_maybe_preempt rsp s
         else if vec = 0x21 then ps2_key_in P s
         else Inr s)"

section \<open>Start\<close>

text \<open>The messages are literal texts, printed in three colours.\<close>

definition log_info :: "'d ports \<Rightarrow> string \<Rightarrow> ('d, 'a) kernel_state_scheme \<Rightarrow> ('d, 'a) kernel_state_scheme" where
  "log_info P fmt s =
     (let s = vgaterm_setcolor VGA_COLOR_LIGHT_GREY VGA_COLOR_BLACK s;
          s = printf_text P ''[ '' s;
          s = vgaterm_setcolor VGA_COLOR_LIGHT_BLUE VGA_COLOR_BLACK s;
          s = printf_text P ''INFO'' s;
          s = vgaterm_setcolor VGA_COLOR_LIGHT_GREY VGA_COLOR_BLACK s;
          s = printf_text P '' ] '' s
      in printf_text P fmt s)"

definition log_ok :: "'d ports \<Rightarrow> string \<Rightarrow> ('d, 'a) kernel_state_scheme \<Rightarrow> ('d, 'a) kernel_state_scheme" where
  "log_ok P fmt s =
     (let s = vgaterm_setcolor VGA_COLOR_LIGHT_GREY VGA_COLOR_BLACK s;
          s = printf_text P ''[ '' s;
          s = vgaterm_setcolor VGA_COLOR_LIGHT_GREEN VGA_COLOR_BLACK s;
          s = printf_text P '' OK '' s;
          s = vgaterm_setcolor VGA_COLOR_LIGHT_GREY VGA_COLOR_BLACK s;
          s = printf_text P '' ] '' s
      in printf_text P fmt s)"

definition banner :: "'d ports \<Rightarrow> ('d, 'a) kernel_state_scheme \<Rightarrow> ('d, 'a) kernel_state_scheme" where
  "banner P s =
     (let s = vgaterm_clear s;
          s = vgaterm_setcolor VGA_COLOR_LIGHT_BLUE VGA_COLOR_BLACK s;
          s = printf_text P (''>>> Blackcomb 0.0.1'' @ [CHR 0x0A]) s
      in vgaterm_setcolor VGA_COLOR_LIGHT_GREY VGA_COLOR_BLACK s)"

text \<open>More addresses the linker fixes, and the interrupt stubs.\<close>

record boot_addrs = code_addrs +
  kern_start :: u64
  kern_end :: u64
  addr_gdt :: u64
  addr_tss :: u64
  addr_idt :: u64
  addr_vectors :: u64
  isr_stub_table :: "u8 \<Rightarrow> u64"
  mount_sb :: u64
  mount_inodes :: u64

text \<open>
  \<^verbatim>\<open>syscall_enable\<close> only writes model-specific registers of the processor and is left out; the operands
  of \<^verbatim>\<open>lgdt\<close> and \<^verbatim>\<open>lidt\<close> are dropped.
\<close>

definition kernel_main ::
    "'d ports \<Rightarrow> boot_addrs \<Rightarrow> u64 \<Rightarrow> ('d, 'a) kernel_state_scheme \<Rightarrow> ('d, 'a) kernel_state_scheme res" where
  "kernel_main P B mboot_info s =
     (let A = code_addrs.truncate B; s = banner P s in
      rbind (rbind (ends (pmm_init (kern_start B) (kern_end B) mboot_info s)) (\<lambda>r. r)) (\<lambda>s.
      let s = log_ok P (''Page frame allocator initialized'' @ [CHR 0x0A]) s in
      rbind (kernel_mm_init (addr_kernel_mm (statics s)) s) (\<lambda>s.
      let s = log_ok P (''Kernel page tables initialized'' @ [CHR 0x0A]) s;
          s = s\<lparr>cr3 := p4 (mms s (addr_kernel_mm (statics s)))\<rparr>;
          s = log_ok P (''Kernel page tables switched'' @ [CHR 0x0A]) s in
      rbind (kmalloc_init s) (\<lambda>s.
      let s = log_ok P (''Kmalloc initialized'' @ [CHR 0x0A]) s in
      rbind (gdt_init (addr_gdt B) (addr_tss B) (mem s)) (\<lambda>(gdtr, m).
      let s = log_ok P (''GDT initialized'' @ [CHR 0x0A]) (s\<lparr>mem := m, tss_rsp0 := 0\<rparr>);
          s = snd (idt_init P (isr_stub_table B) (addr_idt B) (addr_vectors B) s);
          s = log_ok P (''IDT initialized'' @ [CHR 0x0A]) s in
      rbind (ps2_init P s) (\<lambda>s.
      let s = log_ok P (''keyboard initialized'' @ [CHR 0x0A]) s in
      rbind (tty_init s) (\<lambda>s.
      let s = log_ok P (''tty initialized'' @ [CHR 0x0A]) s;
          s = log_ok P (''Syscalls enabled'' @ [CHR 0x0A]) s in
      rbind (ext2_mount_rootfs P (mount_sb B) (mount_inodes B) s) (\<lambda>(fs, s).
      let s = s\<lparr>rootfs := fs\<rparr>;
          s = log_ok P (''Mounted /'' @ [CHR 0x0A]) s;
          s = log_info P (''attempting to exec /init'' @ [CHR 0x0A]) s in
      start_init P A s))))))))"

end
