(* ===== verification/Fork_Spec.thy ===== *)
theory Fork_Spec
  imports Boot
begin

text \<open>
  What creating a process leaves: the memory operations it is built from do not touch the process
  tables, so the child's task structure, its shared files and its first stack frame can be read off.
\<close>

section \<open>Memory operations leave the process tables alone\<close>

definition vmm_only :: "'a vmm_state_scheme \<Rightarrow> 'a vmm_state_scheme \<Rightarrow> bool" where
  "vmm_only s s' \<longleftrightarrow> vmm_state.more s' = vmm_state.more s"

named_theorems vmm_only_intros

lemma vmm_only_refl [vmm_only_intros]: "vmm_only s s"
  by (simp add: vmm_only_def)

lemma vmm_only_trans: "vmm_only s s' \<Longrightarrow> vmm_only s' s'' \<Longrightarrow> vmm_only s s''"
  by (simp add: vmm_only_def)

lemma vmm_only_updates [vmm_only_intros]:
  "vmm_only s (s\<lparr>mem := m\<rparr>)" "vmm_only s (s\<lparr>kernel_brk := b, mem := m\<rparr>)" "vmm_only s (set_mm p v s)" "vmm_only s (set_vma q a s)"
  by (simp_all add: vmm_only_def set_mm_def set_vma_def)

lemma kmalloc_only: "kmalloc n s = Inr (p, s') \<Longrightarrow> \<exists>b m. s' = s\<lparr>kernel_brk := b, mem := m\<rparr>"
proof -
  assume a: "kmalloc n s = Inr (p, s')"
  have b: "s\<lparr>mem := m\<rparr> = s\<lparr>kernel_brk := kernel_brk s, mem := m\<rparr>" for m by simp
  from a show ?thesis
    by (auto simp: kmalloc_def sbrk_def rbind_eq_Inr Let_def split: if_splits) ((rule exI, rule exI, rule refl) | metis b)+
qed

lemma vmm_only_kmalloc: "kmalloc n s = Inr (p, s') \<Longrightarrow> vmm_only s s'"
  using kmalloc_only by (metis vmm_only_updates(2))

lemma vmm_only_kcalloc: "kcalloc k n s = Inr (p, s') \<Longrightarrow> vmm_only s s'"
  by (auto simp: kcalloc_def Let_def rbind_eq_Inr intro: vmm_only_trans vmm_only_kmalloc vmm_only_updates)

lemma vmm_only_mem: "mem_only s s' \<Longrightarrow> vmm_only s s'"
  by (auto simp: mem_only_def vmm_only_def)

lemma vmm_only_alloc: "pmm_alloc s = (a, s') \<Longrightarrow> vmm_only s s'"
  using mem_only_alloc [OF mem_only_refl] vmm_only_mem by blast

lemma vmm_only_map: "vmm_only s (map_page_at mmp virt phys flags s)"
proof -
  obtain mm s' where m: "vmm_map_page (mms s mmp) virt phys flags s = (mm, s')" by fastforce
  from vmm_only_mem [OF vmm_map_page_mem_only [OF m]] show ?thesis
    by (simp add: map_page_at_def m vmm_only_def set_mm_def)
qed

lemma vmm_only_loop:
  assumes "\<And>off s s'. body off s = Inr s' \<Longrightarrow> vmm_only s s'"
  shows "page_loop body pg n s = Inr s' \<Longrightarrow> vmm_only s s'" "page_loop64 body pg n s = Inr s' \<Longrightarrow> vmm_only s s'"
proof -
  show "page_loop body pg n s = Inr s' \<Longrightarrow> vmm_only s s'"
    by (induction n arbitrary: pg s)
      (auto simp: rbind_eq_Inr vmm_only_refl split: if_splits intro: vmm_only_trans assms)
  show "page_loop64 body pg n s = Inr s' \<Longrightarrow> vmm_only s s'"
    by (induction n arbitrary: pg s) (auto simp: rbind_eq_Inr vmm_only_refl intro: vmm_only_trans assms)
qed

lemma vmm_only_insert_vma: "mm_insert_vma mmp vma s = Inr s' \<Longrightarrow> vmm_only s s'"
  using vmm_only_kmalloc by (fastforce simp: mm_insert_vma_def rbind_eq_Inr Let_def vmm_only_def set_mm_def set_vma_def)

lemma vmm_only_anon_mmap: "anon_mmap mmp start pages prot user s = Inr s' \<Longrightarrow> vmm_only s s'"
proof -
  assume "anon_mmap mmp start pages prot user s = Inr s'"
  then obtain s1 vma s2 where 1: "page_loop (\<lambda>off s. case pmm_alloc s of (fr, s) \<Rightarrow>
      Inr (map_page_at mmp (start + off) fr (vma_flags prot user) s)) 0 (unat pages) s = Inr s1"
    and 2: "kcalloc 1 sizeof_vm_area s1 = Inr (vma, s2)" and 3: "\<exists>v. mm_insert_vma mmp vma (set_vma vma v s2) = Inr s'"
    by (auto simp: anon_mmap_def rbind_eq_Inr Let_def split: if_splits)
  have "vmm_only s s1"
    by (rule vmm_only_loop(1) [OF _ 1]) (auto split: prod.splits intro: vmm_only_trans [OF vmm_only_alloc vmm_only_map])
  then show ?thesis
    using vmm_only_kcalloc [OF 2] 3 vmm_only_insert_vma vmm_only_updates(4) vmm_only_trans by metis
qed

lemma vmm_only_share_vma: "mm_share_vma dst src vma s = Inr s' \<Longrightarrow> vmm_only s s'"
  by (auto simp: mm_share_vma_def rbind_eq_Inr Let_def intro: vmm_only_map elim!: vmm_only_trans [OF vmm_only_loop(1) vmm_only_insert_vma, rotated])

lemma vmm_only_copy: "mm_copy_from_mm dst src start pages s = Inr s' \<Longrightarrow> vmm_only s s'"
  by (auto simp: mm_copy_from_mm_def Let_def split: if_splits intro: vmm_only_updates elim!: vmm_only_loop(2) [rotated])

lemma vmm_only_share_areas: "share_areas dst src lis s = Inr s' \<Longrightarrow> vmm_only s s'"
  by (induction dst src lis s rule: share_areas.induct)
    (auto simp: rbind_eq_Inr vmm_only_refl intro: vmm_only_trans [OF vmm_only_share_vma])

lemma vmm_only_mm_new: "mm_new s = Inr (p, s') \<Longrightarrow> vmm_only s s'"
  by (auto simp: mm_new_def mm_init_def Let_def rbind_eq_Inr
      intro: vmm_only_trans [OF vmm_only_kcalloc vmm_only_trans [OF vmm_only_updates(3) vmm_only_share_areas]])

lemma vmm_only_dupe_areas: "dupe_areas new old lis s = Inr s' \<Longrightarrow> vmm_only s s'"
  by (induction new old lis s rule: dupe_areas.induct)
    (auto simp: rbind_eq_Inr vmm_only_refl split: vm_area_type.splits
      intro: vmm_only_trans [OF vmm_only_trans [OF vmm_only_anon_mmap vmm_only_copy]])

lemma vmm_only_mm_dupe: "mm_dupe mmp s = Inr (new, s') \<Longrightarrow> vmm_only s s'"
  by (auto simp: mm_dupe_def rbind_eq_Inr intro: vmm_only_trans [OF vmm_only_mm_new vmm_only_dupe_areas])

lemma vmm_only_fields:
  fixes s :: "('d, 'a) kernel_state_scheme"
  assumes "vmm_only s s'"
  shows "tasks s' = tasks s" "files s' = files s" "current s' = current s" "next_pid s' = next_pid s"
  using assms by (cases s; cases s'; simp add: vmm_only_def)+

section \<open>Sharing the open files\<close>

lemma share_files_tasks:
  assumes "fdtab (tasks s new) = pre @ replicate (length fs) 0" "length pre = i"
  shows "tasks (share_files new i fs s) = (tasks s)(new := (tasks s new)\<lparr>fdtab := pre @ fs\<rparr>)"
  using assms
proof (induction fs arbitrary: i pre s)
  case (Cons f fs)
  let ?s = "if f \<noteq> 0 then set_task new (fdtab_update (\<lambda>tab. tab[i := f])) (set_file f (file_refcnt_update (\<lambda>r. r + 1)) s) else s"
  have t: "tasks ?s = (tasks s)(new := (tasks s new)\<lparr>fdtab := pre @ f # replicate (length fs) 0\<rparr>)"
    using Cons.prems by (auto simp: set_task_def set_file_def list_update_append)
  have "tasks (share_files new (Suc i) fs ?s) = (tasks ?s)(new := (tasks ?s new)\<lparr>fdtab := (pre @ [f]) @ fs\<rparr>)"
    by (rule Cons.IH) (use Cons.prems t in simp_all)
  moreover have "share_files new i (f # fs) s = share_files new (Suc i) fs ?s" by (simp add: Let_def)
  ultimately show ?case unfolding t by (simp only:) simp
qed auto

lemma share_files_files:
  "files (share_files new i fs s) = (\<lambda>f. if f = 0 then files s f else (files s f)\<lparr>file_refcnt := file_refcnt (files s f) + of_nat (count_list fs f)\<rparr>)"
  by (induction fs arbitrary: i s) (auto simp: fun_eq_iff set_task_def set_file_def Let_def)

lemma share_files_rest:
  "\<exists>T F. share_files new i fs s = s\<lparr>tasks := T, files := F\<rparr>"
proof (induction fs arbitrary: i s)
  case Nil
  show ?case by (rule exI [of _ "tasks s"], rule exI [of _ "files s"]) simp
next
  case (Cons f fs)
  let ?s = "if f \<noteq> 0 then set_task new (fdtab_update (\<lambda>tab. tab[i := f])) (set_file f (file_refcnt_update (\<lambda>r. r + 1)) s) else s"
  obtain T F where "share_files new (Suc i) fs ?s = ?s\<lparr>tasks := T, files := F\<rparr>" using Cons.IH by blast
  moreover have "share_files new i (f # fs) s = share_files new (Suc i) fs ?s" by (simp add: Let_def)
  moreover have "?s\<lparr>tasks := T, files := F\<rparr> = s\<lparr>tasks := T, files := F\<rparr>" by (simp add: set_task_def set_file_def)
  ultimately show ?case by metis
qed

section \<open>The child's first frame\<close>

text \<open>
  The frame of a child whose stack ends at \<open>stk\<close> and whose parent's registers are saved at \<open>rg\<close>: it
  returns to \<open>ret\<close> with the parent's registers, except for \<^verbatim>\<open>rax\<close>, which is 0.
\<close>

definition child_frame :: "memory \<Rightarrow> u64 \<Rightarrow> u64 \<Rightarrow> u64 \<Rightarrow> bool" where
  "child_frame m stk rg ret \<longleftrightarrow> ld64 m (stk - 192 + 40) = 0 \<and> ld64 m (stk - 192 + 48) = ret \<and> ld64 m (stk - 136 + 112) = 0
     \<and> (\<forall>i<136. \<not> (112 \<le> i \<and> i < 120) \<longrightarrow> m (stk - 136 + of_nat i) = m (rg + of_nat i))"

lemma child_frame_stored:
  fixes m :: memory and stk rg ret :: u64
  assumes apart: "rng (stk - 136) 136 \<inter> rng rg 136 = {}"
  defines "m1 \<equiv> st64 (st64 m (stk - 192 + 40) 0) (stk - 192 + 48) ret"
  shows "child_frame (st64 (memcpy m1 (stk - 136) rg 136) (stk - 136 + 112) 0) stk rg ret"
proof -
  define t where "t = stk - 192"
  have stk: "stk - 136 = t + 56" "stk - 192 = t" by (simp_all add: t_def)
  let ?m2 = "memcpy m1 (t + 56) rg 136" and ?m3 = "st64 (memcpy m1 (t + 56) rg 136) (t + 56 + 112) 0"
  have ap: "rng (t + 56) (unat (136 :: u64)) \<inter> rng rg (unat (136 :: u64)) = {}" using apart stk by simp
  have low: "x \<notin> rng (t + 56) 136" "x \<notin> rng (t + 56 + 112) 8" if "x \<in> rng (t + 40) 16" for x
    using rng_parts_apart [of 40 16 56 136 x t] rng_parts_apart [of 40 16 168 8 x t] that by (simp_all add: add.assoc)
  have keep: "?m3 x = m1 x" if "x \<in> rng (t + 40) 16" for x
    using low [OF that] by (simp add: st64_other memcpy_out del: in_rng)
  have "ld64 ?m3 (t + 40) = ld64 m1 (t + 40)" by (rule ld64_cong) (rule keep, simp)
  moreover have "ld64 ?m3 (t + 48) = ld64 m1 (t + 48)"
    by (rule ld64_cong) (rule keep, use rng_part [of 8 8 16 _ "t + 40"] in \<open>simp add: add.assoc\<close>)
  moreover have "ld64 m1 (t + 40) = 0" "ld64 m1 (t + 48) = ret"
  proof -
    have "rng (t + 48) 8 \<inter> rng (t + 40) 8 = {}" using rng_parts_apart [of 40 8 48 8 _ t] by (auto simp del: in_rng)
    then show "ld64 m1 (t + 40) = 0" "ld64 m1 (t + 48) = ret" by (simp_all add: m1_def stk ld64_st64 ld64_st64_disjoint)
  qed
  moreover have "?m3 (t + 56 + of_nat i) = ?m3 (rg + of_nat i)" if i: "i < 136" "\<not> (112 \<le> i \<and> i < 120)" for i
  proof -
    have u: "unat (of_nat i :: u64) = i" using i by (intro unat_of_nat_u64) simp
    have "rg + of_nat i \<in> rng rg 136" using i u by simp
    then have off: "rg + of_nat i \<notin> rng (t + 56) 136" using ap by auto
    then have off8: "rg + of_nat i \<notin> rng (t + 56 + 112) 8" using rng_part [of 112 8 136 "rg + of_nat i" "t + 56"] by auto
    have own8: "t + 56 + of_nat i \<notin> rng (t + 56 + 112) 8"
    proof -
      have "t + 56 + of_nat i - (t + 56 + 112) = of_nat i - 112" by simp
      moreover have "\<not> unat (of_nat i - 112 :: u64) < 8" using i u by (auto simp: unat_sub_if')
      ultimately show ?thesis by (simp only: in_rng not_False_eq_True)
    qed
    have "?m2 (t + 56 + of_nat i) = m1 (rg + of_nat i)" using i u by (simp add: memcpy_eq [OF ap] word_less_nat_alt)
    moreover have "?m2 (rg + of_nat i) = m1 (rg + of_nat i)" using off by (intro memcpy_out) simp
    ultimately show ?thesis using own8 off8 by (simp add: st64_other del: in_rng)
  qed
  ultimately show ?thesis unfolding child_frame_def stk by (simp add: ld64_st64)
qed

text \<open>The whole of \<open>do_fork\<close>, given where the heap put the new task structure.\<close>

lemma do_fork_result:
  assumes run: "do_fork A t s = Inr (new, s')" and new: "kcalloc 1 sizeof_task_struct s = Inr (new, s0)" "new \<noteq> t"
    and tab: "length (fdtab (tasks s t)) = TASK_FILE_MAX"
  shows "\<exists>bottom mm. tasks s' = (tasks s)(new := zero_task\<lparr>t_mm := mm, pid := next_pid s, fdtab := fdtab (tasks s t),
        stack_bottom := bottom, stack_top := bottom + KERNEL_STACK_SIZE, sp := bottom + KERNEL_STACK_SIZE - 192,
        regs := bottom + KERNEL_STACK_SIZE - 136\<rparr>)
      \<and> (rng (bottom + KERNEL_STACK_SIZE - 136) 136 \<inter> rng (regs (tasks s t)) 136 = {} \<longrightarrow>
          child_frame (mem s') (bottom + KERNEL_STACK_SIZE) (regs (tasks s t)) (pop_regs_and_sysret A))"
    and "files s' = (\<lambda>f. if f = 0 then files s f
      else (files s f)\<lparr>file_refcnt := file_refcnt (files s f) + of_nat (count_list (fdtab (tasks s t)) f)\<rparr>)"
    and "current s' = current s" "next_pid s' = next_pid s + 1"
proof -
  define s1 where "s1 = set_task new (state_update (\<lambda>_. TASK_RUNNING)) (set_task new (\<lambda>_. zero_task) s0)"
  from run new(1) obtain mm s2 where 2: "mm_dupe (t_mm (tasks s1 t)) s1 = Inr (mm, s2)" 
    by (auto simp: do_fork_def rbind_eq_Inr Let_def simp del: set_task_simps simp flip: s1_def)
  note f0 = vmm_only_fields [OF vmm_only_kcalloc [OF new(1)]] and f2 = vmm_only_fields [OF vmm_only_mm_dupe [OF 2]]
  define sm where "sm = set_task new (t_mm_update (\<lambda>_. mm)) s2"
  define sq where "sq = set_task new (pid_update (\<lambda>_. next_pid sm)) sm"
  define s3 where "s3 = sq\<lparr>next_pid := next_pid sq + 1\<rparr>"
  define s4 where "s4 = share_files new 0 (fdtab (tasks s3 t)) s3"
  have z: "fdtab zero_task = [] @ replicate (length (fdtab (tasks s t))) 0" by (simp add: zero_task_def tab)
  have t3: "tasks s3 = (tasks s)(new := zero_task\<lparr>t_mm := mm, pid := next_pid s\<rparr>)"
    by (simp add: s3_def sq_def sm_def set_task_def f2 s1_def f0 zero_task_def)
  have n3: "fdtab (tasks s3 t) = fdtab (tasks s t)" "files s3 = files s" "current s3 = current s" "next_pid s3 = next_pid s + 1"
    using new(2) by (simp_all add: t3) (simp_all add: s3_def sq_def sm_def set_task_def f2 s1_def f0)
  have t4: "tasks s4 = (tasks s)(new := zero_task\<lparr>t_mm := mm, pid := next_pid s, fdtab := fdtab (tasks s t)\<rparr>)"
    unfolding s4_def n3(1) by (subst share_files_tasks [where pre = "[]"]) (use z in \<open>simp_all add: t3\<close>)
  have n4: "files s4 = (\<lambda>f. if f = 0 then files s f
      else (files s f)\<lparr>file_refcnt := file_refcnt (files s f) + of_nat (count_list (fdtab (tasks s t)) f)\<rparr>)"
    unfolding s4_def share_files_files n3 ..
  obtain T F where TF: "s4 = s3\<lparr>tasks := T, files := F\<rparr>" unfolding s4_def using share_files_rest by blast
  have "do_fork A t s = rbind (init_task_stack A new s4) (\<lambda>s. Inr (new, s\<lparr>mem := st64 (memcpy (mem s) (regs (tasks s new)) (regs (tasks s t)) 136)
      (regs (tasks s new) + 112) 0\<rparr>))"
    unfolding do_fork_def new(1) rbind_Inr prod.case Let_def s1_def [symmetric] 2 sm_def [symmetric] sq_def [symmetric] s3_def [symmetric] s4_def [symmetric]
    by simp
  with run obtain s5 where 5: "init_task_stack A new s4 = Inr s5"
    and s': "s' = s5\<lparr>mem := st64 (memcpy (mem s5) (regs (tasks s5 new)) (regs (tasks s5 t)) 136) (regs (tasks s5 new) + 112) 0\<rparr>"
    by (auto simp: rbind_eq_Inr)
  from 5 obtain bottom s6 where 6: "kcalloc 1 KERNEL_STACK_SIZE s4 = Inr (bottom, s6)" by (auto simp: init_task_stack_def rbind_eq_Inr)
  note f6 = vmm_only_fields [OF vmm_only_kcalloc [OF 6]]
  let ?stk = "bottom + KERNEL_STACK_SIZE"
  have t5: "tasks s5 = (tasks s4)(new := (tasks s4 new)\<lparr>stack_bottom := bottom, stack_top := ?stk, sp := ?stk - 192, regs := ?stk - 136\<rparr>)"
    and m5: "mem s5 = st64 (st64 (mem s6) (?stk - 192 + 40) 0) (?stk - 192 + 48) (pop_regs_and_sysret A)"
    and n5: "files s5 = files s4" "current s5 = current s4" "next_pid s5 = next_pid s4"
    using 5 6 by (auto simp: init_task_stack_def Let_def set_task_def f6)
  have r: "regs (tasks s5 new) = ?stk - 136" "regs (tasks s5 t) = regs (tasks s t)" using new(2) by (simp_all add: t5 t4)
  have "rng (?stk - 136) 136 \<inter> rng (regs (tasks s t)) 136 = {} \<longrightarrow> child_frame (mem s') ?stk (regs (tasks s t)) (pop_regs_and_sysret A)"
    using child_frame_stored by (simp add: s' r m5)
  moreover have "tasks s' = (tasks s)(new := zero_task\<lparr>t_mm := mm, pid := next_pid s, fdtab := fdtab (tasks s t),
        stack_bottom := bottom, stack_top := ?stk, sp := ?stk - 192, regs := ?stk - 136\<rparr>)"
    by (simp add: s' t5 t4)
  ultimately show "\<exists>bottom mm. tasks s' = (tasks s)(new := zero_task\<lparr>t_mm := mm, pid := next_pid s, fdtab := fdtab (tasks s t),
        stack_bottom := bottom, stack_top := bottom + KERNEL_STACK_SIZE, sp := bottom + KERNEL_STACK_SIZE - 192,
        regs := bottom + KERNEL_STACK_SIZE - 136\<rparr>)
      \<and> (rng (bottom + KERNEL_STACK_SIZE - 136) 136 \<inter> rng (regs (tasks s t)) 136 = {} \<longrightarrow>
          child_frame (mem s') (bottom + KERNEL_STACK_SIZE) (regs (tasks s t)) (pop_regs_and_sysret A))" by blast
  show "files s' = (\<lambda>f. if f = 0 then files s f
      else (files s f)\<lparr>file_refcnt := file_refcnt (files s f) + of_nat (count_list (fdtab (tasks s t)) f)\<rparr>)"
    by (simp add: s' n5 n4)
  show "current s' = current s" "next_pid s' = next_pid s + 1" by (simp_all add: s' n5 TF n3)
qed

lemma sched_fork_result:
  assumes "do_fork A t s = Inr (new, s1)" "run_queue s (x # xs)" "new \<notin> set (t # x # xs)" "new \<noteq> 0"
    "length (fdtab (tasks s t)) = TASK_FILE_MAX"
  obtains s' where "sched_fork A t s = Inr (next_pid s, s')" "next_pid s' = next_pid s + 1" "run_queue s' (x # new # xs)"
    "pid (tasks s' new) = next_pid s" "state (tasks s' new) = TASK_RUNNING" "fdtab (tasks s' new) = fdtab (tasks s t)"
    "parent (tasks s' new) = t" "children (tasks s' t) = new"
    "\<forall>f. f \<noteq> 0 \<longrightarrow> file_refcnt (files s' f) = file_refcnt (files s f) + of_nat (count_list (fdtab (tasks s t)) f)"
    "rng (regs (tasks s' new)) 136 \<inter> rng (regs (tasks s t)) 136 = {} \<longrightarrow>
        child_frame (mem s') (stack_top (tasks s' new)) (regs (tasks s t)) (pop_regs_and_sysret A)"
    "\<forall>a. a \<noteq> new \<longrightarrow> pid (tasks s' a) = pid (tasks s a) \<and> state (tasks s' a) = state (tasks s a)
       \<and> parent (tasks s' a) = parent (tasks s a) \<and> fdtab (tasks s' a) = fdtab (tasks s a)"
    "\<exists>T. s' = s1\<lparr>tasks := T\<rparr>" "t_mm (tasks s' new) = t_mm (tasks s1 new)" "regs (tasks s' new) = regs (tasks s1 new)"
proof -
  obtain s0 where "kcalloc 1 sizeof_task_struct s = Inr (new, s0)"
    using assms(1) by (auto simp: do_fork_def rbind_eq_Inr Let_def)
  note fk = do_fork_result [OF assms(1) this _ assms(5)]
  have nt: "new \<noteq> t" using assms(3) by simp
  obtain bottom mm where t1: "tasks s1 = (tasks s)(new := zero_task\<lparr>t_mm := mm, pid := next_pid s, fdtab := fdtab (tasks s t),
        stack_bottom := bottom, stack_top := bottom + KERNEL_STACK_SIZE, sp := bottom + KERNEL_STACK_SIZE - 192,
        regs := bottom + KERNEL_STACK_SIZE - 136\<rparr>)"
    and fr: "rng (bottom + KERNEL_STACK_SIZE - 136) 136 \<inter> rng (regs (tasks s t)) 136 = {} \<longrightarrow>
        child_frame (mem s1) (bottom + KERNEL_STACK_SIZE) (regs (tasks s t)) (pop_regs_and_sysret A)"
    using fk(1) nt by blast
  have "ring (tasks s1) (x # xs) \<longleftrightarrow> ring (tasks s) (x # xs)" by (rule ring_cong) (use assms(3) in \<open>auto simp: t1\<close>)
  then have "run_queue s1 (x # xs)" using assms(2) fk(3) nt by (simp add: run_queue_def)
  from insert_proc_ring [OF this _ assms(4)] assms(3) obtain s2 where s2: "sched_rr_insert_proc new s1 = Inr s2" "run_queue s2 (x # new # xs)"
    "\<forall>a. same_task (tasks s2 a) (tasks s1 a)" by auto
  obtain T where T: "s2 = s1\<lparr>tasks := T\<rparr>" using insert_only_tasks [OF s2(1)] by blast
  define s' where "s' = tree_insert_proc t new s2"
  have same: "state (tasks s2 new) = TASK_RUNNING" "pid (tasks s2 new) = next_pid s" "fdtab (tasks s2 new) = fdtab (tasks s t)"
    "stack_top (tasks s2 new) = bottom + KERNEL_STACK_SIZE" "regs (tasks s2 new) = bottom + KERNEL_STACK_SIZE - 136" "t_mm (tasks s2 new) = mm"
    using s2(3) [rule_format, of new] by (simp_all add: same_task_def t1 zero_task_def) (cases "tasks s2 new", simp)+
  have "ring (tasks s') (x # new # xs) \<longleftrightarrow> ring (tasks s2) (x # new # xs)"
    by (rule ring_cong) (auto simp: s'_def tree_insert_proc_def Let_def set_task_def)
  then have q: "run_queue s' (x # new # xs)"
    using s2(2) by (simp add: run_queue_def s'_def tree_insert_proc_def Let_def set_task_def)
  have "sched_fork A t s = Inr (next_pid s, s')"
    using assms(1) s2(1) same(2) nt by (simp add: sched_fork_def s'_def tree_insert_proc_def Let_def)
  moreover have "pid (tasks s' new) = next_pid s" "state (tasks s' new) = TASK_RUNNING" "fdtab (tasks s' new) = fdtab (tasks s t)"
    "parent (tasks s' new) = t" "children (tasks s' t) = new" "stack_top (tasks s' new) = bottom + KERNEL_STACK_SIZE"
    "regs (tasks s' new) = bottom + KERNEL_STACK_SIZE - 136" "files s' = files s1" "mem s' = mem s1" "next_pid s' = next_pid s + 1"
    using same nt fk(4) by (simp_all add: s'_def tree_insert_proc_def Let_def set_task_def T)
  moreover have "pid (tasks s' a) = pid (tasks s a) \<and> state (tasks s' a) = state (tasks s a)
      \<and> parent (tasks s' a) = parent (tasks s a) \<and> fdtab (tasks s' a) = fdtab (tasks s a)" if "a \<noteq> new" for a
    using s2(3) [rule_format, of a, THEN same_task_id] that
    by (auto simp: same_id_def s'_def tree_insert_proc_def Let_def set_task_def t1)
  moreover have "t_mm (tasks s' new) = t_mm (tasks s1 new)" "regs (tasks s' new) = regs (tasks s1 new)"
    using same nt by (simp_all add: s'_def tree_insert_proc_def Let_def set_task_def t1)
  moreover have "\<exists>T. s' = s1\<lparr>tasks := T\<rparr>" 
    by (rule exI [of _ "tasks s'"]) (simp add: s'_def tree_insert_proc_def Let_def set_task_def T)
  ultimately show thesis using that q fr fk(2) nt by simp
qed

text \<open>A kernel with a fresh heap, in which task 16 forks.\<close>

lemma kcalloc_place:
  assumes "heap_inv s bs" "n \<noteq> 0" "unat n \<le> 2 ^ 32" "place n bs = Some (t, bs')" "(t + 32, k) \<in> live bs'" "n \<le> k"
  obtains s' where "kcalloc 1 n s = Inr (t + 32, s')" "heap_inv s' bs'"
proof -
  obtain s1 where s1: "kmalloc n s = Inr (t + 32, s1)" "heap_inv s1 bs'"
    by (rule kmalloc_place_some [OF assms(1,2) _ assms(4)]) (use assms(3) in simp)
  have "room s1 (rng (t + 32) (unat n))" using room_object [of "t + 32" k s1 n] assms(5,6) heap_objects_eq [OF s1(2)] by simp
  from heap_write_inv [OF s1(2) this, of "memset (mem s1) (t + 32) 0 n"] have "heap_inv (s1\<lparr>mem := memset (mem s1) (t + 32) 0 n\<rparr>) bs'"
    by (simp add: memset_out)
  then show thesis using that s1(1) by (simp add: kcalloc_def)
qed

definition sample_fork :: "unit kernel_state" where
  "sample_fork = projr (kmalloc_init sample_kernel)"

definition sample_addrs :: code_addrs where
  "sample_addrs = \<lparr>pop_regs_and_sysret = 0xffffffff80001000, init_path = 0, namei_comp = 0, getdents_inode = 0\<rparr>"

lemma sample_fork_facts:
  "heap_inv sample_fork sample_blocks" "run_queue sample_fork [16, 32]" "t_mm (tasks sample_fork 16) = 0"
  "fdtab (tasks sample_fork 16) = replicate 16 0" "mms sample_fork = (\<lambda>_. zero_mm)" "next_pid sample_fork = 1000"
  "tasks sample_fork = tasks sample_procs"
proof -
  have brk: "kernel_brk sample_kernel = KERNEL_BRK_START"
    by (simp add: sample_kernel_def term_state.defs sample_term_def proc_state.defs sample_procs_def)
  note hi = init_heap_state [OF brk, folded sample_fork_def]
  show "heap_inv sample_fork sample_blocks" by (rule hi(1))
  have "\<exists>b h m. sample_kernel\<lparr>kernel_brk := b, heap_base := h, mem := m\<rparr> = sample_fork"
    using hi(3) brk by (auto simp: kmalloc_init_def sbrk_def Let_def rbind_eq_Inr split: if_splits)
  then obtain b h m where k: "sample_fork = sample_kernel\<lparr>kernel_brk := b, heap_base := h, mem := m\<rparr>" by metis
  show "run_queue sample_fork [16, 32]" "t_mm (tasks sample_fork 16) = 0" "fdtab (tasks sample_fork 16) = replicate 16 0"
    "mms sample_fork = (\<lambda>_. zero_mm)" "next_pid sample_fork = 1000" "tasks sample_fork = tasks sample_procs"
    unfolding k by (simp_all add: sample_kernel_def term_state.defs kernel_state.defs sample_term_def proc_state.defs sample_procs_def
        run_queue_def ring_Cons link_def sample_task_def)
qed

lemma sample_fork_places:
  "place 232 sample_blocks = Some (KERNEL_BRK_START, [(KERNEL_BRK_START, 232, True), (KERNEL_BRK_START + 264, 16088, False)])"
  "place 16 [(KERNEL_BRK_START, 232, True), (KERNEL_BRK_START + 264, 16088, False)]
    = Some (KERNEL_BRK_START + 264, [(KERNEL_BRK_START, 232, True), (KERNEL_BRK_START + 264, 16, True), (KERNEL_BRK_START + 312, 16040, False)])"
  "place 8192 [(KERNEL_BRK_START, 232, True), (KERNEL_BRK_START + 264, 16, True), (KERNEL_BRK_START + 312, 16040, False)]
    = Some (KERNEL_BRK_START + 312, [(KERNEL_BRK_START, 232, True), (KERNEL_BRK_START + 264, 16, True),
        (KERNEL_BRK_START + 312, 8192, True), (KERNEL_BRK_START + 8536, 7816, False)])"
proof -
  have i: "INIT_HEAP_SIZE = 16384" by (simp add: INIT_HEAP_SIZE_def)
  show "place 232 sample_blocks = Some (KERNEL_BRK_START, [(KERNEL_BRK_START, 232, True), (KERNEL_BRK_START + 264, 16088, False)])"
    unfolding sample_blocks_def i by (simp add: carve_def add.assoc)
qed (simp_all add: carve_def add.assoc)

lemma heap_inv_set_task: "heap_inv (set_task p f s) bs \<longleftrightarrow> heap_inv s bs"
  by (simp add: set_task_def heap_inv_def)

lemma sample_do_fork: "\<exists>s1. do_fork sample_addrs 16 sample_fork = Inr (KERNEL_BRK_START + 32, s1)"
proof -
  let ?k = KERNEL_BRK_START
  obtain s1 where s1: "kcalloc 1 232 sample_fork = Inr (?k + 32, s1)" "heap_inv s1 [(?k, 232, True), (?k + 264, 16088, False)]"
    by (rule kcalloc_place [OF sample_fork_facts(1) _ _ sample_fork_places(1), of 232]) (simp_all add: live_def)
  define s2 where "s2 = set_task (?k + 32) (state_update (\<lambda>_. TASK_RUNNING)) (set_task (?k + 32) (\<lambda>_. zero_task) s1)"
  have s2: "heap_inv s2 [(?k, 232, True), (?k + 264, 16088, False)]" 
    using s1(2) unfolding s2_def heap_inv_set_task .
  obtain s3 where s3: "kcalloc 1 16 s2 = Inr (?k + 264 + 32, s3)"
    "heap_inv s3 [(?k, 232, True), (?k + 264, 16, True), (?k + 312, 16040, False)]"
    by (rule kcalloc_place [OF s2 _ _ sample_fork_places(2), of 16]) (simp_all add: live_def)
  have "\<exists>b m. s1 = sample_fork\<lparr>kernel_brk := b, mem := m\<rparr>" "\<exists>b m. s3 = s2\<lparr>kernel_brk := b, mem := m\<rparr>"
    using s1(1) s3(1) by (auto simp: kcalloc_def rbind_eq_Inr dest!: kmalloc_only) (rule exI, rule exI, rule refl)+
  then have mms: "mms s3 = (\<lambda>_. zero_mm)" using sample_fork_facts(5) by (auto simp: s2_def set_task_def)
  have dupe: "mm_dupe (t_mm (tasks s2 16)) s2 = Inr (?k + 264 + 32, set_mm (?k + 264 + 32) zero_mm s3)"
    by (simp add: mm_dupe_def mm_new_def mm_init_def sizeof_mm_def s3(1) set_mm_def mms zero_mm_def Let_def)
  define s4 where "s4 = set_mm (?k + 264 + 32) zero_mm s3"
  define sm where "sm = set_task (?k + 32) (t_mm_update (\<lambda>_. ?k + 264 + 32)) s4"
  define sq where "sq = set_task (?k + 32) (pid_update (\<lambda>_. next_pid sm)) sm"
  define s5 where "s5 = share_files (?k + 32) 0 (fdtab (tasks (sq\<lparr>next_pid := next_pid sq + 1\<rparr>) 16)) (sq\<lparr>next_pid := next_pid sq + 1\<rparr>)"
  obtain T F where "s5 = sq\<lparr>next_pid := next_pid sq + 1, tasks := T, files := F\<rparr>" unfolding s5_def using share_files_rest by blast
  then have "\<exists>f. s5 = f s3 \<and> (\<forall>bs. heap_inv (f s3) bs \<longleftrightarrow> heap_inv s3 bs)"
    by (intro exI [of _ "\<lambda>_. s5"]) (simp add: sq_def sm_def s4_def set_task_def set_mm_def heap_inv_def)
  then have h5: "heap_inv s5 [(?k, 232, True), (?k + 264, 16, True), (?k + 312, 16040, False)]" using s3(2) by metis
  obtain s6 where s6: "kcalloc 1 8192 s5 = Inr (?k + 312 + 32, s6)"
    by (rule kcalloc_place [OF h5 _ _ sample_fork_places(3), of 8192]) (simp_all add: live_def)
  then obtain s7 where s7: "init_task_stack sample_addrs (?k + 32) s5 = Inr s7"
    by (simp add: init_task_stack_def KERNEL_STACK_SIZE_def Let_def)
  show ?thesis
    unfolding do_fork_def sizeof_task_struct_def s1(1) rbind_Inr prod.case Let_def s2_def [symmetric] dupe s4_def [symmetric]
      sm_def [symmetric] sq_def [symmetric] s5_def [symmetric] s7 by blast
qed

end
