(* ===== verification/Sched_Steps.thy ===== *)
theory Sched_Steps
  imports Fork_Spec
begin

text \<open>
  The processes as a transition system: every way in which the kernel's entry points change the run
  queue, up to the reaping of a zombie, is a step, and the invariant that the scheduler needs holds
  in all reachable states.
\<close>

section \<open>Steps\<close>

text \<open>
  A state is the set of the task structures in use and the kernel's state. The steps are the timer
  interrupt, a voluntary switch, the two ways to sleep (reading from the terminal, waiting for a
  child), the wake-up of a reader, \<^verbatim>\<open>fork\<close> and \<^verbatim>\<open>exit\<close>. A reader that is woken is not in the queue, as it
  left it in \<open>stdin_read\<close>; the heap gives a new child an address that is not in use; and the counter
  of pids has not wrapped around.
\<close>

inductive sched_step ::
    "u64 set \<times> ('d, 'a) kernel_state_scheme \<Rightarrow> u64 set \<times> ('d, 'a) kernel_state_scheme \<Rightarrow> bool" where
  tick: "sched_maybe_preempt rsp s = Inr s' \<Longrightarrow> sched_step (L, s) (L, s')"
| yield: "schedule rsp s = Inr s' \<Longrightarrow> sched_step (L, s) (L, s')"
| read_sleep: "stdin_read rsp s = Inr s' \<Longrightarrow> sched_step (L, s) (L, s')"
| wait_sleep: "do_wait rsp (current s) w s = Inr (Retry, s') \<Longrightarrow> sched_step (L, s) (L, s')"
| wake: "sched_rr_insert_proc t s = Inr s' \<Longrightarrow> t \<in> L \<Longrightarrow> t \<noteq> 0 \<Longrightarrow> state (tasks s t) = TASK_RUNNING
    \<Longrightarrow> \<forall>xs. run_queue s xs \<longrightarrow> t \<notin> set xs \<Longrightarrow> sched_step (L, s) (L, s')"
| fork: "do_fork A (current s) s = Inr (new, s1) \<Longrightarrow> sched_fork A (current s) s = Inr (r, s') \<Longrightarrow> new \<notin> L \<Longrightarrow> new \<noteq> 0
    \<Longrightarrow> next_pid s \<noteq> - 1 \<Longrightarrow> sched_step (L, s) (insert new L, s')"
| exit: "do_exit rsp (current s) st s = Inr s' \<Longrightarrow> sched_step (L, s) (L, s')"

text \<open>
  The invariant: the running task heads a ring of the runnable ones, which are all marked as running;
  pids are distinct and below the counter; every parent is a task in use; every task has a full table
  of descriptors.
\<close>

definition tasks_inv :: "u64 set \<Rightarrow> ('d, 'a) kernel_state_scheme \<Rightarrow> bool" where
  "tasks_inv L s \<longleftrightarrow> inj_on (\<lambda>t. pid (tasks s t)) L \<and> (\<forall>t \<in> L. unat (pid (tasks s t)) < unat (next_pid s)
     \<and> length (fdtab (tasks s t)) = TASK_FILE_MAX \<and> (parent (tasks s t) = 0 \<or> parent (tasks s t) \<in> L \<and> parent (tasks s t) \<noteq> t))"

definition queue_inv :: "u64 set \<Rightarrow> ('d, 'a) kernel_state_scheme \<Rightarrow> u64 list \<Rightarrow> bool" where
  "queue_inv L s xs \<longleftrightarrow> run_queue s xs \<and> set xs \<subseteq> L \<and> (\<forall>t \<in> set xs. state (tasks s t) = TASK_RUNNING)"

definition sched_inv :: "u64 set \<times> ('d, 'a) kernel_state_scheme \<Rightarrow> bool" where
  "sched_inv C = (case C of (L, s) \<Rightarrow> tasks_inv L s \<and> (\<exists>xs. queue_inv L s xs))"

lemma tasks_inv_same:
  assumes "tasks_inv L s" "\<And>a. a \<in> L \<Longrightarrow> pid (tasks s' a) = pid (tasks s a) \<and> parent (tasks s' a) = parent (tasks s a)
      \<and> fdtab (tasks s' a) = fdtab (tasks s a)" "next_pid s' = next_pid s"
  shows "tasks_inv L s'"
  using assms by (simp add: tasks_inv_def inj_on_def)

lemma tasks_inv_id:
  "tasks_inv L s \<Longrightarrow> \<forall>a. same_id (tasks s' a) (tasks s a) \<Longrightarrow> next_pid s' = next_pid s \<Longrightarrow> tasks_inv L s'"
  by (rule tasks_inv_same) (simp_all add: same_id_def)

lemma queue_inv_same:
  assumes "queue_inv L s xs" "\<forall>a. same_id (tasks s' a) (tasks s a)" "run_queue s' ys" "set ys \<subseteq> set xs"
  shows "queue_inv L s' ys"
  using assms by (auto simp: queue_inv_def same_id_def)

lemma queue_pids:
  assumes "tasks_inv L s" "queue_inv L s xs"
  shows "pids_distinct s xs"
  using assms inj_on_subset [of "\<lambda>t. pid (tasks s t)" L "set xs"]
  by (auto simp: tasks_inv_def queue_inv_def pids_distinct_def distinct_map run_queue_def ring_def)

text \<open>Scheduling routines leave the counter of pids alone.\<close>

lemma switch_next_pid [simp]: "switch_to rsp t s = Inr s' \<Longrightarrow> next_pid s' = next_pid (s :: ('d, 'a) kernel_state_scheme)"
  by (auto simp: switch_to_def set_task_def Let_def split: if_splits)

lemma schedule_next_pid: "schedule rsp s = Inr s' \<Longrightarrow> next_pid s' = next_pid (s :: ('d, 'a) kernel_state_scheme)"
  by (auto simp: schedule_def Let_def set_task_def split: if_splits dest!: switch_next_pid)

lemma preempt_next_pid: "sched_maybe_preempt rsp s = Inr s' \<Longrightarrow> next_pid s' = next_pid (s :: ('d, 'a) kernel_state_scheme)"
  by (auto simp: sched_maybe_preempt_def Let_def set_task_def split: if_splits dest!: schedule_next_pid)

lemma insert_next_pid: "sched_rr_insert_proc t s = Inr s' \<Longrightarrow> next_pid s' = next_pid (s :: ('d, 'a) kernel_state_scheme)"
  using insert_only_tasks by fastforce

lemma sleep_next_pid: "schedule_sleep rsp s = Inr s' \<Longrightarrow> next_pid s' = next_pid (s :: ('d, 'a) kernel_state_scheme)"
  by (auto simp: schedule_sleep_def sched_rr_remove_proc_def Let_def set_task_def rbind_eq_Inr split: if_splits dest!: switch_next_pid)

lemma exit_next_pid: "do_exit rsp t st s = Inr s' \<Longrightarrow> next_pid s' = next_pid (s :: ('d, 'a) kernel_state_scheme)"
  by (auto simp: do_exit_def Let_def set_task_def rbind_eq_Inr split: if_splits dest!: sleep_next_pid insert_next_pid)

section \<open>Every step keeps the invariant\<close>

lemma inv_move:
  assumes "tasks_inv L s" "queue_inv L s xs" "\<forall>a. same_id (tasks s' a) (tasks s a)" "run_queue s' ys" "set ys \<subseteq> set xs" "next_pid s' = next_pid s"
  shows "sched_inv (L, s')"
  using tasks_inv_id [OF assms(1,3,6)] queue_inv_same [OF assms(2,3,4,5)] by (auto simp: sched_inv_def)

lemma inv_tick:
  assumes "tasks_inv L s" "queue_inv L s (x # xs)" "sched_maybe_preempt rsp s = Inr s'"
  shows "sched_inv (L, s')"
proof -
  have "run_queue s (x # xs)" using assms(2) by (simp add: queue_inv_def)
  from preempt_queue [OF this queue_pids [OF assms(1,2)], of rsp] assms(3)
  obtain ys where "\<forall>a. same_id (tasks s' a) (tasks s a)" "run_queue s' ys" "set ys \<subseteq> set (x # xs)" by (auto split: if_splits)
  from inv_move [OF assms(1,2) this preempt_next_pid [OF assms(3)]] show ?thesis .
qed

lemma inv_yield:
  assumes "tasks_inv L s" "queue_inv L s (x # xs)"
  shows "\<exists>s'. schedule rsp s = Inr s' \<and> sched_inv (L, s')"
proof -
  have q: "run_queue s (x # xs)" using assms(2) by (simp add: queue_inv_def)
  have "\<exists>s'. schedule rsp s = Inr s' \<and> (\<forall>a. same_id (tasks s' a) (tasks s a)) \<and> run_queue s' (xs @ [x])"
  proof (cases xs)
    case Nil
    then show ?thesis using schedule_alone [of s x rsp] q by (simp add: same_id_def)
  next
    case (Cons y ys)
    have "pid (tasks s x) \<noteq> pid (tasks s y)" using queue_pids [OF assms] Cons by (simp add: pids_distinct_def)
    from schedule_rotates [OF q [unfolded Cons] this, of rsp] Cons show ?thesis by auto
  qed
  then obtain s' where s': "schedule rsp s = Inr s'" "\<forall>a. same_id (tasks s' a) (tasks s a)" "run_queue s' (xs @ [x])" by blast
  from inv_move [OF assms s'(2,3) _ schedule_next_pid [OF s'(1)]] s'(1) show ?thesis by auto
qed

text \<open>Going to sleep, from a state in which the head of the queue may have any mark.\<close>

lemma inv_sleep:
  assumes "tasks_inv L s" "run_queue s (x # xs)" "set (x # xs) \<subseteq> L" "\<forall>t \<in> set xs. state (tasks s t) = TASK_RUNNING"
    "schedule_sleep rsp s = Inr s'"
  shows "sched_inv (L, s')"
proof -
  obtain y ys where xs: "xs = y # ys" using schedule_sleep_alone [of s x rsp] assms(2,5) by (cases xs) auto
  have "x \<noteq> y" using assms(2) xs by (simp add: run_queue_def ring_def)
  then have "pid (tasks s x) \<noteq> pid (tasks s y)" using assms(1,3) xs by (auto simp: tasks_inv_def inj_on_def)
  from schedule_sleep_drops [OF assms(2) [unfolded xs] this, of rsp] assms(5)
  have s': "run_queue s' xs" "\<forall>a. same_id (tasks s' a) (tasks s a)" by (auto simp: xs)
  have "queue_inv L s' xs" using s' assms(3,4) by (auto simp: queue_inv_def same_id_def)
  with tasks_inv_id [OF assms(1) s'(2) sleep_next_pid [OF assms(5)]] show ?thesis by (auto simp: sched_inv_def)
qed

lemma inv_wake:
  assumes "tasks_inv L s" "queue_inv L s (x # xs)" "sched_rr_insert_proc t s = Inr s'" "t \<in> L" "t \<noteq> 0" "state (tasks s t) = TASK_RUNNING"
    "t \<notin> set (x # xs)"
  shows "sched_inv (L, s')"
proof -
  have "run_queue s (x # xs)" using assms(2) by (simp add: queue_inv_def)
  from insert_proc_ring [OF this assms(7,5)] assms(3) have q: "run_queue s' (x # t # xs)" and "\<forall>a. same_task (tasks s' a) (tasks s a)" by auto
  then have id: "\<forall>a. same_id (tasks s' a) (tasks s a)" using same_task_id by blast
  have "queue_inv L s' (x # t # xs)" using q id assms(2,4,6) by (auto simp: queue_inv_def same_id_def)
  with tasks_inv_id [OF assms(1) id insert_next_pid [OF assms(3)]] show ?thesis by (auto simp: sched_inv_def)
qed

lemma inv_fork:
  assumes "tasks_inv L s" "queue_inv L s (x # xs)" "do_fork A x s = Inr (new, s1)" "sched_fork A x s = Inr (r, s')" "new \<notin> L" "new \<noteq> 0"
    "next_pid s \<noteq> - 1"
  shows "sched_inv (insert new L, s')"
proof -
  have q: "run_queue s (x # xs)" "set (x # xs) \<subseteq> L" "\<forall>t \<in> set (x # xs). state (tasks s t) = TASK_RUNNING"
    using assms(2) by (simp_all add: queue_inv_def)
  have "new \<notin> set (x # x # xs)" "length (fdtab (tasks s x)) = TASK_FILE_MAX" using q(2) assms(1,5) by (auto simp: tasks_inv_def)
  from sched_fork_result [OF assms(3) q(1) this(1) assms(6) this(2)] assms(4) have f: "next_pid s' = next_pid s + 1" "run_queue s' (x # new # xs)"
    "pid (tasks s' new) = next_pid s" "state (tasks s' new) = TASK_RUNNING" "fdtab (tasks s' new) = fdtab (tasks s x)" "parent (tasks s' new) = x"
    "\<forall>a. a \<noteq> new \<longrightarrow> pid (tasks s' a) = pid (tasks s a) \<and> state (tasks s' a) = state (tasks s a)
       \<and> parent (tasks s' a) = parent (tasks s a) \<and> fdtab (tasks s' a) = fdtab (tasks s a)"
    by auto
  have old: "a \<noteq> new" if "a \<in> L" for a using that assms(5) by blast
  have np: "unat (next_pid s') = Suc (unat (next_pid s))"
    using assms(7) unatSuc [of "next_pid s"] by (simp add: f(1) add.commute eq_neg_iff_add_eq_0)
  have "queue_inv (insert new L) s' (x # new # xs)" using f(2,4,7) q(2,3) by (auto simp: queue_inv_def)
  moreover have "tasks_inv (insert new L) s'"
    unfolding tasks_inv_def
  proof (intro conjI ballI)
    show "inj_on (\<lambda>t. pid (tasks s' t)) (insert new L)"
      using assms(1) f(3,7) old by (fastforce simp: tasks_inv_def inj_on_def)
  next
    fix t assume "t \<in> insert new L"
    then show "unat (pid (tasks s' t)) < unat (next_pid s')" "length (fdtab (tasks s' t)) = TASK_FILE_MAX"
      "parent (tasks s' t) = 0 \<or> parent (tasks s' t) \<in> insert new L \<and> parent (tasks s' t) \<noteq> t"
      using assms(1) f(3,5,6,7) old np q(2) by (auto simp: tasks_inv_def less_Suc_eq)
  qed
  ultimately show ?thesis by (auto simp: sched_inv_def)
qed

lemma inv_exit:
  assumes "tasks_inv L s" "queue_inv L s (x # xs)" "do_exit rsp x st s = Inr s'"
  shows "sched_inv (L, s')"
proof -
  define p where "p = parent (tasks s x)"
  have q: "run_queue s (x # xs)" "set (x # xs) \<subseteq> L" "\<forall>t \<in> set (x # xs). state (tasks s t) = TASK_RUNNING"
    using assms(2) by (simp_all add: queue_inv_def)
  have p: "p \<noteq> 0" "p \<in> L" "p \<noteq> x" using assms(1,3) q(2) by (auto simp: p_def do_exit_def Let_def tasks_inv_def split: if_splits)
  have pn: "state (tasks s p) = TASK_WAITING \<Longrightarrow> p \<notin> set xs" using q(3) by auto
  have ne: "xs \<noteq> []" if w: "state (tasks s p) \<noteq> TASK_WAITING"
  proof
    let ?s1 = "set_task x (exit_status_update (\<lambda>_. st)) (set_task x (state_update (\<lambda>_. TASK_ZOMBIE)) s)"
    assume "xs = []"
    then have "run_queue ?s1 [x]" using q(1) by (intro set_task_queue) simp_all
    from schedule_sleep_alone [OF this, of rsp] show False using assms(3) w p(1,3) by (simp add: do_exit_def Let_def p_def)
  qed
  have pids: "pid (tasks s x) \<noteq> pid (tasks s (if state (tasks s p) = TASK_WAITING then p else hd xs))"
  proof (cases "state (tasks s p) = TASK_WAITING")
    case True
    then show ?thesis using assms(1) p q(2) by (auto simp: tasks_inv_def inj_on_def)
  next
    case False
    then have "hd xs \<in> set xs" using ne by simp
    then show ?thesis using False queue_pids [OF assms(1,2)] by (auto simp: pids_distinct_def)
  qed
  from do_exit_queue [OF q(1) p_def p(1,3) pn ne pids, of rsp st] assms(3)
  have e: "run_queue s' (if state (tasks s p) = TASK_WAITING then p # xs else xs)" "state (tasks s' x) = TASK_ZOMBIE"
    "\<forall>a. a \<noteq> x \<longrightarrow> same_id (tasks s' a) ((tasks s a)\<lparr>state := if a = p \<and> state (tasks s p) = TASK_WAITING then TASK_RUNNING else state (tasks s a)\<rparr>)"
    and xx: "same_id (tasks s' x) ((tasks s x)\<lparr>state := TASK_ZOMBIE, exit_status := st\<rparr>)"
    by auto
  have "tasks_inv L s'"
    by (rule tasks_inv_same [OF assms(1)]) (use e(3) xx exit_next_pid [OF assms(3)] in \<open>auto simp: same_id_def\<close>)
  moreover have "x \<notin> set xs" using q(1) by (simp add: run_queue_def ring_def)
  then have "state (tasks s' t) = TASK_RUNNING" if "t \<in> set xs \<or> t = p \<and> state (tasks s p) = TASK_WAITING" for t
  proof -
    have "t \<noteq> x" using that \<open>x \<notin> set xs\<close> p(3) by auto
    then show ?thesis using e(3) q(3) that by (auto simp: same_id_def)
  qed
  then have "queue_inv L s' (if state (tasks s p) = TASK_WAITING then p # xs else xs)"
    using e(1) q(2) p(2) by (auto simp: queue_inv_def)
  ultimately show ?thesis by (auto simp: sched_inv_def)
qed

lemma sched_step_inv:
  assumes "sched_step C C'" "sched_inv C"
  shows "sched_inv C'"
proof -
  obtain L s where C: "C = (L, s)" by fastforce
  obtain xs0 where t: "tasks_inv L s" and xs0: "queue_inv L s xs0" using assms(2) by (auto simp: sched_inv_def C)
  obtain x xs where q: "queue_inv L s (x # xs)" using xs0 by (cases xs0) (auto simp: queue_inv_def run_queue_def ring_def)
  have r: "run_queue s (x # xs)" "current s = x" "set (x # xs) \<subseteq> L" "\<forall>t \<in> set xs. state (tasks s t) = TASK_RUNNING"
    using q by (auto simp: queue_inv_def run_queue_def)
  from assms(1) show ?thesis unfolding C
  proof (cases rule: sched_step.cases)
    case (tick rsp s' )
    then show ?thesis using inv_tick [OF t q] by auto
  next
    case (yield rsp s')
    then show ?thesis using inv_yield [OF t q, of rsp] by auto
  next
    case (read_sleep rsp s')
    let ?m = "s\<lparr>mem := st64 (mem s) (fld tty ''waiting_task'' (global_tty s)) (current s)\<rparr>"
    have "schedule_sleep rsp ?m = Inr s'" using read_sleep by (auto simp: stdin_read_def split: if_splits)
    moreover have "tasks_inv L ?m" "run_queue ?m (x # xs)" using t r(1) by (simp_all add: tasks_inv_def run_queue_def)
    ultimately show ?thesis using inv_sleep [of L ?m x xs rsp s'] r read_sleep by simp
  next
    case (wait_sleep rsp w s')
    let ?m = "set_task x (state_update (\<lambda>_. TASK_WAITING)) s"
    have "schedule_sleep rsp ?m = Inr s'" using wait_sleep by (auto simp: do_wait_def Let_def rbind_eq_Inr r(2) split: if_splits)
    moreover have "tasks_inv L ?m" by (rule tasks_inv_same [OF t]) (simp_all add: set_task_def)
    moreover have "run_queue ?m (x # xs)" by (intro set_task_queue r(1)) simp
    moreover have "x \<notin> set xs" using r(1) by (simp add: run_queue_def ring_def)
    then have "\<forall>t \<in> set xs. state (tasks ?m t) = TASK_RUNNING" using r(4) by auto
    ultimately show ?thesis using inv_sleep [of L ?m x xs rsp s'] r(3) wait_sleep by blast
  next
    case (wake t' s')
    then show ?thesis using inv_wake [OF t q, of t' s'] r(1) by auto
  next
    case (fork A new s1 rr s')
    then show ?thesis using inv_fork [OF t q, of A new s1 rr s'] r(2) by auto
  next
    case (exit rsp st s')
    then show ?thesis using inv_exit [OF t q, of rsp st s'] r(2) by auto
  qed
qed


lemma sample_sched_inv: "sched_inv ({16, 32}, sample_fork)"
proof -
  have "tasks sample_fork 16 = sample_task 1 TASK_RUNNING 32 32 32" "tasks sample_fork 32 = sample_task 2 TASK_RUNNING 16 16 0"
    by (simp_all add: sample_fork_facts(7) sample_procs_def)
  then have "tasks_inv {16, 32} sample_fork" "queue_inv {16, 32} sample_fork [16, 32]"
    using sample_fork_facts(2,6) by (simp_all add: tasks_inv_def queue_inv_def sample_task_def TASK_FILE_MAX_def)
  then show ?thesis by (auto simp: sched_inv_def)
qed


end
