(* ===== verification/Printf.thy ===== *)
theory Printf
  imports Pmm
begin

text \<open>
  Formatted printing (\<^verbatim>\<open>src/src/lib/printf.c\<close>), as the kernel's build configures it
  (\<^verbatim>\<open>-DPRINTF_DISABLE_SUPPORT_FLOAT -DPRINTF_DISABLE_SUPPORT_LONG_LONG\<close>): floating-point conversions and
  \<^verbatim>\<open>_ntoa_long_long\<close> are not part of the program.

  The format and the strings it refers to are in memory, and so may be the output. An output function
  (\<^verbatim>\<open>out_fct_type\<close>) is a function on the state; the variable arguments are a list of 64-bit slots, from which
  \<^verbatim>\<open>va_arg\<close> takes the low bits of the type it is asked for. The conversion buffer of a number is a local
  array of 32 bytes that nothing else refers to: it is the list of the bytes stored so far.
\<close>

section \<open>Output functions\<close>

abbreviation ch :: "char \<Rightarrow> u8" where
  "ch c \<equiv> of_char c"

type_synonym 'a out_fct = "u8 \<Rightarrow> u64 \<Rightarrow> u64 \<Rightarrow> u64 \<Rightarrow> 'a machine_scheme \<Rightarrow> 'a machine_scheme"

definition out_buffer :: "'a out_fct" where
  "out_buffer character buffer idx maxlen s =
     (if idx < maxlen then s\<lparr>mem := (mem s)(buffer + idx := character)\<rparr> else s)"

definition out_null :: "'a out_fct" where
  "out_null character buffer idx maxlen s = s"

text \<open>\<^verbatim>\<open>_out_fct\<close> with the function and the argument that the wrapper structure holds.\<close>

definition out_fct :: "(u8 \<Rightarrow> u64 \<Rightarrow> 'a machine_scheme \<Rightarrow> 'a machine_scheme) \<Rightarrow> u64 \<Rightarrow> 'a out_fct" where
  "out_fct fct arg character buffer idx maxlen s = (if character \<noteq> 0 then fct character arg s else s)"

text \<open>The loops that print one character after the other, advancing \<open>idx\<close>.\<close>

primrec out_bytes :: "'a out_fct \<Rightarrow> u64 \<Rightarrow> u64 \<Rightarrow> u8 list \<Rightarrow> u64 \<Rightarrow> 'a machine_scheme \<Rightarrow> u64 \<times> 'a machine_scheme" where
  "out_bytes out buffer maxlen [] idx s = (idx, s)"
| "out_bytes out buffer maxlen (c # cs) idx s = out_bytes out buffer maxlen cs (idx + 1) (out c buffer idx maxlen s)"

definition out_spaces :: "'a out_fct \<Rightarrow> u64 \<Rightarrow> u64 \<Rightarrow> nat \<Rightarrow> u64 \<Rightarrow> 'a machine_scheme \<Rightarrow> u64 \<times> 'a machine_scheme" where
  "out_spaces out buffer maxlen n = out_bytes out buffer maxlen (replicate n (ch CHR '' ''))"

section \<open>Flags and numbers in the format\<close>

definition FLAGS_ZEROPAD :: u32 where "FLAGS_ZEROPAD = push_bit 0 1"
definition FLAGS_LEFT :: u32 where "FLAGS_LEFT = push_bit 1 1"
definition FLAGS_PLUS :: u32 where "FLAGS_PLUS = push_bit 2 1"
definition FLAGS_SPACE :: u32 where "FLAGS_SPACE = push_bit 3 1"
definition FLAGS_HASH :: u32 where "FLAGS_HASH = push_bit 4 1"
definition FLAGS_UPPERCASE :: u32 where "FLAGS_UPPERCASE = push_bit 5 1"
definition FLAGS_CHAR :: u32 where "FLAGS_CHAR = push_bit 6 1"
definition FLAGS_SHORT :: u32 where "FLAGS_SHORT = push_bit 7 1"
definition FLAGS_LONG :: u32 where "FLAGS_LONG = push_bit 8 1"
definition FLAGS_LONG_LONG :: u32 where "FLAGS_LONG_LONG = push_bit 9 1"
definition FLAGS_PRECISION :: u32 where "FLAGS_PRECISION = push_bit 10 1"

definition PRINTF_NTOA_BUFFER_SIZE :: nat where "PRINTF_NTOA_BUFFER_SIZE = 32"

definition has :: "u32 \<Rightarrow> u32 \<Rightarrow> bool" where
  "has flags f \<longleftrightarrow> flags AND f \<noteq> 0"

text \<open>\<^verbatim>\<open>*s && maxsize--\<close>: the pointer stops at a zero byte or after \<open>maxsize\<close> bytes.\<close>

function strnlen_s_loop :: "memory \<Rightarrow> u64 \<Rightarrow> u64 \<Rightarrow> u64" where
  "strnlen_s_loop m s maxsize =
     (if m s \<noteq> 0 \<and> maxsize \<noteq> 0 then strnlen_s_loop m (s + 1) (maxsize - 1) else s)"
  by pat_completeness auto
termination
  by (relation "measure (\<lambda>(m, s, maxsize). unat maxsize)") (auto simp: unat_minus_one word_gt_0_no unat_gt_0)

definition strnlen_s :: "memory \<Rightarrow> u64 \<Rightarrow> u64 \<Rightarrow> u32" where
  "strnlen_s m str maxsize = ucast (strnlen_s_loop m str maxsize - str)"

definition is_digit :: "u8 \<Rightarrow> bool" where
  "is_digit c \<longleftrightarrow> ch CHR ''0'' \<le> c \<and> c \<le> ch CHR ''9''"

partial_function (option) atoi :: "memory \<Rightarrow> u64 \<Rightarrow> u32 \<Rightarrow> (u32 \<times> u64) option" where
  "atoi m str i =
     (if is_digit (m str) then atoi m (str + 1) (i * 10 + ucast (m str - ch CHR ''0'')) else Some (i, str))"

section \<open>Numbers\<close>

text \<open>Spaces up to the width, the buffer backwards, spaces after it: each loop runs for the difference.\<close>

definition out_rev ::
    "'a out_fct \<Rightarrow> u64 \<Rightarrow> u64 \<Rightarrow> u64 \<Rightarrow> u8 list \<Rightarrow> u32 \<Rightarrow> u32 \<Rightarrow> 'a machine_scheme \<Rightarrow> u64 \<times> 'a machine_scheme" where
  "out_rev out buffer idx maxlen buf width flags s =
     (let start_idx = idx;
          (idx, s) = (if \<not> has flags FLAGS_LEFT \<and> \<not> has flags FLAGS_ZEROPAD
                      then out_spaces out buffer maxlen (unat width - length buf) idx s else (idx, s));
          (idx, s) = out_bytes out buffer maxlen (rev buf) idx s
      in if has flags FLAGS_LEFT then out_spaces out buffer maxlen (unat width - unat (idx - start_idx)) idx s
         else (idx, s))"

text \<open>\<^verbatim>\<open>buf[len++] = c\<close> under the test that the buffer is not full, and the loops that fill it with zeros.\<close>

definition push :: "u8 \<Rightarrow> u8 list \<Rightarrow> u8 list" where
  "push c buf = (if length buf < PRINTF_NTOA_BUFFER_SIZE then buf @ [c] else buf)"

definition pad_zeros :: "u32 \<Rightarrow> u8 list \<Rightarrow> u8 list" where
  "pad_zeros n buf = buf @ replicate (min (unat n) PRINTF_NTOA_BUFFER_SIZE - length buf) (ch CHR ''0'')"

definition ntoa_format ::
    "'a out_fct \<Rightarrow> u64 \<Rightarrow> u64 \<Rightarrow> u64 \<Rightarrow> u8 list \<Rightarrow> bool \<Rightarrow> u32 \<Rightarrow> u32 \<Rightarrow> u32 \<Rightarrow> u32 \<Rightarrow> 'a machine_scheme \<Rightarrow> u64 \<times> 'a machine_scheme" where
  "ntoa_format out buffer idx maxlen buf negative base prec width flags s =
     (let (width, buf) =
            (if \<not> has flags FLAGS_LEFT
             then let width = (if width \<noteq> 0 \<and> has flags FLAGS_ZEROPAD \<and> (negative \<or> has flags (FLAGS_PLUS OR FLAGS_SPACE))
                               then width - 1 else width);
                      buf = pad_zeros prec buf;
                      buf = (if has flags FLAGS_ZEROPAD then pad_zeros width buf else buf)
                  in (width, buf)
             else (width, buf));
          buf =
            (if has flags FLAGS_HASH
             then let buf = (if \<not> has flags FLAGS_PRECISION \<and> buf \<noteq> [] \<and> (length buf = unat prec \<or> length buf = unat width)
                             then let buf = butlast buf in if buf \<noteq> [] \<and> base = 16 then butlast buf else buf
                             else buf);
                      buf = (if base = 16 \<and> \<not> has flags FLAGS_UPPERCASE then push (ch CHR ''x'') buf
                             else if base = 16 \<and> has flags FLAGS_UPPERCASE then push (ch CHR ''X'') buf
                             else if base = 2 then push (ch CHR ''b'') buf
                             else buf)
                  in push (ch CHR ''0'') buf
             else buf);
          buf = (if negative then push (ch CHR ''-'') buf
                 else if has flags FLAGS_PLUS then push (ch CHR ''+'') buf
                 else if has flags FLAGS_SPACE then push (ch CHR '' '') buf
                 else buf)
      in out_rev out buffer idx maxlen buf width flags s)"

function ntoa_digits :: "u64 \<Rightarrow> u64 \<Rightarrow> u32 \<Rightarrow> u8 list \<Rightarrow> u8 list" where
  "ntoa_digits value base flags buf =
     (let digit = (ucast (value mod base) :: u8);
          buf = buf @ [if digit <s 10 then ch CHR ''0'' + digit
                       else (if has flags FLAGS_UPPERCASE then ch CHR ''A'' else ch CHR ''a'') + digit - 10];
          value = value div base
      in if value \<noteq> 0 \<and> length buf < PRINTF_NTOA_BUFFER_SIZE then ntoa_digits value base flags buf else buf)"
  by pat_completeness auto
termination
  by (relation "measure (\<lambda>(value, base, flags, buf). PRINTF_NTOA_BUFFER_SIZE - length buf)") (auto simp: Let_def)

definition ntoa_long ::
    "'a out_fct \<Rightarrow> u64 \<Rightarrow> u64 \<Rightarrow> u64 \<Rightarrow> u64 \<Rightarrow> bool \<Rightarrow> u64 \<Rightarrow> u32 \<Rightarrow> u32 \<Rightarrow> u32 \<Rightarrow> 'a machine_scheme \<Rightarrow> u64 \<times> 'a machine_scheme" where
  "ntoa_long out buffer idx maxlen value negative base prec width flags s =
     (let flags = (if value = 0 then flags AND NOT FLAGS_HASH else flags);
          buf = (if \<not> has flags FLAGS_PRECISION \<or> value \<noteq> 0 then ntoa_digits value base flags [] else [])
      in ntoa_format out buffer idx maxlen buf negative (ucast base) prec width flags s)"

declare strnlen_s_loop.simps [simp del] ntoa_digits.simps [simp del]

section \<open>The format\<close>

text \<open>\<^verbatim>\<open>va_arg\<close>: reading more arguments than were passed is undefined.\<close>

definition va_arg :: "u64 list \<Rightarrow> (u64 \<times> u64 list) res" where
  "va_arg va = (case va of [] \<Rightarrow> Inl (Undefined ''no argument left'') | v # va \<Rightarrow> Inr (v, va))"

text \<open>\<^verbatim>\<open>value > 0 ? value : 0 - value\<close> of a signed value; the least value has no negation.\<close>

definition magnitude :: "'a::len word \<Rightarrow> 'a word res" where
  "magnitude value =
     (if 0 <s value then Inr value
      else if value = push_bit (LENGTH('a) - 1) 1 then Inl (Undefined ''negation overflows'')
      else Inr (0 - value))"

definition flag_of :: "u8 \<Rightarrow> u32 option" where
  "flag_of c =
     (if c = ch CHR ''0'' then Some FLAGS_ZEROPAD
      else if c = ch CHR ''-'' then Some FLAGS_LEFT
      else if c = ch CHR ''+'' then Some FLAGS_PLUS
      else if c = ch CHR '' '' then Some FLAGS_SPACE
      else if c = ch CHR ''#'' then Some FLAGS_HASH
      else None)"

partial_function (option) parse_flags :: "memory \<Rightarrow> u64 \<Rightarrow> u32 \<Rightarrow> (u32 \<times> u64) option" where
  "parse_flags m format flags =
     (case flag_of (m format) of
        Some f \<Rightarrow> parse_flags m (format + 1) (flags OR f)
      | None \<Rightarrow> Some (flags, format))"

definition parse_width :: "memory \<Rightarrow> u64 \<Rightarrow> u32 \<Rightarrow> u64 list \<Rightarrow> (u32 \<times> u32 \<times> u64 \<times> u64 list) res" where
  "parse_width m format flags va =
     (if is_digit (m format) then rbind (ends (atoi m format 0)) (\<lambda>(width, format). Inr (width, flags, format, va))
      else if m format = ch CHR ''*''
      then rbind (va_arg va) (\<lambda>(v, va).
           let w = (ucast v :: u32)
           in if w <s 0 then rbind (magnitude w) (\<lambda>width. Inr (width, flags OR FLAGS_LEFT, format + 1, va))
              else Inr (w, flags, format + 1, va))
      else Inr (0, flags, format, va))"

definition parse_precision :: "memory \<Rightarrow> u64 \<Rightarrow> u32 \<Rightarrow> u64 list \<Rightarrow> (u32 \<times> u32 \<times> u64 \<times> u64 list) res" where
  "parse_precision m format flags va =
     (if m format = ch CHR ''.''
      then let flags = flags OR FLAGS_PRECISION; format = format + 1
           in if is_digit (m format) then rbind (ends (atoi m format 0)) (\<lambda>(precision, format). Inr (precision, flags, format, va))
              else if m format = ch CHR ''*''
              then rbind (va_arg va) (\<lambda>(v, va).
                   let prec = (ucast v :: u32)
                   in Inr (if 0 <s prec then prec else 0, flags, format + 1, va))
              else Inr (0, flags, format, va)
      else Inr (0, flags, format, va))"

text \<open>On x86-64 \<^verbatim>\<open>ptrdiff_t\<close>, \<^verbatim>\<open>intmax_t\<close> and \<^verbatim>\<open>size_t\<close> have the size of \<^verbatim>\<open>long\<close>.\<close>

definition parse_length :: "memory \<Rightarrow> u64 \<Rightarrow> u32 \<Rightarrow> u32 \<times> u64" where
  "parse_length m format flags =
     (if m format = ch CHR ''l''
      then let flags = flags OR FLAGS_LONG; format = format + 1
           in if m format = ch CHR ''l'' then (flags OR FLAGS_LONG_LONG, format + 1) else (flags, format)
      else if m format = ch CHR ''h''
      then let flags = flags OR FLAGS_SHORT; format = format + 1
           in if m format = ch CHR ''h'' then (flags OR FLAGS_CHAR, format + 1) else (flags, format)
      else if m format \<in> {ch CHR ''t'', ch CHR ''j'', ch CHR ''z''} then (flags OR FLAGS_LONG, format + 1)
      else (flags, format))"

subsection \<open>Conversions\<close>

text \<open>
  A conversion returns the arguments that are left, the position in the output, and the state. Since the
  build has no \<^verbatim>\<open>long long\<close> support, \<^verbatim>\<open>%lld\<close> and its like print nothing and take no argument.
\<close>

definition int_flags :: "u8 \<Rightarrow> u32 \<Rightarrow> u32" where
  "int_flags c flags =
     (let flags = (if c \<in> {ch CHR ''x'', ch CHR ''X'', ch CHR ''o'', ch CHR ''b''} then flags else flags AND NOT FLAGS_HASH);
          flags = (if c = ch CHR ''X'' then flags OR FLAGS_UPPERCASE else flags);
          flags = (if c \<noteq> ch CHR ''i'' \<and> c \<noteq> ch CHR ''d'' then flags AND NOT (FLAGS_PLUS OR FLAGS_SPACE) else flags)
      in if has flags FLAGS_PRECISION then flags AND NOT FLAGS_ZEROPAD else flags)"

definition int_base :: "u8 \<Rightarrow> u64" where
  "int_base c = (if c = ch CHR ''x'' \<or> c = ch CHR ''X'' then 16 else if c = ch CHR ''o'' then 8
                 else if c = ch CHR ''b'' then 2 else 10)"

text \<open>The sign and the magnitude of the argument, converted to the type that the length names.\<close>

definition signed_arg :: "u32 \<Rightarrow> u64 \<Rightarrow> (bool \<times> u64) res" where
  "signed_arg flags v =
     (if has flags FLAGS_LONG then rbind (magnitude v) (\<lambda>n. Inr (v <s 0, n))
      else let value = (if has flags FLAGS_CHAR then scast (ucast v :: u8)
                        else if has flags FLAGS_SHORT then scast (ucast v :: u16)
                        else (ucast v :: u32))
           in rbind (magnitude value) (\<lambda>n. Inr (value <s 0, ucast n)))"

definition unsigned_arg :: "u32 \<Rightarrow> u64 \<Rightarrow> u64" where
  "unsigned_arg flags v =
     (if has flags FLAGS_LONG then v
      else if has flags FLAGS_CHAR then ucast (ucast v :: u8)
      else if has flags FLAGS_SHORT then ucast (ucast v :: u16)
      else ucast (ucast v :: u32))"

type_synonym 'a conv = "(u64 list \<times> u64 \<times> 'a machine_scheme) res"

definition conv_int ::
    "'a out_fct \<Rightarrow> u64 \<Rightarrow> u64 \<Rightarrow> u8 \<Rightarrow> u32 \<Rightarrow> u32 \<Rightarrow> u32 \<Rightarrow> u64 list \<Rightarrow> u64 \<Rightarrow> 'a machine_scheme \<Rightarrow> 'a conv" where
  "conv_int out buffer maxlen c flags width precision va idx s =
     (let flags = int_flags c flags; base = int_base c
      in if has flags FLAGS_LONG_LONG then Inr (va, idx, s)
         else if c = ch CHR ''i'' \<or> c = ch CHR ''d''
         then rbind (va_arg va) (\<lambda>(v, va).
              rbind (signed_arg flags v) (\<lambda>(negative, n).
              Inr (va, ntoa_long out buffer idx maxlen n negative base precision width flags s)))
         else rbind (va_arg va) (\<lambda>(v, va).
              Inr (va, ntoa_long out buffer idx maxlen (unsigned_arg flags v) False base precision width flags s)))"

definition conv_char ::
    "'a out_fct \<Rightarrow> u64 \<Rightarrow> u64 \<Rightarrow> u32 \<Rightarrow> u32 \<Rightarrow> u64 list \<Rightarrow> u64 \<Rightarrow> 'a machine_scheme \<Rightarrow> 'a conv" where
  "conv_char out buffer maxlen flags width va idx s =
     (let l = (1 :: u32);
          (idx, s) = (if \<not> has flags FLAGS_LEFT then out_spaces out buffer maxlen (unat width - unat l) idx s else (idx, s))
      in rbind (va_arg va) (\<lambda>(v, va).
         let s = out (ucast v) buffer idx maxlen s; idx = idx + 1
         in Inr (va, if has flags FLAGS_LEFT then out_spaces out buffer maxlen (unat width - unat l) idx s else (idx, s))))"

partial_function (option) out_string ::
    "'a out_fct \<Rightarrow> u64 \<Rightarrow> u64 \<Rightarrow> u32 \<Rightarrow> u64 \<Rightarrow> u32 \<Rightarrow> u64 \<Rightarrow> 'a machine_scheme \<Rightarrow> (u64 \<times> 'a machine_scheme) option" where
  "out_string out buffer maxlen flags p precision idx s =
     (if mem s p \<noteq> 0 \<and> (\<not> has flags FLAGS_PRECISION \<or> precision \<noteq> 0)
      then out_string out buffer maxlen flags (p + 1) (if has flags FLAGS_PRECISION then precision - 1 else precision) (idx + 1)
             (out (mem s p) buffer idx maxlen s)
      else Some (idx, s))"

definition conv_string ::
    "'a out_fct \<Rightarrow> u64 \<Rightarrow> u64 \<Rightarrow> u32 \<Rightarrow> u32 \<Rightarrow> u32 \<Rightarrow> u64 list \<Rightarrow> u64 \<Rightarrow> 'a machine_scheme \<Rightarrow> 'a conv" where
  "conv_string out buffer maxlen flags width precision va idx s =
     rbind (va_arg va) (\<lambda>(p, va).
     let l = strnlen_s (mem s) p (if precision \<noteq> 0 then ucast precision else - 1);
         l = (if has flags FLAGS_PRECISION then (if l < precision then l else precision) else l);
         (idx, s) = (if \<not> has flags FLAGS_LEFT then out_spaces out buffer maxlen (unat width - unat l) idx s else (idx, s))
     in rbind (ends (out_string out buffer maxlen flags p precision idx s)) (\<lambda>(idx, s).
        Inr (va, if has flags FLAGS_LEFT then out_spaces out buffer maxlen (unat width - unat l) idx s else (idx, s))))"

text \<open>The field width of a pointer is \<^verbatim>\<open>sizeof(void *) * 2U\<close>.\<close>

definition conv_pointer ::
    "'a out_fct \<Rightarrow> u64 \<Rightarrow> u64 \<Rightarrow> u32 \<Rightarrow> u32 \<Rightarrow> u64 list \<Rightarrow> u64 \<Rightarrow> 'a machine_scheme \<Rightarrow> 'a conv" where
  "conv_pointer out buffer maxlen flags precision va idx s =
     (let width = 8 * 2; flags = flags OR (FLAGS_ZEROPAD OR FLAGS_UPPERCASE)
      in rbind (va_arg va) (\<lambda>(v, va).
         Inr (va, ntoa_long out buffer idx maxlen v False 16 precision width flags s)))"

subsection \<open>The interpreter\<close>

text \<open>
  What follows the percent sign: the conversion named by \<^verbatim>\<open>*format\<close>. Any other character, the terminator of
  the format included, is printed and skipped.
\<close>

definition convert ::
    "'a out_fct \<Rightarrow> u64 \<Rightarrow> u64 \<Rightarrow> u8 \<Rightarrow> u32 \<Rightarrow> u32 \<Rightarrow> u32 \<Rightarrow> u64 list \<Rightarrow> u64 \<Rightarrow> 'a machine_scheme \<Rightarrow> 'a conv" where
  "convert out buffer maxlen c flags width precision va idx s =
     (if c \<in> {ch CHR ''d'', ch CHR ''i'', ch CHR ''u'', ch CHR ''x'', ch CHR ''X'', ch CHR ''o'', ch CHR ''b''}
      then conv_int out buffer maxlen c flags width precision va idx s
      else if c = ch CHR ''c'' then conv_char out buffer maxlen flags width va idx s
      else if c = ch CHR ''s'' then conv_string out buffer maxlen flags width precision va idx s
      else if c = ch CHR ''p'' then conv_pointer out buffer maxlen flags precision va idx s
      else Inr (va, idx + 1, out c buffer idx maxlen s))"

definition parse_directive :: "memory \<Rightarrow> u64 \<Rightarrow> u64 list \<Rightarrow> (u32 \<times> u32 \<times> u32 \<times> u64 \<times> u64 list) res" where
  "parse_directive m format va =
     rbind (ends (parse_flags m format 0)) (\<lambda>(flags, format).
     rbind (parse_width m format flags va) (\<lambda>(width, flags, format, va).
     rbind (parse_precision m format flags va) (\<lambda>(precision, flags, format, va).
     let (flags, format) = parse_length m format flags
     in Inr (flags, width, precision, format, va))))"

text \<open>One turn of the loop over the format: an ordinary character or a whole directive.\<close>

definition vsnprintf_step ::
    "'a out_fct \<Rightarrow> u64 \<Rightarrow> u64 \<Rightarrow> u64 \<Rightarrow> u64 list \<Rightarrow> u64 \<Rightarrow> 'a machine_scheme \<Rightarrow> (u64 \<times> 'a machine_scheme \<times> u64 \<times> u64 list) res" where
  "vsnprintf_step out buffer maxlen format va idx s =
     (if mem s format \<noteq> ch CHR ''%''
      then Inr (idx + 1, out (mem s format) buffer idx maxlen s, format + 1, va)
      else rbind (parse_directive (mem s) (format + 1) va) (\<lambda>(flags, width, precision, format, va).
           rbind (convert out buffer maxlen (mem s format) flags width precision va idx s) (\<lambda>(va, idx, s).
           Inr (idx, s, format + 1, va))))"

partial_function (option) vsnprintf_loop ::
    "'a out_fct \<Rightarrow> u64 \<Rightarrow> u64 \<Rightarrow> u64 \<Rightarrow> u64 list \<Rightarrow> u64 \<Rightarrow> 'a machine_scheme \<Rightarrow> (u64 \<times> 'a machine_scheme) res option" where
  "vsnprintf_loop out buffer maxlen format va idx s =
     (if mem s format \<noteq> 0
      then case vsnprintf_step out buffer maxlen format va idx s of
             Inl e \<Rightarrow> Some (Inl e)
           | Inr (idx, s, format, va) \<Rightarrow> vsnprintf_loop out buffer maxlen format va idx s
      else Some (Inr (idx, s)))"

definition vsnprintf_internal ::
    "'a out_fct \<Rightarrow> u64 \<Rightarrow> u64 \<Rightarrow> u64 \<Rightarrow> u64 list \<Rightarrow> 'a machine_scheme \<Rightarrow> (u32 \<times> 'a machine_scheme) res" where
  "vsnprintf_internal out buffer maxlen format va s =
     (let out = (if buffer = 0 then out_null else out)
      in rbind (rbind (ends (vsnprintf_loop out buffer maxlen format va 0 s)) (\<lambda>r. r)) (\<lambda>(idx, s).
         Inr (ucast idx, out 0 buffer (if idx < maxlen then idx else maxlen - 1) maxlen s)))"

definition sprintf :: "u64 \<Rightarrow> u64 \<Rightarrow> u64 list \<Rightarrow> 'a machine_scheme \<Rightarrow> (u32 \<times> 'a machine_scheme) res" where
  "sprintf buffer format va s = vsnprintf_internal out_buffer buffer (- 1) format va s"

definition snprintf :: "u64 \<Rightarrow> u64 \<Rightarrow> u64 \<Rightarrow> u64 list \<Rightarrow> 'a machine_scheme \<Rightarrow> (u32 \<times> 'a machine_scheme) res" where
  "snprintf buffer count format va s = vsnprintf_internal out_buffer buffer count format va s"

definition vsnprintf :: "u64 \<Rightarrow> u64 \<Rightarrow> u64 \<Rightarrow> u64 list \<Rightarrow> 'a machine_scheme \<Rightarrow> (u32 \<times> 'a machine_scheme) res" where
  "vsnprintf buffer count format va s = vsnprintf_internal out_buffer buffer count format va s"

text \<open>\<open>wrap\<close> is the address of the local wrapper structure.\<close>

definition fctprintf ::
    "u64 \<Rightarrow> (u8 \<Rightarrow> u64 \<Rightarrow> 'a machine_scheme \<Rightarrow> 'a machine_scheme) \<Rightarrow> u64 \<Rightarrow> u64 \<Rightarrow> u64 list \<Rightarrow> 'a machine_scheme \<Rightarrow> (u32 \<times> 'a machine_scheme) res" where
  "fctprintf wrap out arg format va s = vsnprintf_internal (out_fct out arg) wrap (- 1) format va s"

end
