(* ===== verification/Printf_Spec.thy ===== *)
theory Printf_Spec
  imports Printf
begin

text \<open>
  What formatted printing guarantees for every format and every list of arguments: it writes only
  through its output function, and it returns when the format is complete. The first part is proved once
  for all output functions, in a locale; the second follows the interpreter through the format.
\<close>

section \<open>Output goes through the output function\<close>

text \<open>
  An output function as its callers see it: \<open>ready\<close> states are those in which it may be called, \<open>same\<close>
  relates states that differ only in what printing may change, which in memory is the set \<open>A\<close>.
\<close>

locale printer =
  fixes out :: "'a out_fct" and buffer maxlen :: u64
    and ready :: "'a machine_scheme \<Rightarrow> bool" and same :: "'a machine_scheme \<Rightarrow> 'a machine_scheme \<Rightarrow> bool" and A :: "u64 set"
  assumes out_ready: "ready s \<Longrightarrow> ready (out c buffer idx maxlen s)"
    and out_same: "ready s \<Longrightarrow> same s (out c buffer idx maxlen s)"
    and same_refl: "same s s"
    and same_trans: "same s s' \<Longrightarrow> same s' s'' \<Longrightarrow> same s s''"
    and same_mem: "ready s \<Longrightarrow> same s s' \<Longrightarrow> a \<notin> A \<Longrightarrow> mem s' a = mem s a"
begin

definition kept :: "'a machine_scheme \<Rightarrow> 'a machine_scheme \<Rightarrow> bool" where
  "kept s s' \<longleftrightarrow> (ready s \<longrightarrow> ready s' \<and> same s s')"

lemma kept_refl [intro, simp]: "kept s s"
  by (simp add: kept_def same_refl)

lemma kept_trans [trans]: "kept s s' \<Longrightarrow> kept s' s'' \<Longrightarrow> kept s s''"
  unfolding kept_def using same_trans by blast

lemma kept_out [intro]: "kept s (out c buffer idx maxlen s)"
  by (simp add: kept_def out_ready out_same)

lemma kept_mem: "kept s s' \<Longrightarrow> ready s \<Longrightarrow> a \<notin> A \<Longrightarrow> mem s' a = mem s a"
  by (auto simp: kept_def same_mem)

lemma kept_bytes: "kept s (snd (out_bytes out buffer maxlen cs idx s))"
proof (induction cs arbitrary: idx s)
  case (Cons c cs)
  show ?case using kept_trans [OF kept_out Cons.IH] by simp
qed simp

lemma kept_spaces: "kept s (snd (out_spaces out buffer maxlen n idx s))"
  by (simp add: out_spaces_def kept_bytes)

lemma kept_rev: "kept s (snd (out_rev out buffer idx maxlen buf width flags s))"
  using kept_trans [OF kept_trans [OF kept_spaces kept_bytes] kept_spaces]
    kept_trans [OF kept_spaces kept_bytes] kept_trans [OF kept_bytes kept_spaces] kept_bytes
  by (auto simp: out_rev_def Let_def split: prod.split) (metis snd_conv)+

lemma kept_ntoa: "kept s (snd (ntoa_long out buffer idx maxlen value negative base prec width flags s))"
  unfolding ntoa_long_def ntoa_format_def Let_def by (simp add: kept_rev split: prod.split)

lemma kept_string:
  assumes "out_string out buffer maxlen flags p precision idx s = Some r"
  shows "kept s (snd r)"
proof -
  let ?P = "\<lambda>out' buffer' maxlen' (flags :: u32) (p :: u64) (precision :: u32) (idx :: u64) s r.
    out' = out \<longrightarrow> buffer' = buffer \<longrightarrow> maxlen' = maxlen \<longrightarrow> kept s (snd (r :: u64 \<times> 'a machine_scheme))"
  have "?P out buffer maxlen flags p precision idx s r"
  proof (rule out_string.raw_induct [where P = ?P, OF _ assms], intro impI)
    fix f out' buffer' maxlen' flags p precision idx s r
    assume IH: "\<And>out' buffer' maxlen' flags p precision idx s r.
        f out' buffer' maxlen' flags p precision idx s = Some r \<Longrightarrow> ?P out' buffer' maxlen' flags p precision idx s r"
      and step: "(if mem s p \<noteq> 0 \<and> (\<not> has flags FLAGS_PRECISION \<or> precision \<noteq> 0)
        then f out' buffer' maxlen' flags (p + 1) (if has flags FLAGS_PRECISION then precision - 1 else precision) (idx + 1)
               (out' (mem s p) buffer' idx maxlen' s)
        else Some (idx, s)) = Some r"
      and eq: "out' = out" "buffer' = buffer" "maxlen' = maxlen"
    from step eq IH [of out buffer maxlen flags "p + 1" _ _ _ r] show "kept s (snd r)"
      by (cases r) (auto split: if_splits intro: kept_trans [OF kept_out])
  qed
  then show ?thesis by simp
qed

lemma kept_int: "conv_int out buffer maxlen c flags width precision va idx s = Inr (va', r) \<Longrightarrow> kept s (snd r)"
  by (auto simp: conv_int_def Let_def rbind_eq_Inr kept_ntoa split: if_splits)

lemma kept_conv_char: "conv_char out buffer maxlen flags width va idx s = Inr (va', r) \<Longrightarrow> kept s (snd r)"
  using kept_trans [OF kept_spaces kept_out] kept_trans [OF kept_out kept_spaces]
  by (auto simp: conv_char_def Let_def rbind_eq_Inr split: if_splits prod.splits) (metis snd_conv)+

lemma kept_conv_string:
  assumes "conv_string out buffer maxlen flags width precision va idx s = Inr (va', r)"
  shows "kept s (snd r)"
proof -
  have st: "ends (out_string out buffer maxlen flags p q i s) = Inr (i', s') \<Longrightarrow> kept s s'" for p q i s i' s'
    using kept_string [of flags p q i s "(i', s')"] by (auto simp: ends_def split: option.splits)
  from assms show ?thesis
    by (auto simp: conv_string_def Let_def rbind_eq_Inr case_prod_beta split: if_splits dest!: st
        intro: kept_trans [OF kept_spaces] kept_trans [OF _ kept_spaces])
qed

lemma kept_pointer: "conv_pointer out buffer maxlen flags precision va idx s = Inr (va', r) \<Longrightarrow> kept s (snd r)"
  by (auto simp: conv_pointer_def Let_def rbind_eq_Inr kept_ntoa)

lemma kept_convert: "convert out buffer maxlen c flags width precision va idx s = Inr (va', idx', s') \<Longrightarrow> kept s s'"
  unfolding convert_def
  by (auto split: if_splits dest: kept_int kept_conv_char kept_conv_string kept_pointer)

lemma kept_step:
  assumes "vsnprintf_step out buffer maxlen format va idx s = Inr (idx', s', format', va')"
  shows "kept s s'"
  using assms kept_convert by (fastforce simp: vsnprintf_step_def rbind_eq_Inr split: if_splits)

lemma kept_loop:
  assumes "vsnprintf_loop out buffer maxlen format va idx s = Some (Inr r)"
  shows "kept s (snd r)"
proof -
  let ?P = "\<lambda>out' buffer' maxlen' (format :: u64) (va :: u64 list) (idx :: u64) s r.
    out' = out \<longrightarrow> buffer' = buffer \<longrightarrow> maxlen' = maxlen \<longrightarrow> (\<forall>x. r = Inr x \<longrightarrow> kept s (snd (x :: u64 \<times> 'a machine_scheme)))"
  have "?P out buffer maxlen format va idx s (Inr r :: (u64 \<times> 'a machine_scheme) res)"
  proof (rule vsnprintf_loop.raw_induct [where P = ?P, OF _ assms], intro impI allI)
    fix f out' buffer' maxlen' format va idx s r x
    assume IH: "\<And>out' buffer' maxlen' format va idx s r.
        f out' buffer' maxlen' format va idx s = Some r \<Longrightarrow> ?P out' buffer' maxlen' format va idx s r"
      and step: "(if mem s format \<noteq> 0
        then case vsnprintf_step out' buffer' maxlen' format va idx s of Inl e \<Rightarrow> Some (Inl e)
             | Inr (idx, s, format, va) \<Rightarrow> f out' buffer' maxlen' format va idx s
        else Some (Inr (idx, s))) = Some r"
      and eq: "out' = out" "buffer' = buffer" "maxlen' = maxlen" and r: "r = Inr x"
    from step eq r IH [of out buffer maxlen _ _ _ _ r] show "kept s (snd x)"
      by (cases x) (auto split: if_splits sum.splits prod.splits intro: kept_trans [OF kept_step])
  qed
  then show ?thesis by simp
qed

text \<open>Whatever the format and its arguments, printing only changes what one call of \<open>out\<close> may change.\<close>

lemma kept_vsnprintf:
  assumes "vsnprintf_internal out buffer maxlen format va s = Inr (n, s')" "buffer \<noteq> 0"
  shows "kept s s'"
proof -
  obtain idx s1 where "vsnprintf_loop out buffer maxlen format va 0 s = Some (Inr (idx, s1))"
    and "s' = out 0 buffer (if idx < maxlen then idx else maxlen - 1) maxlen s1"
    using assms by (auto simp: vsnprintf_internal_def Let_def rbind_eq_Inr ends_def split: option.splits if_splits)
  then show ?thesis using kept_trans [OF kept_loop kept_out] by fastforce
qed

end

section \<open>Complete formats\<close>

text \<open>
  A directive as a list of characters: flags, width, precision and length are skipped, and what is left
  starts with the conversion. The number counts the arguments that asterisks take.
\<close>

definition skip_number :: "u8 list \<Rightarrow> nat \<times> u8 list" where
  "skip_number xs =
     (case xs of [] \<Rightarrow> (0, [])
      | c # cs \<Rightarrow> if is_digit c then (0, dropWhile is_digit xs) else if c = ch CHR ''*'' then (1, cs) else (0, xs))"

definition skip_precision :: "u8 list \<Rightarrow> nat \<times> u8 list" where
  "skip_precision xs = (case xs of [] \<Rightarrow> (0, []) | c # cs \<Rightarrow> if c = ch CHR ''.'' then skip_number cs else (0, xs))"

definition skip_length :: "u8 list \<Rightarrow> u8 list" where
  "skip_length xs =
     (case xs of [] \<Rightarrow> []
      | c # cs \<Rightarrow>
          if c = ch CHR ''l'' \<or> c = ch CHR ''h'' then (case cs of [] \<Rightarrow> [] | d # ds \<Rightarrow> if d = c then ds else cs)
          else if c \<in> {ch CHR ''t'', ch CHR ''j'', ch CHR ''z''} then cs else xs)"

definition skip_directive :: "u8 list \<Rightarrow> nat \<times> u8 list" where
  "skip_directive xs =
     (let (i, xs) = skip_number (dropWhile (\<lambda>c. flag_of c \<noteq> None) xs);
          (j, xs) = skip_precision xs
      in (i + j, skip_length xs))"

lemma skip_number_length: "length (snd (skip_number xs)) \<le> length xs"
  by (auto simp: skip_number_def length_dropWhile_le split: list.split intro: le_SucI)

lemma skip_directive_length: "length (snd (skip_directive xs)) \<le> length xs"
proof -
  have p: "length (snd (skip_precision xs)) \<le> length xs" for xs
    using skip_number_length by (auto simp: skip_precision_def split: list.split intro: le_SucI)
  have l: "length (skip_length xs) \<le> length xs" for xs
    by (auto simp: skip_length_def split: list.split)
  show ?thesis
    unfolding skip_directive_def Let_def case_prod_beta snd_conv
    by (meson l p skip_number_length length_dropWhile_le order.trans)
qed

lemma skip_directive_Cons: "skip_directive xs = (k, d # ds) \<Longrightarrow> length ds < length xs"
  using skip_directive_length [of xs] by simp

definition conv_args :: "u8 \<Rightarrow> nat" where
  "conv_args c = (if c \<in> ch ` {CHR ''d'', CHR ''i'', CHR ''u'', CHR ''x'', CHR ''X'', CHR ''o'', CHR ''b'', CHR ''c'', CHR ''s'', CHR ''p''}
     then 1 else 0)"

text \<open>
  The number of arguments that a format takes at most, or \<open>None\<close> if it ends inside a directive: the code then
  skips the terminator and goes on with the bytes that follow it in memory.
\<close>

function args_needed :: "u8 list \<Rightarrow> nat option" where
  "args_needed [] = Some 0"
| "args_needed (c # cs) =
     (if c \<noteq> ch CHR ''%'' then args_needed cs
      else case skip_directive cs of
             (k, []) \<Rightarrow> None
           | (k, d # ds) \<Rightarrow> map_option ((+) (k + conv_args d)) (args_needed ds))"
  by pat_completeness auto
termination
  by (relation "measure length") (auto dest!: skip_directive_Cons [OF sym])

text \<open>A zero-terminated string in memory, all of it outside of \<open>A\<close>.\<close>

fun str_at :: "u64 set \<Rightarrow> memory \<Rightarrow> u64 \<Rightarrow> u8 list \<Rightarrow> bool" where
  "str_at A m p [] \<longleftrightarrow> p \<notin> A \<and> m p = 0"
| "str_at A m p (x # xs) \<longleftrightarrow> p \<notin> A \<and> x \<noteq> 0 \<and> m p = x \<and> str_at A m (p + 1) xs"

lemma str_at_cong: "(\<And>a. a \<notin> A \<Longrightarrow> m' a = m a) \<Longrightarrow> str_at A m p xs \<Longrightarrow> str_at A m' p xs"
  by (induction A m p xs rule: str_at.induct) auto

lemma str_at_zero: "str_at A m p xs \<Longrightarrow> \<exists>z. z \<notin> A \<and> m z = 0"
  by (induction A m p xs rule: str_at.induct) auto

lemma str_at_cstr: "cstr m p xs \<Longrightarrow> (\<And>i. i \<le> length xs \<Longrightarrow> p + of_nat i \<notin> A) \<Longrightarrow> str_at A m p xs"
proof (induction m p xs rule: cstr.induct)
  case (1 m p)
  then show ?case using 1(2) [of 0] by simp
next
  case (2 m p x xs)
  have "p + 1 + of_nat i \<notin> A" if "i \<le> length xs" for i using 2(3) [of "Suc i"] that by (simp add: ac_simps)
  then show ?case using 2 2(3) [of 0] by simp
qed

lemma str_at_rng:
  assumes "cstr m p xs" "rng p (Suc (length xs)) \<inter> A = {}"
  shows "str_at A m p xs"
proof (rule str_at_cstr [OF assms(1)])
  fix i assume "i \<le> length xs"
  then have "unat (of_nat i :: u64) = i" using cstr_length [OF assms(1)] by (intro unat_of_nat_u64) simp
  then have "p + of_nat i \<in> rng p (Suc (length xs))" using \<open>i \<le> length xs\<close> by simp
  then show "p + of_nat i \<notin> A" using assms(2) by blast
qed

text \<open>The code skips the same characters, and takes at most the arguments counted.\<close>

lemma zero_char [simp]: "flag_of 0 = None" "\<not> is_digit 0"
  by (simp_all add: flag_of_def is_digit_def)

lemma parse_flags_str:
  "str_at A m p xs \<Longrightarrow> \<exists>f p'. parse_flags m p flags = Some (f, p') \<and> str_at A m p' (dropWhile (\<lambda>c. flag_of c \<noteq> None) xs)"
  by (induction A m p xs arbitrary: flags rule: str_at.induct) (simp_all add: parse_flags.simps split: option.split)

lemma atoi_str: "str_at A m p xs \<Longrightarrow> \<exists>n p'. atoi m p i = Some (n, p') \<and> str_at A m p' (dropWhile is_digit xs)"
  by (induction A m p xs arbitrary: i rule: str_at.induct) (simp_all add: atoi.simps)

definition no_least :: "u64 list \<Rightarrow> bool" where
  "no_least va \<longleftrightarrow> (\<forall>v \<in> set va. v \<noteq> 0x8000000000000000 \<and> (ucast v :: u32) \<noteq> 0x80000000)"

lemma no_least_Cons [simp]: "no_least (v # va) \<longleftrightarrow> v \<noteq> 0x8000000000000000 \<and> (ucast v :: u32) \<noteq> 0x80000000 \<and> no_least va"
  by (simp add: no_least_def)

lemma magnitude_total: "(v :: u32) \<noteq> 0x80000000 \<Longrightarrow> \<exists>n. magnitude v = Inr n" "(w :: u64) \<noteq> 0x8000000000000000 \<Longrightarrow> \<exists>n. magnitude w = Inr n"
  by (auto simp: magnitude_def)

lemma va_arg_total: "Suc k \<le> length va \<Longrightarrow> no_least va \<Longrightarrow> \<exists>v va'. va_arg va = Inr (v, va') \<and> k \<le> length va' \<and> no_least va'
    \<and> v \<noteq> 0x8000000000000000 \<and> (ucast v :: u32) \<noteq> 0x80000000"
  by (cases va) (auto simp: va_arg_def)

lemma parse_width_str:
  assumes "str_at A m p xs" "skip_number xs = (k, ys)" "k + n \<le> length va" "no_least va"
  shows "\<exists>w f p' va'. parse_width m p flags va = Inr (w, f, p', va') \<and> str_at A m p' ys \<and> n \<le> length va' \<and> no_least va'"
proof (cases xs)
  case Nil
  then show ?thesis using assms by (simp add: parse_width_def skip_number_def)
next
  case (Cons c cs)
  have "\<exists>w f p' va'. parse_width m p flags va = Inr (w, f, p', va') \<and> str_at A m p' ys \<and> n \<le> length va' \<and> no_least va'"
    if "\<not> is_digit c" "c = ch CHR ''*''"
    using assms Cons that va_arg_total [of n va] magnitude_total(1)
    by (fastforce simp: parse_width_def skip_number_def Let_def)
  then show ?thesis using assms Cons atoi_str [OF assms(1), of 0]
    by (cases "is_digit c"; cases "c = ch CHR ''*''") (auto simp: parse_width_def skip_number_def)
qed

lemma parse_precision_str:
  assumes "str_at A m p xs" "skip_precision xs = (k, ys)" "k + n \<le> length va" "no_least va"
  shows "\<exists>w f p' va'. parse_precision m p flags va = Inr (w, f, p', va') \<and> str_at A m p' ys \<and> n \<le> length va' \<and> no_least va'"
proof (cases "\<exists>c cs. xs = ch CHR ''.'' # c # cs")
  case True
  then obtain c cs where xs: "xs = ch CHR ''.'' # c # cs" by blast
  then have at: "str_at A m (p + 1) (c # cs)" "m p = ch CHR ''.''" "m (p + 1) = c" using assms(1) by auto
  have sk: "skip_number (c # cs) = (k, ys)" using assms(2) xs by (simp add: skip_precision_def)
  show ?thesis
  proof (cases "is_digit c")
    case True
    then show ?thesis using sk at atoi_str [OF at(1), of 0] assms(3,4) by (auto simp: parse_precision_def skip_number_def Let_def)
  next
    case False
    then show ?thesis using sk at va_arg_total [of n va] assms(3,4)
      by (fastforce simp: parse_precision_def skip_number_def Let_def split: if_splits)
  qed
next
  case False
  then show ?thesis using assms
    by (auto simp: parse_precision_def skip_precision_def skip_number_def Let_def split: list.splits if_splits)
qed

lemma parse_length_str:
  assumes "str_at A m p xs"
  shows "\<exists>f p'. parse_length m p flags = (f, p') \<and> str_at A m p' (skip_length xs)"
proof (cases xs)
  case (Cons c cs)
  then have c: "m p = c" "str_at A m p (c # cs)" "str_at A m (p + 1) cs" using assms by auto
  have "m (p + 1) = (case cs of [] \<Rightarrow> 0 | d # ds \<Rightarrow> d)" using c(3) by (cases cs) auto
  moreover have "str_at A m (p + 1 + 1) ds" if "cs = d # ds" for d ds using c(3) that by simp
  ultimately show ?thesis using c unfolding parse_length_def skip_length_def Cons
    by (cases cs) (auto simp: Let_def simp del: str_at.simps)
qed (use assms in \<open>simp add: parse_length_def skip_length_def\<close>)

lemma parse_directive_str:
  assumes "str_at A m p xs" "skip_directive xs = (k, ys)" "k + n \<le> length va" "no_least va"
  shows "\<exists>f w q p' va'. parse_directive m p va = Inr (f, w, q, p', va') \<and> str_at A m p' ys \<and> n \<le> length va' \<and> no_least va'"
proof -
  obtain i xs1 j xs2 where sk: "skip_number (dropWhile (\<lambda>c. flag_of c \<noteq> None) xs) = (i, xs1)" "skip_precision xs1 = (j, xs2)"
    "k = i + j" "ys = skip_length xs2"
    using assms(2) by (auto simp: skip_directive_def Let_def split: prod.splits)
  obtain f p1 where 1: "parse_flags m p 0 = Some (f, p1)" "str_at A m p1 (dropWhile (\<lambda>c. flag_of c \<noteq> None) xs)"
    using parse_flags_str [OF assms(1)] by blast
  obtain w f2 p2 va2 where 2: "parse_width m p1 f va = Inr (w, f2, p2, va2)" "str_at A m p2 xs1" "j + n \<le> length va2" "no_least va2"
    using parse_width_str [OF 1(2) sk(1), of "j + n" va f] assms(3,4) sk(3) by auto
  obtain q f3 p3 va3 where 3: "parse_precision m p2 f2 va2 = Inr (q, f3, p3, va3)" "str_at A m p3 xs2" "n \<le> length va3" "no_least va3"
    using parse_precision_str [OF 2(2) sk(2) 2(3,4)] by blast
  obtain f4 p4 where 4: "parse_length m p3 f3 = (f4, p4)" "str_at A m p4 (skip_length xs2)" using parse_length_str [OF 3(2)] by blast
  show ?thesis unfolding parse_directive_def using 1(1) 2(1) 3 4 sk(4) by simp
qed

lemma scast_not_least: "(scast (b :: u8) :: u32) \<noteq> 0x80000000" "(scast (h :: u16) :: u32) \<noteq> 0x80000000"
proof -
  have least: "(0x80000000 :: u32) = push_bit 31 1" by simp
  have "bit w 30 = bit w 31 \<Longrightarrow> w \<noteq> 0x80000000" for w :: u32
    unfolding least by (auto simp: bit_push_bit_iff)
  moreover have "bit (scast b :: u32) 30 = bit (scast b :: u32) 31" "bit (scast h :: u32) 30 = bit (scast h :: u32) 31"
    by (simp_all add: bit_signed_iff)
  ultimately show "(scast b :: u32) \<noteq> 0x80000000" "(scast h :: u32) \<noteq> 0x80000000" by blast+
qed

lemma signed_arg_total:
  assumes "v \<noteq> 0x8000000000000000" "(ucast v :: u32) \<noteq> 0x80000000"
  shows "\<exists>b k. signed_arg f v = Inr (b, k)"
proof -
  obtain a b c d where "magnitude v = Inr a" "magnitude (ucast v :: u32) = Inr b"
    "magnitude (scast (ucast v :: u8) :: u32) = Inr c" "magnitude (scast (ucast v :: u16) :: u32) = Inr d"
    using magnitude_total(2) [OF assms(1)] magnitude_total(1) [OF assms(2)] magnitude_total(1) [OF scast_not_least(1)]
      magnitude_total(1) [OF scast_not_least(2)] by metis
  then show ?thesis by (simp add: signed_arg_def Let_def)
qed

context printer
begin

text \<open>The loop over a string ends at the latest at a zero byte that printing does not change.\<close>

lemma out_string_total:
  assumes "ready s" "z \<notin> A" "mem s z = 0"
  shows "\<exists>r. out_string out buffer maxlen flags p precision idx s = Some r"
  using assms
proof (induction "unat (z - p)" arbitrary: p precision idx s rule: less_induct)
  case less
  show ?case
  proof (cases "mem s p = 0")
    case False
    then have ne: "z - p \<noteq> 0" using less.prems(3) by auto
    have "z - (p + 1) = z - p - 1" by (simp add: algebra_simps)
    then have "unat (z - (p + 1)) < unat (z - p)" using unat_minus_one [OF ne] ne by (metis diff_less unat_gt_0 zero_less_one)
    then show ?thesis
      using less.hyps [of "p + 1" "out (mem s p) buffer idx maxlen s"] less.prems
      by (subst out_string.simps) (simp add: out_ready same_mem [OF _ out_same])
  qed (simp add: out_string.simps)
qed

lemma convert_total:
  assumes "ready s" "z \<notin> A" "mem s z = 0" "conv_args c + n \<le> length va" "no_least va"
  shows "\<exists>va' idx' s'. convert out buffer maxlen c flags width precision va idx s = Inr (va', idx', s') \<and> n \<le> length va' \<and> no_least va'"
proof (cases "conv_args c = 0")
  case True
  then show ?thesis using assms by (auto simp: conv_args_def convert_def split: if_splits)
next
  case False
  then have "Suc n \<le> length va" using assms(4) by (simp add: conv_args_def split: if_splits)
  from va_arg_total [OF this assms(5)] obtain v va' where v: "va_arg va = Inr (v, va')" "n \<le> length va'" "no_least va'"
    "v \<noteq> 0x8000000000000000" "(ucast v :: u32) \<noteq> 0x80000000" by blast
  have str: "\<exists>r. out_string out buffer maxlen flags v precision i (snd (out_spaces out buffer maxlen k idx s)) = Some r"
    "\<exists>r. out_string out buffer maxlen flags v precision i s = Some r" for k i
    using kept_mem [OF kept_spaces assms(1,2)] kept_spaces [of s k idx] assms(1,3)
    by (intro out_string_total [OF _ assms(2)]; simp add: kept_def)+
  have sg: "\<exists>b k. signed_arg f v = Inr (b, k)" for f using signed_arg_total [OF v(4,5)] .
  have "\<exists>va' idx' s'. conv_int out buffer maxlen c flags width precision va idx s = Inr (va', idx', s') \<and> n \<le> length va' \<and> no_least va'"
    using v sg [of "int_flags c flags"] assms(4,5) by (fastforce simp: conv_int_def Let_def)
  moreover have "\<exists>va' idx' s'. conv_string out buffer maxlen flags width precision va idx s = Inr (va', idx', s') \<and> n \<le> length va' \<and> no_least va'"
  proof -
    define l where "l = strnlen_s (mem s) v (if precision \<noteq> 0 then ucast precision else - 1)"
    define k where "k = unat width - unat (if has flags FLAGS_PRECISION then (if l < precision then l else precision) else l)"
    define q where "q = (if \<not> has flags FLAGS_LEFT then out_spaces out buffer maxlen k idx s else (idx, s))"
    have "\<exists>r. out_string out buffer maxlen flags v precision (fst q) (snd q) = Some r"
      using str(1) [of "fst (out_spaces out buffer maxlen k idx s)" k] str(2) [of idx] by (simp add: q_def)
    then obtain i s' where "out_string out buffer maxlen flags v precision (fst q) (snd q) = Some (i, s')" by force
    then have "conv_string out buffer maxlen flags width precision va idx s
        = Inr (va', if has flags FLAGS_LEFT then out_spaces out buffer maxlen k i s' else (i, s'))"
      unfolding conv_string_def v(1) rbind_Inr Let_def case_prod_beta fst_conv snd_conv
        l_def [symmetric] k_def [symmetric] q_def [symmetric]
      by simp
    then show ?thesis using v(2,3) by (cases "if has flags FLAGS_LEFT then out_spaces out buffer maxlen k i s' else (i, s')") simp
  qed
  ultimately show ?thesis
    using v False by (auto simp: convert_def conv_char_def conv_pointer_def Let_def case_prod_beta conv_args_def split: if_splits)
qed

lemma loop_total:
  assumes "ready s" "str_at A (mem s) p xs" "args_needed xs = Some n" "n \<le> length va" "no_least va"
  shows "\<exists>r. vsnprintf_loop out buffer maxlen p va idx s = Some (Inr r)"
  using assms
proof (induction xs arbitrary: p va n idx s rule: args_needed.induct)
  case 1
  then show ?case by (subst vsnprintf_loop.simps) simp
next
  case (2 c cs)
  have at: "mem s p = c" "c \<noteq> 0" "str_at A (mem s) (p + 1) cs" using 2(4) by auto
  have keep: "str_at A (mem s') q ys" if "kept s s'" "str_at A (mem s) q ys" for s' q ys
    using str_at_cong [OF _ that(2), of "mem s'"] kept_mem [OF that(1) 2(3)] by blast
  have rdy: "ready s'" if "kept s s'" for s' using that 2(3) by (simp add: kept_def)
  show ?case
  proof (cases "c = ch CHR ''%''")
    case False
    let ?s = "out c buffer idx maxlen s"
    have "vsnprintf_step out buffer maxlen p va idx s = Inr (idx + 1, ?s, p + 1, va)"
      using False at by (simp add: vsnprintf_step_def)
    moreover have "\<exists>r. vsnprintf_loop out buffer maxlen (p + 1) va (idx + 1) ?s = Some (Inr r)"
      using False 2(5) by (intro 2(1) [OF False rdy keep [OF _ at(3)] _ 2(6,7)]) auto
    ultimately show ?thesis using at by (subst vsnprintf_loop.simps) simp
  next
    case True
    with 2(5) obtain k d ds n' where sk: "skip_directive cs = (k, d # ds)" "args_needed ds = Some n'" "n = k + conv_args d + n'"
      by (auto split: prod.splits list.splits)
    obtain f w q p' va1 where pd: "parse_directive (mem s) (p + 1) va = Inr (f, w, q, p', va1)" "str_at A (mem s) p' (d # ds)"
      "conv_args d + n' \<le> length va1" "no_least va1"
      using parse_directive_str [OF at(3) sk(1), of "conv_args d + n'" va] 2(6,7) sk(3) by auto
    obtain z where z: "z \<notin> A" "mem s z = 0" using str_at_zero [OF at(3)] by blast
    obtain va2 idx2 s2 where cv: "convert out buffer maxlen d f w q va1 idx s = Inr (va2, idx2, s2)" "n' \<le> length va2" "no_least va2"
      using convert_total [OF 2(3) z pd(3,4)] by blast
    have "vsnprintf_step out buffer maxlen p va idx s = Inr (idx2, s2, p' + 1, va2)"
      using at True pd(1,2) cv(1) by (simp add: vsnprintf_step_def)
    moreover have "\<exists>r. vsnprintf_loop out buffer maxlen (p' + 1) va2 idx2 s2 = Some (Inr r)"
      using pd(2) kept_convert [OF cv(1)] True
      by (intro 2(2) [OF _ sk(1) [symmetric] _ rdy keep sk(2) cv(2,3)]) auto
    ultimately show ?thesis using at by (subst vsnprintf_loop.simps) simp
  qed
qed

text \<open>A complete format, out of reach of the output, with enough arguments: printing returns.\<close>

lemma vsnprintf_total:
  assumes "ready s" "str_at A (mem s) p xs" "args_needed xs = Some n" "n \<le> length va" "no_least va" "buffer \<noteq> 0"
  shows "\<exists>idx s1. vsnprintf_loop out buffer maxlen p va 0 s = Some (Inr (idx, s1)) \<and> kept s s1
    \<and> vsnprintf_internal out buffer maxlen p va s = Inr (ucast idx, out 0 buffer (if idx < maxlen then idx else maxlen - 1) maxlen s1)"
proof -
  obtain idx s1 where "vsnprintf_loop out buffer maxlen p va 0 s = Some (Inr (idx, s1))" using loop_total [OF assms(1-5)] by force
  then show ?thesis using assms(6) kept_loop by (fastforce simp: vsnprintf_internal_def)
qed

end

end
