(* ===== verification/Printf_Buffer.thy ===== *)
theory Printf_Buffer
  imports Printf_Spec
begin

text \<open>
  Printing into a buffer: \<open>snprintf\<close> stays inside the buffer, terminates the string, and what it prints
  for an integer reads back as that integer.
\<close>

section \<open>The buffer as an output\<close>

definition writes_only :: "u64 set \<Rightarrow> 'a machine_scheme \<Rightarrow> 'a machine_scheme \<Rightarrow> bool" where
  "writes_only A s s' \<longleftrightarrow> (\<exists>m. s' = s\<lparr>mem := m\<rparr> \<and> (\<forall>a. a \<notin> A \<longrightarrow> m a = mem s a))"

lemma writes_only_refl: "writes_only A s s"
  unfolding writes_only_def by (rule exI [of _ "mem s"]) simp

lemma writes_only_trans: "writes_only A s s' \<Longrightarrow> writes_only A s' s'' \<Longrightarrow> writes_only A s s''"
  by (auto simp: writes_only_def)

lemma out_buffer_only: "writes_only (rng buffer (unat maxlen)) s (out_buffer c buffer idx maxlen s)"
proof (cases "idx < maxlen")
  case True
  then have "a \<noteq> buffer + idx" if "a \<notin> rng buffer (unat maxlen)" for a using that by (auto simp: word_less_nat_alt)
  then show ?thesis using True unfolding writes_only_def out_buffer_def
    by (intro exI [of _ "(mem s)(buffer + idx := c)"]) simp
qed (simp add: out_buffer_def writes_only_refl)

interpretation buf: printer out_buffer buffer maxlen "\<lambda>_. True" "writes_only (rng buffer (unat maxlen))" "rng buffer (unat maxlen)"
  for buffer maxlen
proof (unfold_locales, goal_cases)
  case (2 s c idx)
  show ?case by (rule out_buffer_only)
next
  case (4 s s' s'')
  then show ?case by (rule writes_only_trans)
qed (auto simp: writes_only_refl writes_only_def)

section \<open>The text of a number\<close>

text \<open>Digits, least significant first, and their characters.\<close>

function digits :: "nat \<Rightarrow> nat \<Rightarrow> nat list" where
  "digits b n = (if b < 2 \<or> n < b then [n] else n mod b # digits b (n div b))"
  by pat_completeness auto
termination
  by (relation "measure snd") (auto simp: div_less_dividend)

declare digits.simps [simp del]

definition digit_char :: "bool \<Rightarrow> nat \<Rightarrow> u8" where
  "digit_char upper d = (if d < 10 then 0x30 + of_nat d else (if upper then 0x41 else 0x61) + of_nat d - 10)"

text \<open>Reading a number back.\<close>

definition digit_val :: "u8 \<Rightarrow> nat" where
  "digit_val c = (if is_digit c then unat c - 0x30 else if c < 0x61 then unat c - 0x41 + 10 else unat c - 0x61 + 10)"

definition read_digits :: "nat \<Rightarrow> u8 list \<Rightarrow> nat" where
  "read_digits b cs = foldl (\<lambda>n c. n * b + digit_val c) 0 cs"

definition read_int :: "nat \<Rightarrow> u8 list \<Rightarrow> int" where
  "read_int b cs = (case cs of [] \<Rightarrow> 0 | c # ds \<Rightarrow> if c = ch CHR ''-'' then - int (read_digits b ds) else int (read_digits b cs))"

lemma digit_val_char: "d < 16 \<Longrightarrow> digit_val (digit_char upper d) = d"
proof -
  have "\<forall>d \<in> {0..<16}. digit_val (digit_char True d) = d \<and> digit_val (digit_char False d) = d"
    by (simp add: atLeastLessThan_nat_numeral digit_val_def digit_char_def is_digit_def)
  then show "d < 16 \<Longrightarrow> digit_val (digit_char upper d) = d" by (cases upper) auto
qed

lemma digits_bound: "2 \<le> b \<Longrightarrow> \<forall>d \<in> set (digits b n). d < b"
  by (induction b n rule: digits.induct) (subst digits.simps, auto)

lemma digits_length: "2 \<le> b \<Longrightarrow> n < b ^ Suc k \<Longrightarrow> length (digits b n) \<le> Suc k"
proof (induction k arbitrary: n)
  case 0
  then show ?case by (simp add: digits.simps)
next
  case (Suc k)
  have "n div b < b ^ Suc k" using Suc.prems by (simp add: less_mult_imp_div_less mult.commute)
  then show ?case using Suc.IH [of "n div b"] Suc.prems(1) by (subst digits.simps) simp
qed

lemma digits_nonempty [simp]: "digits b n \<noteq> []"
  by (subst digits.simps) simp

lemma digits_last: "2 \<le> b \<Longrightarrow> last (digits b n) = 0 \<Longrightarrow> n = 0"
proof (induction b n rule: digits.induct)
  case (1 b n)
  show ?case
  proof (cases "n < b")
    case True
    then show ?thesis using 1(3) by (simp add: digits.simps)
  next
    case False
    then have "last (digits b (n div b)) = 0" using 1(2,3) by (simp add: digits.simps [of b n])
    then have "n div b = 0" using 1(1,2) False by simp
    then show ?thesis using False 1(2) by (simp add: div_eq_0_iff)
  qed
qed

lemma read_digits_digits:
  assumes "2 \<le> b" "b \<le> 16"
  shows "read_digits b (rev (map (digit_char upper) (digits b n))) = n"
  using assms
proof (induction b n rule: digits.induct)
  case (1 b n)
  have "n mod b < b" using 1(2) by simp
  then have "n mod b < 16" using 1(3) by linarith
  then show ?case using 1 digit_val_char [of "n mod b" upper] digit_val_char [of n upper]
    by (cases "n < b") (subst digits.simps; simp add: read_digits_def)+
qed

lemma digit_code:
  assumes "w < (16 :: u64)"
  shows "(if (ucast w :: u8) <s 10 then ch CHR ''0'' + ucast w else (if up then ch CHR ''A'' else ch CHR ''a'') + ucast w - 10)
    = digit_char up (unat w)"
proof -
  have "\<forall>k \<in> {0..<16}. (if (of_nat k :: u8) <s 10 then ch CHR ''0'' + of_nat k else (if up then ch CHR ''A'' else ch CHR ''a'') + of_nat k - 10)
      = digit_char up k"
    by (simp add: atLeastLessThan_nat_numeral digit_char_def word_sless_alt)
  moreover have "unat w \<in> {0..<16}" using assms by (simp add: word_less_nat_alt)
  moreover have "(ucast w :: u8) = of_nat (unat w)" by simp
  ultimately show ?thesis by metis
qed

lemma ntoa_digits_eq:
  assumes "2 \<le> unat base" "unat base \<le> 16" "length buf + length (digits (unat base) (unat v)) \<le> 32"
  shows "ntoa_digits v base flags buf = buf @ map (digit_char (has flags FLAGS_UPPERCASE)) (digits (unat base) (unat v))"
  using assms
proof (induction v base flags buf rule: ntoa_digits.induct)
  case (1 v base flags buf)
  have "base \<noteq> 0" using 1(2) by auto
  then have "v mod base < base" by (simp add: word_mod_less_divisor word_gt_0)
  then have "v mod base < 16" using 1(3) by (simp add: word_less_nat_alt)
  note dc = digit_code [OF this, of "has flags FLAGS_UPPERCASE"]
  have z: "v div base = 0 \<longleftrightarrow> unat v < unat base"
    using 1(2) by (auto simp: unat_div div_eq_0_iff simp flip: unat_eq_0)
  show ?case
  proof (cases "unat v < unat base")
    case True
    then have "v mod base = v" by (intro word_unat_eq_iff [THEN iffD2]) (simp add: unat_mod)
    then show ?thesis using True z unfolding ntoa_digits.simps [of v base flags buf] Let_def dc by (simp add: digits.simps)
  next
    case False
    have dg: "digits (unat base) (unat v) = unat (v mod base) # digits (unat base) (unat (v div base))"
      using False 1(2) by (subst digits.simps) (simp add: unat_div unat_mod)
    then have "Suc (length buf) < 32" using 1(4) by (cases "digits (unat base) (unat (v div base))") auto
    then have "ntoa_digits (v div base) base flags (buf @ [digit_char (has flags FLAGS_UPPERCASE) (unat (v mod base))])
        = buf @ digit_char (has flags FLAGS_UPPERCASE) (unat (v mod base))
            # map (digit_char (has flags FLAGS_UPPERCASE)) (digits (unat base) (unat (v div base)))"
      using 1(1) [OF refl refl refl, unfolded dc] 1(2-4) False z dg by (simp add: PRINTF_NTOA_BUFFER_SIZE_def)
    then show ?thesis using False z dg \<open>Suc (length buf) < 32\<close> unfolding ntoa_digits.simps [of v base flags buf] Let_def dc
      by (simp add: PRINTF_NTOA_BUFFER_SIZE_def)
  qed
qed

text \<open>With no flags, no width and no precision, a number is its sign and its digits.\<close>

lemma ntoa_plain:
  assumes "\<not> has flags FLAGS_LEFT" "\<not> has flags FLAGS_ZEROPAD" "\<not> has flags FLAGS_PRECISION" "\<not> has flags FLAGS_HASH"
    "\<not> has flags FLAGS_PLUS" "\<not> has flags FLAGS_SPACE" "8 \<le> unat base" "unat base \<le> 16"
  shows "ntoa_long out buffer idx maxlen v negative base 0 0 flags s
    = out_bytes out buffer maxlen ((if negative then [ch CHR ''-''] else []) @ rev (map (digit_char (has flags FLAGS_UPPERCASE)) (digits (unat base) (unat v)))) idx s"
    and "length (digits (unat base) (unat v)) \<le> 22"
proof -
  have "unat v < 8 ^ Suc 21" by (rule order.strict_trans [OF u64_unat_bound]) simp
  also have "\<dots> \<le> unat base ^ Suc 21" using assms(7) by (rule power_mono) simp
  finally show len: "length (digits (unat base) (unat v)) \<le> 22" using digits_length [of "unat base" "unat v" 21] assms(7) by simp
  have fl: "(if v = 0 then flags AND NOT FLAGS_HASH else flags) = flags" using assms(4) by (auto simp: has_def bit_eq_iff bit_simps FLAGS_HASH_def)
  show "ntoa_long out buffer idx maxlen v negative base 0 0 flags s
    = out_bytes out buffer maxlen ((if negative then [ch CHR ''-''] else []) @ rev (map (digit_char (has flags FLAGS_UPPERCASE)) (digits (unat base) (unat v)))) idx s"
    using assms len ntoa_digits_eq [of base "[]" v flags] unfolding ntoa_long_def Let_def fl
    by (simp add: ntoa_format_def out_rev_def out_spaces_def Let_def pad_zeros_def push_def PRINTF_NTOA_BUFFER_SIZE_def)
qed

text \<open>The bytes of a text, stored one after the other.\<close>

primrec put_bytes :: "memory \<Rightarrow> u64 \<Rightarrow> u8 list \<Rightarrow> memory" where
  "put_bytes m p [] = m"
| "put_bytes m p (c # cs) = put_bytes (m(p := c)) (p + 1) cs"

lemma out_bytes_buffer:
  "unat idx + length cs \<le> unat maxlen \<Longrightarrow>
   out_bytes out_buffer buffer maxlen cs idx s = (idx + of_nat (length cs), s\<lparr>mem := put_bytes (mem s) (buffer + idx) cs\<rparr>)"
proof (induction cs arbitrary: idx s)
  case (Cons c cs)
  have "idx < maxlen" using Cons.prems by (simp add: word_less_nat_alt)
  then show ?case using Cons.IH [of "idx + 1"] Cons.prems unat_u64_Suc [of idx maxlen]
    by (simp add: out_buffer_def ac_simps)
qed simp

lemma put_bytes_other: "a \<notin> rng p (length cs) \<Longrightarrow> length cs < 2 ^ 64 \<Longrightarrow> put_bytes m p cs a = m a"
proof (induction cs arbitrary: m p)
  case (Cons c cs)
  have "a \<noteq> p" "a \<notin> rng (p + 1) (length cs)" using Cons.prems notin_rng_Suc [of a p "length cs"] by auto
  then show ?case using Cons by simp
qed simp

lemma put_bytes_cstr:
  assumes "0 \<notin> set cs" "length cs < 2 ^ 64"
  shows "cstr ((put_bytes m p cs)(p + of_nat (length cs) := 0)) p cs"
  using assms
proof (induction cs arbitrary: m p)
  case (Cons c cs)
  have p1: "p \<notin> rng (p + 1) (length cs)" using Cons.prems(2) by (simp add: unsigned_minus_1_eq_mask mask_eq_exp_minus_1)
  have "unat (of_nat (Suc (length cs)) :: u64) = Suc (length cs)" using Cons.prems(2) by (intro unat_of_nat_u64) simp
  then have "(of_nat (Suc (length cs)) :: u64) \<noteq> 0" by (metis nat.distinct(1) unat_0)
  then have "p \<noteq> p + 1 + of_nat (length cs)" by (simp add: add.assoc)
  note p = p1 this
  have "put_bytes (m(p := c)) (p + 1) cs p = c" using put_bytes_other [OF p(1)] Cons.prems by simp
  moreover have e: "p + of_nat (length (c # cs)) = p + 1 + of_nat (length cs)" by simp
  ultimately show ?case using Cons.IH [of "m(p := c)" "p + 1"] Cons.prems p(2)
    unfolding e put_bytes.simps cstr.simps fun_upd_other [OF p(2)] by (simp del: fun_upd_apply)
qed simp

definition sample_format :: "string \<Rightarrow> machine" where
  "sample_format fmt = \<lparr>mem = put_bytes (\<lambda>_. 0) 0x1000 (map ch fmt)\<rparr>"

lemma sample_format_cstr: "0 \<notin> set (map ch fmt) \<Longrightarrow> length fmt < 2 ^ 64 \<Longrightarrow> cstr (mem (sample_format fmt)) 0x1000 (map ch fmt)"
proof -
  assume a: "0 \<notin> set (map ch fmt)" "length fmt < 2 ^ 64"
  have "put_bytes (\<lambda>_. 0) 0x1000 (map ch fmt) (0x1000 + of_nat (length fmt)) = 0"
    using a(2) by (subst put_bytes_other) (simp_all add: unat_of_nat_u64)
  then have "(put_bytes (\<lambda>_. 0) 0x1000 (map ch fmt))(0x1000 + of_nat (length (map ch fmt)) := 0) = put_bytes (\<lambda>_. 0) 0x1000 (map ch fmt)"
    by auto
  then show "cstr (mem (sample_format fmt)) 0x1000 (map ch fmt)"
    using put_bytes_cstr [OF a(1), of "\<lambda>_. 0" "0x1000"] a(2) by (simp add: sample_format_def)
qed

text \<open>
  C7. Whatever complete format and arguments \<open>snprintf\<close> is given, as long as the format is not inside the buffer,
  it returns, writes nothing outside of the \<open>count\<close> bytes of the buffer, and, unless \<open>count\<close> is 0, leaves a
  terminating zero byte inside of them. (Enough arguments are passed, and none is the least value of its
  type, whose negation overflows.)
\<close>

theorem snprintf_safe:
  assumes "cstr (mem s) format xs" "rng format (Suc (length xs)) \<inter> rng buffer (unat count) = {}" "buffer \<noteq> 0"
    "args_needed xs = Some n" "n \<le> length va" "no_least va"
  shows "\<exists>k m. snprintf buffer count format va s = Inr (k, s\<lparr>mem := m\<rparr>)
    \<and> (\<forall>a. a \<notin> rng buffer (unat count) \<longrightarrow> m a = mem s a)
    \<and> (count \<noteq> 0 \<longrightarrow> (\<exists>i < unat count. m (buffer + of_nat i) = 0))"
proof -
  obtain idx s1 where run: "snprintf buffer count format va s
      = Inr (ucast idx, out_buffer 0 buffer (if idx < count then idx else count - 1) count s1)" (is "_ = Inr (_, ?s)")
    and k: "writes_only (rng buffer (unat count)) s s1"
    using buf.vsnprintf_total [OF _ str_at_rng [OF assms(1,2)] assms(4-6,3)] by (auto simp: snprintf_def buf.kept_def)
  let ?i = "if idx < count then idx else count - 1"
  have "\<exists>i < unat count. mem ?s (buffer + of_nat i) = 0" if "count \<noteq> 0"
  proof -
    have lt: "?i < count" using that word_gt_0 [of count] by (auto simp: word_less_nat_alt unat_minus_one intro: measure_unat)
    then show ?thesis by (intro exI [of _ "unat ?i"]) (simp add: out_buffer_def word_less_nat_alt)
  qed
  moreover from writes_only_trans [OF k out_buffer_only] obtain m where "?s = s\<lparr>mem := m\<rparr>"
    "\<forall>a. a \<notin> rng buffer (unat count) \<longrightarrow> m a = mem s a" unfolding writes_only_def by blast
  ultimately show ?thesis using run by auto
qed

theorem snprintf_safe_witness:
  "\<exists>k m. snprintf 0x2000 4 0x1000 [5, - 42, 0x1000] (sample_format ''a%-*ld %s'') = Inr (k, (sample_format ''a%-*ld %s'')\<lparr>mem := m\<rparr>)
    \<and> m 0x2004 = 0 \<and> (\<exists>i < 4. m (0x2000 + of_nat i) = 0)"
proof -
  have "0 \<notin> set (map ch ''a%-*ld %s'')" by simp
  note f = sample_format_cstr [OF this]
  have d: "rng 0x1000 (Suc (length (map ch ''a%-*ld %s''))) \<inter> rng 0x2000 (unat (4 :: u64)) = {}" by (rule rng_disjoint_nat) simp_all
  have n: "args_needed (map ch ''a%-*ld %s'') = Some 3" by code_simp
  have o: "0x2004 \<notin> rng 0x2000 (unat (4 :: u64))" by simp
  have "mem (sample_format ''a%-*ld %s'') 0x2004 = 0" unfolding sample_format_def by (simp add: put_bytes_other)
  then show ?thesis using snprintf_safe [OF f d _ n, of "[5, - 42, 0x1000]"] o by (force simp: no_least_def)
qed

text \<open>The characters of a number are no zero bytes, and a canonical number starts with 0 only if it is 0.\<close>

lemma digit_char_ne: "d < 16 \<Longrightarrow> digit_char up d \<noteq> 0 \<and> digit_char up d \<noteq> ch CHR ''-'' \<and> (digit_char up d = ch CHR ''0'' \<longrightarrow> d = 0)"
proof -
  have "\<forall>d \<in> {0..<16}. \<forall>up. digit_char up d \<noteq> 0 \<and> digit_char up d \<noteq> ch CHR ''-'' \<and> (digit_char up d = ch CHR ''0'' \<longrightarrow> d = 0)"
    by (simp add: atLeastLessThan_nat_numeral digit_char_def)
  then show "d < 16 \<Longrightarrow> digit_char up d \<noteq> 0 \<and> digit_char up d \<noteq> ch CHR ''-'' \<and> (digit_char up d = ch CHR ''0'' \<longrightarrow> d = 0)" by auto
qed

definition canonical :: "u8 list \<Rightarrow> bool" where
  "canonical cs \<longleftrightarrow> cs \<noteq> [] \<and> (hd cs = ch CHR ''0'' \<longrightarrow> cs = [ch CHR ''0''])"

lemma number_text:
  assumes "2 \<le> b" "b \<le> 16" and t_def: "t = (if negative then [ch CHR ''-''] else []) @ rev (map (digit_char up) (digits b n))"
  shows "read_int b t = (if negative then - int n else int n)" "canonical t" "0 \<notin> set t"
proof -
  have lt: "\<forall>d \<in> set (digits b n). d < 16" using digits_bound [OF assms(1)] assms(2) by fastforce
  let ?ds = "rev (map (digit_char up) (digits b n))"
  have ne: "?ds \<noteq> []" "hd ?ds = digit_char up (last (digits b n))" by (simp_all add: hd_rev last_map)
  have l: "last (digits b n) < 16" using lt by simp
  have r: "read_digits b ?ds = n" by (rule read_digits_digits [OF assms(1,2)])
  show "read_int b t = (if negative then - int n else int n)"
    using r ne digit_char_ne [OF l, of up] by (cases ?ds) (auto simp: t_def read_int_def)
  have "digits b n = [0]" if "last (digits b n) = 0" using digits_last [OF assms(1) that] assms(1) by (simp add: digits.simps)
  then show "canonical t" using ne digit_char_ne [OF l, of up] by (auto simp: canonical_def t_def digit_char_def)
  show "0 \<notin> set t" using lt digit_char_ne [of _ up] by (fastforce simp: t_def)
qed

text \<open>The directive \<^verbatim>\<open>%l\<close> with a conversion of integers.\<close>

lemma long_flags:
  assumes "c \<in> {ch CHR ''d'', ch CHR ''u'', ch CHR ''x'', ch CHR ''X'', ch CHR ''o''}"
  defines "f \<equiv> int_flags c FLAGS_LONG"
  shows "\<not> has f FLAGS_LEFT" "\<not> has f FLAGS_ZEROPAD" "\<not> has f FLAGS_PRECISION" "\<not> has f FLAGS_HASH" "\<not> has f FLAGS_PLUS"
    "\<not> has f FLAGS_SPACE" "\<not> has f FLAGS_LONG_LONG" "has f FLAGS_LONG" "8 \<le> unat (int_base c)" "unat (int_base c) \<le> 16"
  using assms(1) unfolding f_def
  by (auto simp: int_flags_def int_base_def has_def FLAGS_LONG_def FLAGS_LEFT_def FLAGS_ZEROPAD_def FLAGS_PRECISION_def FLAGS_HASH_def
      FLAGS_PLUS_def FLAGS_SPACE_def FLAGS_LONG_LONG_def FLAGS_UPPERCASE_def)

definition long_value :: "u8 \<Rightarrow> u64 \<Rightarrow> int" where
  "long_value c v = (if c = ch CHR ''d'' then sint v else uint v)"

lemma uint_of_sint: "0 \<le> k \<Longrightarrow> k \<le> 2 ^ 63 \<Longrightarrow> uint (word_of_int k :: u64) = k"
  by (simp add: uint_word_of_int)

lemma magnitude_sint:
  assumes "v \<noteq> 0x8000000000000000"
  shows "\<exists>n. magnitude (v :: u64) = Inr n \<and> sint v = (if v <s 0 then - int (unat n) else int (unat n))"
proof (cases "0 <s v")
  case True
  then have "uint v = sint v" using uint_of_sint [of "sint v"] sint_lt [of v] by (simp add: word_sless_alt)
  then show ?thesis using True by (simp add: magnitude_def word_sless_alt)
next
  case False
  then have le: "sint v \<le> 0" by (simp add: word_sless_alt)
  have "(0 - v) = word_of_int (- sint v)" by simp
  then have "uint (0 - v) = - sint v" using uint_of_sint [of "- sint v"] le sint_ge [of v] by simp
  then show ?thesis using False assms le by (auto simp: magnitude_def word_sless_alt)
qed

lemma conv_long:
  assumes "c \<in> {ch CHR ''d'', ch CHR ''u'', ch CHR ''x'', ch CHR ''X'', ch CHR ''o''}" "c = ch CHR ''d'' \<longrightarrow> v \<noteq> 0x8000000000000000"
  obtains t where "convert out buffer maxlen c FLAGS_LONG 0 0 [v] idx s = Inr ([], out_bytes out buffer maxlen t idx s)"
    "read_int (unat (int_base c)) t = long_value c v" "canonical t" "0 \<notin> set t" "length t \<le> 23"
proof -
  let ?f = "int_flags c FLAGS_LONG" and ?b = "unat (int_base c)"
  note lf = long_flags [OF assms(1)]
  obtain negative n where a: "convert out buffer maxlen c FLAGS_LONG 0 0 [v] idx s = Inr ([], ntoa_long out buffer idx maxlen n negative (int_base c) 0 0 ?f s)"
    and val: "long_value c v = (if negative then - int (unat n) else int (unat n))"
  proof (cases "c = ch CHR ''d''")
    case True
    then obtain n where "magnitude v = Inr n" "sint v = (if v <s 0 then - int (unat n) else int (unat n))"
      using assms(2) magnitude_sint [of v] by blast
    then show thesis using that [of n "v <s 0"] lf(7,8) True
      by (simp add: convert_def conv_int_def va_arg_def Let_def signed_arg_def long_value_def)
  next
    case False
    have "convert out buffer maxlen c FLAGS_LONG 0 0 [v] idx s = conv_int out buffer maxlen c FLAGS_LONG 0 0 [v] idx s"
      using assms(1) False by (auto simp: convert_def)
    also have "\<dots> = Inr ([], ntoa_long out buffer idx maxlen v False (int_base c) 0 0 ?f s)"
      using False assms(1) lf(7,8) by (auto simp: conv_int_def va_arg_def Let_def unsigned_arg_def)
    finally show thesis using that False by (simp add: long_value_def)
  qed
  define t where "t = (if negative then [ch CHR ''-''] else []) @ rev (map (digit_char (has ?f FLAGS_UPPERCASE)) (digits ?b (unat n)))"
  note plain = ntoa_plain(1) [OF lf(1-6,9,10), of out buffer idx maxlen n negative s, folded t_def]
  have len: "length t \<le> 23" using ntoa_plain(2) [OF lf(1-6,9,10), of n] by (simp add: t_def)
  have "2 \<le> ?b" using lf(9) by simp
  note nt = number_text [OF this lf(10) t_def]
  show thesis using that [of t] a plain nt len val by simp
qed

text \<open>
  C8. An integer printed with \<^verbatim>\<open>%ld\<close>, \<^verbatim>\<open>%lu\<close>, \<^verbatim>\<open>%lx\<close>, \<^verbatim>\<open>%lX\<close> or \<^verbatim>\<open>%lo\<close> reads back as itself: the buffer holds a
  zero-terminated canonical numeral of this value in the base of the conversion, its length is what \<open>snprintf\<close>
  returns, and nothing else has changed. (For \<^verbatim>\<open>%ld\<close> the value is not the least one, whose negation overflows.)
\<close>

theorem snprintf_long_roundtrip:
  assumes "cstr (mem s) format [ch CHR ''%'', ch CHR ''l'', c]" "rng format 4 \<inter> rng buffer (unat count) = {}" "buffer \<noteq> 0" "24 \<le> unat count"
    "c \<in> {ch CHR ''d'', ch CHR ''u'', ch CHR ''x'', ch CHR ''X'', ch CHR ''o''}" "c = ch CHR ''d'' \<longrightarrow> v \<noteq> 0x8000000000000000"
  shows "\<exists>t m. snprintf buffer count format [v] s = Inr (of_nat (length t), s\<lparr>mem := m\<rparr>) \<and> cstr m buffer t \<and> canonical t
    \<and> read_int (unat (int_base c)) t = long_value c v \<and> (\<forall>a. a \<notin> rng buffer (unat count) \<longrightarrow> m a = mem s a)"
proof -
  obtain t where t: "convert out_buffer buffer count c FLAGS_LONG 0 0 [v] 0 s = Inr ([], out_bytes out_buffer buffer count t 0 s)"
    "read_int (unat (int_base c)) t = long_value c v" "canonical t" "0 \<notin> set t" "length t \<le> 23"
    using conv_long [OF assms(5,6)] .
  define s1 where "s1 = s\<lparr>mem := put_bytes (mem s) buffer t\<rparr>"
  have ob: "out_bytes out_buffer buffer count t 0 s = (of_nat (length t), s1)"
    using out_bytes_buffer [of 0 t count] t(5) assms(4) by (simp add: s1_def)
  have f: "mem s format = ch CHR ''%''" "mem s (format + 1) = ch CHR ''l''" "mem s (format + 2) = c" "mem s (format + 3) = 0" "c \<noteq> 0"
    using assms(1) by (auto simp: add.assoc)
  have "parse_flags (mem s) (format + 1) 0 = Some (0, format + 1)" by (simp add: parse_flags.simps f(2) flag_of_def)
  then have pd: "parse_directive (mem s) (format + 1) [v] = Inr (FLAGS_LONG, 0, 0, format + 2, [v])"
    using f(2,3) assms(5)
    by (auto simp: parse_directive_def parse_width_def parse_precision_def parse_length_def Let_def is_digit_def add.assoc)
  have "format + 3 \<in> rng format 4" by simp
  then have out: "format + 3 \<notin> rng buffer (unat count)" using assms(2) by blast
  have sub: "a \<notin> rng buffer (length t)" "a \<noteq> buffer + of_nat (length t)" if "a \<notin> rng buffer (unat count)" for a
    using that t(5) assms(4) by (auto simp: unat_of_nat_u64)
  have z: "mem s1 (format + 3) = 0" using put_bytes_other [OF sub(1) [OF out]] t(5) f(4) by (simp add: s1_def)
  have "vsnprintf_step out_buffer buffer count format [v] 0 s = Inr (of_nat (length t), s1, format + 3, [])"
    using f pd t(1) ob by (simp add: vsnprintf_step_def add.assoc)
  then have "vsnprintf_loop out_buffer buffer count format [v] 0 s = Some (Inr (of_nat (length t), s1))"
    using f(1) z by (subst vsnprintf_loop.simps) (simp add: vsnprintf_loop.simps [of _ _ _ "format + 3"])
  moreover have lt: "(of_nat (length t) :: u64) < count" using t(5) assms(4) by (simp add: word_less_nat_alt unat_of_nat_u64)
  ultimately have run: "snprintf buffer count format [v] s = Inr (ucast (of_nat (length t) :: u64), s\<lparr>mem := (put_bytes (mem s) buffer t)(buffer + of_nat (length t) := 0)\<rparr>)"
    using assms(3) by (simp add: snprintf_def vsnprintf_internal_def out_buffer_def s1_def)
  have "a \<notin> rng buffer (unat count) \<longrightarrow> ((put_bytes (mem s) buffer t)(buffer + of_nat (length t) := 0)) a = mem s a" for a
    using put_bytes_other [OF sub(1)] sub(2) t(5) by simp
  moreover have "(ucast (of_nat (length t) :: u64) :: u32) = of_nat (length t)"
    using t(5) by (intro word_unat_eq_iff [THEN iffD2]) (simp add: unsigned_ucast_eq unsigned_of_nat take_bit_nat_eq_self)
  ultimately show ?thesis using run t(2,3) put_bytes_cstr [OF t(4), of "mem s" buffer] t(5) by (auto simp del: fun_upd_apply)
qed

theorem snprintf_long_roundtrip_witness:
  "\<exists>t m. snprintf 0x2000 64 0x1000 [- 42] (sample_format ''%ld'') = Inr (of_nat (length t), (sample_format ''%ld'')\<lparr>mem := m\<rparr>)
    \<and> cstr m 0x2000 t \<and> read_int 10 t = - 42"
proof -
  have f: "cstr (mem (sample_format ''%ld'')) 0x1000 [ch CHR ''%'', ch CHR ''l'', ch CHR ''d'']"
    using sample_format_cstr [of "''%ld''"] by simp
  have d: "rng 0x1000 4 \<inter> rng 0x2000 (unat (64 :: u64)) = {}" by (rule rng_disjoint_nat) simp_all
  have v: "long_value (ch CHR ''d'') (- 42) = - 42" "unat (int_base (ch CHR ''d'')) = 10"
    by (simp_all add: long_value_def int_base_def)
  have l: "(- 42 :: u64) \<noteq> 0x8000000000000000" by simp
  show ?thesis using snprintf_long_roundtrip [OF f d, of "- 42"] v l by auto
qed

end
