(* ===== verification/Printf_Console.thy ===== *)
theory Printf_Console
  imports Printf_Spec Vgaterm
begin

text \<open>
  Printing on the screen: \<^verbatim>\<open>printf_\<close> and \<^verbatim>\<open>vprintf_\<close> of \<^verbatim>\<open>src/src/lib/printf.c\<close>, whose output function is
  \<^verbatim>\<open>_out_char\<close>. The callers in the kernel print literal text, \<^verbatim>\<open>%c\<close> and \<^verbatim>\<open>%.*s\<close>; for these formats the
  interpreter does what the short forms \<open>printf_text\<close>, \<open>printf_char\<close> and \<open>printf_string\<close> say.
\<close>

text \<open>\<open>buffer\<close> is the address of the local array \<^verbatim>\<open>char buffer[1]\<close>, which is not written.\<close>

abbreviation console_out :: "'d ports \<Rightarrow> u8 \<Rightarrow> u64 \<Rightarrow> u64 \<Rightarrow> u64 \<Rightarrow> ('d, 'a) term_state_scheme \<Rightarrow> ('d, 'a) term_state_scheme" where
  "console_out P \<equiv> \<lambda>c buffer idx maxlen. out_char P c"

definition printf :: "'d ports \<Rightarrow> u64 \<Rightarrow> u64 \<Rightarrow> u64 list \<Rightarrow> ('d, 'a) term_state_scheme \<Rightarrow> (u32 \<times> ('d, 'a) term_state_scheme) res" where
  "printf P buffer format va s = vsnprintf_internal (console_out P) buffer (- 1) format va s"

definition vprintf :: "'d ports \<Rightarrow> u64 \<Rightarrow> u64 \<Rightarrow> u64 list \<Rightarrow> ('d, 'a) term_state_scheme \<Rightarrow> (u32 \<times> ('d, 'a) term_state_scheme) res" where
  "vprintf P buffer format va s = vsnprintf_internal (console_out P) buffer (- 1) format va s"

interpretation con: printer "console_out P" buffer maxlen "\<lambda>s. on_screen s \<and> vgaterm_buf s = b" console_only "rng b 4160"
  for P buffer maxlen b
proof (unfold_locales, goal_cases)
  case (1 s c idx)
  then show ?case using putchar_console [of s P c] putchar_view(2) [of s P c] by (auto simp: out_char_def console_only_def)
next
  case (2 s c idx)
  then show ?case by (simp add: vga.put_same)
next
  case (3 s)
  show ?case by (rule console_only_refl)
next
  case (4 s s' s'')
  then show ?case by (rule console_only_trans)
next
  case (5 s s' a)
  then show ?case by (auto simp: console_only_def)
qed

lemma ch_inj: "ch c = ch d \<longleftrightarrow> c = d"
proof -
  have "unat (ch c) = of_char c" for c unfolding of_char_def by (simp add: unsigned_of_nat horner_sum_simps)
  then show ?thesis by (metis of_char_eq_iff)
qed

lemma console_keeps_str:
  assumes "on_screen s" "str_at (rng (vgaterm_buf s) 4160) (mem s) p xs"
  shows "str_at (rng (vgaterm_buf s) 4160) (mem (out_char P c s)) p xs" "on_screen (out_char P c s)" "vgaterm_buf (out_char P c s) = vgaterm_buf s"
proof -
  have k: "con.kept (vgaterm_buf s) s (out_char P c s)" by (rule con.kept_out)
  then show "on_screen (out_char P c s)" "vgaterm_buf (out_char P c s) = vgaterm_buf s" using assms(1) by (simp_all add: con.kept_def)
  show "str_at (rng (vgaterm_buf s) 4160) (mem (out_char P c s)) p xs"
    by (rule str_at_cong [OF _ assms(2)], rule con.kept_mem [OF k]) (use assms(1) in auto)
qed

lemma loop_text:
  assumes "on_screen s" "str_at (rng (vgaterm_buf s) 4160) (mem s) p xs" "ch CHR ''%'' \<notin> set xs"
  shows "vsnprintf_loop (console_out P) buffer maxlen p va idx s = Some (Inr (idx + of_nat (length xs), fold (out_char P) xs s))"
  using assms
proof (induction xs arbitrary: p idx s)
  case Nil
  then show ?case by (subst vsnprintf_loop.simps) simp
next
  case (Cons c cs)
  have at: "mem s p = c" "c \<noteq> 0" "c \<noteq> ch CHR ''%''" "str_at (rng (vgaterm_buf s) 4160) (mem s) (p + 1) cs" using Cons.prems by auto
  note k = console_keeps_str [OF Cons.prems(1) at(4), of P c]
  have "vsnprintf_step (console_out P) buffer maxlen p va idx s = Inr (idx + 1, out_char P c s, p + 1, va)"
    using at by (simp add: vsnprintf_step_def)
  then show ?case using at Cons.IH [of "out_char P c s" "p + 1" "idx + 1"] k Cons.prems(3)
    by (subst vsnprintf_loop.simps) (simp add: add.assoc)
qed

lemma loop_char:
  assumes "on_screen s" "str_at (rng (vgaterm_buf s) 4160) (mem s) p [ch CHR ''%'', ch CHR ''c'']"
  shows "vsnprintf_loop (console_out P) buffer maxlen p (v # va) idx s = Some (Inr (idx + 1, out_char P (ucast v) s))"
proof -
  have at: "mem s p = ch CHR ''%''" "mem s (p + 1) = ch CHR ''c''" "str_at (rng (vgaterm_buf s) 4160) (mem s) (p + 2) []"
    using assms(2) by (auto simp: add.assoc)
  have "parse_directive (mem s) (p + 1) (v # va) = Inr (0, 0, 0, p + 1, v # va)"
    using at(2) by (simp add: parse_directive_def parse_flags.simps flag_of_def parse_width_def parse_precision_def parse_length_def is_digit_def)
  then have "vsnprintf_step (console_out P) buffer maxlen p (v # va) idx s = Inr (idx + 1, out_char P (ucast v) s, p + 2, va)"
    using at(1,2) by (simp add: vsnprintf_step_def convert_def conv_char_def va_arg_def Let_def has_def out_spaces_def add.assoc)
  then show ?thesis using at(1) console_keeps_str(1) [OF assms(1) at(3), of P "ucast v"]
    by (subst vsnprintf_loop.simps) (simp add: vsnprintf_loop.simps [of _ _ _ "p + 2"])
qed

lemma string_loop:
  assumes "has flags FLAGS_PRECISION"
  shows "\<exists>i. out_string (console_out P) buffer maxlen flags p precision idx s = Some (i, snd (print_string_loop P (unat precision) p (ucast idx) s))
    \<and> ucast i = fst (print_string_loop P (unat precision) p (ucast idx) s)"
proof (induction "unat precision" arbitrary: p precision idx s)
  case 0
  then show ?case using assms by (subst out_string.simps) (simp add: unat_eq_0)
next
  case (Suc n)
  then have "precision \<noteq> 0" by auto
  then have "n = unat (precision - 1)" using Suc(2) by (simp add: unat_minus_one)
  moreover have "ucast (idx + 1) = (ucast idx + 1 :: u32)" by (rule word_unat_eq_iff [THEN iffD2]) (simp add: unat_word_ariths unsigned_ucast_eq take_bit_eq_mod mod_simps mod_mod_cancel)
  ultimately show ?case using Suc(1) [of "precision - 1" "p + 1" "idx + 1" "out_char P (mem s p) s"] assms \<open>precision \<noteq> 0\<close>
    unfolding Suc(2) [symmetric] by (subst out_string.simps) auto
qed

lemma loop_string:
  assumes "on_screen s" "str_at (rng (vgaterm_buf s) 4160) (mem s) f [ch CHR ''%'', ch CHR ''.'', ch CHR ''*'', ch CHR ''s'']"
  shows "\<exists>i. vsnprintf_loop (console_out P) buffer maxlen f [n, p] 0 s = Some (Inr (i, snd (printf_string P n p s)))
    \<and> ucast i = fst (printf_string P n p s)"
proof -
  have at: "mem s f = ch CHR ''%''" "mem s (f + 1) = ch CHR ''.''" "mem s (f + 2) = ch CHR ''*''" "mem s (f + 3) = ch CHR ''s''"
    "f + 4 \<notin> rng (vgaterm_buf s) 4160" "mem s (f + 4) = 0"
    using assms(2) by (auto simp: add.assoc)
  define q where "q = (if 0 <s (ucast n :: u32) then ucast n else 0 :: u32)"
  have pd: "parse_directive (mem s) (f + 1) [n, p] = Inr (FLAGS_PRECISION, 0, q, f + 3, [p])"
    using at(2-4) by (simp add: parse_directive_def parse_flags.simps flag_of_def parse_width_def parse_precision_def parse_length_def
        is_digit_def Let_def va_arg_def q_def add.assoc)
  have fl: "has FLAGS_PRECISION FLAGS_PRECISION" "\<not> has FLAGS_PRECISION FLAGS_LEFT"
    by (simp_all add: has_def FLAGS_PRECISION_def FLAGS_LEFT_def)
  obtain i where i: "out_string (console_out P) buffer maxlen FLAGS_PRECISION p q 0 s = Some (i, snd (printf_string P n p s))"
    "ucast i = fst (printf_string P n p s)"
    using string_loop [OF fl(1), of P buffer maxlen p q 0 s] by (auto simp: printf_string_def q_def Let_def)
  have "vsnprintf_step (console_out P) buffer maxlen f [n, p] 0 s = Inr (i, snd (printf_string P n p s), f + 4, [])"
    using at(1,4) pd fl i(1) by (simp add: vsnprintf_step_def convert_def conv_string_def va_arg_def Let_def out_spaces_def add.assoc)
  moreover from con.kept_step [OF this] have "mem (snd (printf_string P n p s)) (f + 4) = 0"
    using con.kept_mem [of "vgaterm_buf s" s _ "f + 4"] assms(1) at(5,6) by simp
  ultimately show ?thesis using at(1) i(2)
    by (subst vsnprintf_loop.simps) (simp add: vsnprintf_loop.simps [of _ _ _ "f + 4"])
qed

lemma printf_loop:
  assumes "vsnprintf_loop (console_out P) buffer (- 1) f va 0 s = Some (Inr (i, s'))" "buffer \<noteq> 0"
  shows "printf P buffer f va s = Inr (ucast i, s')" "vprintf P buffer f va s = Inr (ucast i, s')"
  using assms by (simp_all add: printf_def vprintf_def vsnprintf_internal_def out_char_def)

text \<open>
  C17. The formats the kernel itself prints do what the short forms of the model say: a format without a
  percent sign prints its characters, \<^verbatim>\<open>%c\<close> prints one character, and \<^verbatim>\<open>%.*s\<close> prints a string up to a length; the
  result is the number of characters. (The format is in memory outside of the screen.)
\<close>

theorem printf_short_forms:
  assumes "on_screen s" "buffer \<noteq> 0" "cstr (mem s) f xs" "rng f (Suc (length xs)) \<inter> rng (vgaterm_buf s) 4160 = {}"
  shows "(xs = map ch fmt \<longrightarrow> CHR ''%'' \<notin> set fmt \<longrightarrow> printf P buffer f va s = Inr (of_nat (length fmt), printf_text P fmt s))
    \<and> (xs = map ch ''%c'' \<longrightarrow> printf P buffer f (v # va) s = Inr (1, printf_char P (ucast v) s))
    \<and> (xs = map ch ''%.*s'' \<longrightarrow> printf P buffer f [n, p] s = Inr (printf_string P n p s))"
proof -
  have at: "str_at (rng (vgaterm_buf s) 4160) (mem s) f xs" by (rule str_at_rng [OF assms(3,4)])
  have "printf P buffer f va s = Inr (of_nat (length fmt), printf_text P fmt s)" if "xs = map ch fmt" "CHR ''%'' \<notin> set fmt"
  proof -
    have "ch CHR ''%'' \<notin> set xs" unfolding that(1) set_map image_iff ch_inj using that(2) by blast
    from printf_loop(1) [OF loop_text [OF assms(1) at this, of P buffer "- 1" va 0] assms(2)] that(1)
    have "printf P buffer f va s = Inr (ucast (of_nat (length fmt) :: u64), printf_text P fmt s)" by (simp add: printf_text_fold)
    moreover have "(ucast (of_nat (length fmt) :: u64) :: u32) = of_nat (length fmt)"
      by (rule word_unat_eq_iff [THEN iffD2]) (simp add: unsigned_ucast_eq unsigned_of_nat)
    ultimately show ?thesis by simp
  qed
  moreover have "printf P buffer f (v # va) s = Inr (1, printf_char P (ucast v) s)" if "xs = map ch ''%c''"
    using printf_loop(1) [OF loop_char [OF assms(1), of f P buffer "- 1" v va 0] assms(2)] at that by (simp add: printf_char_def)
  moreover have "printf P buffer f [n, p] s = Inr (printf_string P n p s)" if "xs = map ch ''%.*s''"
    using loop_string [OF assms(1), of f P buffer "- 1" n p] at that printf_loop(1) [OF _ assms(2)] by fastforce
  ultimately show ?thesis by blast
qed


text \<open>The sample terminal with a format in memory.\<close>

definition sample_console :: "unit term_state" where
  "sample_console = sample_term\<lparr>mem := (\<lambda>_. 0)(0x1000 := ch CHR ''%'', 0x1001 := ch CHR ''c'')\<rparr>"

lemma sample_console_facts:
  "on_screen sample_console" "cstr (mem sample_console) 0x1000 (map ch ''%c'')"
  "rng 0x1000 (Suc (length (map ch ''%c''))) \<inter> rng (vgaterm_buf sample_console) 4160 = {}"
proof -
  have b: "vgaterm_buf sample_console = VGATERM_BUF_START"
    by (simp add: sample_console_def sample_term_def proc_state.defs term_state.defs)
  show "on_screen sample_console" by (simp add: on_screen_def sample_console_def sample_term_def proc_state.defs term_state.defs)
  show "cstr (mem sample_console) 0x1000 (map ch ''%c'')" by (simp add: sample_console_def)
  show "rng 0x1000 (Suc (length (map ch ''%c''))) \<inter> rng (vgaterm_buf sample_console) 4160 = {}"
    unfolding b by (rule rng_disjoint_nat) (simp_all add: VGATERM_BUF_START_def)
qed

theorem printf_short_forms_witness:
  "printf null_ports 8 0x1000 [0x41] sample_console = Inr (1, printf_char null_ports 0x41 sample_console)"
  using printf_short_forms [OF sample_console_facts(1) _ sample_console_facts(2,3), of 8 _ null_ports "[]" "0x41"] by simp


end
