(* ===== verification/Address_Space.thy ===== *)
theory Address_Space
  imports Vmm
begin

text \<open>
  The contents of an address space, as a process sees it through its page tables, and what the copying
  routines of \<^verbatim>\<open>src/src/mm/vmm.c\<close> (\<^verbatim>\<open>mm_copy_from_buf\<close>, \<^verbatim>\<open>mm_copy_from_mm\<close>) make of it.
\<close>

section \<open>Writing into frames\<close>

lemma frames_disjoint:
  assumes "pmm_inv s" "f \<in> used_frames s" "g \<in> used_frames s" "f \<noteq> g"
  shows "rng (P_TO_V f) 4096 \<inter> rng (P_TO_V g) 4096 = {}"
  unfolding rng_P_TO_V_disjoint
  using used_frame_props [OF assms(1,2)] used_frame_props [OF assms(1,3)] assms(4) by (intro aligned_frames_disjoint) auto

text \<open>A change inside used frames that hold no table of an address space.\<close>

lemma frames_write:
  fixes s :: "'a heap_state_scheme"
  assumes ok: "kernel_ok s" and F: "F \<subseteq> used_frames s" and m: "\<forall>x. x \<notin> frame_bytes F \<longrightarrow> m x = mem s x"
  defines "s' \<equiv> s\<lparr>mem := m\<rparr>"
  shows "kernel_ok s'" and "free_frames s' = free_frames s" and "used_frames s' = used_frames s" and "heap_objects s' = heap_objects s"
    and "mm_ok s mm \<Longrightarrow> F \<inter> mm_tables (mem s) mm = {} \<Longrightarrow> mm_ok s' mm"
    and "mm_ok s mm \<Longrightarrow> F \<inter> mm_tables (mem s) mm = {} \<Longrightarrow> mm_lookup m mm w = mm_lookup (mem s) mm w"
    and "mm_ok s mm \<Longrightarrow> F \<inter> mm_tables (mem s) mm = {} \<Longrightarrow> mm_tables m mm = mm_tables (mem s) mm"
proof -
  have inv: "pmm_inv s" using ok by (simp add: kernel_ok_def)
  have sub: "frame_bytes F \<subseteq> frame_bytes (used_frames s)" by (rule frame_bytes_mono [OF F])
  have ar: "active_regions s' = active_regions s" by (simp add: s'_def active_regions_def)
  have "m x = mem s x" if "x \<in> bitmaps (active_regions s)" for x
    using used_frames_bitmaps_disjoint [OF inv] sub that m by blast
  note ag = bitmaps_agree [of "active_regions s" m "mem s", OF this]
  have inv': "pmm_inv s'" using inv ag ar by (simp add: pmm_inv_def s'_def)
  show "free_frames s' = free_frames s" and used: "used_frames s' = used_frames s"
    using inv ag ar by (simp_all add: pmm_inv_def free_frames_def used_frames_def s'_def)
  have "m x = mem s x" if "x \<notin> phys_bytes (active_regions s)" for x
    using frame_in_phys_bytes(1) [OF inv _ that] F m by (fastforce simp: frame_bytes_def simp del: in_rng)
  then show "kernel_ok s'" "heap_objects s' = heap_objects s"
    using kernel_ok_phys_change [OF ok inv' ar] by (simp_all add: s'_def)
  have ent: "entry m t j = entry (mem s) t j" if "mm_ok s mm" "F \<inter> mm_tables (mem s) mm = {}" "t \<in> mm_tables (mem s) mm" "j < 512" for t j
  proof -
    have t: "t \<in> used_frames s" using that(1,3) pt_inv_table(1) by (auto simp: mm_tables_def mm_ok_def tables_def split: if_splits)
    have "m x = mem s x" if "x \<in> rng (P_TO_V t) 4096" for x
      using frames_disjoint [OF inv _ t] F that \<open>F \<inter> mm_tables (mem s) mm = {}\<close> \<open>t \<in> mm_tables (mem s) mm\<close> m
      by (fastforce simp: frame_bytes_def simp del: in_rng)
    then show ?thesis using used_frame_props [OF inv t] that(4) by (intro entry_cong) blast+
  qed
  have "mm_ok s' mm \<and> mm_lookup m mm w = mm_lookup (mem s) mm w \<and> mm_tables m mm = mm_tables (mem s) mm"
    if a: "mm_ok s mm" "F \<inter> mm_tables (mem s) mm = {}"
    using mm_same_tables [OF a(1) inv'] mm_tables_used [OF a(1)] used ent [OF a] by (simp add: s'_def)
  then show "mm_ok s mm \<Longrightarrow> F \<inter> mm_tables (mem s) mm = {} \<Longrightarrow> mm_ok s' mm"
    "mm_ok s mm \<Longrightarrow> F \<inter> mm_tables (mem s) mm = {} \<Longrightarrow> mm_lookup m mm w = mm_lookup (mem s) mm w"
    "mm_ok s mm \<Longrightarrow> F \<inter> mm_tables (mem s) mm = {} \<Longrightarrow> mm_tables m mm = mm_tables (mem s) mm" by blast+
qed

section \<open>The contents of an address space\<close>

text \<open>The byte that a process reads at a virtual address, through its page tables.\<close>

definition user_byte :: "memory \<Rightarrow> mm \<Rightarrow> u64 \<Rightarrow> u8" where
  "user_byte m mm v = m (P_TO_V (page_base (mm_lookup m mm v)) + page_off v)"

lemma mm_lookup_page: "page_no v = page_no w \<Longrightarrow> mm_lookup m mm v = mm_lookup m mm w"
  using NDX_eq_iff [of v w] by (simp add: mm_lookup_def pt_lookup_def)

lemma page_entry_lookup: "mm_lookup (mem s) (mms s mmp) v \<noteq> 0 \<Longrightarrow> page_entry mmp v s = mm_lookup (mem s) (mms s mmp) v"
  by (auto simp: mm_lookup_def pt_lookup_def page_entry_def access_p1 simp del: walk.simps split: option.splits if_splits)

lemma aligned_offset: "aligned a \<Longrightarrow> aligned (a + of_nat (k * 4096))"
  unfolding aligned_def unat_word_ariths unat_of_nat by (intro dvd_mod dvd_add) simp_all

text \<open>Byte \<open>j\<close> of page \<open>k\<close> from \<open>start\<close> on.\<close>

lemma page_split:
  assumes "aligned start" "j < 4096"
  shows "page_no (start + of_nat (k * 4096 + j)) = page_no (start + of_nat (k * 4096))"
    and "page_off (start + of_nat (k * 4096 + j)) = of_nat j"
proof -
  define v where "v = start + of_nat (k * 4096)"
  have "aligned v" unfolding v_def by (rule aligned_offset [OF assms(1)])
  then obtain q where q: "unat v = 4096 * q" by (auto simp: aligned_def)
  have "unat v < 4096 * 2 ^ 52" using u64_unat_bound [of v] by (simp del: u64_unat_bound)
  then have "q < 2 ^ 52" using q by simp
  then have "unat (v + of_nat j) = unat v + j" using q assms(2) by (subst unat_add_nowrap) (simp_all add: unat_of_nat_u64)
  then have u: "unat (v + of_nat j) = 4096 * q + j" using q by simp
  have e: "start + of_nat (k * 4096 + j) = v + of_nat j" by (simp add: v_def add.assoc)
  show "page_no (start + of_nat (k * 4096 + j)) = page_no (start + of_nat (k * 4096))"
    unfolding e v_def [symmetric] page_no_def u q using assms(2) by simp
  have "unat (page_off (v + of_nat j)) = unat (of_nat j :: u64)" using assms(2) by (simp add: unat_page_off u unat_of_nat_u64)
  then show "page_off (start + of_nat (k * 4096 + j)) = of_nat j" unfolding e by (simp add: word_unat_eq_iff)
qed

text \<open>The pages from \<open>start\<close> on are mapped to the frames \<open>fs\<close>, none of which holds a table.\<close>

definition mapped_to :: "u64 \<Rightarrow> u64 \<Rightarrow> u64 list \<Rightarrow> u64 \<Rightarrow> 'a vmm_state_scheme \<Rightarrow> bool" where
  "mapped_to mmp start fs flags s \<longleftrightarrow> aligned start \<and> unat flags < 4096 \<and> distinct fs \<and> mm_ok s (mms s mmp)
     \<and> set fs \<subseteq> used_frames s - mm_tables (mem s) (mms s mmp)
     \<and> (\<forall>k < length fs. mm_lookup (mem s) (mms s mmp) (start + of_nat (k * 4096)) = fs ! k OR flags)"

lemma mapped_to_frame:
  assumes "mapped_to mmp start fs flags s" "k < length fs"
  shows "fs ! k \<in> used_frames s" "page_base (fs ! k OR flags) = fs ! k" "fs ! k OR flags \<noteq> 0"
proof -
  have inv: "pmm_inv s" and f: "unat flags < 4096" using assms(1) by (simp_all add: mapped_to_def mm_ok_def)
  show u: "fs ! k \<in> used_frames s" using assms nth_mem [of k fs] unfolding mapped_to_def by blast
  show "page_base (fs ! k OR flags) = fs ! k" "fs ! k OR flags \<noteq> 0"
    using frame_or_flags used_frame_props [OF inv u] f by blast+
qed

lemma mapped_entry:
  assumes "mapped_to mmp start fs flags s" "k < length fs"
  shows "page_base (page_entry mmp (start + of_nat (k * 4096)) s) = fs ! k"
  using assms mapped_to_frame [OF assms] by (subst page_entry_lookup) (simp_all add: mapped_to_def)

lemma mapped_byte:
  assumes "mapped_to mmp start fs flags s" "k < length fs" "j < 4096"
  shows "user_byte (mem s) (mms s mmp) (start + of_nat (k * 4096 + j)) = mem s (P_TO_V (fs ! k) + of_nat j)"
proof -
  have al: "aligned start" using assms(1) by (simp add: mapped_to_def)
  have "mm_lookup (mem s) (mms s mmp) (start + of_nat (k * 4096 + j)) = fs ! k OR flags"
    using mm_lookup_page [OF page_split(1) [OF al assms(3)]] assms(1,2) by (simp add: mapped_to_def)
  then show ?thesis unfolding user_byte_def page_split(2) [OF al assms(3)] using mapped_to_frame(2) [OF assms(1,2)] by simp
qed

lemma mapped_to_write:
  assumes "kernel_ok s" "mapped_to mmp start fs flags s" "F \<subseteq> set fs" "\<forall>x. x \<notin> frame_bytes F \<longrightarrow> m x = mem s x"
  shows "kernel_ok (s\<lparr>mem := m\<rparr>)" "mapped_to mmp start fs flags (s\<lparr>mem := m\<rparr>)"
proof -
  have F: "F \<subseteq> used_frames s" "F \<inter> mm_tables (mem s) (mms s mmp) = {}" and ok: "mm_ok s (mms s mmp)"
    using assms(2,3) by (auto simp: mapped_to_def)
  note w = frames_write [OF assms(1) F(1) assms(4)]
  show "kernel_ok (s\<lparr>mem := m\<rparr>)" by (rule w(1))
  show "mapped_to mmp start fs flags (s\<lparr>mem := m\<rparr>)" using assms(2) w(3) w(5-7) [OF ok F(2)] by (simp add: mapped_to_def)
qed

lemma frame_byte: "f \<in> F \<Longrightarrow> j < 4096 \<Longrightarrow> P_TO_V f + of_nat j \<in> frame_bytes F"
  unfolding frame_bytes_def by (intro UN_I [of f]) (simp_all add: unat_of_nat_u64)

text \<open>Copying up to a page into a frame.\<close>

lemma copy_into_frame:
  assumes "unat b \<le> 4096" "rng (P_TO_V f) 4096 \<inter> rng src (unat b) = {}"
  shows "j < 4096 \<Longrightarrow> memcpy m (P_TO_V f) src b (P_TO_V f + of_nat j) = (if j < unat b then m (src + of_nat j) else m (P_TO_V f + of_nat j))"
    and "x \<notin> rng (P_TO_V f) 4096 \<Longrightarrow> memcpy m (P_TO_V f) src b x = m x"
proof -
  have "rng (P_TO_V f) (unat b) \<inter> rng src (unat b) = {}" using assms rng_mono [OF assms(1), of "P_TO_V f"] by blast
  note e = memcpy_eq [OF this, of m]
  show "j < 4096 \<Longrightarrow> memcpy m (P_TO_V f) src b (P_TO_V f + of_nat j) = (if j < unat b then m (src + of_nat j) else m (P_TO_V f + of_nat j))"
    by (simp add: e word_less_nat_alt unat_of_nat_u64)
  show "x \<notin> rng (P_TO_V f) 4096 \<Longrightarrow> memcpy m (P_TO_V f) src b x = m x"
    using assms(1) by (simp add: e word_less_nat_alt)
qed

text \<open>The bytes \<open>lo\<close> up to \<open>hi\<close> of the frames \<open>fs\<close>, laid end to end, are those of a buffer; nothing else differs.\<close>

definition page_copy :: "u64 \<Rightarrow> u64 list \<Rightarrow> nat \<Rightarrow> nat \<Rightarrow> memory \<Rightarrow> memory \<Rightarrow> bool" where
  "page_copy src fs lo hi m m' \<longleftrightarrow> (\<forall>x. x \<notin> frame_bytes (set fs) \<longrightarrow> m' x = m x)
     \<and> (\<forall>k < length fs. \<forall>j < 4096. m' (P_TO_V (fs ! k) + of_nat j)
         = (if lo \<le> k * 4096 + j \<and> k * 4096 + j < hi then m (src + of_nat (k * 4096 + j)) else m (P_TO_V (fs ! k) + of_nat j)))"

definition buf_outside :: "u64 \<Rightarrow> u64 list \<Rightarrow> nat \<Rightarrow> nat \<Rightarrow> bool" where
  "buf_outside src fs lo hi \<longleftrightarrow> (\<forall>i. lo \<le> i \<and> i < hi \<longrightarrow> src + of_nat i \<notin> frame_bytes (set fs))"

lemma page_copy_refl: "page_copy src fs lo lo m m"
  by (auto simp: page_copy_def)

lemma page_copy_outside: "page_copy src fs lo hi m m' \<Longrightarrow> x \<notin> frame_bytes (set fs) \<Longrightarrow> m' x = m x"
  by (simp add: page_copy_def)

lemma page_copy_inside:
  "page_copy src fs lo hi m m' \<Longrightarrow> k < length fs \<Longrightarrow> j < 4096 \<Longrightarrow> m' (P_TO_V (fs ! k) + of_nat j)
     = (if lo \<le> k * 4096 + j \<and> k * 4096 + j < hi then m (src + of_nat (k * 4096 + j)) else m (P_TO_V (fs ! k) + of_nat j))"
  by (simp add: page_copy_def)

lemma page_copy_trans:
  assumes a: "page_copy src fs lo mid m m1" and b: "page_copy src fs mid hi m1 m2"
    and o: "buf_outside src fs lo hi" and le: "lo \<le> mid" "mid \<le> hi"
  shows "page_copy src fs lo hi m m2"
  unfolding page_copy_def
proof (intro conjI allI impI)
  show "m2 x = m x" if "x \<notin> frame_bytes (set fs)" for x
    using page_copy_outside [OF a that] page_copy_outside [OF b that] by simp
  fix k j :: nat
  assume k: "k < length fs" "j < 4096"
  let ?i = "k * 4096 + j"
  have "m1 (src + of_nat ?i) = m (src + of_nat ?i)" if "lo \<le> ?i" "?i < hi"
    using page_copy_outside [OF a] o that unfolding buf_outside_def by blast
  then show "m2 (P_TO_V (fs ! k) + of_nat j) = (if lo \<le> ?i \<and> ?i < hi then m (src + of_nat ?i) else m (P_TO_V (fs ! k) + of_nat j))"
    unfolding page_copy_inside [OF b k] page_copy_inside [OF a k] using le by auto
qed

lemma page_copy_one:
  assumes inv: "pmm_inv s" and fs: "set fs \<subseteq> used_frames s" "distinct fs" and pg: "pg < length fs" and b: "unat b \<le> 4096"
    and o: "buf_outside src fs (pg * 4096) (pg * 4096 + unat b)"
  shows "page_copy src fs (pg * 4096) (pg * 4096 + unat b) m (memcpy m (P_TO_V (fs ! pg)) (src + of_nat (pg * 4096)) b)"
proof -
  let ?f = "fs ! pg" and ?src = "src + of_nat (pg * 4096)"
  have sub: "rng (P_TO_V ?f) 4096 \<subseteq> frame_bytes (set fs)" unfolding frame_bytes_def using nth_mem [OF pg] by blast
  have "x \<notin> frame_bytes (set fs)" if "x \<in> rng ?src (unat b)" for x
  proof -
    let ?i = "unat (x - ?src)"
    have "x = src + of_nat (pg * 4096 + ?i)" by simp
    then show ?thesis using o [unfolded buf_outside_def, rule_format, of "pg * 4096 + ?i"] that by simp
  qed
  then have "rng (P_TO_V ?f) 4096 \<inter> rng ?src (unat b) = {}" using sub by blast
  note cp = copy_into_frame [OF b this, where m = m]
  have other: "P_TO_V (fs ! k) + of_nat j \<notin> rng (P_TO_V ?f) 4096" if "k < length fs" "j < 4096" "k \<noteq> pg" for k j
  proof -
    have "fs ! k \<noteq> ?f" using that fs(2) pg by (simp add: nth_eq_iff_index_eq)
    moreover have "fs ! k \<in> used_frames s" "?f \<in> used_frames s" using fs(1) nth_mem that(1) pg by blast+
    ultimately show ?thesis using frames_disjoint [OF inv] frame_byte [of "fs ! k" "{fs ! k}" j] that(2)
      by (auto simp: frame_bytes_def simp del: in_rng)
  qed
  show ?thesis
    unfolding page_copy_def
  proof (intro conjI allI impI)
    show "memcpy m (P_TO_V ?f) ?src b x = m x" if "x \<notin> frame_bytes (set fs)" for x
      using cp(2) sub that by blast
    fix k j :: nat
    assume k: "k < length fs" "j < 4096"
    show "memcpy m (P_TO_V ?f) ?src b (P_TO_V (fs ! k) + of_nat j) = (if pg * 4096 \<le> k * 4096 + j \<and> k * 4096 + j < pg * 4096 + unat b
        then m (src + of_nat (k * 4096 + j)) else m (P_TO_V (fs ! k) + of_nat j))"
    proof (cases "k = pg")
      case True
      then show ?thesis using cp(1) [OF k(2)] by (simp add: add.assoc)
    next
      case False
      then have "\<not> (pg * 4096 \<le> k * 4096 + j \<and> k * 4096 + j < pg * 4096 + unat b)" using k(2) b by (cases "k < pg") auto
      then show ?thesis using cp(2) [OF other [OF k False]] by auto
    qed
  qed
qed

text \<open>The loop of \<^verbatim>\<open>mm_copy_from_buf\<close> from page \<open>pg\<close> on.\<close>

lemma copy_from_buf_loop_spec:
  assumes "kernel_ok s" "mapped_to dst start fs flags s" "unat len \<le> (length fs - pg) * 4096"
    "buf_outside src fs (pg * 4096) (pg * 4096 + unat len)"
  shows "\<exists>m. copy_from_buf_loop dst src start len (of_nat pg) s = s\<lparr>mem := m\<rparr>
    \<and> page_copy src fs (pg * 4096) (pg * 4096 + unat len) (mem s) m"
  using assms
proof (induction "length fs - pg" arbitrary: pg len s)
  case 0
  then have "len = 0" by (simp add: unat_eq_0)
  then show ?case by (subst copy_from_buf_loop.simps) (auto intro: exI [of _ "mem s"] page_copy_refl)
next
  case (Suc n)
  show ?case
  proof (cases "len = 0")
    case True
    then show ?thesis by (subst copy_from_buf_loop.simps) (auto intro: exI [of _ "mem s"] page_copy_refl)
  next
    case False
    have pg: "pg < length fs" using Suc(2) by simp
    let ?f = "fs ! pg"
    define b where "b = (if len > PAGE_SIZE then PAGE_SIZE else len)"
    have b: "unat b = min (unat len) 4096" by (simp add: b_def word_less_nat_alt)
    define m1 where "m1 = memcpy (mem s) (P_TO_V ?f) (src + of_nat (pg * 4096)) b"
    define s1 where "s1 = s\<lparr>mem := m1\<rparr>"
    have fs: "set fs \<subseteq> used_frames s" "distinct fs" and inv: "pmm_inv s" using Suc(3,4) by (auto simp: mapped_to_def kernel_ok_def)
    have o: "buf_outside src fs (pg * 4096) (pg * 4096 + unat b)" using Suc(6) b by (auto simp: buf_outside_def)
    have one: "page_copy src fs (pg * 4096) (pg * 4096 + unat b) (mem s) m1"
      unfolding m1_def by (rule page_copy_one [OF inv fs pg _ o]) (simp add: b)
    have w: "kernel_ok s1" "mapped_to dst start fs flags s1"
      using mapped_to_write [OF Suc(3,4) subset_refl] page_copy_outside [OF one] by (auto simp: s1_def)
    have "page_base (page_entry dst (start + of_nat (pg * 4096)) s) = ?f" by (rule mapped_entry [OF Suc(4) pg])
    then have step: "copy_from_buf_loop dst src start len (of_nat pg) s = copy_from_buf_loop dst src start (len - b) (of_nat (Suc pg)) s1"
      using False by (subst copy_from_buf_loop.simps) (simp add: Let_def m1_def s1_def b_def word_gt_0 mult.commute add.commute)
    have len: "unat (len - b) = unat len - min (unat len) 4096" using b by (subst unat_sub_le) simp_all
    have n: "n = length fs - Suc pg" "unat (len - b) \<le> (length fs - Suc pg) * 4096" using Suc(2,5) len by auto
    have "buf_outside src fs (Suc pg * 4096) (Suc pg * 4096 + unat (len - b))"
      using Suc(6) len by (simp add: buf_outside_def min_def split: if_splits)
    from Suc(1) [OF n(1) w n(2) this] obtain m where
      m: "copy_from_buf_loop dst src start (len - b) (of_nat (Suc pg)) s1 = s1\<lparr>mem := m\<rparr>"
      "page_copy src fs (Suc pg * 4096) (Suc pg * 4096 + unat (len - b)) (mem s1) m" by blast
    have "page_copy src fs (pg * 4096 + unat b) (pg * 4096 + unat len) m1 m"
      using m(2) len b by (cases "unat len \<le> 4096") (auto simp: page_copy_def s1_def)
    from page_copy_trans [OF one this Suc(6)] have "page_copy src fs (pg * 4096) (pg * 4096 + unat len) (mem s) m" using b by simp
    moreover have "s1\<lparr>mem := m\<rparr> = s\<lparr>mem := m\<rparr>" by (simp add: s1_def)
    ultimately show ?thesis unfolding step m(1) by auto
  qed
qed

section \<open>New pages filled from a buffer\<close>

text \<open>A page whose frame is in use and holds no table of the address space.\<close>

definition data_page :: "u64 \<Rightarrow> 'a vmm_state_scheme \<Rightarrow> u64 \<Rightarrow> bool" where
  "data_page mmp s v \<longleftrightarrow> page_base (mm_lookup (mem s) (mms s mmp) v) \<in> used_frames s - mm_tables (mem s) (mms s mmp)"

text \<open>The first \<open>n\<close> bytes from \<open>start\<close> on, as the process sees them.\<close>

definition image :: "u64 \<Rightarrow> u64 \<Rightarrow> nat \<Rightarrow> (nat \<Rightarrow> u8) \<Rightarrow> 'a vmm_state_scheme \<Rightarrow> bool" where
  "image mmp start n c s \<longleftrightarrow>
     (\<forall>i < n. data_page mmp s (start + of_nat i) \<and> user_byte (mem s) (mms s mmp) (start + of_nat i) = c i)"

text \<open>The live heap objects and the other address spaces, and the pages of this one that are not in \<open>P\<close>.\<close>

definition rest_kept :: "u64 \<Rightarrow> nat set \<Rightarrow> 'a vmm_state_scheme \<Rightarrow> 'a vmm_state_scheme \<Rightarrow> bool" where
  "rest_kept mmp P s s' \<longleftrightarrow> heap_objects s \<subseteq> heap_objects s' \<and> (\<forall>(q, k) \<in> heap_objects s. \<forall>x \<in> rng q (unat k). mem s' x = mem s x)
     \<and> (\<forall>q. q \<noteq> mmp \<longrightarrow> mms s' q = mms s q)
     \<and> (\<forall>w. page_no w \<notin> P \<longrightarrow> mm_lookup (mem s') (mms s' mmp) w = mm_lookup (mem s) (mms s mmp) w
          \<and> (data_page mmp s w \<longrightarrow> data_page mmp s' w \<and> user_byte (mem s') (mms s' mmp) w = user_byte (mem s) (mms s mmp) w))"

definition page_span :: "u64 \<Rightarrow> nat \<Rightarrow> nat set" where
  "page_span start n = (\<lambda>k. page_no (start + of_nat (k * 4096))) ` {..<n}"

lemma page_span_byte:
  assumes "aligned start" "i < n * 4096"
  shows "page_no (start + of_nat i) \<in> page_span start n"
proof -
  have i: "i = i div 4096 * 4096 + i mod 4096" "i div 4096 < n" using assms(2) by (simp_all add: div_mult_mod_eq)
  have "page_no (start + of_nat i) = page_no (start + of_nat (i div 4096 * 4096))"
    using page_split(1) [OF assms(1), of "i mod 4096" "i div 4096"] by (subst i(1)) simp
  then show ?thesis using i(2) unfolding page_span_def by blast
qed

lemma rest_kept_refl: "rest_kept mmp P s s"
  by (auto simp: rest_kept_def)

lemma rest_kept_mono: "rest_kept mmp P s s' \<Longrightarrow> P \<subseteq> Q \<Longrightarrow> rest_kept mmp Q s s'"
  unfolding rest_kept_def by blast

lemma rest_kept_trans:
  assumes "rest_kept mmp P s s'" "rest_kept mmp Q s' s''"
  shows "rest_kept mmp (P \<union> Q) s s''"
proof -
  have "mem s'' x = mem s x" if "(q, k) \<in> heap_objects s" "x \<in> rng q (unat k)" for q k x
    using assms that unfolding rest_kept_def by (fastforce simp del: in_rng)
  then show ?thesis using assms unfolding rest_kept_def by auto
qed

lemma image_kept:
  assumes "image mmp start n c s" "rest_kept mmp P s s'" "\<And>i. i < n \<Longrightarrow> page_no (start + of_nat i) \<notin> P"
  shows "image mmp start n c s'"
  using assms by (simp add: image_def rest_kept_def)

lemma heap_outside_frames:
  assumes "pmm_inv s" "regions_low (active_regions s)" "F \<subseteq> used_frames s" "x \<in> heap_span"
  shows "x \<notin> frame_bytes F"
proof -
  have "x \<notin> phys_bytes (active_regions s)" using heap_span_not_phys [OF _ assms(2,4)] assms(1) by (simp add: pmm_inv_def)
  then show ?thesis using frame_in_phys_bytes(1) [OF assms(1)] assms(3) by (fastforce simp: frame_bytes_def simp del: in_rng)
qed

text \<open>A new mapping leaves the data pages alone, and so does a change inside the new frames.\<close>

lemma data_page_kept:
  assumes inv: "pmm_inv s'" and sk: "space_kept (mms s mmp) s (mms s' mmp) s'" and fs: "F \<subseteq> used_frames s'" "F \<inter> used_frames s = {}"
    and out: "\<forall>x. x \<notin> frame_bytes F \<longrightarrow> m x = mem s' x" and d: "data_page mmp s w"
  shows "page_base (mm_lookup (mem s) (mms s mmp) w) \<in> used_frames s' - mm_tables (mem s') (mms s' mmp)"
    "m (P_TO_V (page_base (mm_lookup (mem s) (mms s mmp) w)) + page_off w) = user_byte (mem s) (mms s mmp) w"
proof -
  let ?f = "page_base (mm_lookup (mem s) (mms s mmp) w)" and ?x = "P_TO_V (page_base (mm_lookup (mem s) (mms s mmp) w)) + page_off w"
  have f: "?f \<in> used_frames s - mm_tables (mem s) (mms s mmp)" using d by (simp add: data_page_def)
  then show f': "?f \<in> used_frames s' - mm_tables (mem s') (mms s' mmp)" using sk by (auto simp: space_kept_def)
  have j: "page_off w = of_nat (unat w mod 4096)" by (simp add: word_unat_eq_iff unat_page_off unat_of_nat_u64)
  have x: "?x \<in> rng (P_TO_V ?f) 4096" "?x \<in> frame_bytes (used_frames s - mm_tables (mem s) (mms s mmp))"
    unfolding j using frame_byte [of ?f "{?f}"] frame_byte [OF f] by (auto simp: frame_bytes_def simp del: in_rng)
  have "?x \<notin> frame_bytes F"
    using frames_disjoint [OF inv] f f' fs x(1) by (fastforce simp: frame_bytes_def simp del: in_rng)
  then show "m ?x = user_byte (mem s) (mms s mmp) w" using out sk x(2) by (simp add: user_byte_def space_kept_def)
qed

lemma mapped_byte_frame:
  assumes mt: "mapped_to mmp start fs flags r" and i: "i < length fs * 4096"
  shows "page_base (mm_lookup (mem r) (mms r mmp) (start + of_nat i)) \<in> set fs"
proof -
  define k j where "k = i div 4096" and "j = i mod 4096"
  have kj: "i = k * 4096 + j" "k < length fs" "j < 4096" using i by (auto simp: k_def j_def)
  have "aligned start" using mt by (simp add: mapped_to_def)
  from mm_lookup_page [OF page_split(1) [OF this kj(3)]] have "mm_lookup (mem r) (mms r mmp) (start + of_nat i) = fs ! k OR flags"
    using mt kj(2) unfolding kj(1) by (simp add: mapped_to_def)
  then show ?thesis using mapped_to_frame(2) [OF mt kj(2)] nth_mem [OF kj(2)] by simp
qed

lemma image_frames:
  assumes mt: "mapped_to mmp start fs flags r" and c: "\<And>k j. k < length fs \<Longrightarrow> j < 4096 \<Longrightarrow> mem r (P_TO_V (fs ! k) + of_nat j) = c (k * 4096 + j)"
  shows "image mmp start (length fs * 4096) c r"
  unfolding image_def
proof (intro allI impI conjI)
  fix i :: nat assume i: "i < length fs * 4096"
  show "data_page mmp r (start + of_nat i)" using mapped_byte_frame [OF mt i] mt unfolding data_page_def mapped_to_def by blast
  define k j where "k = i div 4096" and "j = i mod 4096"
  have kj: "i = k * 4096 + j" "k < length fs" "j < 4096" using i by (auto simp: k_def j_def)
  show "user_byte (mem r) (mms r mmp) (start + of_nat i) = c i"
    unfolding kj(1) mapped_byte [OF mt kj(2,3)] by (rule c [OF kj(2,3)])
qed

lemma image_filled:
  assumes mt: "mapped_to mmp start fs flags r" and cp: "page_copy src fs 0 len m (mem r)" and z: "zeroed m fs"
  shows "image mmp start (length fs * 4096) (\<lambda>i. if i < len then m (src + of_nat i) else 0) r"
proof (rule image_frames [OF mt])
  fix k j :: nat assume kj: "k < length fs" "j < 4096"
  have "m (P_TO_V (fs ! k) + of_nat j) = 0" using z frame_byte [OF nth_mem [OF kj(1)] kj(2)] by (simp add: zeroed_def)
  then show "mem r (P_TO_V (fs ! k) + of_nat j) = (if k * 4096 + j < len then m (src + of_nat (k * 4096 + j)) else 0)"
    unfolding page_copy_inside [OF cp kj] by simp
qed

text \<open>New frames have been mapped, and then memory has been written inside those frames only.\<close>

lemma mapped_written:
  fixes s s' :: "'a vmm_state_scheme"
  assumes ok: "kernel_ok s" and fm: "frames_mapped mmp start fs flags s s'" and ok': "kernel_ok s'"
    and obj: "heap_objects s \<subseteq> heap_objects s'" "\<forall>(q, k) \<in> heap_objects s. \<forall>x \<in> rng q (unat k). mem s' x = mem s x"
    and out: "\<forall>x. x \<notin> frame_bytes (set fs) \<longrightarrow> m x = mem s' x"
  defines "r \<equiv> s'\<lparr>mem := m\<rparr>"
  shows "kernel_ok r" "mm_ok r (mms r mmp)" "free_frames r = free_frames s'" "rest_kept mmp (page_span start (length fs)) s r"
proof -
  have inv: "pmm_inv s" "pmm_inv s'" and hp: "heap_ok s" and low: "regions_low (active_regions s')"
    using ok ok' by (simp_all add: kernel_ok_def)
  have fs: "set fs \<subseteq> used_frames s'" "set fs \<inter> mm_tables (mem s') (mms s' mmp) = {}" "set fs \<inter> used_frames s = {}"
    and okm: "mm_ok s' (mms s' mmp)" and sk: "space_kept (mms s mmp) s (mms s' mmp) s'"
    using fm used_free_frames_disjoint [OF inv(1)] unfolding frames_mapped_def by blast+
  note w = frames_write [OF ok' fs(1) out, folded r_def] and w' = frames_write(5-7) [OF ok' fs(1) out okm fs(2), folded r_def]
  show "kernel_ok r" "free_frames r = free_frames s'" by (rule w(1,2))+
  have rm: "mem r = m" "mms r = mms s'" by (simp_all add: r_def)
  show "mm_ok r (mms r mmp)" using w'(1) by (simp add: rm)
  have lk: "mm_lookup (mem r) (mms r mmp) w = mm_lookup (mem s) (mms s mmp) w" if "page_no w \<notin> page_span start (length fs)" for w
    using fm that w'(2) [of w] unfolding frames_mapped_def rm page_span_def by auto
  have dp: "data_page mmp r w \<and> user_byte (mem r) (mms r mmp) w = user_byte (mem s) (mms s mmp) w"
    if "page_no w \<notin> page_span start (length fs)" and "data_page mmp s w" for w
    using data_page_kept [OF inv(2) sk fs(1,3) out that(2)] w(3) w'(3) unfolding data_page_def user_byte_def [of "mem r"] lk [OF that(1)]
    by (simp add: rm)
  have "mem r x = mem s x" if "(q, k) \<in> heap_objects s" "x \<in> rng q (unat k)" for q k x
    using out heap_outside_frames [OF inv(2) low fs(1)] objects_in_span [OF hp that] obj(2) that by (simp add: rm del: in_rng) blast
  then show "rest_kept mmp (page_span start (length fs)) s r"
    using obj(1) w(4) lk dp fm unfolding rest_kept_def by (auto simp: rm frames_mapped_def simp del: in_rng)
qed

lemma mapped_fill:
  fixes s s' :: "'a vmm_state_scheme"
  assumes ok: "kernel_ok s" and fm: "frames_mapped mmp start fs flags s s'" "zeroed (mem s') fs" and ok': "kernel_ok s'"
    and obj: "heap_objects s \<subseteq> heap_objects s'" "\<forall>(q, k) \<in> heap_objects s. \<forall>x \<in> rng q (unat k). mem s' x = mem s x"
    and al: "aligned start" "unat flags < 4096" and len: "unat len \<le> length fs * 4096"
    and buf: "(buf, n) \<in> heap_objects s" "\<forall>i < unat len. src + of_nat i \<in> rng buf (unat n)"
  defines "r \<equiv> copy_from_buf_loop mmp src start len 0 s'"
  shows "kernel_ok r" "mm_ok r (mms r mmp)" "free_frames r = free_frames s'" "rest_kept mmp (page_span start (length fs)) s r"
    "image mmp start (length fs * 4096) (\<lambda>i. if i < unat len then mem s (src + of_nat i) else 0) r"
proof -
  have inv: "pmm_inv s'" and hp: "heap_ok s" and low: "regions_low (active_regions s')"
    using ok ok' by (simp_all add: kernel_ok_def)
  have mt: "mapped_to mmp start fs flags s'" using fm(1) al by (simp add: mapped_to_def frames_mapped_def)
  have fs: "set fs \<subseteq> used_frames s'" using fm(1) unfolding frames_mapped_def by blast
  have "buf_outside src fs (0 * 4096) (0 * 4096 + unat len)"
    using buf objects_in_span [OF hp buf(1)] heap_outside_frames [OF inv low fs] by (simp add: buf_outside_def del: in_rng)
  from copy_from_buf_loop_spec [OF ok' mt _ this] len obtain m where
    m: "r = s'\<lparr>mem := m\<rparr>" "page_copy src fs 0 (unat len) (mem s') m" unfolding r_def by auto
  have out: "\<forall>x. x \<notin> frame_bytes (set fs) \<longrightarrow> m x = mem s' x" using page_copy_outside [OF m(2)] by blast
  show "kernel_ok r" "mm_ok r (mms r mmp)" "free_frames r = free_frames s'" "rest_kept mmp (page_span start (length fs)) s r"
    using mapped_written [OF ok fm(1) ok' obj out, folded m(1)] by blast+
  have "mapped_to mmp start fs flags r" using mapped_to_write(2) [OF ok' mt subset_refl out] by (simp add: m(1))
  moreover have "mem s' (src + of_nat i) = mem s (src + of_nat i)" if "i < unat len" for i using obj(2) buf that by blast
  ultimately show "image mmp start (length fs * 4096) (\<lambda>i. if i < unat len then mem s (src + of_nat i) else 0) r"
    using image_filled [of mmp start fs flags r src "unat len" "mem s'"] m(2) fm(2) by (simp add: m(1) image_def)
qed

end
