(* ===== verification/Fork_Memory.thy ===== *)
theory Fork_Memory
  imports Address_Space
begin

text \<open>
  What copying the areas of an address space leaves (\<^verbatim>\<open>mm_copy_from_mm\<close> and \<^verbatim>\<open>mm_dupe\<close> in \<^verbatim>\<open>src/src/mm/vmm.c\<close>): the child sees
  the bytes its parent saw, in frames of its own, and the parent sees no change.
\<close>

section \<open>Copying frames\<close>

definition frames_copied :: "u64 list \<Rightarrow> u64 list \<Rightarrow> nat \<Rightarrow> memory \<Rightarrow> memory \<Rightarrow> bool" where
  "frames_copied gs fs lo m m' \<longleftrightarrow> (\<forall>x. x \<notin> frame_bytes (set fs) \<longrightarrow> m' x = m x)
     \<and> (\<forall>k < length fs. \<forall>j < 4096. m' (P_TO_V (fs ! k) + of_nat j) = m (P_TO_V ((if lo \<le> k then gs else fs) ! k) + of_nat j))"

lemma copy_frame:
  fixes m :: memory
  assumes inv: "pmm_inv s" and fs: "set fs \<subseteq> used_frames s" "distinct fs" and gs: "set gs \<subseteq> used_frames s" "set gs \<inter> set fs = {}"
    "length gs = length fs" and pg: "pg < length fs"
  defines "m1 \<equiv> memcpy m (P_TO_V (fs ! pg)) (P_TO_V (gs ! pg)) PAGE_SIZE"
  shows "x \<notin> frame_bytes (set fs) \<Longrightarrow> m1 x = m x"
    "j < 4096 \<Longrightarrow> m1 (P_TO_V (fs ! pg) + of_nat j) = m (P_TO_V (gs ! pg) + of_nat j)"
    "f \<in> used_frames s \<Longrightarrow> f \<noteq> fs ! pg \<Longrightarrow> j < 4096 \<Longrightarrow> m1 (P_TO_V f + of_nat j) = m (P_TO_V f + of_nat j)"
proof -
  have p: "fs ! pg \<in> set fs" "gs ! pg \<in> set gs" using pg gs(3) by simp_all
  then have f: "fs ! pg \<in> used_frames s" and g: "gs ! pg \<in> used_frames s" and ne: "fs ! pg \<noteq> gs ! pg"
    using fs(1) gs(1,2) by (blast, blast, metis disjoint_iff)
  have "rng (P_TO_V (fs ! pg)) 4096 \<inter> rng (P_TO_V (gs ! pg)) (unat PAGE_SIZE) = {}" using frames_disjoint [OF inv f g ne] by simp
  note cp = copy_into_frame [OF _ this, where m = m, folded m1_def]
  show "m1 x = m x" if "x \<notin> frame_bytes (set fs)"
    using cp(2) that nth_mem [OF pg] by (simp add: frame_bytes_def del: in_rng)
  show "m1 (P_TO_V (fs ! pg) + of_nat j) = m (P_TO_V (gs ! pg) + of_nat j)" if "j < 4096"
    using cp(1) [OF _ that] that by simp
  show "m1 (P_TO_V f + of_nat j) = m (P_TO_V f + of_nat j)" if "f \<in> used_frames s" "f \<noteq> fs ! pg" "j < 4096"
    using frames_disjoint [OF inv that(1) \<open>fs ! pg \<in> used_frames s\<close> that(2)] frame_byte [of f "{f}" j] that(3) cp(2)
    by (auto simp: frame_bytes_def simp del: in_rng)
qed

lemma frames_copied_step:
  fixes m m' :: memory
  assumes inv: "pmm_inv s" and fs: "set fs \<subseteq> used_frames s" "distinct fs" and gs: "set gs \<subseteq> used_frames s" "set gs \<inter> set fs = {}"
    "length gs = length fs" and pg: "pg < length fs"
    and fc: "frames_copied gs fs (Suc pg) (memcpy m (P_TO_V (fs ! pg)) (P_TO_V (gs ! pg)) PAGE_SIZE) m'"
  shows "frames_copied gs fs pg m m'"
  unfolding frames_copied_def
proof (intro conjI allI impI)
  let ?m1 = "memcpy m (P_TO_V (fs ! pg)) (P_TO_V (gs ! pg)) PAGE_SIZE"
  note c = copy_frame [OF inv fs gs pg, where m = m]
  show "m' x = m x" if "x \<notin> frame_bytes (set fs)" for x using fc c(1) that by (simp add: frames_copied_def)
  fix k j :: nat assume kj: "k < length fs" "j < 4096"
  let ?f = "(if Suc pg \<le> k then gs else fs) ! k"
  have "m' (P_TO_V (fs ! k) + of_nat j) = ?m1 (P_TO_V ?f + of_nat j)" using fc kj by (simp add: frames_copied_def)
  also have "\<dots> = m (P_TO_V ((if pg \<le> k then gs else fs) ! k) + of_nat j)"
  proof (cases "k = pg")
    case True
    then show ?thesis using c(2) [OF kj(2)] by simp
  next
    case False
    have "?f \<in> used_frames s" using fs(1) gs(1,3) kj(1) by (cases "Suc pg \<le> k") (simp_all add: subset_iff)
    moreover have "?f \<noteq> fs ! pg"
    proof (cases "Suc pg \<le> k")
      case True
      have "gs ! k \<in> set gs" "fs ! pg \<in> set fs" using gs(3) kj(1) pg by simp_all
      then show ?thesis using True gs(2) by (metis disjoint_iff)
    next
      case F: False
      then show ?thesis using False fs(2) kj(1) pg by (simp add: nth_eq_iff_index_eq)
    qed
    ultimately have "?m1 (P_TO_V ?f + of_nat j) = m (P_TO_V ?f + of_nat j)" by (rule c(3) [OF _ _ kj(2)])
    moreover have "Suc pg \<le> k \<longleftrightarrow> pg \<le> k" using False by auto
    ultimately show ?thesis by simp
  qed
  finally show "m' (P_TO_V (fs ! k) + of_nat j) = m (P_TO_V ((if pg \<le> k then gs else fs) ! k) + of_nat j)" .
qed

text \<open>The pages from \<open>start\<close> on lie in the frames \<open>gs\<close>.\<close>

definition reads_from :: "u64 \<Rightarrow> u64 \<Rightarrow> u64 list \<Rightarrow> 'a vmm_state_scheme \<Rightarrow> bool" where
  "reads_from mmp start gs s \<longleftrightarrow> mm_ok s (mms s mmp) \<and> set gs \<subseteq> used_frames s
     \<and> (\<forall>k < length gs. page_base (mm_lookup (mem s) (mms s mmp) (start + of_nat (k * 4096))) = gs ! k)"

lemma reads_from_entry:
  assumes "reads_from mmp start gs s" "k < length gs"
  shows "page_base (page_entry mmp (start + of_nat (k * 4096)) s) = gs ! k"
proof -
  let ?e = "mm_lookup (mem s) (mms s mmp) (start + of_nat (k * 4096))"
  have inv: "pmm_inv s" and u: "gs ! k \<in> used_frames s" and e: "page_base ?e = gs ! k"
    using assms nth_mem [OF assms(2)] by (simp_all only: reads_from_def mm_ok_def) blast+
  have "gs ! k \<noteq> 0" using used_frame_props [OF inv u] by blast
  then have "?e \<noteq> 0" using e by (metis page_base_small unat_0 zero_less_numeral)
  then show ?thesis using page_entry_lookup [of s mmp] e by simp
qed

text \<open>One turn of the loop of \<^verbatim>\<open>mm_copy_from_mm\<close>.\<close>

definition copy_page :: "u64 \<Rightarrow> u64 \<Rightarrow> u64 \<Rightarrow> u64 \<Rightarrow> 'a vmm_state_scheme \<Rightarrow> 'a vmm_state_scheme res" where
  "copy_page dst src start off s = (let src_data = P_TO_V (page_base (page_entry src (start + off) s));
       dst_data = P_TO_V (page_base (page_entry dst (start + off) s))
     in Inr (s\<lparr>mem := memcpy (mem s) dst_data src_data PAGE_SIZE\<rparr>))"

lemma mm_copy_from_mm_loop: "page_off start = 0 \<Longrightarrow> mm_copy_from_mm dst src start pages s = page_loop64 (copy_page dst src start) 0 (unat pages) s"
  by (simp add: mm_copy_from_mm_def copy_page_def [abs_def])

lemma copy_pages_loop:
  assumes "kernel_ok s" "mapped_to dst start fs flags s" "reads_from src start gs s"
    "set fs \<inter> mm_tables (mem s) (mms s src) = {}" "set gs \<inter> set fs = {}" "length gs = length fs" "pg \<le> length fs"
  shows "\<exists>m. page_loop64 (copy_page dst src start) pg (length fs - pg) s = Inr (s\<lparr>mem := m\<rparr>)
      \<and> frames_copied gs fs pg (mem s) m"
  using assms
proof (induction "length fs - pg" arbitrary: pg s)
  case 0
  then have "page_loop64 (copy_page dst src start) pg (length fs - pg) s = Inr (s\<lparr>mem := mem s\<rparr>)" "frames_copied gs fs pg (mem s) (mem s)"
    by (simp_all add: frames_copied_def)
  then show ?case by blast
next
  case (Suc n)
  have pg: "pg < length fs" and n: "n = length fs - Suc pg" using Suc(2) by simp_all
  have inv: "pmm_inv s" and fs: "set fs \<subseteq> used_frames s" "distinct fs" and gs: "set gs \<subseteq> used_frames s" and ok: "mm_ok s (mms s src)"
    using Suc(3-5) unfolding kernel_ok_def mapped_to_def reads_from_def by blast+
  define m1 where "m1 = memcpy (mem s) (P_TO_V (fs ! pg)) (P_TO_V (gs ! pg)) PAGE_SIZE"
  define s1 where "s1 = s\<lparr>mem := m1\<rparr>"
  note c = copy_frame [OF inv fs gs Suc(7,8) pg, where m = "mem s", folded m1_def]
  have out: "\<forall>x. x \<notin> frame_bytes (set fs) \<longrightarrow> m1 x = mem s x" using c(1) by blast
  note w = frames_write [OF Suc(3) fs(1) out, folded s1_def] and w' = frames_write(5-7) [OF Suc(3) fs(1) out ok Suc(6), folded s1_def]
  have m1: "mem s1 = m1" "mms s1 = mms s" "\<And>m. s1\<lparr>mem := m\<rparr> = s\<lparr>mem := m\<rparr>" by (simp_all add: s1_def)
  have r: "reads_from src start gs s1" using Suc(5) w(3) w'(1,2) by (simp add: reads_from_def m1)
  have mt: "mapped_to dst start fs flags s1" using mapped_to_write(2) [OF Suc(3,4) subset_refl out] by (simp add: s1_def)
  have tb: "set fs \<inter> mm_tables (mem s1) (mms s1 src) = {}" using Suc(6) w'(3) by (simp add: m1)
  have "Suc pg \<le> length fs" using pg by simp
  from Suc(1) [OF n w(1) mt r tb Suc(7,8) this, unfolded m1] obtain m where
    m: "page_loop64 (copy_page dst src start) (Suc pg) (length fs - Suc pg) s1 = Inr (s\<lparr>mem := m\<rparr>)" "frames_copied gs fs (Suc pg) m1 m" by blast
  have off: "PAGE_SIZE * of_nat pg = (of_nat (pg * 4096) :: u64)" by simp
  have e: "page_base (page_entry src (start + of_nat (pg * 4096)) s) = gs ! pg" "page_base (page_entry dst (start + of_nat (pg * 4096)) s) = fs ! pg"
    using reads_from_entry [OF Suc(5)] mapped_entry [OF Suc(4) pg] pg Suc(8) by simp_all
  have "frames_copied gs fs pg (mem s) m"
    by (rule frames_copied_step [OF inv fs gs Suc(7,8) pg]) (use m(2) in \<open>simp add: m1_def\<close>)
  moreover have "length fs - pg = Suc (length fs - Suc pg)" using pg by simp
  moreover have "copy_page dst src start (PAGE_SIZE * of_nat pg) s = Inr s1"
    unfolding copy_page_def off Let_def e m1_def [symmetric] s1_def ..
  ultimately show ?case using m(1) by (simp only: page_loop64.simps rbind_Inr) blast
qed

section \<open>Two address spaces\<close>

text \<open>A change of one address space leaves another one alone that shares no table with it.\<close>

lemma other_space:
  assumes ok: "mm_ok s mm" and inv: "pmm_inv s'" and sk: "space_kept new s new' s'" and dj: "mm_tables (mem s) mm \<inter> mm_tables (mem s) new = {}"
  shows "mm_ok s' mm" "mm_lookup (mem s') mm w = mm_lookup (mem s) mm w" "mm_tables (mem s') mm = mm_tables (mem s) mm"
    "mm_tables (mem s') mm \<inter> mm_tables (mem s') new' = {}"
proof -
  have pi: "pmm_inv s" using ok by (simp add: mm_ok_def)
  have used: "used_frames s \<subseteq> used_frames s'" using sk by (simp add: space_kept_def)
  have "entry (mem s') t j = entry (mem s) t j" if "t \<in> mm_tables (mem s) mm" "j < 512" for t j
  proof -
    have t: "t \<in> used_frames s" "t \<in> used_frames s - mm_tables (mem s) new" using that(1) mm_tables_used [OF ok] dj by auto
    have "mem s' x = mem s x" if "x \<in> rng (P_TO_V t) 4096" for x
      using sk in_frame_bytes [OF t(2) that] by (simp add: space_kept_def)
    then show ?thesis using used_frame_props [OF pi t(1)] \<open>j < 512\<close> by (intro entry_cong) blast+
  qed
  note st = mm_same_tables [OF ok inv subset_trans [OF mm_tables_used [OF ok] used] this]
  show "mm_ok s' mm" "mm_lookup (mem s') mm w = mm_lookup (mem s) mm w" and tb: "mm_tables (mem s') mm = mm_tables (mem s) mm"
    using st by blast+
  show "mm_tables (mem s') mm \<inter> mm_tables (mem s') new' = {}"
    using sk dj mm_tables_used [OF ok] unfolding tb space_kept_def by blast
qed

definition two_spaces :: "u64 \<Rightarrow> u64 \<Rightarrow> 'a vmm_state_scheme \<Rightarrow> bool" where
  "two_spaces old new s \<longleftrightarrow> kernel_ok s \<and> old \<noteq> new \<and> mm_ok s (mms s old) \<and> mm_ok s (mms s new)
     \<and> mm_tables (mem s) (mms s old) \<inter> mm_tables (mem s) (mms s new) = {}"

text \<open>A page of the parent that holds data, and no table of the child.\<close>

definition source_page :: "u64 \<Rightarrow> u64 \<Rightarrow> 'a vmm_state_scheme \<Rightarrow> u64 \<Rightarrow> bool" where
  "source_page old new s w \<longleftrightarrow> data_page old s w \<and> page_base (mm_lookup (mem s) (mms s old) w) \<notin> mm_tables (mem s) (mms s new)"

definition parent_kept :: "u64 \<Rightarrow> u64 \<Rightarrow> 'a vmm_state_scheme \<Rightarrow> 'a vmm_state_scheme \<Rightarrow> bool" where
  "parent_kept old new s s' \<longleftrightarrow> mms s' old = mms s old
     \<and> (\<forall>w. mm_lookup (mem s') (mms s' old) w = mm_lookup (mem s) (mms s old) w
          \<and> (source_page old new s w \<longrightarrow> source_page old new s' w \<and> user_byte (mem s') (mms s' old) w = user_byte (mem s) (mms s old) w))"

lemma parent_kept_trans: "parent_kept old new s s' \<Longrightarrow> parent_kept old new s' s'' \<Longrightarrow> parent_kept old new s s''"
  unfolding parent_kept_def by auto

lemma parent_written:
  fixes s s' :: "'a vmm_state_scheme"
  assumes ts: "two_spaces old new s" and fm: "frames_mapped new start fs flags s s'" and ok': "kernel_ok s'"
    and out: "\<forall>x. x \<notin> frame_bytes (set fs) \<longrightarrow> m x = mem s' x"
  defines "r \<equiv> s'\<lparr>mem := m\<rparr>"
  shows "mm_ok r (mms r old)" "mm_tables (mem r) (mms r old) \<inter> mm_tables (mem r) (mms r new) = {}" "parent_kept old new s r"
    "set fs \<inter> mm_tables (mem s') (mms s' old) = {}"
proof -
  have ok: "kernel_ok s" "mm_ok s (mms s old)" "mm_tables (mem s) (mms s old) \<inter> mm_tables (mem s) (mms s new) = {}" and ne: "old \<noteq> new"
    using ts by (simp_all add: two_spaces_def)
  have inv: "pmm_inv s" "pmm_inv s'" using ok(1) ok' by (simp_all add: kernel_ok_def)
  have fs: "set fs \<subseteq> used_frames s'" "set fs \<inter> mm_tables (mem s') (mms s' new) = {}" "set fs \<inter> used_frames s = {}"
    and okn: "mm_ok s' (mms s' new)" and sk: "space_kept (mms s new) s (mms s' new) s'" and mo: "mms s' old = mms s old"
    using fm used_free_frames_disjoint [OF inv(1)] ne unfolding frames_mapped_def by blast+
  note os = other_space [OF ok(2) inv(2) sk ok(3), folded mo]
  show ft: "set fs \<inter> mm_tables (mem s') (mms s' old) = {}" using os(3) mm_tables_used [OF ok(2)] fs(3) mo by auto
  note wn = frames_write(7) [OF ok' fs(1) out okn fs(2), folded r_def] and wo = frames_write(5-7) [OF ok' fs(1) out os(1) ft, folded r_def]
  have rm: "mem r = m" "mms r = mms s'" by (simp_all add: r_def)
  have used: "used_frames r = used_frames s'" using frames_write(3) [OF ok' fs(1) out] by (simp add: r_def)
  show "mm_ok r (mms r old)" using wo(1) by (simp add: rm)
  show "mm_tables (mem r) (mms r old) \<inter> mm_tables (mem r) (mms r new) = {}" using os(4) wo(3) wn by (simp add: rm)
  have lk: "mm_lookup (mem r) (mms r old) w = mm_lookup (mem s) (mms s old) w" for w using wo(2) os(2) by (simp add: rm mo)
  have "source_page old new r w \<and> user_byte (mem r) (mms r old) w = user_byte (mem s) (mms s old) w" if d: "source_page old new s w" for w
  proof -
    let ?f = "page_base (mm_lookup (mem s) (mms s old) w)"
    have f: "?f \<in> used_frames s - mm_tables (mem s) (mms s old)" "?f \<in> used_frames s - mm_tables (mem s) (mms s new)"
      using d by (simp_all add: source_page_def data_page_def)
    then have f': "?f \<in> used_frames s'" "?f \<notin> mm_tables (mem s') (mms s' new)" "?f \<notin> mm_tables (mem s') (mms s' old)"
      using sk os(3) mo by (auto simp: space_kept_def)
    have x: "P_TO_V ?f + page_off w \<in> rng (P_TO_V ?f) 4096" using unat_page_off [of w] by simp
    have "P_TO_V ?f + page_off w \<notin> frame_bytes (set fs)"
      using frames_disjoint [OF inv(2) f'(1)] f(1) fs(1,3) x by (fastforce simp: frame_bytes_def simp del: in_rng)
    moreover have "mem s' (P_TO_V ?f + page_off w) = mem s (P_TO_V ?f + page_off w)"
      using sk in_frame_bytes [OF f(2) x] by (simp add: space_kept_def)
    ultimately have "mem r (P_TO_V ?f + page_off w) = mem s (P_TO_V ?f + page_off w)" using out by (simp add: rm)
    then show ?thesis unfolding source_page_def data_page_def user_byte_def lk using f' used wn wo(3) by (simp add: rm)
  qed
  then show "parent_kept old new s r" using lk by (simp add: parent_kept_def rm mo)
qed

section \<open>Duplicating areas\<close>

text \<open>An area structure that no new allocation can overlay: it is a live object, or it is not in the heap.\<close>

definition stable_vma :: "'a vmm_state_scheme \<Rightarrow> u64 \<Rightarrow> bool" where
  "stable_vma s v \<longleftrightarrow> v \<in> fst ` heap_objects s \<or> v \<notin> heap_span"

text \<open>Frames that have been copied hold what the other address space reads.\<close>

lemma copied_image:
  assumes mr: "mapped_to new start fs flags r" and sk: "space_kept (mms s new) s (mms s1 new) s1"
    and gs: "set gs \<subseteq> used_frames s - mm_tables (mem s) (mms s new)" and fc: "frames_copied gs fs 0 (mem s1) (mem r)" and al: "aligned start"
    and len: "length gs = length fs" and g: "\<And>k. k < length fs \<Longrightarrow> gs ! k = page_base (mm_lookup (mem s) (mms s old) (start + of_nat (k * 4096)))"
  shows "image new start (length fs * 4096) (\<lambda>i. user_byte (mem s) (mms s old) (start + of_nat i)) r"
proof (rule image_frames [OF mr])
  fix k j :: nat assume kj: "k < length fs" "j < 4096"
  have gk: "gs ! k \<in> used_frames s - mm_tables (mem s) (mms s new)" using gs len kj(1) by (metis nth_mem subsetD)
  have "mem r (P_TO_V (fs ! k) + of_nat j) = mem s1 (P_TO_V (gs ! k) + of_nat j)" using fc kj by (simp add: frames_copied_def)
  also have "\<dots> = mem s (P_TO_V (gs ! k) + of_nat j)" using sk frame_byte [OF gk kj(2)] by (simp add: space_kept_def)
  also have "\<dots> = user_byte (mem s) (mms s old) (start + of_nat (k * 4096 + j))"
    using g [OF kj(1)] unfolding user_byte_def mm_lookup_page [OF page_split(1) [OF al kj(2)]] page_split(2) [OF al kj(2)] by simp
  finally show "mem r (P_TO_V (fs ! k) + of_nat j) = user_byte (mem s) (mms s old) (start + of_nat (k * 4096 + j))" .
qed

text \<open>One area: new pages for the child, with the bytes of the parent.\<close>

lemma dupe_area:
  fixes s :: "'a vmm_state_scheme"
  assumes ts: "two_spaces old new s" and off: "page_off start = 0" and n: "unat pages \<le> 2 ^ 19"
    and free: "5 * unat pages \<le> card (free_frames s)" and src: "\<forall>k < unat pages. source_page old new s (start + of_nat (k * 4096))"
  shows "anon_mmap new start pages prot user s = Inl (Panic ''kernel heap exhausted'') \<or>
    (\<exists>s1 s'. anon_mmap new start pages prot user s = Inr s1 \<and> mm_copy_from_mm new old start pages s1 = Inr s'
      \<and> two_spaces old new s' \<and> image new start (unat pages * 4096) (\<lambda>i. user_byte (mem s) (mms s old) (start + of_nat i)) s'
      \<and> (\<forall>i < unat pages * 4096. page_base (mm_lookup (mem s') (mms s' new) (start + of_nat i)) \<notin> used_frames s)
      \<and> rest_kept new (page_span start (unat pages)) s s' \<and> parent_kept old new s s'
      \<and> card (free_frames s) \<le> card (free_frames s') + 5 * unat pages \<and> used_frames s \<subseteq> used_frames s'
      \<and> (\<forall>v. stable_vma s v \<longrightarrow> vmas s1 v = vmas s v) \<and> vmas s' = vmas s1)"
proof -
  have ok: "kernel_ok s" "mm_ok s (mms s new)" "mm_ok s (mms s old)" "old \<noteq> new" "pmm_inv s"
    and dj: "mm_tables (mem s) (mms s old) \<inter> mm_tables (mem s) (mms s new) = {}"
    using ts by (simp_all add: two_spaces_def kernel_ok_def)
  have al: "aligned start" using off by (simp add: aligned_iff_page_off)
  define gs where "gs = map (\<lambda>k. page_base (mm_lookup (mem s) (mms s old) (start + of_nat (k * 4096)))) [0..<unat pages]"
  have g: "length gs = unat pages" "\<And>k. k < unat pages \<Longrightarrow> gs ! k = page_base (mm_lookup (mem s) (mms s old) (start + of_nat (k * 4096)))"
    by (simp_all add: gs_def)
  have gs: "set gs \<subseteq> used_frames s - mm_tables (mem s) (mms s new)"
    using src by (auto simp: gs_def source_page_def data_page_def)
  from anon_mmap_spec [OF ok(1,2) free n off, of prot user] show ?thesis
  proof (elim disjE exE conjE)
    fix s1 fs li vma
    assume am: "anon_mmap new start pages prot user s = Inr s1" and k1: "kernel_ok s1" and l: "length fs = unat pages"
      and fm: "frames_mapped new start fs (vma_flags prot user) s s1"
      and ob: "heap_objects s \<subseteq> heap_objects s1" "\<forall>(q, k) \<in> heap_objects s. \<forall>x \<in> rng q (unat k). mem s1 x = mem s x"
      and vm: "vma \<notin> fst ` heap_objects s" "vma \<in> heap_span" "vmas s1 = (vmas s)(vma := \<lparr>refcnt = 1, vm_type = VM_AREA_REG, vm_start = start, vm_pages = pages,
        vm_user = user, vm_prot = ucast prot\<rparr>)"
    have sk: "space_kept (mms s new) s (mms s1 new) s1" and mo: "mms s1 old = mms s old" and ff: "set fs \<inter> used_frames s = {}"
      using fm ok(4) used_free_frames_disjoint [OF ok(5)] unfolding frames_mapped_def by blast+
    have inv1: "pmm_inv s1" using k1 by (simp add: kernel_ok_def)
    note os = other_space [OF ok(3) inv1 sk dj, folded mo]
    have mt: "mapped_to new start fs (vma_flags prot user) s1"
      using fm al vma_flags_bound by (simp add: mapped_to_def frames_mapped_def)
    have rf: "reads_from old start gs s1"
      using os(1,2) gs g sk by (auto simp: reads_from_def mo space_kept_def)
    have gf: "set gs \<inter> set fs = {}" using gs ff by blast
    have "length gs = length fs" using g l by simp
    moreover have "set fs \<inter> mm_tables (mem s1) (mms s1 old) = {}" by (rule parent_written(4) [OF ts fm k1, of "mem s1"]) simp
    ultimately obtain m where m: "page_loop64 (copy_page new old start) 0 (length fs) s1 = Inr (s1\<lparr>mem := m\<rparr>)" "frames_copied gs fs 0 (mem s1) m"
      using copy_pages_loop [OF k1 mt rf _ gf, where pg = 0] by auto
    have out: "\<forall>x. x \<notin> frame_bytes (set fs) \<longrightarrow> m x = mem s1 x" using m(2) by (simp add: frames_copied_def)
    define r where "r = s1\<lparr>mem := m\<rparr>"
    note w = mapped_written [OF ok(1) fm k1 ob out, folded r_def] and pw = parent_written [OF ts fm k1 out, folded r_def]
    have "two_spaces old new r" using w(1,2) pw(1,2) ok(4) by (simp add: two_spaces_def)
    moreover have "mm_copy_from_mm new old start pages s1 = Inr r" using m(1) l by (simp add: mm_copy_from_mm_loop [OF off] r_def)
    moreover have mr: "mapped_to new start fs (vma_flags prot user) r" using mapped_to_write(2) [OF k1 mt subset_refl out] by (simp add: r_def)
    then have "\<forall>i < length fs * 4096. page_base (mm_lookup (mem r) (mms r new) (start + of_nat i)) \<notin> used_frames s"
      using mapped_byte_frame ff by blast
    moreover have "image new start (length fs * 4096) (\<lambda>i. user_byte (mem s) (mms s old) (start + of_nat i)) r"
      by (rule copied_image [OF mr sk gs _ al]) (use m(2) g l in \<open>simp_all add: r_def\<close>)
    moreover have "card (free_frames s) \<le> card (free_frames r) + 5 * unat pages" using fm w(3) l by (simp add: frames_mapped_def)
    moreover have "\<forall>v. stable_vma s v \<longrightarrow> vmas s1 v = vmas s v" "vmas r = vmas s1" using vm by (auto simp: r_def stable_vma_def)
    moreover have "used_frames s \<subseteq> used_frames r"
      using sk frames_write(3) [OF k1 _ out] fm unfolding r_def space_kept_def frames_mapped_def by blast
    ultimately show ?thesis using am w(4) pw(3) l by (intro disjI2 exI [of _ s1] exI [of _ r]) simp
  qed blast
qed

text \<open>The pages of an area that \<^verbatim>\<open>mm_dupe\<close> copies; the kernel's areas are shared by \<^verbatim>\<open>mm_new\<close>.\<close>

definition area_pages :: "vm_area \<Rightarrow> nat" where
  "area_pages a = (if vm_type a = VM_AREA_REG then unat (vm_pages a) else 0)"

definition area_span :: "vm_area \<Rightarrow> nat set" where
  "area_span a = page_span (vm_start a) (area_pages a)"

fun areas_apart :: "vm_area list \<Rightarrow> bool" where
  "areas_apart [] = True"
| "areas_apart (a # as) = ((\<forall>b \<in> set as. area_span a \<inter> area_span b = {}) \<and> areas_apart as)"

text \<open>An area of the parent, with contents \<open>C\<close>, that can be duplicated.\<close>

definition area_ready :: "u64 \<Rightarrow> u64 \<Rightarrow> (u64 \<Rightarrow> u8) \<Rightarrow> 'a vmm_state_scheme \<Rightarrow> vm_area \<Rightarrow> bool" where
  "area_ready old new C s a \<longleftrightarrow> page_off (vm_start a) = 0 \<and> area_pages a \<le> 2 ^ 19
     \<and> (\<forall>i < area_pages a * 4096. source_page old new s (vm_start a + of_nat i)
          \<and> user_byte (mem s) (mms s old) (vm_start a + of_nat i) = C (vm_start a + of_nat i))"

text \<open>The child has the contents \<open>C\<close> in frames that are not in \<open>U\<close>.\<close>

definition area_copied :: "u64 \<Rightarrow> (u64 \<Rightarrow> u8) \<Rightarrow> u64 set \<Rightarrow> vm_area \<Rightarrow> 'a vmm_state_scheme \<Rightarrow> bool" where
  "area_copied new C U a s \<longleftrightarrow> image new (vm_start a) (area_pages a * 4096) (\<lambda>i. C (vm_start a + of_nat i)) s
     \<and> (\<forall>i < area_pages a * 4096. page_base (mm_lookup (mem s) (mms s new) (vm_start a + of_nat i)) \<notin> U)"

lemma area_ready_kept: "area_ready old new C s a \<Longrightarrow> parent_kept old new s s' \<Longrightarrow> area_ready old new C s' a"
  unfolding area_ready_def parent_kept_def by auto

lemma area_copied_kept:
  assumes "area_copied new C U a s" "page_off (vm_start a) = 0" "rest_kept new P s s'" "area_span a \<inter> P = {}"
  shows "area_copied new C U a s'"
proof -
  have p: "page_no (vm_start a + of_nat i) \<notin> P" if "i < area_pages a * 4096" for i
    using page_span_byte [OF _ that] assms(2,4) by (auto simp: aligned_iff_page_off area_span_def)
  have "image new (vm_start a) (area_pages a * 4096) (\<lambda>i. C (vm_start a + of_nat i)) s'"
    by (rule image_kept [OF _ assms(3) p]) (use assms(1) in \<open>simp add: area_copied_def\<close>)
  then show ?thesis using assms(1,3) p by (simp add: area_copied_def rest_kept_def)
qed

lemma dupe_area_step:
  fixes s :: "'a vmm_state_scheme"
  assumes ts: "two_spaces old new s" and st: "stable_vma s vma" "\<forall>v \<in> V. stable_vma s v" and rd: "area_ready old new C s (vmas s vma)"
    and free: "5 * area_pages (vmas s vma) \<le> card (free_frames s)" and U: "U \<subseteq> used_frames s"
  shows "dupe_areas new old ((li, vma) # lis) s = Inl (Panic ''kernel heap exhausted'') \<or>
    (\<exists>s'. dupe_areas new old ((li, vma) # lis) s = dupe_areas new old lis s' \<and> two_spaces old new s'
      \<and> area_copied new C U (vmas s vma) s' \<and> rest_kept new (area_span (vmas s vma)) s s' \<and> parent_kept old new s s'
      \<and> card (free_frames s) \<le> card (free_frames s') + 5 * area_pages (vmas s vma)
      \<and> U \<subseteq> used_frames s' \<and> (\<forall>v \<in> V. stable_vma s' v \<and> vmas s' v = vmas s v))"
proof (cases "vm_type (vmas s vma) = VM_AREA_REG")
  case False
  then have "dupe_areas new old ((li, vma) # lis) s = dupe_areas new old lis s" "area_pages (vmas s vma) = 0"
    by (auto simp: area_pages_def split: vm_area_type.split)
  then show ?thesis using ts st(2) U rest_kept_refl [of new _ s]
    by (intro disjI2 exI [of _ s]) (simp add: area_copied_def image_def area_span_def page_span_def parent_kept_def del: dupe_areas.simps)
next
  case True
  let ?a = "vmas s vma"
  have n: "area_pages ?a = unat (vm_pages ?a)" using True by (simp add: area_pages_def)
  have r: "page_off (vm_start ?a) = 0" "unat (vm_pages ?a) \<le> 2 ^ 19"
    and c: "\<And>i. i < unat (vm_pages ?a) * 4096 \<Longrightarrow> source_page old new s (vm_start ?a + of_nat i)
        \<and> user_byte (mem s) (mms s old) (vm_start ?a + of_nat i) = C (vm_start ?a + of_nat i)"
    using rd by (simp_all add: area_ready_def n)
  have sp: "\<forall>k < unat (vm_pages ?a). source_page old new s (vm_start ?a + of_nat (k * 4096))"
    using c [THEN conjunct1] by (auto simp del: of_nat_mult)
  from dupe_area [OF ts r free [unfolded n] sp, of "ucast (vm_prot ?a)" "vm_user ?a"] show ?thesis
  proof (elim disjE exE conjE)
    fix s1 s'
    assume a: "anon_mmap new (vm_start ?a) (vm_pages ?a) (ucast (vm_prot ?a)) (vm_user ?a) s = Inr s1"
      "mm_copy_from_mm new old (vm_start ?a) (vm_pages ?a) s1 = Inr s'" "two_spaces old new s'"
      "image new (vm_start ?a) (unat (vm_pages ?a) * 4096) (\<lambda>i. user_byte (mem s) (mms s old) (vm_start ?a + of_nat i)) s'"
      "rest_kept new (page_span (vm_start ?a) (unat (vm_pages ?a))) s s'" "parent_kept old new s s'"
      "card (free_frames s) \<le> card (free_frames s') + 5 * unat (vm_pages ?a)"
      and u: "\<forall>i < unat (vm_pages ?a) * 4096. page_base (mm_lookup (mem s') (mms s' new) (vm_start ?a + of_nat i)) \<notin> used_frames s"
        "used_frames s \<subseteq> used_frames s'"
      and st1: "\<forall>v. stable_vma s v \<longrightarrow> vmas s1 v = vmas s v" "vmas s' = vmas s1"
    have v1: "vmas s1 vma = ?a" using st1(1) st(1) by simp
    have "dupe_areas new old ((li, vma) # lis) s = dupe_areas new old lis s'" using True a(1,2) by (simp add: v1)
    moreover have "area_copied new C U ?a s'" using a(4) c u(1) U by (auto simp: area_copied_def image_def n)
    moreover have "heap_objects s \<subseteq> heap_objects s'" using a(5) by (simp add: rest_kept_def)
    then have "\<forall>v \<in> V. stable_vma s' v \<and> vmas s' v = vmas s v" using st(2) st1 unfolding stable_vma_def by (metis image_mono subsetD)
    ultimately show ?thesis using a(3,5-7) u(2) U by (intro disjI2 exI [of _ s']) (simp add: area_span_def n del: dupe_areas.simps)
  qed (use True in simp)
qed

lemma dupe_areas_spec:
  fixes s :: "'a vmm_state_scheme"
  assumes "two_spaces old new s" "\<forall>v \<in> snd ` set lis. stable_vma s v \<and> area_ready old new C s (vmas s v)"
    "areas_apart (map (\<lambda>l. vmas s (snd l)) lis)" "5 * sum_list (map (\<lambda>l. area_pages (vmas s (snd l))) lis) \<le> card (free_frames s)"
    "U \<subseteq> used_frames s"
  shows "dupe_areas new old lis s = Inl (Panic ''kernel heap exhausted'') \<or>
    (\<exists>s'. dupe_areas new old lis s = Inr s' \<and> two_spaces old new s' \<and> parent_kept old new s s'
      \<and> (\<forall>v \<in> snd ` set lis. area_copied new C U (vmas s v) s')
      \<and> rest_kept new (\<Union>v \<in> snd ` set lis. area_span (vmas s v)) s s')"
  using assms
proof (induction lis arbitrary: s)
  case Nil
  then show ?case by (auto simp: parent_kept_def intro: rest_kept_refl)
next
  case (Cons la lis)
  obtain li vma where la: "la = (li, vma)" by fastforce
  let ?V = "snd ` set lis"
  have p: "stable_vma s vma" "area_ready old new C s (vmas s vma)" "\<forall>v \<in> ?V. stable_vma s v" "\<forall>v \<in> ?V. area_ready old new C s (vmas s v)"
    "5 * area_pages (vmas s vma) \<le> card (free_frames s)"
    using Cons.prems(2,4) by (auto simp: la)
  from dupe_area_step [OF Cons.prems(1) p(1,3,2,5) Cons.prems(5), of li lis] show ?case
  proof (elim disjE exE conjE)
    fix s1
    assume a: "dupe_areas new old ((li, vma) # lis) s = dupe_areas new old lis s1" "two_spaces old new s1"
      "area_copied new C U (vmas s vma) s1" "rest_kept new (area_span (vmas s vma)) s s1" "parent_kept old new s s1"
      "card (free_frames s) \<le> card (free_frames s1) + 5 * area_pages (vmas s vma)"
      "\<forall>v \<in> ?V. stable_vma s1 v \<and> vmas s1 v = vmas s v" and U1: "U \<subseteq> used_frames s1"
    have v: "map (\<lambda>l. vmas s1 (snd l)) lis = map (\<lambda>l. vmas s (snd l)) lis" "map (\<lambda>l. area_pages (vmas s1 (snd l))) lis = map (\<lambda>l. area_pages (vmas s (snd l))) lis"
      "(\<Union>v \<in> ?V. area_span (vmas s1 v)) = (\<Union>v \<in> ?V. area_span (vmas s v))"
      using a(7) by auto
    have "areas_apart (map (\<lambda>l. vmas s1 (snd l)) lis)" "5 * sum_list (map (\<lambda>l. area_pages (vmas s1 (snd l))) lis) \<le> card (free_frames s1)"
      using Cons.prems(3,4) a(6) unfolding v by (simp_all add: la)
    moreover have "\<forall>v \<in> ?V. stable_vma s1 v \<and> area_ready old new C s1 (vmas s1 v)" using a(5,7) p(4) area_ready_kept by metis
    ultimately have "dupe_areas new old lis s1 = Inl (Panic ''kernel heap exhausted'') \<or>
      (\<exists>s'. dupe_areas new old lis s1 = Inr s' \<and> two_spaces old new s' \<and> parent_kept old new s1 s'
        \<and> (\<forall>v \<in> ?V. area_copied new C U (vmas s1 v) s') \<and> rest_kept new (\<Union>v \<in> ?V. area_span (vmas s v)) s1 s')"
      using Cons.IH [OF a(2)] U1 unfolding v(3) by blast
    then show ?thesis
    proof (elim disjE exE conjE)
      fix s'
      assume b: "dupe_areas new old lis s1 = Inr s'" "two_spaces old new s'" "parent_kept old new s1 s'"
        "\<forall>v \<in> ?V. area_copied new C U (vmas s1 v) s'" "rest_kept new (\<Union>v \<in> ?V. area_span (vmas s v)) s1 s'"
      have "area_span (vmas s vma) \<inter> (\<Union>v \<in> ?V. area_span (vmas s v)) = {}" using Cons.prems(3) by (fastforce simp: la)
      from area_copied_kept [OF a(3) _ b(5) this] have "area_copied new C U (vmas s vma) s'" using p(2) by (simp add: area_ready_def)
      moreover have "rest_kept new (\<Union>v \<in> snd ` set (la # lis). area_span (vmas s v)) s s'"
        using rest_kept_trans [OF a(4) b(5)] by (simp add: la)
      ultimately show ?thesis using a(1,7) b parent_kept_trans [OF a(5)]
        by (intro disjI2 exI [of _ s']) (simp add: la del: dupe_areas.simps)
    qed (use a(1) la in \<open>simp del: dupe_areas.simps\<close>)
  qed (simp add: la del: dupe_areas.simps)
qed

section \<open>A sample\<close>

text \<open>A parent with one page of its own at \<^verbatim>\<open>0x400000\<close>, in which byte 5 is 7.\<close>

definition sample_area :: vm_area where
  "sample_area = \<lparr>refcnt = 1, vm_type = VM_AREA_REG, vm_start = 0x400000, vm_pages = 1, vm_user = True, vm_prot = 1\<rparr>"

definition sample_parent :: vmm_state where
  "sample_parent =
     (let s = set_vma 0x1000 sample_area (projr (page_loop (anon_page 1 0x400000 (vma_flags 1 True)) 0 1 sample_kernel))
      in s\<lparr>mem := (mem s)(P_TO_V (page_base (mm_lookup (mem s) (mms s 1) 0x400000)) + of_nat 5 := 7)\<rparr>)"

lemma sample_parent_facts:
  shows "kernel_ok sample_parent" "vmas sample_parent 0x1000 = sample_area" "58 \<le> card (free_frames sample_parent)"
    "\<exists>f. mapped_to 1 0x400000 [f] (vma_flags 1 True) sample_parent \<and> mem sample_parent (P_TO_V f + of_nat 5) = 7"
    "q \<noteq> 1 \<Longrightarrow> mms sample_parent q = zero_mm" "statics sample_parent = sample_statics"
proof -
  have al: "aligned (0x400000 :: u64)" by (simp add: aligned_def)
  have fr: "5 * 1 \<le> card (free_frames sample_kernel)" and le: "0 + (1 :: nat) \<le> 2 ^ 19" using sample_kernel_facts(3) by simp_all
  obtain s1 fs where s1: "page_loop (anon_page 1 0x400000 (vma_flags 1 True)) 0 1 sample_kernel = Inr s1" "length fs = 1" "distinct fs"
    "set fs \<subseteq> used_frames s1 - mm_tables (mem s1) (mms s1 1)" "mm_ok s1 (mms s1 1)" "card (free_frames sample_kernel) \<le> card (free_frames s1) + 5"
    "mm_kept (mms sample_kernel 1) sample_kernel (mms s1 1) s1" "objects_kept 1 sample_kernel s1"
    "\<forall>k < 1. mm_lookup (mem s1) (mms s1 1) (0x400000 + of_nat ((0 + k) * 4096)) = fs ! k OR vma_flags 1 True"
    using anon_pages [OF sample_kernel_facts(2) [of 1] fr vma_flags_bound [of 1 True] le al] by auto
  define s2 where "s2 = set_vma 0x1000 sample_area s1"
  have k2: "kernel_ok s2"
    using kernel_ok_phys_change(1) [OF sample_kernel_facts(1), of s1] s1(5,7,8) by (simp add: s2_def mm_ok_def mm_kept_def objects_kept_def)
  obtain f where f: "fs = [f]" using s1(2) by (metis length_0_conv length_Suc_conv One_nat_def)
  have e2: "mm_ok s2 mm = mm_ok s1 mm" "used_frames s2 = used_frames s1" "free_frames s2 = free_frames s1" for mm
    by (simp_all add: s2_def set_vma_def mm_ok_def pt_inv_def pmm_inv_def used_frames_def free_frames_def active_regions_def)
  have mt: "mapped_to 1 0x400000 [f] (vma_flags 1 True) s2"
    using s1(4,5,9) al vma_flags_bound e2 by (simp add: mapped_to_def f s2_def)
  then have pb: "page_base (mm_lookup (mem s2) (mms s2 1) 0x400000) = f" using mapped_to_frame(2) [OF mt, of 0] by (simp add: mapped_to_def)
  define m where "m = (mem s2)(P_TO_V f + of_nat 5 := 7)"
  have e: "sample_parent = s2\<lparr>mem := m\<rparr>" by (simp only: sample_parent_def s1(1) sum.sel s2_def [symmetric] Let_def pb m_def)
  have out: "\<forall>x. x \<notin> frame_bytes (set [f]) \<longrightarrow> m x = mem s2 x" using frame_byte [of f "set [f]" 5] by (auto simp: m_def)
  note w = mapped_to_write [OF k2 mt subset_refl out, folded e]
  show "kernel_ok sample_parent" by (rule w(1))
  show "\<exists>f. mapped_to 1 0x400000 [f] (vma_flags 1 True) sample_parent \<and> mem sample_parent (P_TO_V f + of_nat 5) = 7"
    using w(2) by (intro exI [of _ f]) (simp add: e m_def)
  show "q \<noteq> 1 \<Longrightarrow> mms sample_parent q = zero_mm" for q using s1(8) sample_kernel_facts(4) by (simp add: e s2_def objects_kept_def)
  show "statics sample_parent = sample_statics" using s1(8) sample_kernel_facts(7) by (simp add: e s2_def objects_kept_def set_vma_def)
  show "vmas sample_parent 0x1000 = sample_area" by (simp add: e s2_def)
  have "set [f] \<subseteq> used_frames s2" using mt by (auto simp: mapped_to_def)
  from frames_write(2) [OF k2 this out, folded e] show "58 \<le> card (free_frames sample_parent)"
    using s1(6) sample_kernel_facts(3) e2 by simp
qed

end
