(* ===== verification/New_Space.thy ===== *)
theory New_Space
  imports Fork_Memory
begin

text \<open>
  Creating and duplicating an address space: \<^verbatim>\<open>mm_share_vma\<close>, \<^verbatim>\<open>mm_init\<close>, \<^verbatim>\<open>mm_new\<close> and \<^verbatim>\<open>mm_dupe\<close> of
  \<^verbatim>\<open>src/src/mm/vmm.c\<close>. A new address space shares the pages of the kernel, and a duplicate has a copy of the
  pages of its parent.
\<close>

section \<open>An address space grows\<close>

definition same_area :: "vm_area \<Rightarrow> vm_area \<Rightarrow> bool" where
  "same_area a b \<longleftrightarrow> vm_type a = vm_type b \<and> vm_start a = vm_start b \<and> vm_pages a = vm_pages b \<and> vm_user a = vm_user b \<and> vm_prot a = vm_prot b"

text \<open>
  On the way from \<open>s\<close> to \<open>s'\<close> the address space at \<open>dst\<close> has got new pages, all among \<open>P\<close>. Other address spaces,
  areas up to their counts of users, live objects and the contents of frames in use are as before.
\<close>

definition spread :: "u64 \<Rightarrow> nat set \<Rightarrow> 'a vmm_state_scheme \<Rightarrow> 'a vmm_state_scheme \<Rightarrow> bool" where
  "spread dst P s s' \<longleftrightarrow> kernel_ok s' \<and> mm_ok s' (mms s' dst) \<and> space_kept (mms s dst) s (mms s' dst) s'
     \<and> heap_objects s \<subseteq> heap_objects s' \<and> (\<forall>(q, k) \<in> heap_objects s. \<forall>x \<in> rng q (unat k). mem s' x = mem s x)
     \<and> statics s' = statics s \<and> (\<forall>q. q \<noteq> dst \<longrightarrow> mms s' q = mms s q)
     \<and> (\<forall>w. page_no w \<notin> P \<longrightarrow> mm_lookup (mem s') (mms s' dst) w = mm_lookup (mem s) (mms s dst) w)
     \<and> (\<forall>v. same_area (vmas s' v) (vmas s v)) \<and> (mm_live (mem s) (mms s dst) \<longrightarrow> mm_live (mem s') (mms s' dst))"

lemma spreadD:
  assumes "spread dst P s s'"
  shows "kernel_ok s'" "mm_ok s' (mms s' dst)" "space_kept (mms s dst) s (mms s' dst) s'" "heap_objects s \<subseteq> heap_objects s'"
    and "(p, k) \<in> heap_objects s \<Longrightarrow> x \<in> rng p (unat k) \<Longrightarrow> mem s' x = mem s x" "statics s' = statics s"
    and "q \<noteq> dst \<Longrightarrow> mms s' q = mms s q" "page_no w \<notin> P \<Longrightarrow> mm_lookup (mem s') (mms s' dst) w = mm_lookup (mem s) (mms s dst) w"
    and "same_area (vmas s' v) (vmas s v)" "mm_live (mem s) (mms s dst) \<Longrightarrow> mm_live (mem s') (mms s' dst)"
  using assms unfolding spread_def by blast+

lemma spread_refl: "kernel_ok s \<Longrightarrow> mm_ok s (mms s dst) \<Longrightarrow> spread dst P s s"
  by (auto simp: spread_def space_kept_def same_area_def)

lemma spread_trans:
  assumes a: "spread dst P s s'" and b: "spread dst Q s' s''"
  shows "spread dst (P \<union> Q) s s''"
proof -
  note A = spreadD [OF a] and B = spreadD [OF b]
  have "mem s'' x = mem s x" if "(p, k) \<in> heap_objects s" "x \<in> rng p (unat k)" for p k x
    using A(5) [OF that] B(5) [OF subsetD [OF A(4) that(1)] that(2)] by simp
  moreover have "same_area (vmas s'' v) (vmas s v)" for v using A(9) [of v] B(9) [of v] by (simp add: same_area_def)
  ultimately show ?thesis
    unfolding spread_def using A(4,6-8,10) B(1,2,4,6-8,10) space_kept_trans [OF A(3) B(3)] by (auto simp del: in_rng)
qed

lemma spread_areas:
  assumes "spread dst P s s'"
  shows "vm_type (vmas s' v) = vm_type (vmas s v)" "vm_start (vmas s' v) = vm_start (vmas s v)" "vm_pages (vmas s' v) = vm_pages (vmas s v)"
    "vm_user (vmas s' v) = vm_user (vmas s v)" "vm_prot (vmas s' v) = vm_prot (vmas s v)"
  using spreadD(9) [OF assms, of v] by (simp_all add: same_area_def)

text \<open>Mapping pages, and entering an area in the list.\<close>

lemma kept_spread:
  fixes s s' :: "'a vmm_state_scheme"
  assumes ok: "kernel_ok s" "mm_ok s' (mms s' dst)" and kp: "mm_kept (mms s dst) s (mms s' dst) s'" "objects_kept dst s s'"
    and lk: "\<And>w. page_no w \<notin> P \<Longrightarrow> mm_lookup (mem s') (mms s' dst) w = mm_lookup (mem s) (mms s dst) w"
    and lv: "mm_live (mem s) (mms s dst) \<Longrightarrow> mm_live (mem s') (mms s' dst)"
  shows "spread dst P s s'"
proof -
  have inv: "pmm_inv s'" using ok(2) by (simp add: mm_ok_def)
  have f: "active_regions s' = active_regions s" "heap_base s' = heap_base s" "kernel_brk s' = kernel_brk s" "vmas s' = vmas s" "statics s' = statics s"
    "\<And>q. q \<noteq> dst \<Longrightarrow> mms s' q = mms s q" and out: "\<And>x. x \<notin> phys_bytes (active_regions s) \<Longrightarrow> mem s' x = mem s x"
    using kp by (simp_all add: objects_kept_def mm_kept_def)
  note k = kernel_ok_phys_change [OF ok(1) inv f(1) out f(2,3)]
  have r: "regions_ok (active_regions s)" "regions_low (active_regions s)" "heap_ok s" using ok(1) by (simp_all add: kernel_ok_def pmm_inv_def)
  have "mem s' x = mem s x" if "(q, k) \<in> heap_objects s" "x \<in> rng q (unat k)" for q k x
    by (rule out [OF heap_span_not_phys [OF r(1,2) objects_in_span [OF r(3) that]]])
  then show ?thesis
    unfolding spread_def using k ok(2) mm_kept_space [OF kp(1)] f(4-6) lk lv by (auto simp: same_area_def simp del: in_rng)
qed

lemma grown_spread:
  fixes s s' :: "'a vmm_state_scheme"
  assumes ok: "kernel_ok s" "mm_ok s (mms s dst)" and g: "heap_grown s s'" and p: "p4 (mms s' dst) = p4 (mms s dst)"
    and m: "\<And>q. q \<noteq> dst \<Longrightarrow> mms s' q = mms s q" and v: "\<And>v. same_area (vmas s' v) (vmas s v)"
  shows "spread dst {} s s'" "free_frames s' = free_frames s"
proof -
  note h = heap_grown_space [OF ok(1) g ok(2) p]
  show "spread dst {} s s'" using g h(1-5) m v unfolding spread_def heap_grown_def by simp
  show "free_frames s' = free_frames s" by (rule h(6))
qed

text \<open>An address space that shares no table with the one that grows is not affected, nor are its pages.\<close>

lemma spread_other:
  assumes ts: "two_spaces old dst s" and sp: "spread dst P s s'"
  shows "two_spaces old dst s'" "parent_kept old dst s s'"
proof -
  have t: "mm_ok s (mms s old)" "old \<noteq> dst" "mm_tables (mem s) (mms s old) \<inter> mm_tables (mem s) (mms s dst) = {}"
    using ts by (simp_all add: two_spaces_def)
  note S = spreadD [OF sp]
  have inv: "pmm_inv s'" using S(1) by (simp add: kernel_ok_def)
  have mo: "mms s' old = mms s old" by (rule S(7) [OF t(2)])
  note os = other_space [OF t(1) inv S(3) t(3), folded mo]
  show "two_spaces old dst s'" using S(1,2) os(1,4) t(2) by (simp add: two_spaces_def)
  have "source_page old dst s' w \<and> user_byte (mem s') (mms s' old) w = user_byte (mem s) (mms s old) w" if d: "source_page old dst s w" for w
  proof -
    let ?f = "page_base (mm_lookup (mem s) (mms s old) w)"
    have f: "?f \<in> used_frames s - mm_tables (mem s) (mms s dst)" "?f \<notin> mm_tables (mem s) (mms s old)"
      using d by (simp_all add: source_page_def data_page_def)
    have x: "P_TO_V ?f + page_off w \<in> rng (P_TO_V ?f) 4096" using unat_page_off [of w] by simp
    have "mem s' (P_TO_V ?f + page_off w) = mem s (P_TO_V ?f + page_off w)"
      using S(3) in_frame_bytes [OF f(1) x] by (simp add: space_kept_def)
    moreover have "?f \<in> used_frames s'" "?f \<notin> mm_tables (mem s') (mms s' dst)" "?f \<notin> mm_tables (mem s') (mms s' old)"
      using S(3) f os(3) mo by (auto simp: space_kept_def)
    ultimately show ?thesis using os(2) by (simp add: source_page_def data_page_def user_byte_def mo)
  qed
  then show "parent_kept old dst s s'" using os(2) by (simp add: parent_kept_def mo)
qed

lemma parent_lookup: "parent_kept old dst s s' \<Longrightarrow> mm_lookup (mem s') (mms s' old) = mm_lookup (mem s) (mms s old)"
  unfolding parent_kept_def by (intro ext) blast

section \<open>Sharing areas\<close>

definition vma_span :: "vm_area \<Rightarrow> nat set" where
  "vma_span a = page_span (vm_start a) (unat (vm_pages a))"

text \<open>An area whose pages are all mapped in the address space \<open>src\<close>.\<close>

definition sharable :: "u64 \<Rightarrow> 'a vmm_state_scheme \<Rightarrow> vm_area \<Rightarrow> bool" where
  "sharable src s a \<longleftrightarrow> page_off (vm_start a) = 0 \<and> unat (vm_pages a) \<le> 2 ^ 19
     \<and> (\<forall>k < unat (vm_pages a). mm_lookup (mem s) (mms s src) (vm_start a + of_nat (k * 4096)) \<noteq> 0)"

text \<open>The pages of the area lead, in \<open>dst\<close>, to where \<open>look\<close> says, with the flags of the area.\<close>

definition area_shared :: "u64 \<Rightarrow> (u64 \<Rightarrow> u64) \<Rightarrow> vm_area \<Rightarrow> 'a vmm_state_scheme \<Rightarrow> bool" where
  "area_shared dst look a s \<longleftrightarrow> (\<forall>k < unat (vm_pages a). mm_lookup (mem s) (mms s dst) (vm_start a + of_nat (k * 4096))
     = look (vm_start a + of_nat (k * 4096)) OR vma_flags (ucast (vm_prot a)) (vm_user a))"

definition share_page :: "u64 \<Rightarrow> u64 \<Rightarrow> u64 \<Rightarrow> u64 \<Rightarrow> u64 \<Rightarrow> 'a vmm_state_scheme \<Rightarrow> 'a vmm_state_scheme res" where
  "share_page dst src vma flags off s = (let virt = vm_start (vmas s vma) + off; phys = page_entry src virt s
     in Inr (map_page_at dst virt phys flags s))"

lemma share_pages:
  fixes s :: "'a vmm_state_scheme"
  assumes ts: "two_spaces src dst s" and sh: "sharable src s (vmas s vma)" and free: "4 * unat (vm_pages (vmas s vma)) \<le> card (free_frames s)"
  defines "a \<equiv> vmas s vma"
  defines "flags \<equiv> vma_flags (ucast (vm_prot a)) (vm_user a)"
  shows "\<exists>s'. page_loop (share_page dst src vma flags) 0 (unat (vm_pages a)) s = Inr s' \<and> spread dst (vma_span a) s s'
    \<and> area_shared dst (mm_lookup (mem s) (mms s src)) a s' \<and> card (free_frames s) \<le> card (free_frames s') + 4 * unat (vm_pages a)
    \<and> vmas s' = vmas s \<and> vm_areas (mms s' dst) = vm_areas (mms s dst)"
proof -
  have t: "kernel_ok s" "mm_ok s (mms s src)" "mm_ok s (mms s dst)" "src \<noteq> dst" "mm_tables (mem s) (mms s src) \<inter> mm_tables (mem s) (mms s dst) = {}"
    using ts by (simp_all add: two_spaces_def)
  have al: "aligned (vm_start a)" and n: "0 + unat (vm_pages a) \<le> 2 ^ 19"
    and nz: "\<And>k. k < unat (vm_pages a) \<Longrightarrow> mm_lookup (mem s) (mms s src) (vm_start a + of_nat (k * 4096)) \<noteq> 0"
    using sh by (simp_all add: sharable_def a_def aligned_iff_page_off)
  have fl: "unat flags < 4096" "flags \<noteq> 0"
    using vma_flags_bound by (simp_all add: flags_def vma_flags_def or_eq_0_iff PAGE_PRESENT_def)
  have step: "share_page dst src vma flags (of_nat (k * 4096)) s1
      = Inr (map_page_at dst (vm_start a + of_nat (k * 4096)) (mm_lookup (mem s) (mms s src) (vm_start a + of_nat (k * 4096))) flags s1)"
    if "0 \<le> k" "k < 0 + unat (vm_pages a)" "mm_ok s1 (mms s1 dst)" "mm_kept (mms s dst) s (mms s1 dst) s1" "objects_kept dst s s1" for k s1
  proof -
    have o: "vmas s1 = vmas s" "mms s1 src = mms s src" "pmm_inv s1" using that(3,5) t(4) by (simp_all add: objects_kept_def mm_ok_def)
    have l: "mm_lookup (mem s1) (mms s1 src) w = mm_lookup (mem s) (mms s src) w" for w
      using other_space(2) [OF t(2) o(3) mm_kept_space [OF that(4)] t(5)] by (simp add: o(2))
    then show ?thesis using page_entry_lookup [of s1 src] nz that(2) o(1) by (simp add: share_page_def a_def Let_def)
  qed
  show ?thesis
  proof (rule exE [OF map_loop [OF t(3) free [folded a_def] fl(1) n al, of "share_page dst src vma flags"]], erule (4) step, elim conjE)
    fix s'
    assume s': "page_loop (share_page dst src vma flags) 0 (unat (vm_pages a)) s = Inr s'" "mm_ok s' (mms s' dst)"
      "card (free_frames s) \<le> card (free_frames s') + 4 * unat (vm_pages a)" "mm_kept (mms s dst) s (mms s' dst) s'" "objects_kept dst s s'"
      "flags \<noteq> 0 \<longrightarrow> mm_live (mem s) (mms s dst) \<longrightarrow> mm_live (mem s') (mms s' dst)"
      and inn: "\<forall>k. 0 \<le> k \<and> k < 0 + unat (vm_pages a) \<longrightarrow> mm_lookup (mem s') (mms s' dst) (vm_start a + of_nat (k * 4096))
        = mm_lookup (mem s) (mms s src) (vm_start a + of_nat (k * 4096)) OR flags"
      and out: "\<forall>w. (\<forall>k. 0 \<le> k \<and> k < 0 + unat (vm_pages a) \<longrightarrow> page_no w \<noteq> page_no (vm_start a + of_nat (k * 4096))) \<longrightarrow>
          mm_lookup (mem s') (mms s' dst) w = mm_lookup (mem s) (mms s dst) w"
    have "spread dst (vma_span a) s s'"
      by (rule kept_spread [OF t(1) s'(2,4,5)]) (use out s'(6) fl(2) in \<open>auto simp: vma_span_def page_span_def\<close>)
    then show ?thesis using s'(1,3,5) inn by (auto simp: area_shared_def flags_def objects_kept_def)
  qed
qed

lemma share_area:
  fixes s :: "'a vmm_state_scheme"
  assumes ts: "two_spaces src dst s" and sh: "sharable src s (vmas s vma)" and free: "4 * unat (vm_pages (vmas s vma)) \<le> card (free_frames s)"
  defines "a \<equiv> vmas s vma"
  shows "mm_share_vma dst src vma s = Inl (Panic ''kernel heap exhausted'') \<or>
    (\<exists>s' li. mm_share_vma dst src vma s = Inr s' \<and> spread dst (vma_span a) s s'
      \<and> area_shared dst (mm_lookup (mem s) (mms s src)) a s' \<and> card (free_frames s) \<le> card (free_frames s') + 4 * unat (vm_pages a)
      \<and> vm_areas (mms s' dst) = (li, vma) # vm_areas (mms s dst))"
proof -
  from share_pages [OF ts sh free, folded a_def] obtain s1 where
    s1: "page_loop (share_page dst src vma (vma_flags (ucast (vm_prot a)) (vm_user a))) 0 (unat (vm_pages a)) s = Inr s1" "spread dst (vma_span a) s s1"
      "area_shared dst (mm_lookup (mem s) (mms s src)) a s1" "card (free_frames s) \<le> card (free_frames s1) + 4 * unat (vm_pages a)"
      "vm_areas (mms s1 dst) = vm_areas (mms s dst)" by blast
  have call: "mm_share_vma dst src vma s = mm_insert_vma dst vma s1"
    using s1(1) by (simp add: mm_share_vma_def share_page_def [abs_def] a_def [symmetric])
  note k1 = spreadD(1,2) [OF s1(2)]
  from mm_insert_vma_spec [OF k1(1), of dst vma] show ?thesis
  proof (elim disjE exE conjE)
    fix li s' k
    assume s': "mm_insert_vma dst vma s1 = Inr s'" "heap_grown s1 s'"
      "mms s' = (mms s1)(dst := (mms s1 dst)\<lparr>vm_areas := (li, vma) # vm_areas (mms s1 dst)\<rparr>)"
      "vmas s' = (vmas s1)(vma := (vmas s1 vma)\<lparr>refcnt := refcnt (vmas s1 vma) + 1\<rparr>)"
    have "spread dst {} s1 s'" and fr: "free_frames s' = free_frames s1"
      by (rule grown_spread [OF k1 s'(2)]; simp add: s'(3,4) same_area_def)+
    from spread_trans [OF s1(2) this(1)] have "spread dst (vma_span a) s s'" by simp
    moreover have "area_shared dst (mm_lookup (mem s) (mms s src)) a s'"
      using s1(3) spreadD(8) [OF \<open>spread dst {} s1 s'\<close>] by (simp add: area_shared_def)
    ultimately show ?thesis using call s'(1,3) s1(4,5) fr by (intro disjI2 exI [of _ s'] exI [of _ li]) simp
  qed (simp add: call)
qed

lemma area_shared_kept:
  assumes "area_shared dst look a s" "spread dst P s s'" "vma_span a \<inter> P = {}"
  shows "area_shared dst look a s'"
  unfolding area_shared_def
proof (intro allI impI)
  fix k assume k: "k < unat (vm_pages a)"
  have "page_no (vm_start a + of_nat (k * 4096)) \<notin> P" using assms(3) k by (auto simp: vma_span_def page_span_def)
  then show "mm_lookup (mem s') (mms s' dst) (vm_start a + of_nat (k * 4096))
      = look (vm_start a + of_nat (k * 4096)) OR vma_flags (ucast (vm_prot a)) (vm_user a)"
    using spreadD(8) [OF assms(2)] assms(1) k by (simp add: area_shared_def)
qed

definition spans_apart :: "'a vmm_state_scheme \<Rightarrow> (u64 \<times> u64) list \<Rightarrow> bool" where
  "spans_apart s = sorted_wrt (\<lambda>l l'. vma_span (vmas s (snd l)) \<inter> vma_span (vmas s (snd l')) = {})"

definition total_pages :: "'a vmm_state_scheme \<Rightarrow> (u64 \<times> u64) list \<Rightarrow> nat" where
  "total_pages s lis = sum_list (map (\<lambda>l. unat (vm_pages (vmas s (snd l)))) lis)"

lemma spread_area_facts:
  assumes sp: "spread dst P s s'" and ts: "two_spaces src dst s"
  shows "vma_span (vmas s' v) = vma_span (vmas s v)" "area_shared d look (vmas s' v) t = area_shared d look (vmas s v) t"
    "sharable src s' (vmas s' v) = sharable src s (vmas s v)" "spans_apart s' lis = spans_apart s lis" "total_pages s' lis = total_pages s lis"
proof -
  note A = spread_areas [OF sp]
  note l = parent_lookup [OF spread_other(2) [OF ts sp]]
  show "vma_span (vmas s' v) = vma_span (vmas s v)" "area_shared d look (vmas s' v) t = area_shared d look (vmas s v) t"
    "sharable src s' (vmas s' v) = sharable src s (vmas s v)" "spans_apart s' lis = spans_apart s lis" "total_pages s' lis = total_pages s lis"
    by (simp_all add: vma_span_def area_shared_def sharable_def spans_apart_def total_pages_def A l)
qed

lemma share_areas_spec:
  fixes s :: "'a vmm_state_scheme"
  assumes "two_spaces src dst s" "\<forall>v \<in> snd ` set lis. sharable src s (vmas s v)" "spans_apart s lis"
    "4 * total_pages s lis \<le> card (free_frames s)"
  shows "share_areas dst src lis s = Inl (Panic ''kernel heap exhausted'') \<or>
    (\<exists>s'. share_areas dst src lis s = Inr s' \<and> spread dst (\<Union>v \<in> snd ` set lis. vma_span (vmas s v)) s s'
      \<and> (\<forall>v \<in> snd ` set lis. area_shared dst (mm_lookup (mem s) (mms s src)) (vmas s v) s')
      \<and> card (free_frames s) \<le> card (free_frames s') + 4 * total_pages s lis
      \<and> map snd (vm_areas (mms s' dst)) = rev (map snd lis) @ map snd (vm_areas (mms s dst)))"
  using assms
proof (induction lis arbitrary: s)
  case Nil
  then show ?case by (auto simp: two_spaces_def intro: spread_refl)
next
  case (Cons la lis)
  obtain li vma where la: "la = (li, vma)" by fastforce
  let ?L = "mm_lookup (mem s) (mms s src)" and ?U = "\<Union>v \<in> snd ` set lis. vma_span (vmas s v)"
  have p: "sharable src s (vmas s vma)" "\<forall>v \<in> snd ` set lis. sharable src s (vmas s v)" "4 * unat (vm_pages (vmas s vma)) \<le> card (free_frames s)"
    and t: "total_pages s (la # lis) = unat (vm_pages (vmas s vma)) + total_pages s lis"
    and ap: "spans_apart s lis" "vma_span (vmas s vma) \<inter> ?U = {}"
    using Cons.prems(2-4) by (auto simp: la spans_apart_def total_pages_def)
  from share_area [OF Cons.prems(1) p(1,3)] show ?case
  proof (elim disjE exE conjE)
    fix s1 li'
    assume a: "mm_share_vma dst src vma s = Inr s1" "spread dst (vma_span (vmas s vma)) s s1" "area_shared dst ?L (vmas s vma) s1"
      "card (free_frames s) \<le> card (free_frames s1) + 4 * unat (vm_pages (vmas s vma))" "vm_areas (mms s1 dst) = (li', vma) # vm_areas (mms s dst)"
    note f = spread_area_facts [OF a(2) Cons.prems(1)] and o = spread_other [OF Cons.prems(1) a(2)]
    have L: "mm_lookup (mem s1) (mms s1 src) = ?L" by (rule parent_lookup [OF o(2)])
    have "share_areas dst src lis s1 = Inl (Panic ''kernel heap exhausted'') \<or>
      (\<exists>s'. share_areas dst src lis s1 = Inr s' \<and> spread dst ?U s1 s' \<and> (\<forall>v \<in> snd ` set lis. area_shared dst ?L (vmas s v) s')
        \<and> card (free_frames s1) \<le> card (free_frames s') + 4 * total_pages s lis
        \<and> map snd (vm_areas (mms s' dst)) = rev (map snd lis) @ map snd (vm_areas (mms s1 dst)))"
      using Cons.IH [OF o(1), unfolded f L] p(2) ap(1) Cons.prems(4) a(4) t by simp
    then show ?thesis
    proof (elim disjE exE conjE)
      fix s'
      assume b: "share_areas dst src lis s1 = Inr s'" "spread dst ?U s1 s'" "\<forall>v \<in> snd ` set lis. area_shared dst ?L (vmas s v) s'"
        "card (free_frames s1) \<le> card (free_frames s') + 4 * total_pages s lis"
        "map snd (vm_areas (mms s' dst)) = rev (map snd lis) @ map snd (vm_areas (mms s1 dst))"
      have "spread dst (\<Union>v \<in> snd ` set (la # lis). vma_span (vmas s v)) s s'" using spread_trans [OF a(2) b(2)] by (simp add: la)
      then show ?thesis using a(1,4,5) b area_shared_kept [OF a(3) b(2) ap(2)] t
        by (intro disjI2 exI [of _ s']) (simp add: la)
    qed (use a(1) la in simp)
  qed (simp add: la)
qed

section \<open>A new address space\<close>

lemma set_mm_view [simp]:
  fixes s :: "'a vmm_state_scheme"
  shows "heap_objects (set_mm p m s) = heap_objects s" "statics (set_mm p m s) = statics s" "heap_grown (set_mm p m s) t = heap_grown s t"
    "stable_vma (set_mm p m s) v = stable_vma s v"
  by (simp_all add: set_mm_def heap_objects_def heap_inv_def heap_grown_def active_regions_def stable_vma_def)

lemma empty_space [simp]: "mm_tables m zero_mm = {}" "mm_lookup m zero_mm w = 0" "mm_live m zero_mm" "mm_ok s zero_mm = pmm_inv s"
  by (simp_all add: mm_tables_def mm_lookup_def mm_live_def mm_ok_def zero_mm_def)

text \<open>The object of a new address space: it is none that was there before.\<close>

lemma new_mm_object:
  fixes s :: "'a vmm_state_scheme"
  assumes ok: "kernel_ok s"
  shows "kcalloc 1 sizeof_mm s = Inl (Panic ''kernel heap exhausted'') \<or>
    (\<exists>p s1. kcalloc 1 sizeof_mm s = Inr (p, s1) \<and> p \<in> fst ` heap_objects s1 \<and> (\<forall>q. stable_vma s q \<longrightarrow> q \<noteq> p)
      \<and> spread p {} (set_mm p zero_mm s) (set_mm p zero_mm s1) \<and> free_frames s1 = free_frames s \<and> mms s1 = mms s \<and> vmas s1 = vmas s)"
proof -
  have n: "0 < unat sizeof_mm" "unat sizeof_mm \<le> 2 ^ 32" by (simp_all add: sizeof_mm_def)
  have inv: "pmm_inv s" using ok by (simp add: kernel_ok_def)
  from kcalloc_grown [OF ok n] show ?thesis
  proof (elim disjE exE conjE)
    fix p s1 k
    assume c: "kcalloc 1 sizeof_mm s = Inr (p, s1)" "heap_grown s s1" "p \<notin> fst ` heap_objects s" "p \<in> heap_span"
      "heap_objects s1 = insert (p, k) (heap_objects s)" "mms s1 = mms s" "vmas s1 = vmas s"
    have ne: "\<forall>q. stable_vma s q \<longrightarrow> q \<noteq> p" using c(3,4) by (auto simp: stable_vma_def)
    have "spread p {} (set_mm p zero_mm s) (set_mm p zero_mm s1)" "free_frames s1 = free_frames s"
      using grown_spread [of "set_mm p zero_mm s" p "set_mm p zero_mm s1"] ok inv c(2,6,7) by (simp_all add: same_area_def)
    then show ?thesis using c(1,5-7) ne by (intro disjI2 exI [of _ p] exI [of _ s1]) simp
  qed simp
qed

lemma mm_new_spec:
  fixes s :: "'a vmm_state_scheme"
  defines "K \<equiv> addr_kernel_mm (statics s)"
  defines "lis \<equiv> vm_areas (mms s K)"
  assumes ok: "kernel_ok s" "mm_ok s (mms s K)" "stable_vma s K" and sh: "\<forall>v \<in> snd ` set lis. sharable K s (vmas s v)"
    and ap: "spans_apart s lis" and free: "4 * total_pages s lis \<le> card (free_frames s)"
  shows "mm_new s = Inl (Panic ''kernel heap exhausted'') \<or>
    (\<exists>p s'. mm_new s = Inr (p, s') \<and> p \<in> fst ` heap_objects s' \<and> (\<forall>q. stable_vma s q \<longrightarrow> q \<noteq> p)
      \<and> spread p (\<Union>v \<in> snd ` set lis. vma_span (vmas s v)) (set_mm p zero_mm s) s'
      \<and> (\<forall>v \<in> snd ` set lis. area_shared p (mm_lookup (mem s) (mms s K)) (vmas s v) s')
      \<and> card (free_frames s) \<le> card (free_frames s') + 4 * total_pages s lis
      \<and> map snd (vm_areas (mms s' p)) = rev (map snd lis))"
  using new_mm_object [OF ok(1)]
proof (elim disjE exE conjE)
  fix p s1
  assume c: "kcalloc 1 sizeof_mm s = Inr (p, s1)" "p \<in> fst ` heap_objects s1" "\<forall>q. stable_vma s q \<longrightarrow> q \<noteq> p"
    "spread p {} (set_mm p zero_mm s) (set_mm p zero_mm s1)" "free_frames s1 = free_frames s" "mms s1 = mms s" "vmas s1 = vmas s"
  let ?s = "set_mm p zero_mm s" and ?t = "set_mm p zero_mm s1"
  have K: "K \<noteq> p" using c(3) ok(3) by blast
  have "pmm_inv s" using ok(1) by (simp add: kernel_ok_def)
  then have ts: "two_spaces K p ?s" using ok K by (simp add: two_spaces_def)
  note o = spread_other [OF ts c(4)] and st = spreadD(6) [OF c(4)]
  have v: "vmas ?t = vmas s" "mms ?t K = mms s K" by (simp_all add: c(6,7) K)
  have L: "mm_lookup (mem ?t) (mms ?t K) = mm_lookup (mem s) (mms s K)" using parent_lookup [OF o(2)] K by simp
  have pre: "\<forall>v \<in> snd ` set lis. sharable K ?t (vmas ?t v)" "spans_apart ?t lis" "4 * total_pages ?t lis \<le> card (free_frames ?t)"
    unfolding spread_area_facts [OF c(4) ts] using sh ap free c(5) K by (simp_all add: sharable_def spans_apart_def total_pages_def)
  have call: "mm_new s = rbind (share_areas p K lis ?t) (\<lambda>s. Inr (p, s))"
    using st K c(6) by (simp add: mm_new_def c(1) mm_init_def K_def lis_def Let_def)
  from share_areas_spec [OF o(1) pre] show ?thesis
  proof (elim disjE exE conjE)
    fix s'
    assume s': "share_areas p K lis ?t = Inr s'" "spread p (\<Union>v \<in> snd ` set lis. vma_span (vmas ?t v)) ?t s'"
      "\<forall>v \<in> snd ` set lis. area_shared p (mm_lookup (mem ?t) (mms ?t K)) (vmas ?t v) s'"
      "card (free_frames ?t) \<le> card (free_frames s') + 4 * total_pages ?t lis"
      "map snd (vm_areas (mms s' p)) = rev (map snd lis) @ map snd (vm_areas (mms ?t p))"
    have "spread p (\<Union>v \<in> snd ` set lis. vma_span (vmas s v)) ?s s'" using spread_trans [OF c(4) s'(2)] by (simp only: v) simp
    moreover have "p \<in> fst ` heap_objects s'" using spreadD(4) [OF s'(2)] c(2) by auto
    ultimately show ?thesis
      using call s'(1,4,5) s'(3) [unfolded L] c(3,5) unfolding v by (intro disjI2 exI [of _ p] exI [of _ s']) (simp add: total_pages_def zero_mm_def c(7))
  qed (simp add: call)
qed (simp add: mm_new_def)

section \<open>A duplicate\<close>

text \<open>What can be duplicated does not depend on the counts of users.\<close>

lemma areas_apart_sorted: "areas_apart as \<longleftrightarrow> sorted_wrt (\<lambda>a b. area_span a \<inter> area_span b = {}) as"
  by (induction as) simp_all

lemma spread_dupe_facts:
  assumes sp: "spread dst P s s'" and ts: "two_spaces old dst s"
  shows "area_pages (vmas s' v) = area_pages (vmas s v)" "area_span (vmas s' v) = area_span (vmas s v)"
    "area_copied new C U (vmas s' v) t = area_copied new C U (vmas s v) t"
    "areas_apart (map (\<lambda>l. vmas s' (snd l)) lis) = areas_apart (map (\<lambda>l. vmas s (snd l)) lis)"
    "area_ready old dst C s (vmas s v) \<Longrightarrow> area_ready old dst C s' (vmas s' v)" "stable_vma s v \<Longrightarrow> stable_vma s' v"
proof -
  note A = spread_areas [OF sp]
  show p: "area_pages (vmas s' v) = area_pages (vmas s v)" for v by (simp add: area_pages_def A)
  show q: "area_span (vmas s' v) = area_span (vmas s v)" for v by (simp add: area_span_def p A)
  show "area_copied new C U (vmas s' v) t = area_copied new C U (vmas s v) t" by (simp add: area_copied_def p A)
  show "areas_apart (map (\<lambda>l. vmas s' (snd l)) lis) = areas_apart (map (\<lambda>l. vmas s (snd l)) lis)"
    by (simp add: areas_apart_sorted sorted_wrt_map q)
  have "area_ready old dst C s' (vmas s' v) = area_ready old dst C s' (vmas s v)" by (simp add: area_ready_def p A)
  then show "area_ready old dst C s (vmas s v) \<Longrightarrow> area_ready old dst C s' (vmas s' v)" using area_ready_kept spread_other(2) [OF ts sp] by blast
  show "stable_vma s v \<Longrightarrow> stable_vma s' v" using spreadD(4) [OF sp] by (auto simp: stable_vma_def)
qed

text \<open>
  An address space that can be duplicated: its regular areas are page-aligned, apart from each other and from the
  kernel's, all their pages are in frames in use, and none of its structures is on the heap without being live.
\<close>

definition dupable :: "u64 \<Rightarrow> 'a vmm_state_scheme \<Rightarrow> bool" where
  "dupable old s \<longleftrightarrow> (let lis = vm_areas (mms s old) in mm_ok s (mms s old) \<and> stable_vma s old
     \<and> (\<forall>v \<in> snd ` set lis. stable_vma s v \<and> page_off (vm_start (vmas s v)) = 0 \<and> area_pages (vmas s v) \<le> 2 ^ 19
          \<and> (\<forall>i < area_pages (vmas s v) * 4096. data_page old s (vm_start (vmas s v) + of_nat i)))
     \<and> areas_apart (map (\<lambda>l. vmas s (snd l)) lis))"

text \<open>The kernel's own address space, as every other one shares it.\<close>

definition kernel_space_ok :: "'a vmm_state_scheme \<Rightarrow> bool" where
  "kernel_space_ok s \<longleftrightarrow> (let K = addr_kernel_mm (statics s); lis = vm_areas (mms s K) in mm_ok s (mms s K) \<and> stable_vma s K
     \<and> (\<forall>v \<in> snd ` set lis. sharable K s (vmas s v)) \<and> spans_apart s lis)"

text \<open>The child sees the bytes of an area that the parent saw, in other frames, and the parent sees them still.\<close>

definition area_bytes_copied :: "u64 \<Rightarrow> u64 \<Rightarrow> 'a vmm_state_scheme \<Rightarrow> vm_area \<Rightarrow> 'a vmm_state_scheme \<Rightarrow> bool" where
  "area_bytes_copied old new s a s' \<longleftrightarrow> (\<forall>i < area_pages a * 4096. let w = vm_start a + of_nat i in
     data_page new s' w \<and> data_page old s' w \<and> user_byte (mem s') (mms s' new) w = user_byte (mem s) (mms s old) w
     \<and> user_byte (mem s') (mms s' old) w = user_byte (mem s) (mms s old) w \<and> page_base (mm_lookup (mem s') (mms s' new) w) \<notin> used_frames s)"

definition memory_copied :: "u64 \<Rightarrow> u64 \<Rightarrow> 'a vmm_state_scheme \<Rightarrow> 'a vmm_state_scheme \<Rightarrow> bool" where
  "memory_copied old new s s' \<longleftrightarrow> kernel_ok s' \<and> mm_ok s' (mms s' old) \<and> mm_ok s' (mms s' new)
     \<and> (\<forall>v \<in> snd ` set (vm_areas (mms s old)). area_bytes_copied old new s (vmas s v) s')
     \<and> (\<forall>(q, k) \<in> heap_objects s. (q, k) \<in> heap_objects s' \<and> (\<forall>x \<in> rng q (unat k). mem s' x = mem s x))"

lemma area_bytes_copiedI:
  assumes ne: "old \<noteq> new" and d: "\<forall>i < area_pages a * 4096. data_page old s (vm_start a + of_nat i)"
    and pk: "parent_kept old new (set_mm new zero_mm s) s'" and c: "area_copied new (user_byte (mem s) (mms s old)) (used_frames s) a s'"
  shows "area_bytes_copied old new s a s'"
  unfolding area_bytes_copied_def Let_def
proof (intro allI impI)
  fix i assume i: "i < area_pages a * 4096"
  let ?w = "vm_start a + of_nat i" and ?s = "set_mm new zero_mm s"
  have "source_page old new ?s ?w" using ne d i by (simp add: source_page_def data_page_def)
  then have "source_page old new s' ?w \<and> user_byte (mem s') (mms s' old) ?w = user_byte (mem ?s) (mms ?s old) ?w" using pk unfolding parent_kept_def by blast
  then have "data_page old s' ?w" "user_byte (mem s') (mms s' old) ?w = user_byte (mem s) (mms s old) ?w" using ne by (simp_all add: source_page_def)
  then show "data_page new s' ?w \<and> data_page old s' ?w \<and> user_byte (mem s') (mms s' new) ?w = user_byte (mem s) (mms s old) ?w
     \<and> user_byte (mem s') (mms s' old) ?w = user_byte (mem s) (mms s old) ?w \<and> page_base (mm_lookup (mem s') (mms s' new) ?w) \<notin> used_frames s"
    using c i by (simp add: area_copied_def image_def)
qed

lemma mm_dupe_spec:
  fixes s :: "'a vmm_state_scheme" and old :: u64
  defines "K \<equiv> addr_kernel_mm (statics s)"
  defines "ks \<equiv> vm_areas (mms s K)" and "lis \<equiv> vm_areas (mms s old)"
  assumes ok: "kernel_ok s" "kernel_space_ok s" "dupable old s"
    and free: "4 * total_pages s ks + 5 * sum_list (map (\<lambda>l. area_pages (vmas s (snd l))) lis) \<le> card (free_frames s)"
  shows "mm_dupe old s = Inl (Panic ''kernel heap exhausted'') \<or>
    (\<exists>new s1 s'. mm_dupe old s = Inr (new, s') \<and> (\<forall>q. stable_vma s q \<longrightarrow> q \<noteq> new) \<and> memory_copied old new s s'
      \<and> spread new (\<Union>v \<in> snd ` set ks. vma_span (vmas s v)) (set_mm new zero_mm s) s1
      \<and> (\<forall>v \<in> snd ` set ks. area_shared new (mm_lookup (mem s) (mms s K)) (vmas s v) s1)
      \<and> parent_kept old new (set_mm new zero_mm s) s'
      \<and> rest_kept new (\<Union>v \<in> snd ` set lis. area_span (vmas s v)) s1 s')"
proof -
  have k: "mm_ok s (mms s K)" "stable_vma s K" "\<forall>v \<in> snd ` set ks. sharable K s (vmas s v)" "spans_apart s ks"
    and d: "mm_ok s (mms s old)" "stable_vma s old" "areas_apart (map (\<lambda>l. vmas s (snd l)) lis)"
      "\<And>v. v \<in> snd ` set lis \<Longrightarrow> stable_vma s v \<and> page_off (vm_start (vmas s v)) = 0 \<and> area_pages (vmas s v) \<le> 2 ^ 19
          \<and> (\<forall>i < area_pages (vmas s v) * 4096. data_page old s (vm_start (vmas s v) + of_nat i))"
    using ok(2,3) unfolding kernel_space_ok_def dupable_def Let_def K_def ks_def lis_def by blast+
  define C where "C = user_byte (mem s) (mms s old)"
  have fk: "4 * total_pages s ks \<le> card (free_frames s)" using free by simp
  from mm_new_spec [OF ok(1), folded K_def, OF k(1,2), folded ks_def, OF k(3,4) fk] show ?thesis
  proof (elim disjE exE conjE)
    fix new s1
    assume n: "mm_new s = Inr (new, s1)" "\<forall>q. stable_vma s q \<longrightarrow> q \<noteq> new"
      and sp: "spread new (\<Union>v \<in> snd ` set ks. vma_span (vmas s v)) (set_mm new zero_mm s) s1"
      and sh: "\<forall>v \<in> snd ` set ks. area_shared new (mm_lookup (mem s) (mms s K)) (vmas s v) s1"
      and fr: "card (free_frames s) \<le> card (free_frames s1) + 4 * total_pages s ks"
    let ?s = "set_mm new zero_mm s"
    have ne: "old \<noteq> new" using n(2) d(2) by blast
    have "pmm_inv s" using ok(1) by (simp add: kernel_ok_def)
    then have ts: "two_spaces old new ?s" using ok(1) d(1) ne by (simp add: two_spaces_def)
    note o = spread_other [OF ts sp] and F = spread_dupe_facts [OF sp ts, simplified]
    have lis: "vm_areas (mms s1 old) = lis" using spreadD(7) [OF sp ne] ne by (simp add: lis_def)
    have call: "mm_dupe old s = rbind (dupe_areas new old lis s1) (\<lambda>s. Inr (new, s))" by (simp add: mm_dupe_def n(1) lis)
    have "area_ready old new C ?s (vmas s v)" if "v \<in> snd ` set lis" for v
      using d(4) [OF that] ne by (simp add: area_ready_def source_page_def data_page_def C_def)
    then have rd: "\<forall>v \<in> snd ` set lis. stable_vma s1 v \<and> area_ready old new C s1 (vmas s1 v)" using F(5,6) d(4) by blast
    have free': "5 * sum_list (map (\<lambda>l. area_pages (vmas s1 (snd l))) lis) \<le> card (free_frames s1)" using free fr F(1) by simp
    have U: "used_frames s \<subseteq> used_frames s1" using spreadD(3) [OF sp] by (simp add: space_kept_def)
    from dupe_areas_spec [OF o(1) rd _ free' U, unfolded F(2-4), OF d(3)] show ?thesis
    proof (elim disjE exE conjE)
      fix s'
      assume s': "dupe_areas new old lis s1 = Inr s'" "two_spaces old new s'" "parent_kept old new s1 s'"
        "\<forall>v \<in> snd ` set lis. area_copied new C (used_frames s) (vmas s v) s'"
        "rest_kept new (\<Union>v \<in> snd ` set lis. area_span (vmas s v)) s1 s'"
      note pk = parent_kept_trans [OF o(2) s'(3)]
      have "\<forall>v \<in> snd ` set lis. area_bytes_copied old new s (vmas s v) s'"
        using area_bytes_copiedI [OF ne _ pk] d(4) s'(4) by (simp add: C_def)
      moreover have "(q, k) \<in> heap_objects s' \<and> (\<forall>x \<in> rng q (unat k). mem s' x = mem s x)" if "(q, k) \<in> heap_objects s" for q k
        using spreadD(4,5) [OF sp] s'(5) that unfolding rest_kept_def by (fastforce simp del: in_rng)
      ultimately have "memory_copied old new s s'" using s'(2) unfolding memory_copied_def two_spaces_def lis_def by blast
      then show ?thesis using call s'(1,5) n(2) sp sh pk by (intro disjI2 exI [of _ new] exI [of _ s1] exI [of _ s']) (simp del: dupe_areas.simps)
    qed (simp add: call)
  qed (simp add: mm_dupe_def)
qed

section \<open>A sample\<close>

text \<open>
  The sample parent, with its page and the kernel's area in the list of its areas, in a kernel whose own address
  space has one page.
\<close>

definition sample_text :: vm_area where
  "sample_text = \<lparr>refcnt = 1, vm_type = VM_AREA_KERNELTEXT, vm_start = KERNEL_TEXT_BASE, vm_pages = 1, vm_user = False, vm_prot = 3\<rparr>"

definition sample_family :: vmm_state where
  "sample_family =
     (let K = addr_kernel_mm sample_statics;
          s = set_vma 0x2000 sample_text (map_page_at K KERNEL_TEXT_BASE 0 (vma_flags 3 False) sample_parent)
      in set_mm 1 ((mms s 1)\<lparr>vm_areas := [(0x4000, 0x1000), (0x5000, 0x2000)]\<rparr>) (set_mm K ((mms s K)\<lparr>vm_areas := [(0x3000, 0x2000)]\<rparr>) s))"

lemma areas_view [simp]:
  "mm_ok s (mm\<lparr>vm_areas := as\<rparr>) = mm_ok s mm" "mm_lookup m (mm\<lparr>vm_areas := as\<rparr>) w = mm_lookup m mm w"
  "mm_tables m (mm\<lparr>vm_areas := as\<rparr>) = mm_tables m mm" "user_byte m (mm\<lparr>vm_areas := as\<rparr>) w = user_byte m mm w"
  by (simp_all add: mm_ok_def mm_lookup_def mm_tables_def user_byte_def)

lemma set_vma_frames [simp]:
  fixes s :: "'a vmm_state_scheme"
  shows "used_frames (set_vma p v s) = used_frames s" "free_frames (set_vma p v s) = free_frames s" "mm_ok (set_vma p v s) mm = mm_ok s mm"
    "statics (set_vma p v s) = statics s"
  by (simp_all add: set_vma_def used_frames_def free_frames_def active_regions_def mm_ok_def pt_inv_def pmm_inv_def)

lemma sample_family_facts:
  shows "kernel_ok sample_family" "kernel_space_ok sample_family" "dupable 1 sample_family" "statics sample_family = sample_statics"
    "vm_areas (mms sample_family 1) = [(0x4000, 0x1000), (0x5000, 0x2000)]" "vmas sample_family 0x1000 = sample_area"
    "vm_areas (mms sample_family (addr_kernel_mm sample_statics)) = [(0x3000, 0x2000)]" "vmas sample_family 0x2000 = sample_text"
    "54 \<le> card (free_frames sample_family)" "user_byte (mem sample_family) (mms sample_family 1) (0x400000 + of_nat 5) = 7"
proof -
  let ?K = "addr_kernel_mm sample_statics"
  note p = sample_parent_facts
  have K: "?K \<noteq> 1" "?K \<notin> heap_span" by (simp_all add: sample_statics_def heap_span_def BRK_LIMIT_def KERNEL_BRK_START_def KERNEL_BRK_PAGES_def)
  have inv: "pmm_inv sample_parent" using p(1) by (simp add: kernel_ok_def)
  then have okK: "mm_ok sample_parent (mms sample_parent ?K)" using p(5) [OF K(1)] by simp
  define s where "s = map_page_at ?K KERNEL_TEXT_BASE 0 (vma_flags 3 False) sample_parent"
  have "4 \<le> card (free_frames sample_parent)" using p(3) by simp
  note m = map_page_at_spec [OF okK this vma_flags_bound [of 3 False], where v = KERNEL_TEXT_BASE and phys = 0, folded s_def]
  obtain f where f: "mapped_to 1 0x400000 [f] (vma_flags 1 True) sample_parent" "mem sample_parent (P_TO_V f + of_nat 5) = 7" using p(4) by blast
  have ts: "two_spaces 1 ?K sample_parent" using p(1) f(1) okK K(1) p(5) [OF K(1)] by (simp add: two_spaces_def mapped_to_def)
  have sp: "spread ?K {page_no KERNEL_TEXT_BASE} sample_parent s"
    by (rule kept_spread [OF p(1) m(1,5,6)]) (use m(3,7) in \<open>simp_all add: vma_flags_def or_eq_0_iff PAGE_PRESENT_def\<close>)
  note o = spread_other [OF ts sp]
  have e: "sample_family = set_mm 1 ((mms s 1)\<lparr>vm_areas := [(0x4000, 0x1000), (0x5000, 0x2000)]\<rparr>)
      (set_mm ?K ((mms s ?K)\<lparr>vm_areas := [(0x3000, 0x2000)]\<rparr>) (set_vma 0x2000 sample_text s))"
    using K(1) by (simp add: sample_family_def Let_def s_def)
  have v: "vmas s 0x1000 = sample_area" using m(6) p(2) by (simp add: objects_kept_def)
  show F: "vmas sample_family 0x1000 = sample_area" "vmas sample_family 0x2000 = sample_text" "statics sample_family = sample_statics"
    "vm_areas (mms sample_family 1) = [(0x4000, 0x1000), (0x5000, 0x2000)]" "vm_areas (mms sample_family ?K) = [(0x3000, 0x2000)]"
    "kernel_ok sample_family" "54 \<le> card (free_frames sample_family)"
    using K v spreadD(1,6) [OF sp] p(3,6) m(4) by (simp_all add: e)
  have d: "data_page 1 s (0x400000 + of_nat i)" "user_byte (mem s) (mms s 1) (0x400000 + of_nat i) = user_byte (mem sample_parent) (mms sample_parent 1) (0x400000 + of_nat i)"
    if "i < 4096" for i
  proof -
    have "source_page 1 ?K sample_parent (0x400000 + of_nat i)"
      using mapped_byte_frame [OF f(1), of i] f(1) that p(5) [OF K(1)] by (auto simp: source_page_def data_page_def mapped_to_def)
    then show "data_page 1 s (0x400000 + of_nat i)" "user_byte (mem s) (mms s 1) (0x400000 + of_nat i) = user_byte (mem sample_parent) (mms sample_parent 1) (0x400000 + of_nat i)"
      using o(2) unfolding parent_kept_def source_page_def by blast+
  qed
  show "user_byte (mem sample_family) (mms sample_family 1) (0x400000 + of_nat 5) = 7"
    using d(2) [of 5] mapped_byte [OF f(1), of 0 5] f(2) by (simp add: e)
  have st: "stable_vma sample_family 0x1000" "stable_vma sample_family 0x2000" "stable_vma sample_family 1" "stable_vma sample_family ?K"
    using K(2) by (simp_all add: stable_vma_def heap_span_def KERNEL_BRK_START_def word_le_nat_alt)
  have ok: "mm_ok sample_family (mms sample_family 1)" "mm_ok sample_family (mms sample_family ?K)"
    using o(1) K(1) by (simp_all add: e two_spaces_def)
  have a: "area_pages sample_area = 1" "vm_start sample_area = 0x400000" "area_pages sample_text = 0" "vm_start sample_text = KERNEL_TEXT_BASE"
    "vm_pages sample_text = 1" "area_span sample_text = {}"
    by (simp_all add: area_pages_def sample_area_def sample_text_def area_span_def page_span_def)
  have "data_page 1 sample_family w = data_page 1 s w" for w by (simp add: e data_page_def)
  then show "dupable 1 sample_family" using st ok(1) d(1) F by (simp add: dupable_def a page_off_def KERNEL_TEXT_BASE_def)
  have "sharable ?K sample_family sample_text" using m(3) K(1) by (simp add: sharable_def e a page_off_def KERNEL_TEXT_BASE_def vma_flags_def or_eq_0_iff PAGE_PRESENT_def)
  then show "kernel_space_ok sample_family" using st ok(2) F by (simp add: kernel_space_ok_def Let_def spans_apart_def)
qed

section \<open>Property\<close>



end
