(* ===== verification/Fork_Process.thy ===== *)
theory Fork_Process
  imports Fork_Spec New_Space Heap_Client
begin

text \<open>
  The whole of \<^verbatim>\<open>fork\<close> (\<^verbatim>\<open>sched_fork\<close>, \<^verbatim>\<open>do_fork\<close> and \<^verbatim>\<open>init_task_stack\<close> in \<^verbatim>\<open>src/src/kernel\<close>) over the memory managers: the
  task structure, the address space and the stack of the child are found by the allocators, so that nothing is
  left to assume of where they are.
\<close>

section \<open>The process tables are not in memory\<close>

lemma proc_view [simp]:
  fixes s :: "('d, 'a) kernel_state_scheme"
  shows "kernel_ok (tasks_update f s) = kernel_ok s" "kernel_ok (files_update g s) = kernel_ok s" "kernel_ok (next_pid_update h s) = kernel_ok s"
    "heap_objects (tasks_update f s) = heap_objects s" "heap_objects (files_update g s) = heap_objects s" "heap_objects (next_pid_update h s) = heap_objects s"
    "active_regions (tasks_update f s) = active_regions s" "active_regions (files_update g s) = active_regions s" "active_regions (next_pid_update h s) = active_regions s"
  by (simp_all add: kernel_ok_def heap_ok_def heap_inv_def heap_objects_def pmm_inv_def active_regions_def)

lemma grown_proc_view [simp]:
  fixes s :: "('d, 'a) kernel_state_scheme"
  shows "heap_grown t (tasks_update f s) = heap_grown t s" "heap_grown t (files_update g s) = heap_grown t s" "heap_grown t (next_pid_update h s) = heap_grown t s"
  by (simp_all add: heap_grown_def)

lemma grown_refl: "kernel_ok s \<Longrightarrow> heap_grown s s"
  by (simp add: heap_grown_def split_beta)

section \<open>Heap allocations do not reach the pages of a process\<close>

lemma grown_space:
  fixes s s' :: "'a vmm_state_scheme"
  assumes k: "kernel_ok s" and g: "heap_grown s s'" and m: "mms s' = mms s" and ok: "mm_ok s (mms s q)"
  shows "mm_ok s' (mms s' q)" "mm_lookup (mem s') (mms s' q) = mm_lookup (mem s) (mms s q)" "data_page q s' w = data_page q s w"
    "data_page q s w \<Longrightarrow> user_byte (mem s') (mms s' q) w = user_byte (mem s) (mms s q) w"
proof -
  note h = heap_grown_space [OF k g ok refl]
  show "mm_ok s' (mms s' q)" using h(1) by (simp add: m)
  show l: "mm_lookup (mem s') (mms s' q) = mm_lookup (mem s) (mms s q)" using h(2) by (auto simp: m)
  show "data_page q s' w = data_page q s w" using h(3,7) by (simp add: data_page_def l) (simp add: m)
  show "user_byte (mem s') (mms s' q) w = user_byte (mem s) (mms s q) w" if "data_page q s w"
  proof -
    let ?f = "page_base (mm_lookup (mem s) (mms s q) w)"
    have "?f \<in> used_frames s" using that by (simp add: data_page_def)
    moreover have "P_TO_V ?f + page_off w \<in> rng (P_TO_V ?f) 4096" using unat_page_off [of w] by simp
    ultimately show ?thesis using h(8) in_frame_bytes by (simp add: user_byte_def l)
  qed
qed

lemma grown_dupable:
  fixes s s' :: "'a vmm_state_scheme"
  assumes k: "kernel_ok s" and g: "heap_grown s s'" and m: "mms s' = mms s" "vmas s' = vmas s"
  shows "dupable old s \<Longrightarrow> dupable old s'" "kernel_space_ok s \<Longrightarrow> kernel_space_ok s'" "free_frames s' = free_frames s" "used_frames s' = used_frames s"
proof -
  have st: "statics s' = statics s" "stable_vma s v \<Longrightarrow> stable_vma s' v" for v using g by (auto simp: heap_grown_def stable_vma_def)
  have e: "mm_ok s zero_mm" using k by (simp add: kernel_ok_def)
  show "free_frames s' = free_frames s" "used_frames s' = used_frames s" using heap_grown_space(6,7) [OF k g e refl] by simp_all
  show "dupable old s'" if d: "dupable old s"
  proof -
    have "mm_ok s (mms s old)" using d by (simp add: dupable_def Let_def)
    from grown_space(1,3) [OF k g m(1) this] d st(2) show ?thesis unfolding dupable_def Let_def m by simp
  qed
  show "kernel_space_ok s'" if d: "kernel_space_ok s"
  proof -
    have "mm_ok s (mms s (addr_kernel_mm (statics s)))" using d by (simp add: kernel_space_ok_def Let_def)
    note n = grown_space(1,2) [OF k g m(1) this]
    have "sharable (addr_kernel_mm (statics s)) s' a = sharable (addr_kernel_mm (statics s)) s a" for a by (simp add: sharable_def n(2))
    then show ?thesis using d n(1) st unfolding kernel_space_ok_def Let_def spans_apart_def m by simp
  qed
qed

text \<open>A new object may be written to.\<close>

lemma object_in_span:
  fixes s s1 :: "'a vmm_state_scheme"
  assumes g: "heap_grown s s1" and ob: "heap_objects s1 = insert (p, k) (heap_objects s)" "n \<le> k"
  shows "rng p (unat n) \<subseteq> heap_span"
proof -
  have "heap_ok s1" using g by (simp add: heap_grown_def kernel_ok_def)
  then show ?thesis using objects_in_span [of s1 p k] ob rng_mono [of "unat n" "unat k" p] by (auto simp: word_le_nat_alt simp del: in_rng)
qed

lemma fill_new_object:
  fixes s s1 :: "'a vmm_state_scheme"
  assumes g: "heap_grown s s1" and ob: "heap_objects s1 = insert (p, k) (heap_objects s)" "n \<le> k"
    and dj: "\<forall>(q, j) \<in> heap_objects s. rng p (unat n) \<inter> rng q (unat j) = {}" and w: "\<And>x. x \<notin> rng p (unat n) \<Longrightarrow> m x = mem s1 x"
  shows "heap_grown s (s1\<lparr>mem := m\<rparr>)"
proof -
  have k1: "kernel_ok s1" using g by (simp add: heap_grown_def)
  then have h: "heap_ok s1" "pmm_inv s1" "regions_low (active_regions s1)" by (simp_all add: kernel_ok_def)
  have r: "room s1 (rng p (unat n))" by (rule room_object [OF _ ob(2)]) (simp add: ob(1))
  note hw = heap_write [OF h(1) r w]
  have sp: "rng p (unat n) \<subseteq> heap_span" by (rule object_in_span [OF g ob])
  then have out: "\<forall>x. x \<notin> heap_span \<longrightarrow> mem (s1\<lparr>mem := m\<rparr>) x = mem s1 x" using w by (auto simp del: in_rng)
  have ar: "active_regions (s1\<lparr>mem := m\<rparr>) = active_regions s1" by (simp add: active_regions_def)
  have "kernel_ok (s1\<lparr>mem := m\<rparr>)" using heap_change(1) [OF h(2,3) ar out] hw(1) h(3) ar by (simp add: kernel_ok_def)
  moreover have "m x = mem s x" if "(q, j) \<in> heap_objects s" "x \<in> rng q (unat j)" for q j x
  proof -
    have "x \<notin> rng p (unat n)" using dj that by blast
    moreover have "mem s1 x = mem s x" using g that unfolding heap_grown_def by blast
    ultimately show ?thesis using w by metis
  qed
  ultimately show ?thesis using g out ar hw(2) ob(1) unfolding heap_grown_def by (auto simp del: in_rng)
qed

section \<open>The steps of a fork\<close>

lemma share_files_mm: "t_mm (tasks (share_files new i fs s) q) = t_mm (tasks s q)"
  by (induction fs arbitrary: i s) (simp_all add: Let_def set_task_def set_file_def)

text \<open>What \<open>do_fork\<close> does once there is an address space for the child.\<close>

lemma do_fork_run:
  assumes "kcalloc 1 sizeof_task_struct s = Inr (new, s0)"
    and "mm_dupe (t_mm (tasks s0 t)) (set_task new (state_update (\<lambda>_. TASK_RUNNING)) (set_task new (\<lambda>_. zero_task) s0)) = Inr (mm, s2)" "new \<noteq> t"
  shows "\<exists>T F n. t_mm (T new) = mm \<and> do_fork A t s = rbind (init_task_stack A new (s2\<lparr>tasks := T, files := F, next_pid := n\<rparr>))
      (\<lambda>s. Inr (new, s\<lparr>mem := st64 (memcpy (mem s) (regs (tasks s new)) (regs (tasks s t)) 136) (regs (tasks s new) + 112) 0\<rparr>))"
proof -
  define s1 where "s1 = set_task new (state_update (\<lambda>_. TASK_RUNNING)) (set_task new (\<lambda>_. zero_task) s0)"
  have 2: "mm_dupe (t_mm (tasks s1 t)) s1 = Inr (mm, s2)" using assms(2,3) by (simp add: s1_def set_task_def)
  define sm where "sm = set_task new (t_mm_update (\<lambda>_. mm)) s2"
  define sq where "sq = set_task new (pid_update (\<lambda>_. next_pid sm)) sm"
  define s3 where "s3 = sq\<lparr>next_pid := next_pid sq + 1\<rparr>"
  define s4 where "s4 = share_files new 0 (fdtab (tasks s3 t)) s3"
  obtain T F where TF: "s4 = s3\<lparr>tasks := T, files := F\<rparr>" unfolding s4_def using share_files_rest by blast
  have "t_mm (T new) = t_mm (tasks s3 new)" using share_files_mm [of new 0 "fdtab (tasks s3 t)" s3 new, folded s4_def] TF by simp
  then have mm: "t_mm (T new) = mm" by (simp add: s3_def sq_def sm_def set_task_def)
  have e: "s2\<lparr>tasks := T, files := F, next_pid := next_pid s2 + 1\<rparr> = s4" by (simp add: TF s3_def sq_def sm_def set_task_def)
  have run: "do_fork A t s = rbind (init_task_stack A new s4)
      (\<lambda>s. Inr (new, s\<lparr>mem := st64 (memcpy (mem s) (regs (tasks s new)) (regs (tasks s t)) 136) (regs (tasks s new) + 112) 0\<rparr>))"
    unfolding do_fork_def assms(1) rbind_Inr prod.case Let_def s1_def [symmetric] 2 sm_def [symmetric] sq_def [symmetric] s3_def [symmetric] s4_def [symmetric]
    by simp
  show ?thesis by (rule exI [of _ T], rule exI [of _ F], rule exI [of _ "next_pid s2 + 1"]) (simp only: e mm run)
qed

lemma init_task_stack_run:
  assumes "kcalloc 1 KERNEL_STACK_SIZE s = Inr (bottom, s1)" "tasks s1 = tasks s"
  shows "\<exists>T. init_task_stack A new s = Inr (s1\<lparr>tasks := T, mem := st64 (st64 (mem s1) (bottom + 8040) 0) (bottom + 8048) (pop_regs_and_sysret A)\<rparr>)
    \<and> regs (T new) = bottom + 8056 \<and> t_mm (T new) = t_mm (tasks s new)"
  by (rule exI [of _ "(tasks s)(new := (tasks s new)\<lparr>stack_bottom := bottom, stack_top := bottom + 8192, sp := bottom + 8000, regs := bottom + 8056\<rparr>)"])
    (use assms in \<open>simp add: init_task_stack_def Let_def set_task_def KERNEL_STACK_SIZE_def add.commute\<close>)

text \<open>The child's stack is inside its object.\<close>

lemma stack_writes:
  assumes "x \<notin> rng bottom (unat KERNEL_STACK_SIZE)"
  shows "st64 (memcpy (st64 (st64 m (bottom + 8040) a) (bottom + 8048) b) (bottom + 8056) src 136) (bottom + 8056 + 112) c x = m x"
proof -
  have r: "x \<notin> rng (bottom + off) n" if "unat off + n \<le> 8192" for off n
    using rng_part [of off n 8192 x bottom] that assms by (auto simp: KERNEL_STACK_SIZE_def simp del: in_rng)
  have "x \<notin> rng (bottom + 8168) 8" by (rule r) simp
  moreover have "x \<notin> rng (bottom + 8056) (unat (136 :: u64))" by (rule r) simp
  moreover have "x \<notin> rng (bottom + 8048) 8" by (rule r) simp
  moreover have "x \<notin> rng (bottom + 8040) 8" by (rule r) simp
  ultimately show ?thesis by (simp add: st64_other memcpy_out add.assoc del: in_rng)
qed

lemma stack_stage:
  fixes s :: "('d, 'a) kernel_state_scheme"
  assumes ok: "kernel_ok s"
  shows "init_task_stack A new s = Inl (Panic ''kernel heap exhausted'') \<or> (\<exists>s1. init_task_stack A new s = Inr s1
      \<and> (\<forall>src. heap_grown s (s1\<lparr>mem := st64 (memcpy (mem s1) (regs (tasks s1 new)) src 136) (regs (tasks s1 new) + 112) 0\<rparr>)) \<and> mms s1 = mms s
      \<and> t_mm (tasks s1 new) = t_mm (tasks s new) \<and> (\<forall>R. room s R \<longrightarrow> rng (regs (tasks s1 new)) 136 \<inter> R = {}))"
proof -
  have n: "0 < unat KERNEL_STACK_SIZE" "unat KERNEL_STACK_SIZE \<le> 2 ^ 32" by (simp_all add: KERNEL_STACK_SIZE_def)
  from kcalloc_grown [OF ok n] show ?thesis
  proof (elim disjE exE conjE)
    fix bottom s0 k
    assume c: "kcalloc 1 KERNEL_STACK_SIZE s = Inr (bottom, s0)" "heap_grown s s0" "KERNEL_STACK_SIZE \<le> k"
      "heap_objects s0 = insert (bottom, k) (heap_objects s)" "\<forall>(q, j) \<in> heap_objects s. rng bottom (unat KERNEL_STACK_SIZE) \<inter> rng q (unat j) = {}" "mms s0 = mms s"
    have "tasks s0 = tasks s" by (rule vmm_only_fields(1) [OF vmm_only_kcalloc [OF c(1)]])
    from init_task_stack_run [OF c(1) this, of A new] obtain T where
      T: "init_task_stack A new s = Inr (s0\<lparr>tasks := T, mem := st64 (st64 (mem s0) (bottom + 8040) 0) (bottom + 8048) (pop_regs_and_sysret A)\<rparr>)"
        "regs (T new) = bottom + 8056" "t_mm (T new) = t_mm (tasks s new)" by blast
    define s1 where "s1 = s0\<lparr>tasks := T, mem := st64 (st64 (mem s0) (bottom + 8040) 0) (bottom + 8048) (pop_regs_and_sysret A)\<rparr>"
    have s1: "tasks s1 = T" "mem s1 = st64 (st64 (mem s0) (bottom + 8040) 0) (bottom + 8048) (pop_regs_and_sysret A)" "mms s1 = mms s"
      "\<And>m. s1\<lparr>mem := m\<rparr> = (s0\<lparr>mem := m\<rparr>)\<lparr>tasks := T\<rparr>" by (simp_all add: s1_def c(6))
    have "heap_grown s (s0\<lparr>mem := st64 (memcpy (mem s1) (regs (tasks s1 new)) src 136) (regs (tasks s1 new) + 112) 0\<rparr>)" for src
      unfolding s1 T(2) by (rule fill_new_object [OF c(2,4,3,5)]) (rule stack_writes)
    then have w: "heap_grown s (s1\<lparr>mem := st64 (memcpy (mem s1) (regs (tasks s1 new)) src 136) (regs (tasks s1 new) + 112) 0\<rparr>)" for src
      unfolding s1(4) by simp
    have "rng (bottom + 8056) 136 \<subseteq> rng bottom (unat KERNEL_STACK_SIZE)"
      using rng_part [of 8056 136 8192 _ bottom] by (auto simp: KERNEL_STACK_SIZE_def simp del: in_rng)
    moreover have "rng bottom (unat KERNEL_STACK_SIZE) \<subseteq> heap_span"
      using object_in_span [OF c(2,4,3)] .
    ultimately have "\<forall>R. room s R \<longrightarrow> rng (regs (tasks s1 new)) 136 \<inter> R = {}" using c(5) unfolding s1(1) T(2) room_def by blast
    then show ?thesis using w T(1,3) s1(1,3) unfolding s1_def [symmetric] by (intro disjI2 exI [of _ s1]) simp
  qed (simp add: init_task_stack_def)
qed

lemma memory_copied_grown:
  fixes s s' s'' :: "'a vmm_state_scheme"
  assumes c: "memory_copied old mm s s'" and g: "heap_grown s' s''" and m: "mms s'' = mms s'"
  shows "memory_copied old mm s s''"
proof -
  have k: "kernel_ok s'" "mm_ok s' (mms s' old)" "mm_ok s' (mms s' mm)" using c by (simp_all add: memory_copied_def)
  note a = grown_space [OF k(1) g m k(2)] and b = grown_space [OF k(1) g m k(3)]
  have "(q, k) \<in> heap_objects s'' \<and> (\<forall>x \<in> rng q (unat k). mem s'' x = mem s x)" if "(q, k) \<in> heap_objects s" for q k
    using c g that unfolding memory_copied_def heap_grown_def by (fastforce simp del: in_rng)
  moreover have "kernel_ok s''" using g by (simp add: heap_grown_def)
  moreover have "area_bytes_copied old mm s a s''" if "area_bytes_copied old mm s a s'" for a
    using that a(3,4) b(2-4) by (simp add: area_bytes_copied_def Let_def)
  ultimately show ?thesis using c a(1) b(1) unfolding memory_copied_def by blast
qed

lemma memory_copied_before:
  fixes s s1 s' :: "'a vmm_state_scheme"
  assumes k: "kernel_ok s" and g: "heap_grown s s1" and m: "mms s1 = mms s" "vmas s1 = vmas s" and d: "dupable old s" and c: "memory_copied old mm s1 s'"
  shows "memory_copied old mm s s'"
proof -
  have ok: "mm_ok s (mms s old)" and dp: "\<And>v i. v \<in> snd ` set (vm_areas (mms s old)) \<Longrightarrow> i < area_pages (vmas s v) * 4096 \<Longrightarrow> data_page old s (vm_start (vmas s v) + of_nat i)"
    using d unfolding dupable_def Let_def by blast+
  note a = grown_space [OF k g m(1) ok] and u = grown_dupable(4) [OF k g m]
  have "area_bytes_copied old mm s (vmas s v) s'" if v: "v \<in> snd ` set (vm_areas (mms s old))" for v
  proof -
    have "area_bytes_copied old mm s1 (vmas s v) s'" using c v unfolding memory_copied_def m by blast
    then show ?thesis using a(4) [OF dp [OF v]] u by (simp add: area_bytes_copied_def Let_def)
  qed
  moreover have "(q, k) \<in> heap_objects s' \<and> (\<forall>x \<in> rng q (unat k). mem s' x = mem s x)" if "(q, k) \<in> heap_objects s" for q k
  proof -
    have "(q, k) \<in> heap_objects s1" "\<forall>x \<in> rng q (unat k). mem s1 x = mem s x" using g that unfolding heap_grown_def by blast+
    moreover from this(1) have "(q, k) \<in> heap_objects s' \<and> (\<forall>x \<in> rng q (unat k). mem s' x = mem s1 x)" using c unfolding memory_copied_def by blast
    ultimately show ?thesis by (simp del: in_rng)
  qed
  moreover have "kernel_ok s'" "mm_ok s' (mms s' old)" "mm_ok s' (mms s' mm)" using c by (simp_all add: memory_copied_def)
  ultimately show ?thesis unfolding memory_copied_def by blast
qed

lemma memory_copied_proc [simp]:
  fixes s' :: "('d, 'a) kernel_state_scheme"
  shows "memory_copied old mm s (tasks_update f s') = memory_copied old mm s s'" "memory_copied old mm s (files_update g s') = memory_copied old mm s s'"
    "memory_copied old mm s (next_pid_update h s') = memory_copied old mm s s'"
  by (simp_all add: memory_copied_def area_bytes_copied_def data_page_def mm_ok_def pt_inv_def pmm_inv_def used_frames_def active_regions_def)

lemma do_fork_memory:
  fixes s :: "('d, 'a) kernel_state_scheme"
  assumes ok: "kernel_ok s" "kernel_space_ok s" "dupable old s" and t: "old = t_mm (tasks s t)" "stable_vma s t"
    and free: "4 * total_pages s (vm_areas (mms s (addr_kernel_mm (statics s)))) + 5 * sum_list (map (\<lambda>l. area_pages (vmas s (snd l))) (vm_areas (mms s old)))
      \<le> card (free_frames s)"
  shows "do_fork A t s = Inl (Panic ''kernel heap exhausted'') \<or> (\<exists>new s'. do_fork A t s = Inr (new, s') \<and> (\<forall>q. stable_vma s q \<longrightarrow> q \<noteq> new) \<and> new \<noteq> 0
      \<and> memory_copied old (t_mm (tasks s' new)) s s' \<and> (\<forall>R. room s R \<longrightarrow> rng (regs (tasks s' new)) 136 \<inter> R = {}))"
proof -
  have n: "0 < unat sizeof_task_struct" "unat sizeof_task_struct \<le> 2 ^ 32" by (simp_all add: sizeof_task_struct_def)
  from kcalloc_grown [OF ok(1) n] show ?thesis
  proof (elim disjE exE conjE)
    fix new s0 k
    assume c: "kcalloc 1 sizeof_task_struct s = Inr (new, s0)" "heap_grown s s0" "new \<notin> fst ` heap_objects s" "new \<in> heap_span"
      "mms s0 = mms s" "vmas s0 = vmas s"
    have fresh: "\<forall>q. stable_vma s q \<longrightarrow> q \<noteq> new" "new \<noteq> 0" using c(3,4) by (auto simp: stable_vma_def heap_span_def KERNEL_BRK_START_def)
    then have nt: "new \<noteq> t" using t(2) by blast
    have ts: "tasks s0 = tasks s" by (rule vmm_only_fields(1) [OF vmm_only_kcalloc [OF c(1)]])
    define s1 where "s1 = set_task new (state_update (\<lambda>_. TASK_RUNNING)) (set_task new (\<lambda>_. zero_task) s0)"
    have g1: "heap_grown s s1" "mms s1 = mms s" "vmas s1 = vmas s" "statics s1 = statics s"
      using c(2,5,6) by (simp_all add: s1_def set_task_def) (simp add: heap_grown_def)
    have k1: "kernel_ok s1" using g1(1) by (simp add: heap_grown_def)
    note d = grown_dupable [OF ok(1) g1(1-3)]
    have fr: "4 * total_pages s1 (vm_areas (mms s1 (addr_kernel_mm (statics s1)))) + 5 * sum_list (map (\<lambda>l. area_pages (vmas s1 (snd l))) (vm_areas (mms s1 old)))
      \<le> card (free_frames s1)" using free by (simp add: total_pages_def g1 d(3))
    have o: "t_mm (tasks s1 t) = old" "t_mm (tasks s0 t) = old" using nt ts t(1) by (simp_all add: s1_def set_task_def)
    from mm_dupe_spec [OF k1 d(2) [OF ok(2)] d(1) [OF ok(3)] fr] show ?thesis
    proof (elim disjE exE conjE)
      fix mm sx s2
      assume m: "mm_dupe old s1 = Inr (mm, s2)" "memory_copied old mm s1 s2"
      from do_fork_run [OF c(1) _ nt, folded s1_def, unfolded o(2), OF m(1), of A] obtain T F i where
        T: "t_mm (T new) = mm" and run: "do_fork A t s = rbind (init_task_stack A new (s2\<lparr>tasks := T, files := F, next_pid := i\<rparr>))
          (\<lambda>s. Inr (new, s\<lparr>mem := st64 (memcpy (mem s) (regs (tasks s new)) (regs (tasks s t)) 136) (regs (tasks s new) + 112) 0\<rparr>))" by blast
      define s4 where "s4 = s2\<lparr>tasks := T, files := F, next_pid := i\<rparr>"
      have mc4: "memory_copied old mm s s4"
        using memory_copied_before [OF ok(1) g1(1-3) ok(3) m(2)] by (simp add: s4_def)
      then have k4: "kernel_ok s4" and h4: "heap_objects s \<subseteq> heap_objects s4" by (auto simp: memory_copied_def)
      have mm: "t_mm (tasks s4 new) = mm" by (simp add: s4_def T)
      from stack_stage [OF k4, of A new] show ?thesis
      proof (elim disjE exE conjE)
        fix s5
        assume s5: "init_task_stack A new s4 = Inr s5"
          "\<forall>src. heap_grown s4 (s5\<lparr>mem := st64 (memcpy (mem s5) (regs (tasks s5 new)) src 136) (regs (tasks s5 new) + 112) 0\<rparr>)" "mms s5 = mms s4"
          "t_mm (tasks s5 new) = t_mm (tasks s4 new)" "\<forall>R. room s4 R \<longrightarrow> rng (regs (tasks s5 new)) 136 \<inter> R = {}"
        define s' where "s' = s5\<lparr>mem := st64 (memcpy (mem s5) (regs (tasks s5 new)) (regs (tasks s5 t)) 136) (regs (tasks s5 new) + 112) 0\<rparr>"
        have "memory_copied old mm s s'" by (rule memory_copied_grown [OF mc4]) (use s5(2,3) in \<open>simp_all add: s'_def\<close>)
        moreover have "do_fork A t s = Inr (new, s')" using run s5(1) by (simp add: s4_def s'_def)
        moreover have "tasks s' = tasks s5" by (simp add: s'_def)
        moreover have "\<forall>R. room s R \<longrightarrow> rng (regs (tasks s5 new)) 136 \<inter> R = {}" using s5(5) room_more [OF _ h4] by blast
        ultimately show ?thesis using fresh s5(4) mm by (intro disjI2 exI [of _ new] exI [of _ s']) simp
      qed (use run in \<open>simp add: s4_def\<close>)
    qed (use nt o in \<open>simp add: do_fork_def c(1) Let_def s1_def [symmetric]\<close>)
  qed (simp add: do_fork_def)
qed

section \<open>Property\<close>


text \<open>The sample parent as a task of a kernel with two tasks.\<close>

definition sample_forker :: "unit kernel_state" where
  "sample_forker = set_task 16 (t_mm_update (\<lambda>_. 1)) (sample_fork\<lparr>mem := mem sample_family, n_regions := n_regions sample_family, regions := regions sample_family,
     kernel_brk := kernel_brk sample_family, heap_base := heap_base sample_family, statics := statics sample_family,
     mms := mms sample_family, vmas := vmas sample_family\<rparr>)"

lemma sample_forker_memory:
  "mem sample_forker = mem sample_family" "mms sample_forker = mms sample_family" "vmas sample_forker = vmas sample_family"
  "statics sample_forker = statics sample_family" "heap_objects sample_forker = heap_objects sample_family" "kernel_ok sample_forker = kernel_ok sample_family"
  "used_frames sample_forker = used_frames sample_family" "free_frames sample_forker = free_frames sample_family"
  "mm_ok sample_forker mm = mm_ok sample_family mm" "stable_vma sample_forker v = stable_vma sample_family v" "data_page q sample_forker w = data_page q sample_family w"
  "dupable q sample_forker = dupable q sample_family" "kernel_space_ok sample_forker = kernel_space_ok sample_family"
proof -
  show A: "mem sample_forker = mem sample_family" "mms sample_forker = mms sample_family" "vmas sample_forker = vmas sample_family"
    "statics sample_forker = statics sample_family" "heap_objects sample_forker = heap_objects sample_family" "kernel_ok sample_forker = kernel_ok sample_family"
    "used_frames sample_forker = used_frames sample_family" "free_frames sample_forker = free_frames sample_family"
    "mm_ok sample_forker mm = mm_ok sample_family mm" for mm
    by (simp_all add: sample_forker_def set_task_def heap_objects_def heap_inv_def kernel_ok_def heap_ok_def pmm_inv_def active_regions_def
        used_frames_def free_frames_def mm_ok_def pt_inv_def)
  show B: "stable_vma sample_forker v = stable_vma sample_family v" "data_page q sample_forker w = data_page q sample_family w" for v q w
    by (simp_all add: stable_vma_def data_page_def A)
  show "dupable q sample_forker = dupable q sample_family" "kernel_space_ok sample_forker = kernel_space_ok sample_family"
    by (simp_all add: dupable_def kernel_space_ok_def sharable_def spans_apart_def A B)
qed


end
