(* ===== verification/Exec_Spec.thy ===== *)
theory Exec_Spec
  imports Fork_Spec Address_Space
begin

text \<open>
  What loading a program leaves (\<^verbatim>\<open>src/src/fs/exec.c\<close>): the address space of the task holds, at the addresses
  the program headers name, the bytes of the file and zeros after them.
\<close>

section \<open>Program headers\<close>

text \<open>The fields of a program header, and of the file header, that the loader reads.\<close>

abbreviation p_type :: "memory \<Rightarrow> u64 \<Rightarrow> u32" where "p_type m ph \<equiv> ld32 m (fld Elf64_Phdr ''p_type'' ph)"
abbreviation p_offset :: "memory \<Rightarrow> u64 \<Rightarrow> u64" where "p_offset m ph \<equiv> ld64 m (fld Elf64_Phdr ''p_offset'' ph)"
abbreviation p_vaddr :: "memory \<Rightarrow> u64 \<Rightarrow> u64" where "p_vaddr m ph \<equiv> ld64 m (fld Elf64_Phdr ''p_vaddr'' ph)"
abbreviation p_filesz :: "memory \<Rightarrow> u64 \<Rightarrow> u64" where "p_filesz m ph \<equiv> ld64 m (fld Elf64_Phdr ''p_filesz'' ph)"
abbreviation p_memsz :: "memory \<Rightarrow> u64 \<Rightarrow> u64" where "p_memsz m ph \<equiv> ld64 m (fld Elf64_Phdr ''p_memsz'' ph)"
abbreviation e_phnum :: "memory \<Rightarrow> u64 \<Rightarrow> u16" where "e_phnum m buf \<equiv> ld16 m (fld Elf64_Ehdr ''e_phnum'' buf)"
abbreviation e_phoff :: "memory \<Rightarrow> u64 \<Rightarrow> u64" where "e_phoff m buf \<equiv> ld64 m (fld Elf64_Ehdr ''e_phoff'' buf)"

lemma elf_fields:
  "fld Elf64_Phdr ''p_type'' a = a" "fld Elf64_Phdr ''p_offset'' a = a + 8" "fld Elf64_Phdr ''p_vaddr'' a = a + 16"
  "fld Elf64_Phdr ''p_filesz'' a = a + 32" "fld Elf64_Phdr ''p_memsz'' a = a + 40" "sizeof Elf64_Phdr = 56"
  "fld Elf64_Ehdr ''e_phoff'' a = a + 32" "fld Elf64_Ehdr ''e_phnum'' a = a + 56"
  by (simp_all add: fld_def Elf64_Phdr_def Elf64_Ehdr_def sizeof_def)

text \<open>The pages a segment takes, from the page of its first byte on.\<close>

definition seg_pages :: "memory \<Rightarrow> u64 \<Rightarrow> nat" where
  "seg_pages m ph = (unat (p_memsz m ph) + unat (p_vaddr m ph) mod 4096 + 4095) div 4096"

definition seg_span :: "memory \<Rightarrow> u64 \<Rightarrow> nat set" where
  "seg_span m ph = page_span (page_base (p_vaddr m ph)) (seg_pages m ph)"

text \<open>
  A loadable segment in a file of \<open>n\<close> bytes at \<open>buf\<close>, as the format prescribes it: its file part lies in the
  file and is not longer than its memory part, and its address and its offset agree modulo the page size.
\<close>

definition seg_ok :: "memory \<Rightarrow> u64 \<Rightarrow> u64 \<Rightarrow> bool" where
  "seg_ok m n ph \<longleftrightarrow> page_off (p_vaddr m ph) = page_off (p_offset m ph) \<and> unat (p_filesz m ph) \<le> unat (p_memsz m ph)
     \<and> seg_pages m ph \<le> 2 ^ 19 \<and> unat (p_offset m ph) + unat (p_filesz m ph) \<le> unat n"

text \<open>What a process must see of a segment.\<close>

definition seg_loaded :: "u64 \<Rightarrow> memory \<Rightarrow> u64 \<Rightarrow> u64 \<Rightarrow> 'a vmm_state_scheme \<Rightarrow> bool" where
  "seg_loaded mmp m buf ph s \<longleftrightarrow> image mmp (p_vaddr m ph) (unat (p_memsz m ph))
     (\<lambda>j. if j < unat (p_filesz m ph) then m (buf + p_offset m ph + of_nat j) else 0) s"

lemma phdr_fields:
  assumes "rng ph 56 \<subseteq> rng buf (unat n)" "\<forall>x \<in> rng buf (unat n). m' x = m x"
  shows "p_type m' ph = p_type m ph" "p_offset m' ph = p_offset m ph" "p_vaddr m' ph = p_vaddr m ph"
    "p_filesz m' ph = p_filesz m ph" "p_memsz m' ph = p_memsz m ph"
proof -
  have "m' x = m x" if "unat p + k \<le> 56" "x \<in> rng (ph + p) k" for x p k
    using rng_part [OF that(1) _ that(2)] assms by (auto simp del: in_rng)
  note r = this
  show "p_type m' ph = p_type m ph" unfolding elf_fields by (rule ld32_cong) (use r [of 0 4] in simp)
  show "p_offset m' ph = p_offset m ph" unfolding elf_fields by (rule ld64_cong) (use r [of 8 8] in simp)
  show "p_vaddr m' ph = p_vaddr m ph" unfolding elf_fields by (rule ld64_cong) (use r [of 16 8] in simp)
  show "p_filesz m' ph = p_filesz m ph" unfolding elf_fields by (rule ld64_cong) (use r [of 32 8] in simp)
  show "p_memsz m' ph = p_memsz m ph" unfolding elf_fields by (rule ld64_cong) (use r [of 40 8] in simp)
qed

lemma byte_in_rng:
  fixes n :: u64
  assumes "unat p + i < unat n"
  shows "b + p + of_nat i \<in> rng b (unat n)"
proof -
  have i: "unat p + i < 18446744073709551616" using assms by (rule less_trans) (rule u64_unat_bound)
  then have "unat (p + of_nat i) = unat p + i" by (subst unat_add_nowrap) (simp_all add: unat_of_nat_u64)
  then show ?thesis using assms by (simp add: add.assoc)
qed

lemma image_shift:
  assumes "image mmp start N c s" "a + n \<le> N"
  shows "image mmp (start + of_nat a) n (\<lambda>i. c (a + i)) s"
  unfolding image_def
proof (intro allI impI)
  show "data_page mmp s (start + of_nat a + of_nat i) \<and> user_byte (mem s) (mms s mmp) (start + of_nat a + of_nat i) = c (a + i)"
    if "i < n" for i
    using assms that unfolding image_def by (simp add: add.assoc flip: of_nat_add)
qed

lemma seg_pages_word:
  assumes "seg_pages m ph \<le> 2 ^ 19"
  shows "unat (DIV_CEIL (p_memsz m ph + page_off (p_vaddr m ph)) PAGE_SIZE) = seg_pages m ph"
    and "unat (p_memsz m ph) + unat (p_vaddr m ph) mod 4096 \<le> seg_pages m ph * 4096"
proof -
  let ?a = "p_memsz m ph" and ?b = "unat (p_vaddr m ph) mod 4096"
  show "unat ?a + ?b \<le> seg_pages m ph * 4096" unfolding seg_pages_def by linarith
  then have small: "unat ?a + ?b \<le> 2147483648" using assms by simp
  have 1: "unat (?a + page_off (p_vaddr m ph)) = unat ?a + ?b"
    using small by (subst unat_add_nowrap) (simp_all add: unat_page_off)
  have e: "?a + page_off (p_vaddr m ph) + PAGE_SIZE - 1 = (?a + page_off (p_vaddr m ph)) + 4095" by simp
  have 2: "unat (?a + page_off (p_vaddr m ph) + PAGE_SIZE - 1) = unat ?a + ?b + 4095"
    unfolding e using small 1 by (subst unat_add_nowrap) simp_all
  show "unat (DIV_CEIL (?a + page_off (p_vaddr m ph)) PAGE_SIZE) = seg_pages m ph"
    unfolding DIV_CEIL_def unat_div 2 seg_pages_def by simp
qed

section \<open>Loading one segment\<close>

lemma vmm_only_copy_buf: "vmm_only s (copy_from_buf_loop dst src start len pg s)"
proof (induction dst src start len pg s rule: copy_from_buf_loop.induct)
  case (1 dst src start len pg s)
  show ?case
  proof (cases "len > 0")
    case True
    show ?thesis by (subst copy_from_buf_loop.simps) (use vmm_only_trans [OF vmm_only_updates(1) 1 [OF True refl refl refl refl]] True in \<open>simp only: Let_def if_True\<close>)
  next
    case False
    then show ?thesis by (subst copy_from_buf_loop.simps) (simp add: vmm_only_refl)
  qed
qed

text \<open>The copy starts at the beginning of the page that holds the first byte of the segment.\<close>

lemma seg_source:
  assumes "seg_ok m n ph" "i < unat (p_filesz m ph) + unat (p_vaddr m ph) mod 4096"
  shows "buf + page_base (p_offset m ph) + of_nat i \<in> rng buf (unat n)"
proof -
  have "unat (page_off (p_vaddr m ph)) = unat (page_off (p_offset m ph))" using assms(1) by (simp add: seg_ok_def)
  then have "unat (p_vaddr m ph) mod 4096 = unat (p_offset m ph) mod 4096" by (simp add: unat_page_off)
  then have "unat (page_base (p_offset m ph)) + i < unat n"
    using assms mod_less_eq_dividend [of "unat (p_offset m ph)" 4096] unfolding seg_ok_def unat_page_base by linarith
  then show ?thesis by (rule byte_in_rng)
qed

lemma seg_image:
  assumes ok: "seg_ok m n ph"
    and im: "image mmp (page_base (p_vaddr m ph)) (seg_pages m ph * 4096) (\<lambda>i. if i < unat (p_filesz m ph) + unat (p_vaddr m ph) mod 4096
        then m (buf + page_base (p_offset m ph) + of_nat i) else 0) s"
  shows "seg_loaded mmp m buf ph s"
proof -
  define a where "a = unat (p_vaddr m ph) mod 4096"
  have a: "of_nat a = page_off (p_vaddr m ph)" by (simp add: a_def word_unat_eq_iff unat_page_off unat_of_nat_u64)
  have off: "page_off (p_vaddr m ph) = page_off (p_offset m ph)" and n: "seg_pages m ph \<le> 2 ^ 19" using ok by (simp_all add: seg_ok_def)
  have ld: "buf + page_base (p_offset m ph) + of_nat (a + j) = buf + p_offset m ph + of_nat j" for j
  proof -
    have "buf + page_base (p_offset m ph) + of_nat (a + j) = buf + (page_base (p_offset m ph) + page_off (p_offset m ph)) + of_nat j"
      unfolding of_nat_add a off by (simp only: add.assoc)
    then show ?thesis unfolding page_base_plus_off .
  qed
  have "page_base (p_vaddr m ph) + of_nat a = p_vaddr m ph" unfolding a by (rule page_base_plus_off)
  then show ?thesis
    using image_shift [OF im, of a "unat (p_memsz m ph)"] seg_pages_word(2) [OF n] unfolding seg_loaded_def ld a_def [symmetric]
    by (simp add: add.commute)
qed

lemma map_segment_spec:
  fixes s :: "('d, 'a) kernel_state_scheme"
  assumes ok: "kernel_ok s" "mm_ok s (mms s mmp)" and buf: "(buf, n) \<in> heap_objects s" "rng ph 56 \<subseteq> rng buf (unat n)"
    and seg: "seg_ok (mem s) n ph" and free: "5 * seg_pages (mem s) ph \<le> card (free_frames s)"
  shows "map_segment mmp buf ph s = Inl (Panic ''kernel heap exhausted'') \<or>
    (\<exists>s'. map_segment mmp buf ph s = Inr s' \<and> kernel_ok s' \<and> mm_ok s' (mms s' mmp) \<and> seg_loaded mmp (mem s) buf ph s'
      \<and> rest_kept mmp (seg_span (mem s) ph) s s' \<and> card (free_frames s) \<le> card (free_frames s') + 5 * seg_pages (mem s) ph \<and> vmm_only s s')"
proof -
  let ?m = "mem s"
  define start len pages where "start = page_base (p_vaddr ?m ph)" and "len = p_filesz ?m ph + page_off (p_vaddr ?m ph)"
    and "pages = DIV_CEIL (p_memsz ?m ph + page_off (p_vaddr ?m ph)) PAGE_SIZE"
  let ?src = "buf + page_base (p_offset ?m ph)" and ?prot = "ucast (ucast PAGE_PROT_READ :: u8) :: u64"
  have sp: "seg_pages ?m ph \<le> 2 ^ 19" "page_off (p_vaddr ?m ph) = page_off (p_offset ?m ph)"
    "unat (p_filesz ?m ph) \<le> unat (p_memsz ?m ph)" "unat (p_offset ?m ph) + unat (p_filesz ?m ph) \<le> unat n"
    using seg by (simp_all add: seg_ok_def)
  note pg = seg_pages_word [OF sp(1), folded pages_def]
  have off: "page_off start = 0" by (simp add: start_def aligned_iff_page_off [symmetric] aligned_def unat_page_base)
  have len: "unat len = unat (p_filesz ?m ph) + unat (p_vaddr ?m ph) mod 4096"
    unfolding len_def using sp(1,3) pg(2) by (subst unat_add_nowrap) (simp_all add: unat_page_off)
  have body: "map_segment mmp buf ph s = rbind (anon_mmap mmp start pages ?prot True s) (\<lambda>s.
      mm_copy_from_buf mmp ?src start (p_filesz (mem s) ph + page_off (p_vaddr ?m ph)) s)"
    unfolding map_segment_def Let_def anon_mmap_user_def start_def pages_def ..
  have fp: "5 * unat pages \<le> card (free_frames s)" "unat pages \<le> 2 ^ 19" using free sp(1) pg(1) by simp_all
  from anon_mmap_spec [OF ok fp off, of ?prot True] show ?thesis
  proof (elim disjE exE conjE)
    assume "anon_mmap mmp start pages ?prot True s = Inl (Panic ''kernel heap exhausted'')"
    then show ?thesis unfolding body by simp
  next
    fix s1 fs li vma
    assume am: "anon_mmap mmp start pages ?prot True s = Inr s1"
      and fs: "kernel_ok s1" "length fs = unat pages" "frames_mapped mmp start fs (vma_flags ?prot True) s s1" "zeroed (mem s1) fs"
      and ob: "heap_objects s \<subseteq> heap_objects s1" "\<forall>(q, k) \<in> heap_objects s. \<forall>x \<in> rng q (unat k). mem s1 x = mem s x"
    have "\<forall>x \<in> rng buf (unat n). mem s1 x = ?m x" using ob(2) buf(1) by blast
    note hd = phdr_fields [OF buf(2) this]
    define r where "r = copy_from_buf_loop mmp ?src start len 0 s1"
    have call: "map_segment mmp buf ph s = Inr r"
      using off unfolding body am rbind_Inr hd len_def [symmetric] by (simp add: mm_copy_from_buf_def r_def)
    have "\<forall>i < unat len. ?src + of_nat i \<in> rng buf (unat n)" using seg_source [OF seg] len by simp
    moreover have "aligned start" using off by (simp add: aligned_iff_page_off)
    moreover have "unat len \<le> length fs * 4096" using len fs(2) pg sp(3) by simp
    ultimately have fill: "kernel_ok r" "mm_ok r (mms r mmp)" "free_frames r = free_frames s1" "rest_kept mmp (seg_span ?m ph) s r"
      "image mmp start (seg_pages ?m ph * 4096) (\<lambda>i. if i < unat len then ?m (?src + of_nat i) else 0) r"
      using mapped_fill [OF ok(1) fs(3,4,1) ob _ vma_flags_bound _ buf(1), of len ?src] fs(2) pg(1)
      unfolding r_def seg_span_def start_def by simp_all
    have loaded: "seg_loaded mmp ?m buf ph r" using seg_image [OF seg] fill(5) by (simp add: start_def len)
    have "card (free_frames s) \<le> card (free_frames r) + 5 * seg_pages ?m ph"
      using fs(3) fill(3) pg(1) fs(2) by (simp add: frames_mapped_def)
    moreover have "vmm_only s r"
      unfolding r_def by (rule vmm_only_trans [OF vmm_only_anon_mmap [OF am] vmm_only_copy_buf])
    ultimately show ?thesis using call fill(1,2,4) loaded by blast
  qed
qed

section \<open>Loading a program\<close>

lemma seg_cong:
  assumes "rng ph 56 \<subseteq> rng buf (unat n)" "\<forall>x \<in> rng buf (unat n). m' x = m x"
  shows "seg_ok m' n ph = seg_ok m n ph" "seg_pages m' ph = seg_pages m ph" "seg_span m' ph = seg_span m ph"
    "seg_ok m n ph \<Longrightarrow> seg_loaded mmp m' buf ph s = seg_loaded mmp m buf ph s"
proof -
  note hd = phdr_fields [OF assms]
  show p: "seg_pages m' ph = seg_pages m ph" by (simp only: seg_pages_def hd)
  show "seg_ok m' n ph = seg_ok m n ph" "seg_span m' ph = seg_span m ph" by (simp_all only: seg_ok_def seg_span_def p hd)
  assume ok: "seg_ok m n ph"
  have "m' (buf + p_offset m ph + of_nat j) = m (buf + p_offset m ph + of_nat j)" if "j < unat (p_filesz m ph)" for j
  proof -
    have "unat (p_offset m ph) + j < unat n" using ok that by (simp add: seg_ok_def)
    from byte_in_rng [OF this] show ?thesis using assms(2) by blast
  qed
  then show "seg_loaded mmp m' buf ph s = seg_loaded mmp m buf ph s"
    by (simp add: seg_loaded_def hd image_def)
qed

text \<open>The header of entry \<open>i\<close> of the table, and the entries that the loader loads.\<close>

definition phdr :: "u64 \<Rightarrow> nat \<Rightarrow> u64" where
  "phdr ph_arr i = ph_arr + of_nat (i * sizeof Elf64_Phdr)"

definition loadable :: "memory \<Rightarrow> u64 \<Rightarrow> nat set \<Rightarrow> nat set" where
  "loadable m ph_arr I = {i \<in> I. p_type m (phdr ph_arr i) = PT_LOAD}"

text \<open>
  A file that can be loaded: the headers lie in the file, the segments are as the format prescribes, and
  no two of them share a page.
\<close>

definition elf_ok :: "memory \<Rightarrow> u64 \<Rightarrow> u64 \<Rightarrow> u64 \<Rightarrow> nat \<Rightarrow> bool" where
  "elf_ok m buf n ph_arr N \<longleftrightarrow> 64 \<le> unat n \<and> N = unat (e_phnum m buf)
     \<and> (\<forall>i < N. rng (phdr ph_arr i) 56 \<subseteq> rng buf (unat n))
     \<and> (\<forall>i \<in> loadable m ph_arr {..<N}. seg_ok m n (phdr ph_arr i))
     \<and> (\<forall>i \<in> loadable m ph_arr {..<N}. \<forall>j \<in> loadable m ph_arr {..<N}. i \<noteq> j \<longrightarrow>
          seg_span m (phdr ph_arr i) \<inter> seg_span m (phdr ph_arr j) = {})"

text \<open>The bytes of a segment lie on its pages.\<close>

lemma seg_loaded_kept:
  assumes "seg_loaded mmp m buf ph s" "seg_ok m n ph" "rest_kept mmp P s s'" "seg_span m ph \<inter> P = {}"
  shows "seg_loaded mmp m buf ph s'"
  unfolding seg_loaded_def
proof (rule image_kept [OF assms(1) [unfolded seg_loaded_def] assms(3)])
  fix i assume i: "i < unat (p_memsz m ph)"
  define a where "a = unat (p_vaddr m ph) mod 4096 + i"
  have al: "aligned (page_base (p_vaddr m ph))" by (simp add: aligned_def unat_page_base)
  have "of_nat (unat (p_vaddr m ph) mod 4096) = page_off (p_vaddr m ph)"
    by (simp add: word_unat_eq_iff unat_page_off unat_of_nat_u64)
  then have "page_base (p_vaddr m ph) + of_nat a = page_base (p_vaddr m ph) + page_off (p_vaddr m ph) + of_nat i"
    by (simp only: a_def of_nat_add add.assoc)
  then have e: "p_vaddr m ph + of_nat i = page_base (p_vaddr m ph) + of_nat a" by (simp only: page_base_plus_off)
  have "a < seg_pages m ph * 4096" using i seg_pages_word(2) [of m ph] assms(2) by (simp add: seg_ok_def a_def)
  from page_span_byte [OF al this] have "page_no (p_vaddr m ph + of_nat i) \<in> seg_span m ph" unfolding seg_span_def e .
  then show "page_no (p_vaddr m ph + of_nat i) \<notin> P" using assms(4) by blast
qed

text \<open>A state in which a task loads the file of \<open>n\<close> bytes at \<open>buf\<close> into its address space; \<open>m\<close> has the file's bytes.\<close>

definition loading :: "u64 \<Rightarrow> u64 \<Rightarrow> u64 \<Rightarrow> memory \<Rightarrow> ('d, 'a) kernel_state_scheme \<Rightarrow> bool" where
  "loading task buf n m s \<longleftrightarrow> kernel_ok s \<and> mm_ok s (mms s (t_mm (tasks s task))) \<and> (buf, n) \<in> heap_objects s
     \<and> (\<forall>x \<in> rng buf (unat n). mem s x = m x)"

definition segs_span :: "memory \<Rightarrow> u64 \<Rightarrow> nat set \<Rightarrow> nat set" where
  "segs_span m ph_arr I = (\<Union>i \<in> loadable m ph_arr I. seg_span m (phdr ph_arr i))"

definition segs_pages :: "memory \<Rightarrow> u64 \<Rightarrow> nat set \<Rightarrow> nat" where
  "segs_pages m ph_arr I = (\<Sum>i \<in> loadable m ph_arr I. seg_pages m (phdr ph_arr i))"

definition segs_loaded :: "u64 \<Rightarrow> memory \<Rightarrow> u64 \<Rightarrow> u64 \<Rightarrow> nat set \<Rightarrow> 'a vmm_state_scheme \<Rightarrow> bool" where
  "segs_loaded mmp m buf ph_arr I s \<longleftrightarrow> (\<forall>i \<in> loadable m ph_arr I. seg_loaded mmp m buf (phdr ph_arr i) s)"

lemma loading_header:
  assumes "loading task buf n m s" "elf_ok m buf n ph_arr N"
  shows "unat (ld16 (mem s) (fld Elf64_Ehdr ''e_phnum'' buf)) = N"
    "i < N \<Longrightarrow> p_type (mem s) (phdr ph_arr i) = p_type m (phdr ph_arr i)"
proof -
  have n: "64 \<le> unat n" and N: "N = unat (e_phnum m buf)" using assms(2) by (simp_all add: elf_ok_def)
  have "mem s x = m x" if "x \<in> rng (buf + 56) 2" for x
  proof -
    have "x \<in> rng buf (unat n)" by (rule rng_part [OF _ _ that]) (use n less_imp_le [OF u64_unat_bound [of n]] in simp_all)
    then show ?thesis using assms(1) unfolding loading_def by blast
  qed
  then have "ld16 (mem s) (buf + 56) = ld16 m (buf + 56)" by (rule ld16_cong)
  then show "unat (ld16 (mem s) (fld Elf64_Ehdr ''e_phnum'' buf)) = N" by (simp only: elf_fields N)
  show "i < N \<Longrightarrow> p_type (mem s) (phdr ph_arr i) = p_type m (phdr ph_arr i)"
    by (rule phdr_fields(1) [of _ buf n]) (use assms in \<open>simp_all add: loading_def elf_ok_def del: in_rng\<close>)
qed

text \<open>One turn of the loop.\<close>

lemma load_segment_step:
  fixes s :: "('d, 'a) kernel_state_scheme"
  assumes ok: "loading task buf n m s" and elf: "elf_ok m buf n ph_arr N" and i: "i \<in> loadable m ph_arr {..<N}"
    and free: "5 * seg_pages m (phdr ph_arr i) \<le> card (free_frames s)"
  defines "mmp \<equiv> t_mm (tasks s task)"
  shows "map_segment mmp buf (phdr ph_arr i) s = Inl (Panic ''kernel heap exhausted'') \<or>
    (\<exists>s'. map_segment mmp buf (phdr ph_arr i) s = Inr s' \<and> loading task buf n m s' \<and> vmm_only s s' \<and> tasks s' = tasks s
      \<and> seg_loaded mmp m buf (phdr ph_arr i) s' \<and> rest_kept mmp (seg_span m (phdr ph_arr i)) s s'
      \<and> card (free_frames s) \<le> card (free_frames s') + 5 * seg_pages m (phdr ph_arr i))"
proof -
  have k: "kernel_ok s" "mm_ok s (mms s mmp)" "(buf, n) \<in> heap_objects s" "\<forall>x \<in> rng buf (unat n). mem s x = m x"
    using ok by (simp_all add: loading_def mmp_def)
  have hd: "rng (phdr ph_arr i) 56 \<subseteq> rng buf (unat n)" and sg: "seg_ok m n (phdr ph_arr i)"
    using elf i by (auto simp: elf_ok_def loadable_def)
  note c = seg_cong [OF hd k(4)]
  have "loading task buf n m s' \<and> tasks s' = tasks s"
    if "kernel_ok s'" "mm_ok s' (mms s' mmp)" "rest_kept mmp P s s'" "vmm_only s s'" for s' :: "('d, 'a) kernel_state_scheme" and P
    using that k(3,4) vmm_only_fields(1) [OF that(4)] unfolding loading_def rest_kept_def mmp_def by auto
  then show ?thesis using map_segment_spec [OF k(1-3) hd] sg free unfolding c(1-3) c(4) [OF sg] by blast
qed

lemma loadable_split:
  assumes "i < N"
  shows "loadable m ph_arr {i..<N} = (if p_type m (phdr ph_arr i) = PT_LOAD then insert i (loadable m ph_arr {Suc i..<N}) else loadable m ph_arr {Suc i..<N})"
  using assms by (auto simp: loadable_def Suc_le_eq le_less)

lemma segs_split:
  assumes "i < N" "p_type m (phdr ph_arr i) = PT_LOAD"
  shows "segs_span m ph_arr {i..<N} = seg_span m (phdr ph_arr i) \<union> segs_span m ph_arr {Suc i..<N}"
    "segs_pages m ph_arr {i..<N} = seg_pages m (phdr ph_arr i) + segs_pages m ph_arr {Suc i..<N}"
    "segs_loaded mmp m buf ph_arr {i..<N} s \<longleftrightarrow> seg_loaded mmp m buf (phdr ph_arr i) s \<and> segs_loaded mmp m buf ph_arr {Suc i..<N} s"
proof -
  have "i \<notin> loadable m ph_arr {Suc i..<N}" "finite (loadable m ph_arr {Suc i..<N})" by (simp_all add: loadable_def)
  then show "segs_span m ph_arr {i..<N} = seg_span m (phdr ph_arr i) \<union> segs_span m ph_arr {Suc i..<N}"
    "segs_pages m ph_arr {i..<N} = seg_pages m (phdr ph_arr i) + segs_pages m ph_arr {Suc i..<N}"
    "segs_loaded mmp m buf ph_arr {i..<N} s \<longleftrightarrow> seg_loaded mmp m buf (phdr ph_arr i) s \<and> segs_loaded mmp m buf ph_arr {Suc i..<N} s"
    using assms by (simp_all add: segs_span_def segs_pages_def segs_loaded_def loadable_split)
qed

lemma load_segments_spec:
  fixes s :: "('d, 'a) kernel_state_scheme"
  assumes "loading task buf n m s" "elf_ok m buf n ph_arr N" "5 * segs_pages m ph_arr {i..<N} \<le> card (free_frames s)" "N \<le> i + k"
    "t_mm (tasks s task) = mmp"
  shows "load_segments k task buf ph_arr i s = Inl (Panic ''kernel heap exhausted'') \<or>
    (\<exists>s'. load_segments k task buf ph_arr i s = Inr s' \<and> loading task buf n m s' \<and> vmm_only s s'
      \<and> segs_loaded mmp m buf ph_arr {i..<N} s' \<and> rest_kept mmp (segs_span m ph_arr {i..<N}) s s')"
  using assms
proof (induction k arbitrary: i s)
  case 0
  then have "loadable m ph_arr {i..<N} = {}" by (simp add: loadable_def)
  then show ?case using 0(1) by (auto simp: segs_loaded_def rest_kept_def vmm_only_refl)
next
  case (Suc k)
  note hd = loading_header [OF Suc.prems(1,2)]
  let ?ph = "phdr ph_arr i"
  consider (past) "\<not> i < N" | (skip) "i < N" "p_type m ?ph \<noteq> PT_LOAD" | (load) "i < N" "p_type m ?ph = PT_LOAD" by blast
  then show ?case
  proof cases
    case past
    then have "loadable m ph_arr {i..<N} = {}" by (simp add: loadable_def)
    then show ?thesis using past Suc.prems(1) hd(1) by (auto simp: segs_loaded_def rest_kept_def vmm_only_refl)
  next
    case skip
    then have e: "loadable m ph_arr {i..<N} = loadable m ph_arr {Suc i..<N}" using loadable_split by simp
    have "load_segments (Suc k) task buf ph_arr i s = load_segments k task buf ph_arr (Suc i) s"
      using skip hd(2) [OF skip(1)] unfolding load_segments.simps Let_def hd(1) phdr_def [symmetric] by simp
    then show ?thesis using Suc.IH [OF Suc.prems(1,2) _ _ Suc.prems(5), of "Suc i"] Suc.prems(3,4)
      by (simp add: segs_loaded_def segs_span_def segs_pages_def e)
  next
    case load
    note sp = segs_split [OF load]
    have i: "i \<in> loadable m ph_arr {..<N}" using load by (simp add: loadable_def)
    have body: "load_segments (Suc k) task buf ph_arr i s = rbind (map_segment mmp buf ?ph s) (load_segments k task buf ph_arr (Suc i))"
      using load hd(2) [OF load(1)] unfolding load_segments.simps Let_def hd(1) phdr_def [symmetric] Suc.prems(5) by simp
    have fr: "5 * seg_pages m ?ph \<le> card (free_frames s)" using Suc.prems(3) sp(2) by simp
    from load_segment_step [OF Suc.prems(1,2) i fr, unfolded Suc.prems(5)] show ?thesis
    proof (elim disjE exE conjE)
      fix s1
      assume s1: "map_segment mmp buf ?ph s = Inr s1" "loading task buf n m s1" "vmm_only s s1" "tasks s1 = tasks s"
        "seg_loaded mmp m buf ?ph s1" "rest_kept mmp (seg_span m ?ph) s s1"
        "card (free_frames s) \<le> card (free_frames s1) + 5 * seg_pages m ?ph"
      have "5 * segs_pages m ph_arr {Suc i..<N} \<le> card (free_frames s1)" using Suc.prems(3) s1(7) sp(2) by simp
      from Suc.IH [OF s1(2) Suc.prems(2) this] Suc.prems(4,5) s1(4)
      have "load_segments k task buf ph_arr (Suc i) s1 = Inl (Panic ''kernel heap exhausted'') \<or>
        (\<exists>s'. load_segments k task buf ph_arr (Suc i) s1 = Inr s' \<and> loading task buf n m s' \<and> vmm_only s1 s'
          \<and> segs_loaded mmp m buf ph_arr {Suc i..<N} s' \<and> rest_kept mmp (segs_span m ph_arr {Suc i..<N}) s1 s')" by simp
      moreover have "seg_loaded mmp m buf ?ph s'" if "rest_kept mmp (segs_span m ph_arr {Suc i..<N}) s1 s'" for s'
      proof (rule seg_loaded_kept [OF s1(5) _ that])
        show "seg_ok m n ?ph" using Suc.prems(2) i by (simp add: elf_ok_def)
        show "seg_span m ?ph \<inter> segs_span m ph_arr {Suc i..<N} = {}"
          using Suc.prems(2) i unfolding elf_ok_def segs_span_def by (fastforce simp: loadable_def)
      qed
      ultimately show ?thesis
        using vmm_only_trans [OF s1(3)] rest_kept_trans [OF s1(6)] unfolding body s1(1) rbind_Inr sp(1,3) by blast
    qed (simp add: body del: load_segments.simps)
  qed
qed

section \<open>Properties\<close>


text \<open>A file with one segment of 120 bytes, which takes 5120 bytes in memory, at \<^verbatim>\<open>0x400000\<close>.\<close>

definition sample_file :: "nat \<Rightarrow> u8" where
  "sample_file i = (if i = 56 \<or> i = 64 then 1 else if i = 82 then 0x40 else if i = 96 then 120 else if i = 105 then 0x14 else 0)"

lemma sample_file_fields:
  fixes b :: u64
  assumes "\<forall>x \<in> rng b 256. m x = sample_file (unat (x - b))"
  shows "e_phnum m b = 1" "p_type m (b + 64) = PT_LOAD" "p_offset m (b + 64) = 0" "p_vaddr m (b + 64) = 0x400000"
    "p_filesz m (b + 64) = 120" "p_memsz m (b + 64) = 5120"
proof -
  have "m (b + of_nat i) = sample_file i" if "i < 256" for i
    using assms [rule_format, of "b + of_nat i"] that by (simp add: unat_of_nat_u64)
  from this [of "numeral _"] have m: "m (b + numeral k) = sample_file (numeral k)" if "(numeral k :: nat) < 256" for k
    using that by simp
  show "e_phnum m b = 1" "p_type m (b + 64) = PT_LOAD" "p_offset m (b + 64) = 0" "p_vaddr m (b + 64) = 0x400000"
    "p_filesz m (b + 64) = 120" "p_memsz m (b + 64) = 5120"
    unfolding elf_fields by (simp_all add: ld16_bytes ld32_bytes ld64_bytes add.assoc m sample_file_def PT_LOAD_def)
qed

text \<open>A kernel with a fresh heap in which task 16 has an empty address space, and the file in an object of 256 bytes.\<close>

definition sample_exec_boot :: "unit kernel_state" where
  "sample_exec_boot = vmm_state.extend Vmm.sample_kernel (vmm_state.more Tty.sample_kernel)"

definition sample_buf :: u64 where "sample_buf = KERNEL_BRK_START + 32"

definition sample_exec :: "unit kernel_state" where
  "sample_exec = (let s = snd (projr (kmalloc 256 sample_exec_boot))
     in s\<lparr>mem := \<lambda>x. if x \<in> rng sample_buf 256 then sample_file (unat (x - sample_buf)) else mem s x\<rparr>)"

lemma kernel_ok_extend [simp]:
  "kernel_ok (vmm_state.extend s x) = kernel_ok s" "heap_inv (vmm_state.extend s x) bs = heap_inv s bs"
  "free_frames (vmm_state.extend s x) = free_frames s" "mms (vmm_state.extend s x) = mms s"
  by (simp_all add: kernel_ok_def pmm_inv_def heap_ok_def heap_inv_def active_regions_def free_frames_def vmm_state.defs)

lemma sample_exec_boot_facts:
  "kernel_ok sample_exec_boot" "heap_inv sample_exec_boot sample_blocks" "card (free_frames sample_exec_boot) = 63"
  "mms sample_exec_boot = (\<lambda>_. zero_mm)" "t_mm (tasks sample_exec_boot 16) = 0"
proof -
  show "kernel_ok sample_exec_boot" "card (free_frames sample_exec_boot) = 63" "mms sample_exec_boot = (\<lambda>_. zero_mm)"
    using Vmm.sample_kernel_facts by (auto simp: sample_exec_boot_def)
  have "heap_inv Vmm.sample_kernel sample_blocks"
    unfolding Vmm.sample_kernel_def by (rule init_heap_state) (simp add: pmm_init_regions_def sample_kernel_boot_def)
  then show "heap_inv sample_exec_boot sample_blocks" by (simp add: sample_exec_boot_def)
  have "tasks sample_exec_boot = tasks Tty.sample_kernel"
    using vmm_only_fields(1) [of Tty.sample_kernel sample_exec_boot] by (simp add: vmm_only_def sample_exec_boot_def vmm_state.defs)
  then show "t_mm (tasks sample_exec_boot 16) = 0"
    by (simp add: Tty.sample_kernel_def term_state.defs kernel_state.defs sample_term_def proc_state.defs sample_procs_def sample_task_def)
qed

lemma sample_exec_facts:
  "kernel_ok sample_exec" "mms sample_exec = (\<lambda>_. zero_mm)" "(sample_buf, 256) \<in> heap_objects sample_exec"
  "card (free_frames sample_exec) = 63" "t_mm (tasks sample_exec 16) = 0"
  "\<forall>x \<in> rng sample_buf 256. mem sample_exec x = sample_file (unat (x - sample_buf))"
proof -
  have i: "INIT_HEAP_SIZE = 16384" by (simp add: INIT_HEAP_SIZE_def)
  have pl: "place 256 sample_blocks = Some (KERNEL_BRK_START, [(KERNEL_BRK_START, 256, True), (KERNEL_BRK_START + 288, 16064, False)])"
    unfolding sample_blocks_def i by (simp add: carve_def add.assoc)
  obtain s1 where s1: "kmalloc 256 sample_exec_boot = Inr (sample_buf, s1)"
    "heap_inv s1 [(KERNEL_BRK_START, 256, True), (KERNEL_BRK_START + 288, 16064, False)]"
    by (rule kmalloc_place_some [OF sample_exec_boot_facts(2) _ _ pl]) (simp_all add: sample_buf_def)
  define m where "m x = (if x \<in> rng sample_buf 256 then sample_file (unat (x - sample_buf)) else mem s1 x)" for x
  have e: "sample_exec = s1\<lparr>mem := m\<rparr>" by (simp add: sample_exec_def s1(1) m_def [abs_def] Let_def)
  note b = sample_exec_boot_facts
  note km = kmalloc_kernel [OF b(1) _ _ s1(1)]
  have ob: "(sample_buf, 256) \<in> heap_objects s1" unfolding heap_objects_eq [OF s1(2)] by (simp add: live_def sample_buf_def)
  have sp: "rng sample_buf 256 \<subseteq> heap_span" using objects_in_span [OF _ ob] km(1) by (auto simp: kernel_ok_def simp del: in_rng)
  have k1: "pmm_inv sample_exec_boot" "regions_low (active_regions sample_exec_boot)" "heap_ok s1" using b(1) km(1) by (simp_all add: kernel_ok_def)
  have out: "m x = mem s1 x" if "x \<notin> rng sample_buf (unat (256 :: u64))" for x using that by (simp add: m_def)
  note hw = heap_write [OF k1(3) room_object [OF ob order_refl] out, folded e]
  have ar: "active_regions sample_exec = active_regions sample_exec_boot" using km(3) by (simp add: e)
  have "\<forall>x. x \<notin> heap_span \<longrightarrow> mem sample_exec x = mem sample_exec_boot x" using km(2) sp by (auto simp: e m_def simp del: in_rng)
  note hc = heap_change [OF k1(1,2) ar this]
  show "kernel_ok sample_exec" using hc(1) hw(1) k1(2) ar by (simp add: kernel_ok_def)
  show "(sample_buf, 256) \<in> heap_objects sample_exec" using hw(2) ob by simp
  show "card (free_frames sample_exec) = 63" using hc(2) b(3) by simp
  show "\<forall>x \<in> rng sample_buf 256. mem sample_exec x = sample_file (unat (x - sample_buf))" by (simp add: e m_def)
  show "mms sample_exec = (\<lambda>_. zero_mm)" using heap_only_stores(1) [OF kmalloc_fields [OF s1(1)]] b(4) by (simp add: e)
  show "t_mm (tasks sample_exec 16) = 0" using vmm_only_fields(1) [OF vmm_only_kmalloc [OF s1(1)]] b(5) by (simp add: e)
qed

lemma sample_elf:
  "elf_ok (mem sample_exec) sample_buf 256 (sample_buf + 64) 1" "segs_pages (mem sample_exec) (sample_buf + 64) {..<1} = 2"
proof -
  note f = sample_file_fields [of sample_buf "mem sample_exec", OF sample_exec_facts(6)]
  have ph: "phdr (sample_buf + 64) 0 = sample_buf + 64" by (simp add: phdr_def)
  have l: "loadable (mem sample_exec) (sample_buf + 64) {..<1} = {0}" using f(2) unfolding loadable_def by (auto simp: ph)
  have p: "seg_pages (mem sample_exec) (sample_buf + 64) = 2" by (simp add: seg_pages_def f)
  then show "segs_pages (mem sample_exec) (sample_buf + 64) {..<1} = 2" by (simp only: segs_pages_def l) (simp only: ph sum.insert sum.empty finite.emptyI empty_iff simp_thms add_0_right)
  have "rng (sample_buf + 64) 56 \<subseteq> rng sample_buf 256" using rng_part [of 64 56 256 _ sample_buf] by (auto simp del: in_rng)
  moreover have "seg_ok (mem sample_exec) 256 (sample_buf + 64)" by (simp add: seg_ok_def p f page_off_def)
  ultimately show "elf_ok (mem sample_exec) sample_buf 256 (sample_buf + 64) 1"
    unfolding elf_ok_def l f(1) by (simp add: ph del: in_rng)
qed


end
