(* ===== verification/Syscall_Spec.thy ===== *)
theory Syscall_Spec
  imports Exec_Spec
begin

text \<open>
  What the system calls (\<^verbatim>\<open>src/src/kernel/sys.c\<close>) may do to the tables of open files: the table of every task keeps its
  size, and a call changes at most one of them.
\<close>

section \<open>Memory operations\<close>

lemma free_only: "vmm_only s (free p s)"
  by (simp add: free_def Let_def vmm_only_def split: prod.split)

lemma vmm_only_pmm_free: "pmm_free phys s = Inr s' \<Longrightarrow> vmm_only s s'"
  by (auto simp: pmm_free_def split: if_splits intro: vmm_only_updates)

lemma vmm_only_unmap: "vmm_unmap_page mm virt s = Inr (mm', s') \<Longrightarrow> vmm_only s s'"
  by (auto simp: vmm_unmap_page_def Let_def pmm_free_def vmm_only_def rbind_eq_Inr split: if_splits)

lemma vmm_only_unmap_at: "unmap_page_at mmp virt s = Inr s' \<Longrightarrow> vmm_only s s'"
  by (auto simp: unmap_page_at_def rbind_eq_Inr intro: vmm_only_trans [OF vmm_only_unmap vmm_only_updates(3)])

lemma vmm_only_put_vma: "vmm_only s (put_vma vma s)"
  by (auto simp: put_vma_def Let_def intro: vmm_only_trans [OF vmm_only_updates(4) free_only] vmm_only_updates(4))

lemma vmm_only_free_reg: "mm_free_reg_vma mmp vma s = Inr s' \<Longrightarrow> vmm_only s s'"
  by (auto simp: mm_free_reg_vma_def rbind_eq_Inr Let_def split: if_splits
      intro: vmm_only_trans [OF vmm_only_unmap_at vmm_only_pmm_free] elim!: vmm_only_trans [OF vmm_only_loop(1) vmm_only_put_vma, rotated])

lemma vmm_only_unshare: "mm_unshare_vma mmp vma s = Inr s' \<Longrightarrow> vmm_only s s'"
  by (auto simp: mm_unshare_vma_def rbind_eq_Inr intro: vmm_only_unmap_at elim!: vmm_only_trans [OF vmm_only_loop(1) vmm_only_put_vma, rotated])

lemma vmm_only_free_areas: "free_areas mmp lis s = Inr s' \<Longrightarrow> vmm_only s s'"
proof (induction mmp lis s rule: free_areas.induct)
  case (2 mmp li vma lis s)
  then show ?case
    by (auto simp: rbind_eq_Inr split: vm_area_type.splits
        intro: vmm_only_trans [OF vmm_only_trans [OF vmm_only_free_reg free_only]] vmm_only_trans [OF vmm_only_trans [OF vmm_only_unshare free_only]])
qed (simp add: vmm_only_refl)

lemma vmm_only_mm_free: "mm_free mmp s = Inr s' \<Longrightarrow> vmm_only s s'"
  by (auto simp: mm_free_def rbind_eq_Inr intro: vmm_only_trans [OF vmm_only_free_areas vmm_only_trans [OF vmm_only_pmm_free free_only]])

section \<open>Disk and file system\<close>

definition io_only :: "('d, 'a) io_state_scheme \<Rightarrow> ('d, 'a) io_state_scheme \<Rightarrow> bool" where
  "io_only s s' \<longleftrightarrow> io_state.more s' = io_state.more s"

lemma io_only_refl: "io_only s s"
  by (simp add: io_only_def)

lemma io_only_trans: "io_only s s' \<Longrightarrow> io_only s' s'' \<Longrightarrow> io_only s s''"
  by (simp add: io_only_def)

lemma io_only_vmm: "vmm_only s s' \<Longrightarrow> io_only s s'"
  by (cases s; cases s') (simp add: io_only_def vmm_only_def)

lemma io_only_updates: "io_only s (s\<lparr>mem := m\<rparr>)" "io_only s (s\<lparr>mem := m, dev := d\<rparr>)" "io_only s (free p s)"
  by (simp_all add: io_only_def io_only_vmm [OF free_only, unfolded io_only_def])

lemmas io_only_heap = io_only_vmm [OF vmm_only_kmalloc] io_only_vmm [OF vmm_only_kcalloc]

lemma io_only_ata_read: "ata_read P buf lba n s = Inr s' \<Longrightarrow> io_only s s'"
  by (auto simp: ata_read_def Let_def rbind_eq_Inr intro: io_only_updates)

lemma io_only_read_bytes: "ata_read_bytes P buf off len s = Inr s' \<Longrightarrow> io_only s s'"
  unfolding ata_read_bytes_def Let_def rbind_eq_Inr
  by (auto simp: rbind_eq_Inr split: if_splits
      intro!: io_only_trans [OF io_only_heap(1) io_only_trans [OF io_only_ata_read io_only_trans [OF io_only_updates(1) io_only_updates(3)]]])

lemma io_only_read_blk: "read_blk P fs buf boff len s = Inr s' \<Longrightarrow> io_only s s'"
  by (auto simp: read_blk_def intro: io_only_read_bytes)

lemma io_only_get_inode: "ext2_get_inode P fs buf n s = Inr s' \<Longrightarrow> io_only s s'"
  by (auto simp: ext2_get_inode_def Let_def split: if_splits intro: io_only_read_bytes)

lemma io_only_block_loop: "get_block_loop P fs buf is s = Inr s' \<Longrightarrow> io_only s s'"
  by (induction "is" arbitrary: s) (auto simp: rbind_eq_Inr io_only_refl intro: io_only_trans [OF io_only_read_blk])

lemma io_only_get_block: "ext2_get_block P fs inp buf blk s = Inr s' \<Longrightarrow> io_only s s'"
  by (auto simp: ext2_get_block_def rbind_eq_Inr split: if_splits intro: io_only_trans [OF io_only_read_blk io_only_block_loop])

lemma io_only_blocks_loop: "get_blocks_loop P fs inp buf i k s = Inr s' \<Longrightarrow> io_only s s'"
  by (induction k arbitrary: i s) (auto simp: rbind_eq_Inr io_only_refl intro: io_only_trans [OF io_only_get_block])

lemma io_only_read_file: "ext2_read_file P fs n s = Inr (buf, s') \<Longrightarrow> io_only s s'"
  unfolding ext2_read_file_def ext2_get_blocks_def Let_def
  by (auto simp: rbind_eq_Inr split: if_splits
      intro!: io_only_trans [OF io_only_heap(2) io_only_trans [OF io_only_get_inode io_only_trans [OF io_only_heap(1)
        io_only_trans [OF io_only_blocks_loop io_only_trans [OF io_only_updates(1) io_only_updates(3)]]]]])

lemma io_only_namei_step: "namei_step P fs compbuf dirbuf inp comp_start s = Inr (c, n, s') \<Longrightarrow> io_only s s'"
  unfolding namei_step_def Let_def
  by (auto simp: rbind_eq_Inr split: if_splits option.splits
      intro: io_only_trans [OF io_only_updates(1) io_only_trans [OF io_only_get_block io_only_get_inode]])

lemma io_only_namei_loop:
  assumes "namei_loop P fs compbuf dirbuf inp c n s = Some (Inr (n', s'))"
  shows "io_only s s'"
proof -
  note ind = namei_loop.raw_induct [where Pa = "\<lambda>x r. \<forall>n' s'. r = Inr (n', s') \<longrightarrow> io_only (snd x) s'", OF _ assms]
  have "\<forall>n2 s2. Inr (n', s') = (Inr (n2, s2) :: _ res) \<longrightarrow> io_only (snd (((((((P, fs), compbuf), dirbuf), inp), c), n), s)) s2"
  proof (rule ind, intro allI impI, simp only: snd_conv)
    fix loop P fs compbuf dirbuf inp c n and s :: "('a, 'b) io_state_scheme" and r n' s'
    assume IH: "\<And>P fs compbuf dirbuf inp c n (s :: ('a, 'b) io_state_scheme) r. loop P fs compbuf dirbuf inp c n s = Some r \<Longrightarrow>
        \<forall>n' s'. r = Inr (n', s') \<longrightarrow> io_only s s'"
      and body: "(if mem s c = 0 then Some (Inr (n, s)) else case namei_step P fs compbuf dirbuf inp c s of Inl e \<Rightarrow> Some (Inl e)
        | Inr (c, n, s) \<Rightarrow> loop P fs compbuf dirbuf inp c n s) = Some (Inr (n', s'))"
    show "io_only s s'"
    proof (cases "mem s c = 0")
      case True
      then show ?thesis using body io_only_refl by auto
    next
      case False
      then obtain c1 n1 s1 where st: "namei_step P fs compbuf dirbuf inp c s = Inr (c1, n1, s1)" "loop P fs compbuf dirbuf inp c1 n1 s1 = Some (Inr (n', s'))"
        using body by (auto split: sum.splits)
      from IH [OF st(2)] have "io_only s1 s'" by simp
      then show ?thesis by (rule io_only_trans [OF io_only_namei_step [OF st(1)]])
    qed
  qed
  then show ?thesis by simp
qed

lemma io_only_namei: "ext2_namei P fs compbuf path s = Inr (n, s') \<Longrightarrow> io_only s s'"
  unfolding ext2_namei_def Let_def
  by (auto simp: rbind_eq_Inr ends_def split: option.splits
      intro!: io_only_trans [OF io_only_heap(1) io_only_trans [OF io_only_heap(2) io_only_trans [OF io_only_updates(1)
        io_only_trans [OF io_only_namei_loop io_only_trans [OF io_only_updates(3) io_only_updates(3)]]]]])

lemma io_only_getdents: "ext2_getdents P inp f_ino buf count s = Inr (n, s') \<Longrightarrow> io_only s s'"
  unfolding ext2_getdents_def
  by (auto simp: rbind_eq_Inr
      intro!: io_only_trans [OF io_only_heap(1) io_only_trans [OF io_only_get_inode io_only_trans [OF io_only_read_blk
        io_only_trans [OF io_only_updates(1) io_only_updates(3)]]]])

section \<open>Tables of descriptors\<close>

definition fds :: "('d, 'a) proc_state_scheme \<Rightarrow> u64 \<Rightarrow> u64 list" where
  "fds s t = fdtab (tasks s t)"

text \<open>Every task has a table of the size the code declares.\<close>

definition fds_typed :: "('d, 'a) proc_state_scheme \<Rightarrow> bool" where
  "fds_typed s \<longleftrightarrow> (\<forall>t. length (fds s t) = TASK_FILE_MAX)"

lemma fds_io: "io_only s s' \<Longrightarrow> fds s' = fds s \<and> current s' = current s"
  by (cases s; cases s') (simp add: io_only_def fds_def fun_eq_iff)

lemmas fds_vmm = fds_io [OF io_only_vmm]

lemma fds_set [simp]:
  "(\<And>x. fdtab (f x) = fdtab x) \<Longrightarrow> fds (set_task p f s) = fds s" "fds (set_task p (fdtab_update h) s) = (fds s)(p := h (fds s p))"
  "fds (set_file q g s) = fds s" "fds (s\<lparr>mem := m\<rparr>) = fds s"
  "current (set_task p f s) = current s" "current (set_file q g s) = current s"
  by (simp_all add: fds_def set_task_def set_file_def fun_eq_iff)

lemma fds_sched:
  "sched_rr_insert_proc t s = Inr s' \<Longrightarrow> fds s' = fds s" "sched_rr_remove_proc t s = Inr s' \<Longrightarrow> fds s' = fds s"
  "switch_to rsp t s = Inr s' \<Longrightarrow> fds s' = fds s" "fds (tree_insert_proc par t s) = fds s"
  by (auto simp: sched_rr_insert_proc_def sched_rr_remove_proc_def switch_to_def tree_insert_proc_def Let_def set_task_def fds_def fun_eq_iff
      split: if_splits)

lemma fds_sleep: "schedule_sleep rsp s = Inr s' \<Longrightarrow> fds s' = fds s"
  by (auto simp: schedule_sleep_def Let_def rbind_eq_Inr dest!: fds_sched(2,3))

lemma fds_exit: "do_exit rsp t status s = Inr s' \<Longrightarrow> fds s' = fds s"
  by (auto simp: do_exit_def Let_def rbind_eq_Inr split: if_splits dest!: fds_sched(1) fds_sleep)

lemma fds_put_files: "fds (put_files fs s) = fds s"
  by (induction fs arbitrary: s) (auto simp: Let_def fds_vmm [OF free_only])

lemma fds_wait: "do_wait rsp t w s = Inr (r, s') \<Longrightarrow> fds s' = fds s"
  by (auto simp: do_wait_def task_free_def Let_def rbind_eq_Inr fds_put_files fds_vmm [OF free_only] split: if_splits
      dest!: fds_sleep fds_vmm [OF vmm_only_mm_free])

lemma fds_stdin: "stdin_read rsp s = Inr s' \<Longrightarrow> fds s' = fds s" "fds (snd (stdin_read_resume buf n s)) = fds s"
  by (auto simp: stdin_read_def stdin_read_resume_def Let_def split: if_splits dest!: fds_sleep)

lemma fds_out_char: "fds (out_char P c s) = fds s"
  by (simp add: out_char_def vgaterm_putchar_def vgaterm_newline_def vgaterm_scroll_def vgaterm_set_cursor_def Let_def fds_def fun_eq_iff)

lemma fds_stdout: "fds (snd (stdout_write P buf n s)) = fds s"
proof -
  have "fds (snd (print_string_loop P k p idx s)) = fds s" for k p idx s
    by (induction k arbitrary: p idx s) (auto simp: fds_out_char)
  from this [of _ _ 0 s] show ?thesis by (simp add: stdout_write_def printf_string_def Let_def split_beta)
qed

text \<open>A change of the table of task \<open>c\<close> only.\<close>

definition fds_step :: "u64 \<Rightarrow> ('d, 'a) proc_state_scheme \<Rightarrow> ('d, 'a) proc_state_scheme \<Rightarrow> bool" where
  "fds_step c s s' \<longleftrightarrow> (\<forall>t. t \<noteq> c \<longrightarrow> fds s' t = fds s t) \<and> (fds_typed s \<longrightarrow> fds_typed s')"

lemma fds_step_same: "fds s' = fds s \<Longrightarrow> fds_step c s s'"
  by (simp add: fds_step_def fds_typed_def)

lemma fds_step_upd: "fds s' = (fds s)(c := xs) \<Longrightarrow> (fds_typed s \<Longrightarrow> length xs = TASK_FILE_MAX) \<Longrightarrow> fds_step c s s'"
  by (simp add: fds_step_def fds_typed_def)

lemma fds_step_trans: "fds_step c s s' \<Longrightarrow> fds_step c s' s'' \<Longrightarrow> fds_step c s s''"
  by (simp add: fds_step_def)

lemma free_fd_spec: "free_fd tab < length tab \<Longrightarrow> tab ! free_fd tab = 0"
  by (induction tab) auto

text \<open>\<open>do_open\<close> takes the first free descriptor of the running task, and \<open>do_close\<close> gives one back.\<close>

lemma fds_open:
  assumes "do_open P A path s = Inr (r, s')"
  obtains f where "free_fd (fds s (current s)) < TASK_FILE_MAX" "r = of_nat (free_fd (fds s (current s)))"
    "fds s' = (fds s)(current s := (fds s (current s))[free_fd (fds s (current s)) := f])"
  using assms unfolding do_open_def Let_def
  by (auto simp: rbind_eq_Inr fds_vmm [OF free_only] fds_def [symmetric] not_le split: if_splits
      dest!: fds_vmm [OF vmm_only_kcalloc] fds_io [OF io_only_namei] fds_io [OF io_only_get_inode])

lemma fds_close:
  assumes "do_close fd s = Inr (r, s')"
  shows "unat fd < TASK_FILE_MAX" "fds s (current s) ! unat fd \<noteq> 0" "r = 0" "fds s' = (fds s)(current s := (fds s (current s))[unat fd := 0])"
  using assms unfolding do_close_def fd_file_def Let_def by (auto simp: rbind_eq_Inr fds_vmm [OF free_only] fds_def [symmetric] split: if_splits)

lemma fds_share_files: "fds_step new s (share_files new i fs s)"
proof (induction fs arbitrary: i s)
  case (Cons f fs)
  have "fds_step new s (set_task new (fdtab_update (\<lambda>tab. tab[i := f])) (set_file f (file_refcnt_update (\<lambda>r. r + 1)) s))"
    by (rule fds_step_upd) (auto simp: fds_typed_def)
  then show ?case using Cons by (auto simp: Let_def intro: fds_step_trans)
qed (simp add: fds_step_same)

lemma fds_task_stack: "init_task_stack A t s = Inr s' \<Longrightarrow> fds s' = fds s"
  unfolding init_task_stack_def Let_def by (auto simp: rbind_eq_Inr dest!: fds_vmm [OF vmm_only_kcalloc])

lemma fds_next_pid [simp]: "fds (s\<lparr>next_pid := v\<rparr>) = fds (s :: ('d, 'a) kernel_state_scheme)" "fds (s\<lparr>cr3 := w\<rparr>) = fds s"
  by (simp_all add: fds_def fun_eq_iff)

lemma fds_do_fork: "do_fork A t s = Inr (new, s') \<Longrightarrow> fds_step new s s'"
proof -
  assume run: "do_fork A t s = Inr (new, s')"
  then obtain s0 where c: "kcalloc 1 sizeof_task_struct s = Inr (new, s0)" by (auto simp: do_fork_def rbind_eq_Inr Let_def)
  define s1 where "s1 = set_task new (state_update (\<lambda>_. TASK_RUNNING)) (set_task new (\<lambda>_. zero_task) s0)"
  from run c obtain mm s2 where d: "mm_dupe (t_mm (tasks s1 t)) s1 = Inr (mm, s2)"
    by (auto simp: do_fork_def rbind_eq_Inr Let_def simp del: set_task_simps simp flip: s1_def)
  define sm where "sm = set_task new (t_mm_update (\<lambda>_. mm)) s2"
  define sq where "sq = set_task new (pid_update (\<lambda>_. next_pid sm)) sm"
  define s3 where "s3 = sq\<lparr>next_pid := next_pid sq + 1\<rparr>"
  define s4 where "s4 = share_files new 0 (fdtab (tasks s3 t)) s3"
  have "do_fork A t s = rbind (init_task_stack A new s4) (\<lambda>s. Inr (new, s\<lparr>mem := st64 (memcpy (mem s) (regs (tasks s new)) (regs (tasks s t)) 136)
      (regs (tasks s new) + 112) 0\<rparr>))"
    unfolding do_fork_def c rbind_Inr prod.case Let_def s1_def [symmetric] d sm_def [symmetric] sq_def [symmetric] s3_def [symmetric] s4_def [symmetric]
    by simp
  with run have 4: "fds s' = fds s4" by (auto simp: rbind_eq_Inr dest!: fds_task_stack)
  have "fds s1 = (fds s)(new := replicate TASK_FILE_MAX 0)"
    using fds_vmm [OF vmm_only_kcalloc [OF c]] by (simp add: s1_def fds_def fun_eq_iff set_task_def zero_task_def)
  then have "fds s3 = (fds s)(new := replicate TASK_FILE_MAX 0)"
    using fds_vmm [OF vmm_only_mm_dupe [OF d]] by (simp add: s3_def sq_def sm_def)
  then have "fds_step new s s3" by (rule fds_step_upd) simp
  from fds_step_trans [OF this fds_share_files] have "fds_step new s s4" unfolding s4_def .
  then show ?thesis using fds_step_trans fds_step_same [OF 4] by blast
qed

lemma fds_fork: "sched_fork A t s = Inr (r, s') \<Longrightarrow> \<exists>new. fds_step new s s'"
  unfolding sched_fork_def Let_def
  by (fastforce simp: rbind_eq_Inr fds_step_def fds_typed_def fds_sched(4) dest!: fds_sched(1) fds_do_fork)

lemma vmm_only_map_segment: "map_segment mm elf ph s = Inr s' \<Longrightarrow> vmm_only s s'"
  unfolding map_segment_def Let_def anon_mmap_user_def mm_copy_from_buf_def
  by (auto simp: rbind_eq_Inr split: if_splits intro: vmm_only_trans [OF vmm_only_anon_mmap vmm_only_copy_buf])

lemma vmm_only_load: "load_segments k task buf ph_arr i s = Inr s' \<Longrightarrow> vmm_only s s'"
proof (induction k arbitrary: i s)
  case (Suc k)
  then show ?case
    by (auto simp: Let_def rbind_eq_Inr vmm_only_refl split: if_splits intro: vmm_only_trans [OF vmm_only_map_segment])
qed (simp add: vmm_only_refl)

lemma fds_exec_elf: "exec_elf P A task path s = Inr s' \<Longrightarrow> fds s' = fds s"
  unfolding exec_elf_def Let_def anon_mmap_user_def
  by (auto simp: rbind_eq_Inr fds_vmm [OF free_only]
      dest!: fds_io [OF io_only_namei] fds_io [OF io_only_read_file] fds_vmm [OF vmm_only_mm_new] fds_vmm [OF vmm_only_load] fds_vmm [OF vmm_only_anon_mmap])

lemma fds_exec: "sched_exec P A path t s = Inr (r, s') \<Longrightarrow> fds s' = fds s"
  unfolding sched_exec_def Let_def
  by (auto simp: rbind_eq_Inr dest!: fds_exec_elf fds_vmm [OF vmm_only_mm_free])

section \<open>System calls\<close>

lemma with_opsE:
  assumes "with_ops fd body s = Inr r"
  obtains f where "body f (ops (files s f)) s = Inr r"
  using assms by (auto simp: with_ops_def rbind_eq_Inr split: if_splits)

lemma fds_syscalls:
  "sys_read rsp fd buf count s = Inr (e, s') \<Longrightarrow> fds s' = fds s"
  "sys_write P fd buf count s = Inr (e, s') \<Longrightarrow> fds s' = fds s"
  "sys_getdents P A fd buf sz s = Inr (e, s') \<Longrightarrow> fds s' = fds s"
  "sys_wait rsp w s = Inr (e, s') \<Longrightarrow> fds s' = fds s"
  "sys_exec P A path s = Inr (e, s') \<Longrightarrow> fds s' = fds s"
  "sys_exit rsp status s = Inr (e, s') \<Longrightarrow> fds s' = fds s"
proof -
  show "sys_read rsp fd buf count s = Inr (e, s') \<Longrightarrow> fds s' = fds s"
    unfolding sys_read_def by (erule with_opsE) (auto simp: rbind_eq_Inr split: if_splits dest!: fds_stdin(1))
  show "sys_write P fd buf count s = Inr (e, s') \<Longrightarrow> fds s' = fds s"
    unfolding sys_write_def by (erule with_opsE) (auto split: if_splits prod.splits dest: arg_cong [where f = "\<lambda>x. fds (snd x)"] simp: fds_stdout)
  show "sys_getdents P A fd buf sz s = Inr (e, s') \<Longrightarrow> fds s' = fds s"
    unfolding sys_getdents_def by (erule with_opsE) (auto simp: rbind_eq_Inr split: if_splits dest!: fds_io [OF io_only_getdents])
  show "sys_wait rsp w s = Inr (e, s') \<Longrightarrow> fds s' = fds s" by (auto simp: sys_wait_def rbind_eq_Inr dest!: fds_wait)
  show "sys_exec P A path s = Inr (e, s') \<Longrightarrow> fds s' = fds s" by (auto simp: sys_exec_def rbind_eq_Inr dest!: fds_exec)
  show "sys_exit rsp status s = Inr (e, s') \<Longrightarrow> fds s' = fds s" by (auto simp: sys_exit_def rbind_eq_Inr dest!: fds_exit)
qed

lemma fds_result: "fds (snd (set_result rg r)) = fds (snd r)"
  by (cases r) (auto simp: set_result_def split: sys_end.split)

lemma sys_open_tables:
  assumes "sys_open P A path s = Inr (e, s')"
  shows "\<exists>i f. e = Result (of_nat i) \<and> i < TASK_FILE_MAX \<and> (length (fds s (current s)) = TASK_FILE_MAX \<longrightarrow> fds s (current s) ! i = 0)
    \<and> fds s' = (fds s)(current s := (fds s (current s))[i := f])"
proof -
  obtain r where r: "do_open P A path s = Inr (r, s')" "e = Result (scast r)" using assms by (auto simp: sys_open_def rbind_eq_Inr)
  obtain f where f: "free_fd (fds s (current s)) < TASK_FILE_MAX" "r = of_nat (free_fd (fds s (current s)))"
    "fds s' = (fds s)(current s := (fds s (current s))[free_fd (fds s (current s)) := f])" by (rule fds_open [OF r(1)])
  have "\<forall>i \<in> set [0..<TASK_FILE_MAX]. scast (of_nat i :: u32) = (of_nat i :: u64)" by (simp add: TASK_FILE_MAX_def upt_rec)
  then have "scast r = (of_nat (free_fd (fds s (current s))) :: u64)" using f(1,2) by simp
  then show ?thesis using f r(2) free_fd_spec [of "fds s (current s)"] by (intro exI [of _ "free_fd (fds s (current s))"] exI [of _ f]) simp
qed

lemma sys_close_tables:
  assumes "sys_close fd s = Inr (e, s')"
  shows "e = Result 0 \<and> unat fd < TASK_FILE_MAX \<and> fds s (current s) ! unat fd \<noteq> 0
    \<and> fds s' = (fds s)(current s := (fds s (current s))[unat fd := 0])"
  using assms fds_close by (fastforce simp: sys_close_def rbind_eq_Inr)

lemma set_result_end: "fst (set_result rg r) = fst r"
  by (cases r) (auto simp: set_result_def split: sys_end.split)

lemmas sys_numbers = SYS_READ_def SYS_WRITE_def SYS_OPEN_def SYS_CLOSE_def SYS_FORK_def SYS_EXEC_def SYS_EXIT_def SYS_WAIT_def SYS_GETDENTS_def

text \<open>The dispatch, as far as the tables are concerned.\<close>

lemma do_syscall_dispatch:
  fixes s :: "('d, 'a) kernel_state_scheme"
  assumes "do_syscall P A rsp rg s = Inr (e, s')"
  defines "call \<equiv> ld64 (mem s) (fld regs_layout ''rax'' rg)"
  obtains s0 s1 :: "('d, 'a) kernel_state_scheme" where "fds s0 = fds s" "current s0 = current s" "fds s' = fds s1"
    "call = SYS_OPEN \<Longrightarrow> \<exists>path. sys_open P A path s0 = Inr (e, s1)" "call = SYS_CLOSE \<Longrightarrow> \<exists>fd. sys_close fd s0 = Inr (e, s1)"
    "call = SYS_FORK \<Longrightarrow> sys_fork A s0 = Inr (e, s1)" "call \<notin> {SYS_OPEN, SYS_CLOSE, SYS_FORK} \<Longrightarrow> fds s1 = fds s"
proof -
  define s0 where "s0 = set_task (current s) (regs_update (\<lambda>_. rg)) s"
  have s0: "fds s0 = fds s" "current s0 = current s" "mem s0 = mem s" by (simp_all add: s0_def)
  define rdi rsi rdx where "rdi = ld64 (mem s) (fld regs_layout ''rdi'' rg)" and "rsi = ld64 (mem s) (fld regs_layout ''rsi'' rg)"
    and "rdx = ld64 (mem s) (fld regs_layout ''rdx'' rg)"
  let ?body = "if call = SYS_READ then sys_read rsp (ucast rdi) rsi rdx s0
      else if call = SYS_WRITE then sys_write P (ucast rdi) rsi rdx s0 else if call = SYS_OPEN then sys_open P A rdi s0
      else if call = SYS_CLOSE then sys_close (ucast rdi) s0 else if call = SYS_WAIT then sys_wait rsp rdi s0
      else if call = SYS_EXEC then sys_exec P A rdi s0 else if call = SYS_FORK then sys_fork A s0
      else if call = SYS_EXIT then sys_exit rsp (ucast rdi) s0 else if call = SYS_GETDENTS then sys_getdents P A (ucast rdi) rsi rdx s0
      else Inl (Panic ''syscall not implemented'')"
  have "rbind ?body (\<lambda>r. Inr (set_result rg r)) = Inr (e, s')"
    using assms(1) unfolding do_syscall_def Let_def s0_def [symmetric] s0(3) call_def [symmetric] rdi_def [symmetric] rsi_def [symmetric] rdx_def [symmetric] .
  then obtain r where r: "?body = Inr r" "set_result rg r = (e, s')" unfolding rbind_eq_Inr sum.inject by blast
  define s1 where "s1 = snd r"
  have body: "?body = Inr (e, s1)" and s1: "fds s' = fds s1"
    using r set_result_end [of rg r] fds_result [of rg r] by (simp_all only: s1_def fst_conv snd_conv prod.collapse)
  have "fds s1 = fds s" if "call \<notin> {SYS_OPEN, SYS_CLOSE, SYS_FORK}" using that body s0(1) by (auto split: if_splits dest!: fds_syscalls)
  moreover have "sys_open P A rdi s0 = Inr (e, s1)" if "call = SYS_OPEN" using body unfolding that by (simp add: sys_numbers)
  moreover have "sys_close (ucast rdi) s0 = Inr (e, s1)" if "call = SYS_CLOSE" using body unfolding that by (simp add: sys_numbers)
  moreover have "sys_fork A s0 = Inr (e, s1)" if "call = SYS_FORK" using body unfolding that by (simp add: sys_numbers)
  ultimately show thesis using that [OF s0(1,2) s1] by blast
qed

section \<open>Properties\<close>


text \<open>Task 16 closes descriptor 3.\<close>

definition sample_close :: "unit kernel_state" where
  "sample_close = set_task 16 (fdtab_update (\<lambda>tab. tab[3 := 0x5000])) (sample_fork\<lparr>mem := st64 (st64 (mem sample_fork) 0x9070 3) 0x9050 3\<rparr>)"

lemma sample_close_call: "\<exists>s'. do_syscall null_ports sample_addrs 0 0x9000 sample_close = Inr (Result 0, s')"
proof -
  have c: "current sample_close = 16" using sample_fork_facts(2) by (simp add: sample_close_def run_queue_def)
  have m: "ld64 (mem sample_close) 0x9070 = 3" "ld64 (mem sample_close) 0x9050 = 3"
    unfolding sample_close_def by (simp_all add: ld64_st64, subst ld64_st64_disjoint) (auto simp: ld64_st64 intro!: rng_disjoint_nat)
  have f: "fdtab (tasks sample_close 16) ! 3 = 0x5000" using sample_fork_facts(4) by (simp add: sample_close_def)
  show ?thesis
    by (simp add: do_syscall_def Let_def c m SYS_READ_def SYS_WRITE_def SYS_OPEN_def SYS_CLOSE_def sys_close_def do_close_def fd_file_def
        TASK_FILE_MAX_def f set_result_def)
qed

lemma sample_close_typed: "fds_typed sample_close"
  unfolding fds_typed_def fds_def sample_close_def
  by (simp add: sample_fork_facts(7) sample_procs_def proc_state.defs sample_task_def TASK_FILE_MAX_def)


end
