(* ===== verification/Keyboard.thy ===== *)
theory Keyboard
  imports Boot
begin

text \<open>
  From the keyboard to the reader: what the keyboard sends for the keys that are pressed and released, the
  interrupts that fetch it (\<^verbatim>\<open>isr_main_entry\<close>, \<^verbatim>\<open>ps2_key_in\<close>), the line they build (\<^verbatim>\<open>tty_send_key\<close>) and the
  task that sleeps in \<^verbatim>\<open>stdin_read\<close> until the line is complete.
\<close>

section \<open>The device\<close>

text \<open>
  What the documentation of the controller says: the data port returns the codes the keyboard has sent, in
  order; writing to a port of another device does not disturb them. \<open>codes\<close> reads the codes not fetched
  yet off the state of the devices.
\<close>

definition ps2_keyboard :: "'d ports \<Rightarrow> ('d \<Rightarrow> u8 list) \<Rightarrow> bool" where
  "ps2_keyboard P codes \<longleftrightarrow>
     (\<forall>d c cs. codes d = c # cs \<longrightarrow> (\<exists>d'. inb P PS2_DATA d = (c, d') \<and> codes d' = cs))
   \<and> (\<forall>port x d. port \<noteq> PS2_DATA \<longrightarrow> port \<noteq> PS2_COMMAND \<longrightarrow> codes (outb P port x d) = codes d)"

lemma keyboard_read: "ps2_keyboard P codes \<Longrightarrow> codes d = c # cs \<Longrightarrow> \<exists>d'. inb P PS2_DATA d = (c, d') \<and> codes d' = cs"
  by (simp add: ps2_keyboard_def)

lemma keyboard_other:
  "ps2_keyboard P codes \<Longrightarrow> port \<noteq> 0x60 \<Longrightarrow> port \<noteq> 0x64 \<Longrightarrow> codes (outb P port x d) = codes d"
  by (simp add: ps2_keyboard_def PS2_DATA_def PS2_COMMAND_def)

lemma eoi_codes: "ps2_keyboard P codes \<Longrightarrow> codes (send_eoi P irq d) = codes d"
  by (simp add: send_eoi_def Let_def keyboard_other PIC1_COMMAND_def PIC2_COMMAND_def)

lemma putchar_codes: "ps2_keyboard P codes \<Longrightarrow> codes (dev (vgaterm_putchar P c s)) = codes (dev s)"
  by (simp add: vgaterm_putchar_def vgaterm_set_cursor_def vgaterm_newline_def vgaterm_scroll_def Let_def keyboard_other)

lemma printf_char_codes: "ps2_keyboard P codes \<Longrightarrow> codes (dev (printf_char P c s)) = codes (dev s)"
  by (simp add: printf_char_def out_char_def putchar_codes)

lemma send_key_codes:
  assumes "ps2_keyboard P codes" "tty_send_key P key s = Inr s'"
  shows "codes (dev s') = codes (dev s)"
  using assms(2)
  by (auto simp: tty_send_key_def Let_def rbind_eq_Inr printf_char_codes [OF assms(1)] split: if_splits dest!: insert_only_tasks)

section \<open>Key strokes\<close>

text \<open>
  Pressing a key sends its code, releasing it sends the code after the prefix \<open>0xF0\<close>. No key has the prefix
  as its code.
\<close>

datatype stroke = Press u8 | Release u8

fun stroke_codes :: "stroke \<Rightarrow> u8 list" where
  "stroke_codes (Press c) = [c]"
| "stroke_codes (Release c) = [0xF0, c]"

fun stroke_ok :: "stroke \<Rightarrow> bool" where
  "stroke_ok (Press c) \<longleftrightarrow> c \<noteq> 0xF0"
| "stroke_ok (Release c) \<longleftrightarrow> True"

definition sent :: "stroke list \<Rightarrow> u8 list" where
  "sent ks = concat (map stroke_codes ks)"

text \<open>The key of a code, and the text of some strokes: a character for every press.\<close>

definition key_of :: "u8 \<Rightarrow> u8" where
  "key_of c = sc_map ! unat c"

fun stroke_text :: "stroke \<Rightarrow> u8 list" where
  "stroke_text (Press c) = [key_map (key_of c)]"
| "stroke_text (Release c) = []"

definition typed :: "stroke list \<Rightarrow> u8 list" where
  "typed ks = concat (map stroke_text ks)"

fun ends_line :: "stroke \<Rightarrow> bool" where
  "ends_line (Press c) \<longleftrightarrow> key_of c = KEY ''ENTER''"
| "ends_line (Release c) \<longleftrightarrow> False"

lemma sent_simps [simp]: "sent [] = []" "sent (k # ks) = stroke_codes k @ sent ks" "sent (ks @ ls) = sent ks @ sent ls"
  by (simp_all add: sent_def)

lemma typed_simps [simp]:
  "typed [] = []" "typed (k # ks) = stroke_text k @ typed ks" "typed (ks @ ls) = typed ks @ typed ls"
  by (simp_all add: typed_def)

section \<open>Interrupts\<close>

text \<open>\<open>n\<close> interrupts of the kind whose frame is at \<open>ctx\<close>, and a frame of the keyboard interrupt.\<close>

primrec interrupts :: "'d ports \<Rightarrow> u64 \<Rightarrow> u64 \<Rightarrow> nat \<Rightarrow> ('d, 'a) kernel_state_scheme \<Rightarrow> ('d, 'a) kernel_state_scheme res" where
  "interrupts P rsp ctx 0 s = Inr s"
| "interrupts P rsp ctx (Suc n) s = rbind (isr_main_entry P rsp ctx s) (interrupts P rsp ctx n)"

definition key_frame :: "u64 \<Rightarrow> ('d, 'a) kernel_state_scheme \<Rightarrow> bool" where
  "key_frame ctx s \<longleftrightarrow> drop_bit 32 (ld64 (mem s) (ctx + 72)) AND 0xFFFF = 0x21
     \<and> rng ctx 120 \<inter> (rng (vgaterm_buf s) 4160 \<union> rng (global_tty s) 1056) = {}"

lemma interrupts_add: "interrupts P rsp ctx (m + n) s = rbind (interrupts P rsp ctx m s) (interrupts P rsp ctx n)"
proof (induction m arbitrary: s)
  case (Suc m)
  then show ?case by (cases "isr_main_entry P rsp ctx s") simp_all
qed simp

lemma info_fld [simp]: "fld isr_ctx ''info'' a = a + 72"
  by (simp add: fld_def isr_ctx_def)

lemma key_frame_cong:
  assumes "key_frame ctx s" "vgaterm_buf s' = vgaterm_buf s" "global_tty s' = global_tty s"
    "\<And>a. a \<notin> rng (vgaterm_buf s) 4160 \<Longrightarrow> a \<notin> rng (global_tty s) 1056 \<Longrightarrow> mem s' a = mem s a"
  shows "key_frame ctx s'"
proof -
  have "ld64 (mem s') (ctx + 72) = ld64 (mem s) (ctx + 72)"
  proof (rule ld64_cong)
    fix a assume "a \<in> rng (ctx + 72) 8"
    then have "a \<in> rng ctx 120" using rng_part [of 72 8 120 a ctx] by auto
    then show "mem s' a = mem s a" using assms(1,4) unfolding key_frame_def by (auto simp: disjoint_iff)
  qed
  then show ?thesis using assms(1-3) by (simp add: key_frame_def del: in_rng)
qed

lemma key_frame_line: "key_frame ctx s \<Longrightarrow> line_only s s' \<Longrightarrow> key_frame ctx s'"
  by (rule key_frame_cong [of ctx s]) (auto simp: line_only_def simp del: in_rng)

lemma key_interrupt:
  assumes "ps2_keyboard P codes" "key_frame ctx s" "codes (dev s) = c # cs"
  obtains d where "codes d = cs" "isr_main_entry P rsp ctx s =
    (if release s then Inr (s\<lparr>dev := d, release := False\<rparr>) else if c = 0xF0 then Inr (s\<lparr>dev := d, release := True\<rparr>)
     else tty_send_key P (key_of c) (s\<lparr>dev := d\<rparr>))"
proof -
  have "codes (send_eoi P 0x21 (dev s)) = c # cs" using eoi_codes [OF assms(1)] assms(3) by metis
  then obtain d where d: "inb P PS2_DATA (send_eoi P 0x21 (dev s)) = (c, d)" "codes d = cs" using keyboard_read [OF assms(1)] by blast
  have v: "drop_bit 32 (ld64 (mem s) (ctx + 72)) AND 0xFFFF = 0x21" using assms(2) by (simp add: key_frame_def)
  show thesis using that [OF d(2)] d(1) by (simp add: isr_main_entry_def Let_def v ps2_key_in_def key_of_def)
qed

text \<open>The state between two strokes.\<close>

definition key_ready :: "u64 \<Rightarrow> ('d, 'a) kernel_state_scheme \<Rightarrow> bool" where
  "key_ready ctx s \<longleftrightarrow> \<not> release s \<and> key_frame ctx s \<and> tty_apart s"

lemma key_ready_dev [simp]: "key_ready ctx (s\<lparr>dev := d\<rparr>) = key_ready ctx s"
  by (simp add: key_ready_def key_frame_def tty_apart_def on_screen_def)

lemma line_only_dev: "line_only (s\<lparr>dev := d\<rparr>) s' \<Longrightarrow> line_only s s'"
  unfolding line_only_def by (elim exE conjE) (simp del: in_rng, blast)

lemma press_key:
  assumes "ps2_keyboard P codes" "key_ready ctx s" "codes (dev s) = c # cs" "c \<noteq> 0xF0"
  obtains d where "codes d = cs" "isr_main_entry P rsp ctx s = tty_send_key P (key_of c) (s\<lparr>dev := d\<rparr>)"
  using key_interrupt [OF assms(1) _ assms(3), of ctx rsp] assms(2,4) by (auto simp: key_ready_def)

lemma release_key:
  assumes "ps2_keyboard P codes" "key_ready ctx s" "codes (dev s) = 0xF0 # c # cs"
  obtains d where "codes d = cs" "interrupts P rsp ctx 2 s = Inr (s\<lparr>dev := d\<rparr>)"
proof -
  have r: "\<not> release s" "key_frame ctx s" using assms(2) by (simp_all add: key_ready_def)
  from key_interrupt [OF assms(1) r(2) assms(3), of rsp] r(1) obtain d where
    d: "codes d = c # cs" "isr_main_entry P rsp ctx s = Inr (s\<lparr>dev := d, release := True\<rparr>)" by auto
  have "key_frame ctx (s\<lparr>dev := d, release := True\<rparr>)" using r(2) by (simp add: key_frame_def)
  from key_interrupt [OF assms(1) this, of c cs rsp] d(1) obtain e where
    e: "codes e = cs" "isr_main_entry P rsp ctx (s\<lparr>dev := d, release := True\<rparr>) = Inr (s\<lparr>dev := e, release := False\<rparr>)" by auto
  have "s\<lparr>dev := e, release := False\<rparr> = s\<lparr>dev := e\<rparr>" using r(1) by simp
  then show thesis using that [OF e(1)] d(2) e(2) by (simp add: numeral_2_eq_2)
qed

text \<open>A stroke that does not end the line adds its text to the line.\<close>

lemma one_stroke:
  assumes "ps2_keyboard P codes" "key_ready ctx s" "codes (dev s) = stroke_codes k @ cs" "stroke_ok k" "\<not> ends_line k"
    "length (tty_text (mem s) (global_tty s) @ stroke_text k) \<le> 1024"
  obtains s' where "interrupts P rsp ctx (length (stroke_codes k)) s = Inr s'" "line_only s s'" "key_ready ctx s'" "codes (dev s') = cs"
    "tty_text (mem s') (global_tty s) = tty_text (mem s) (global_tty s) @ stroke_text k"
    "tty_waiting (mem s') (global_tty s) = tty_waiting (mem s) (global_tty s)"
proof (cases k)
  case (Press c)
  then obtain d where d: "codes d = cs" "isr_main_entry P rsp ctx s = tty_send_key P (key_of c) (s\<lparr>dev := d\<rparr>)"
    using press_key [OF assms(1,2), of c cs rsp] assms(3,4) by auto
  have kr: "key_ready ctx (s\<lparr>dev := d\<rparr>)" using assms(2) by simp
  then have "tty_apart (s\<lparr>dev := d\<rparr>)" by (simp only: key_ready_def)
  from send_key [OF this, of "key_of c" P] assms(5,6) Press obtain s' where s': "tty_send_key P (key_of c) (s\<lparr>dev := d\<rparr>) = Inr s'"
    "line_only (s\<lparr>dev := d\<rparr>) s'" "tty_apart s'"
    "tty_text (mem s') (global_tty s) = tty_text (mem s) (global_tty s) @ [key_map (key_of c)]"
    "tty_waiting (mem s') (global_tty s) = tty_waiting (mem s) (global_tty s)" by auto
  have "release s' = release s" using s'(2) by (auto simp: line_only_def)
  moreover have "key_frame ctx s'" using key_frame_line [OF _ s'(2)] kr by (simp add: key_ready_def)
  ultimately have "key_ready ctx s'" using s'(3) assms(2) by (simp add: key_ready_def)
  then show thesis using that [OF _ line_only_dev [OF s'(2)]] d s' Press send_key_codes [OF assms(1) s'(1)] by simp
next
  case (Release c)
  then obtain d where "codes d = cs" "interrupts P rsp ctx 2 s = Inr (s\<lparr>dev := d\<rparr>)"
    using release_key [OF assms(1,2), of c cs rsp] assms(3) by auto
  moreover have "line_only s (s\<lparr>dev := d\<rparr>)" by (rule line_only_dev [OF line_only_refl])
  ultimately show thesis using that [of "s\<lparr>dev := d\<rparr>"] Release assms(2) by (simp add: numeral_2_eq_2)
qed

lemma strokes:
  assumes "ps2_keyboard P codes" "key_ready ctx s" "codes (dev s) = sent ks @ cs" "list_all stroke_ok ks" "\<not> list_ex ends_line ks"
    "length (tty_text (mem s) (global_tty s) @ typed ks) \<le> 1024"
  shows "\<exists>s'. interrupts P rsp ctx (length (sent ks)) s = Inr s' \<and> line_only s s' \<and> key_ready ctx s' \<and> codes (dev s') = cs
    \<and> tty_text (mem s') (global_tty s) = tty_text (mem s) (global_tty s) @ typed ks
    \<and> tty_waiting (mem s') (global_tty s) = tty_waiting (mem s) (global_tty s)"
  using assms(2-6)
proof (induction ks arbitrary: s)
  case (Cons k ks)
  obtain s1 where s1: "interrupts P rsp ctx (length (stroke_codes k)) s = Inr s1" "line_only s s1" "key_ready ctx s1" "codes (dev s1) = sent ks @ cs"
    "tty_text (mem s1) (global_tty s) = tty_text (mem s) (global_tty s) @ stroke_text k"
    "tty_waiting (mem s1) (global_tty s) = tty_waiting (mem s) (global_tty s)"
    using one_stroke [OF assms(1) Cons.prems(1), of k "sent ks @ cs" rsp] Cons.prems(2-5) by auto
  have g: "global_tty s1 = global_tty s" using line_only_fields [OF s1(2)] by simp
  have "length (tty_text (mem s1) (global_tty s1) @ typed ks) \<le> 1024"
    using Cons.prems(5) s1(5) arg_cong [OF s1(5), of length] g by simp
  from Cons.IH [OF s1(3,4) _ _ this] Cons.prems(3,4) obtain s' where s': "interrupts P rsp ctx (length (sent ks)) s1 = Inr s'" "line_only s1 s'"
    "key_ready ctx s'" "codes (dev s') = cs" "tty_text (mem s') (global_tty s) = tty_text (mem s1) (global_tty s) @ typed ks"
    "tty_waiting (mem s') (global_tty s) = tty_waiting (mem s1) (global_tty s)" unfolding g by auto
  show ?case using s1 s' line_only_trans [OF s1(2) s'(2)] by (intro exI [of _ s']) (simp add: interrupts_add)
qed (simp add: line_only_refl)

section \<open>A reader and its line\<close>

lemma remove_only_tasks: "sched_rr_remove_proc t s = Inr s' \<Longrightarrow> \<exists>T. s' = s\<lparr>tasks := T\<rparr>"
  by (auto simp: sched_rr_remove_proc_def set_task_def Let_def split: if_splits)

lemma switch_keeps:
  assumes "switch_to rsp t s = Inr (s' :: ('d, 'a) kernel_state_scheme)"
  shows "dev s' = dev s" "vgaterm_buf s' = vgaterm_buf s" "global_tty s' = global_tty s" "release s' = release s"
    and "vgaterm_x s' = vgaterm_x s" "vgaterm_y s' = vgaterm_y s"
  using assms by (simp_all add: switch_to_def set_task_def Let_def split: if_splits) auto

lemma sleep_keeps:
  assumes "schedule_sleep rsp s = Inr (s' :: ('d, 'a) kernel_state_scheme)"
  shows "dev s' = dev s" "vgaterm_buf s' = vgaterm_buf s" "global_tty s' = global_tty s" "release s' = release s"
    and "on_screen s' = on_screen s"
proof -
  obtain s1 where s1: "sched_rr_remove_proc (current s) (set_task (current s) (alive_ticks_update (\<lambda>_. 0)) s) = Inr s1"
    "switch_to rsp (t_next (tasks s (current s))) s1 = Inr s'"
    using assms by (auto simp: schedule_sleep_def Let_def rbind_eq_Inr)
  from remove_only_tasks [OF s1(1)] obtain T where "s1 = s\<lparr>tasks := T\<rparr>" by (auto simp: set_task_def)
  with switch_keeps [OF s1(2)] show "dev s' = dev s" "vgaterm_buf s' = vgaterm_buf s" "global_tty s' = global_tty s"
    "release s' = release s" "on_screen s' = on_screen s" by (simp_all add: on_screen_def)
qed

text \<open>Calling \<open>stdin_read\<close> registers the task and takes it off the run queue.\<close>

lemma read_sleeps:
  assumes "key_ready ctx s" "run_queue s (t # x # xs)" "pid (tasks s t) \<noteq> pid (tasks s x)" "tty_waiting (mem s) (global_tty s) = 0"
    "length (tty_text (mem s) (global_tty s)) \<le> 1024"
  obtains s' where "stdin_read rsp s = Inr s'" "run_queue s' (x # xs)" "key_ready ctx s'" "dev s' = dev s" "global_tty s' = global_tty s"
    "tty_text (mem s') (global_tty s) = tty_text (mem s) (global_tty s)" "tty_waiting (mem s') (global_tty s) = t"
proof -
  let ?g = "global_tty s"
  define s1 where "s1 = s\<lparr>mem := st64 (mem s) (?g + 1032) t\<rparr>"
  have cur: "current s = t" using assms(2) by (simp add: run_queue_def)
  have "run_queue s1 (t # x # xs)" "pid (tasks s1 t) \<noteq> pid (tasks s1 x)" using assms(2,3) by (simp_all add: run_queue_def s1_def)
  from schedule_sleep_drops [OF this, of rsp] obtain s' where s': "schedule_sleep rsp s1 = Inr s'" "run_queue s' (x # xs)" "mem s' = mem s1" by blast
  note keeps = sleep_keeps [OF s'(1)]
  have read: "stdin_read rsp s = Inr s'" using s'(1) assms(4) by (simp add: stdin_read_def tty_waiting_def cur s1_def)
  have m: "mem s' a = mem s a" if "a \<notin> rng ?g 1056" for a
  proof -
    have "a \<notin> rng (?g + 1032) 8" using that tty_part [of 1032 8 a ?g] by auto
    then show ?thesis by (simp add: s'(3) s1_def st64_other del: in_rng)
  qed
  have "key_frame ctx s'"
    by (rule key_frame_cong [of _ s]) (use assms(1) keeps m in \<open>auto simp: key_ready_def s1_def simp del: in_rng\<close>)
  then have "key_ready ctx s'" using assms(1) keeps by (simp add: key_ready_def tty_apart_def s1_def on_screen_def)
  then show thesis using that [OF read s'(2)] keeps clear_waiting [of "mem s" ?g t] assms(5) by (simp add: s'(3) s1_def)
qed

text \<open>
  C38. What is typed is what the reader gets. A task that reads from the terminal goes to sleep and the next
  task runs. The keyboard then sends, for any presses and releases of keys that fit the buffer and a press of
  the enter key, their scan codes, one interrupt per byte. No interrupt fails; releases leave no trace; at the
  end the reader is in the run queue right behind the running task, and when it runs again its read delivers the
  first \<open>n\<close> bytes of what the buffer held before followed by one character per key pressed, in order, and
  the newline, and empties the buffer.
\<close>

theorem keyboard_line_delivered:
  assumes "ps2_keyboard P codes" "key_ready ctx s" "run_queue s (t # x # xs)" "pid (tasks s t) \<noteq> pid (tasks s x)"
    "tty_waiting (mem s) (global_tty s) = 0" "codes (dev s) = sent (ks @ [Press e]) @ cs"
    "list_all stroke_ok (ks @ [Press e])" "\<not> list_ex ends_line ks" "ends_line (Press e)"
    "length (tty_text (mem s) (global_tty s) @ typed ks) < 1024" "rng buf (unat n) \<inter> rng (global_tty s) 1056 = {}"
    "line = tty_text (mem s) (global_tty s) @ typed ks @ [0x0A]"
  shows "\<exists>s0 s1 r s2. stdin_read rsp s = Inr s0 \<and> run_queue s0 (x # xs)
    \<and> interrupts P rsp' ctx (length (sent (ks @ [Press e]))) s0 = Inr s1 \<and> run_queue s1 (x # t # xs)
    \<and> codes (dev s1) = cs \<and> tty_waiting (mem s1) (global_tty s1) = 0
    \<and> stdin_read_resume buf n s1 = (r, s2) \<and> r = of_nat (min (unat n) (length line))
    \<and> (\<forall>i < unat r. mem s2 (buf + of_nat i) = line ! i) \<and> tty_text (mem s2) (global_tty s2) = []"
proof -
  let ?g = "global_tty s"
  from read_sleeps [OF assms(2-5), of rsp] assms(10) obtain s0 where s0: "stdin_read rsp s = Inr s0" "run_queue s0 (x # xs)" "key_ready ctx s0"
    "dev s0 = dev s" "global_tty s0 = ?g" "tty_text (mem s0) ?g = tty_text (mem s) ?g" "tty_waiting (mem s0) ?g = t" by auto
  have t: "t \<noteq> 0" "t \<notin> set (x # xs)" using assms(3) by (auto simp: run_queue_def ring_Cons)
  have "codes (dev s0) = sent ks @ e # cs" "length (tty_text (mem s0) ?g @ typed ks) \<le> 1024" "list_all stroke_ok ks"
    using assms(6,7,10) s0(4,6) by simp_all
  from strokes [OF assms(1) s0(3) this(1,3) assms(8), of rsp'] this(2) s0(5-7) obtain u where u: "interrupts P rsp' ctx (length (sent ks)) s0 = Inr u"
    "line_only s0 u" "key_ready ctx u" "codes (dev u) = e # cs" "tty_text (mem u) ?g = tty_text (mem s) ?g @ typed ks" "tty_waiting (mem u) ?g = t" by auto
  have f: "global_tty u = ?g" "run_queue u (x # xs)" using line_only_fields [OF u(2)] s0(2,5) by (simp_all add: run_queue_def)
  from press_key [OF assms(1) u(3,4), of rsp'] assms(7,9) obtain d where
    d: "codes d = cs" "isr_main_entry P rsp' ctx u = tty_send_key P (KEY ''ENTER'') (u\<lparr>dev := d\<rparr>)" by auto
  have "tty_apart (u\<lparr>dev := d\<rparr>)" using u(3) by (simp add: key_ready_def tty_apart_def on_screen_def)
  moreover have "unat (ld32 (mem u) ?g) < 1024" using arg_cong [OF u(5), of length] assms(10) by simp
  moreover have "run_queue (u\<lparr>dev := d\<rparr>) (x # xs)" using f(2) by (simp add: run_queue_def)
  ultimately obtain s1 where s1: "tty_send_key P (KEY ''ENTER'') (u\<lparr>dev := d\<rparr>) = Inr s1" "run_queue s1 (x # t # xs)" "global_tty s1 = ?g"
    "tty_text (mem s1) ?g = line" "tty_waiting (mem s1) ?g = 0"
    using send_enter [of "u\<lparr>dev := d\<rparr>" t x xs P] t f(1) u(5,6) assms(12) by auto
  obtain r s2 where rd: "stdin_read_resume buf n s1 = (r, s2)" by fastforce
  have "unat (ld32 (mem s1) (global_tty s1)) \<le> 1024" using arg_cong [OF s1(4), of length] assms(10,12) s1(3) by simp
  note res = resume_read [OF this _ rd]
  have "global_tty s2 = global_tty s1" using rd by (auto simp: stdin_read_resume_def Let_def)
  moreover have "interrupts P rsp' ctx (length (sent (ks @ [Press e]))) s0 = Inr s1"
    using interrupts_add [of P rsp' ctx "length (sent ks)" 1 s0] u(1) d(2) s1(1) by simp
  moreover have "codes (dev s1) = cs" using send_key_codes [OF assms(1) s1(1)] d(1) by simp
  ultimately show ?thesis using s0(1,2) s1 rd res assms(11) by (intro exI conjI) auto
qed

text \<open>A keyboard whose state is what it has sent, and two runnable tasks.\<close>

definition sample_keyboard :: "u8 list ports" where
  "sample_keyboard = \<lparr>inb = (\<lambda>p d. if p = PS2_DATA then (hd (d @ [0]), tl d) else (0, d)), outb = (\<lambda>p x d. d),
     inw = (\<lambda>p d. (0, d)), outw = (\<lambda>p x d. d)\<rparr>"

definition sample_strokes :: "stroke list" where
  "sample_strokes = [Press 0x4B, Release 0x4B, Press 0x1B]"

definition sample_keys :: "u8 list kernel_state" where
  "sample_keys = \<lparr>mem = st64 (\<lambda>_. 0) 0x300048 0x2100000000, n_regions = 0, regions = [], kernel_brk = KERNEL_BRK_START, heap_base = 0,
     statics = sample_statics, mms = (\<lambda>_. zero_mm), vmas = (\<lambda>_. zero_vma), dev = sent (sample_strokes @ [Press 0x5A]), rootfs = 0,
     tasks = (\<lambda>_. sample_task 3 TASK_ZOMBIE 0 0 0)(16 := sample_task 1 TASK_RUNNING 32 32 32, 32 := sample_task 2 TASK_RUNNING 16 16 0),
     files = (\<lambda>_. zero_file), current = 16, proc_root = 32, current_task_stack = 0, tss_rsp0 = 0, cr3 = 0, cpu_rsp = 0,
     vgaterm_y = 0, vgaterm_x = 0, vgaterm_color = 0x07, vgaterm_buf = VGATERM_BUF_START,
     global_tty = 0x100000, release = False, next_pid = 1000\<rparr>"

lemma nth_pred_numeral: "(x # xs) ! numeral v = xs ! pred_numeral v"
  by (simp add: numeral_eq_Suc)

lemma length_sc_names: "length sc_names = 256"
  by (simp only: sc_names_def list.size)

lemma sample_names: "sc_names ! 0x4B = ''L''" "sc_names ! 0x1B = ''S''" "sc_names ! 0x5A = ''ENTER''"
  by (simp_all only: sc_names_def nth_pred_numeral pred_numeral_simps nth_Cons_0 BitM.simps)

lemma sample_codes: "key_of 0x4B = KEY ''L''" "key_of 0x1B = KEY ''S''" "key_of 0x5A = KEY ''ENTER''"
  using sample_names by (simp_all add: key_of_def sc_map_def length_sc_names)

lemma sample_keys_names: "KEY ''L'' \<noteq> KEY ''ENTER''" "KEY ''S'' \<noteq> KEY ''ENTER''"
  by (simp_all add: KEY_def ps2_key_def)

theorem keyboard_line_delivered_witness:
  "\<exists>s0 s1 r s2. stdin_read 0 sample_keys = Inr s0 \<and> interrupts sample_keyboard 0 0x300000 5 s0 = Inr s1 \<and> run_queue s1 [32, 16]
    \<and> stdin_read_resume 0x200000 64 s1 = (r, s2) \<and> r = 3 \<and> mem s2 0x200001 = key_map (KEY ''S'')"
proof -
  let ?s = sample_keys
  have kb: "ps2_keyboard sample_keyboard (\<lambda>d. d)" by (simp add: ps2_keyboard_def sample_keyboard_def)
  have z: "ld32 (st64 (\<lambda>_. 0) 0x300048 0x2100000000) 0x100000 = 0" "ld64 (st64 (\<lambda>_. 0) 0x300048 0x2100000000) 0x100408 = 0"
    by (simp_all add: ld32_bytes ld64_bytes st64_other)
  have far: "rng 0x300000 120 \<inter> (rng VGATERM_BUF_START 4160 \<union> rng 0x100000 1056) = {}" "rng VGATERM_BUF_START 4160 \<inter> rng 0x100000 1056 = {}"
    "rng 0x200000 (unat (64 :: u64)) \<inter> rng 0x100000 1056 = {}"
    using rng_disjoint_nat [of "0x100000" 1056 VGATERM_BUF_START 4160] rng_disjoint_nat [of "0x300000" 120 VGATERM_BUF_START 4160]
      rng_disjoint_nat [of "0x100000" 1056 "0x300000" 120] rng_disjoint_nat [of "0x100000" 1056 "0x200000" 64]
    by (simp_all add: VGATERM_BUF_START_def Int_commute Int_Un_distrib)
  have ready: "key_ready 0x300000 ?s"
    using far(1,2) by (simp add: key_ready_def key_frame_def tty_apart_def on_screen_def sample_keys_def ld64_st64 del: in_rng)
  have q: "run_queue ?s [16, 32]" "pid (tasks ?s 16) \<noteq> pid (tasks ?s 32)"
    by (simp_all add: sample_keys_def run_queue_def ring_Cons link_def sample_task_def)
  have t: "tty_waiting (mem ?s) (global_tty ?s) = 0" "tty_text (mem ?s) (global_tty ?s) = []"
    using z by (simp_all add: sample_keys_def tty_waiting_def tty_text_def)
  have k: "dev ?s = sent (sample_strokes @ [Press 0x5A]) @ []" "list_all stroke_ok (sample_strokes @ [Press 0x5A])"
    "\<not> list_ex ends_line sample_strokes" "ends_line (Press 0x5A)" "length (sent (sample_strokes @ [Press 0x5A])) = 5"
    "typed sample_strokes = [key_map (KEY ''L''), key_map (KEY ''S'')]"
    by (simp_all add: sample_keys_def sample_strokes_def sample_codes sample_keys_names)
  have room: "length (tty_text (mem ?s) (global_tty ?s) @ typed sample_strokes) < 1024" unfolding t(2) k(6) by simp
  have apart: "rng 0x200000 (unat (64 :: u64)) \<inter> rng (global_tty ?s) 1056 = {}" using far(3) by (simp add: sample_keys_def)
  from keyboard_line_delivered [OF kb ready q(1,2) t(1) k(1-4) room apart refl, of 0 0] obtain s0 s1 r s2 where
    "stdin_read 0 ?s = Inr s0" "interrupts sample_keyboard 0 0x300000 5 s0 = Inr s1" "run_queue s1 [32, 16]"
    "stdin_read_resume 0x200000 64 s1 = (r, s2)" "r = 3" and b: "\<forall>i < unat r. mem s2 (0x200000 + of_nat i) = [key_map (KEY ''L''), key_map (KEY ''S''), 0x0A] ! i"
    unfolding k(5,6) t(2) by auto
  moreover have "mem s2 0x200001 = key_map (KEY ''S'')" using spec [OF b, of 1] \<open>r = 3\<close> by simp
  ultimately show ?thesis by blast
qed

end
