(* ===== verification/Teardown.thy ===== *)
theory Teardown
  imports Address_Space Heap_Client
begin

text \<open>
  Destroying an address space: \<^verbatim>\<open>mm_free\<close>, \<^verbatim>\<open>mm_free_reg_vma\<close> and \<^verbatim>\<open>mm_unshare_vma\<close> of \<^verbatim>\<open>src/src/mm/vmm.c\<close>. The
  page tables, the frames of the regular areas and the objects on the heap are given back, each exactly once.
\<close>

section \<open>What has been given back\<close>

text \<open>
  On the way from \<open>s\<close> to \<open>s'\<close> the pages \<open>Q\<close> of the address space at \<open>mmp\<close> have been unmapped, and the frames \<open>D\<close>,
  the tables that are gone and the heap objects at the addresses \<open>H\<close> have been given back. Areas at other
  addresses than \<open>A\<close>, other address spaces and the contents of all that is still in use are as before.
\<close>

definition torn :: "u64 \<Rightarrow> nat set \<Rightarrow> u64 set \<Rightarrow> u64 set \<Rightarrow> u64 set \<Rightarrow> 'a vmm_state_scheme \<Rightarrow> 'a vmm_state_scheme \<Rightarrow> bool" where
  "torn mmp Q D H A s s' \<longleftrightarrow> kernel_ok s' \<and> mm_ok s' (mms s' mmp) \<and> mm_live (mem s') (mms s' mmp)
     \<and> (\<forall>w. mm_lookup (mem s') (mms s' mmp) w = (if page_no w \<in> Q then 0 else mm_lookup (mem s) (mms s mmp) w))
     \<and> mm_tables (mem s') (mms s' mmp) \<subseteq> mm_tables (mem s) (mms s mmp)
     \<and> D \<subseteq> used_frames s - mm_tables (mem s) (mms s mmp)
     \<and> used_frames s' = used_frames s - (mm_tables (mem s) (mms s mmp) - mm_tables (mem s') (mms s' mmp)) - D
     \<and> free_frames s' = free_frames s \<union> (mm_tables (mem s) (mms s mmp) - mm_tables (mem s') (mms s' mmp)) \<union> D
     \<and> (\<forall>x \<in> frame_bytes (used_frames s - mm_tables (mem s) (mms s mmp) - D). mem s' x = mem s x)
     \<and> active_regions s' = active_regions s \<and> statics s' = statics s
     \<and> (\<forall>q. q \<noteq> mmp \<longrightarrow> mms s' q = mms s q) \<and> vm_areas (mms s' mmp) = vm_areas (mms s mmp)
     \<and> heap_objects s' = {ob \<in> heap_objects s. fst ob \<notin> H}
     \<and> (\<forall>(q, k) \<in> heap_objects s'. \<forall>x \<in> rng q (unat k). mem s' x = mem s x)
     \<and> (\<forall>a. a \<notin> A \<longrightarrow> vmas s' a = vmas s a)"

lemma torn_refl:
  assumes "kernel_ok s" "mm_ok s (mms s mmp)" "mm_live (mem s) (mms s mmp)"
  shows "torn mmp {} {} {} {} s s"
  using assms by (simp add: torn_def split_beta)

lemma tornD:
  assumes "torn mmp Q D H A s s'"
  shows "kernel_ok s'" "mm_ok s' (mms s' mmp)" "mm_live (mem s') (mms s' mmp)"
    and "mm_lookup (mem s') (mms s' mmp) w = (if page_no w \<in> Q then 0 else mm_lookup (mem s) (mms s mmp) w)"
    and "mm_tables (mem s') (mms s' mmp) \<subseteq> mm_tables (mem s) (mms s mmp)" "D \<subseteq> used_frames s - mm_tables (mem s) (mms s mmp)"
    and "used_frames s' = used_frames s - (mm_tables (mem s) (mms s mmp) - mm_tables (mem s') (mms s' mmp)) - D"
    and "free_frames s' = free_frames s \<union> (mm_tables (mem s) (mms s mmp) - mm_tables (mem s') (mms s' mmp)) \<union> D"
    and "x \<in> frame_bytes (used_frames s - mm_tables (mem s) (mms s mmp) - D) \<Longrightarrow> mem s' x = mem s x"
    and "active_regions s' = active_regions s" "statics s' = statics s" "q \<noteq> mmp \<Longrightarrow> mms s' q = mms s q"
    and "vm_areas (mms s' mmp) = vm_areas (mms s mmp)" "heap_objects s' = {ob \<in> heap_objects s. fst ob \<notin> H}"
    and "(p, k) \<in> heap_objects s' \<Longrightarrow> y \<in> rng p (unat k) \<Longrightarrow> mem s' y = mem s y" "a \<notin> A \<Longrightarrow> vmas s' a = vmas s a"
  using assms unfolding torn_def by blast+

lemma torn_trans:
  assumes a: "torn mmp Q D H A s s'" and b: "torn mmp Q' D' H' A' s' s''"
  shows "torn mmp (Q \<union> Q') (D \<union> D') (H \<union> H') (A \<union> A') s s''"
proof -
  note A = tornD [OF a] and B = tornD [OF b]
  let ?T = "mm_tables (mem s) (mms s mmp)" and ?T' = "mm_tables (mem s') (mms s' mmp)" and ?T'' = "mm_tables (mem s'') (mms s'' mmp)"
  have TU: "?T \<subseteq> used_frames s \<union> ?T" by blast
  have D': "D' \<subseteq> used_frames s - ?T" using B(6) A(7) by blast
  have "used_frames s - ?T - (D \<union> D') \<subseteq> used_frames s' - ?T' - D'" using A(5,7) by blast
  note f = frame_bytes_mono [OF this]
  have g: "frame_bytes (used_frames s - ?T - (D \<union> D')) \<subseteq> frame_bytes (used_frames s - ?T - D)" by (rule frame_bytes_mono) blast
  have fr: "mem s'' x = mem s x" if "x \<in> frame_bytes (used_frames s - ?T - (D \<union> D'))" for x
    using B(9) [OF subsetD [OF f that]] A(9) [OF subsetD [OF g that]] by simp
  have hp: "mem s'' x = mem s x" if "(q, k) \<in> heap_objects s''" "x \<in> rng q (unat k)" for q k x
  proof -
    have "(q, k) \<in> heap_objects s'" using that(1) B(14) by simp
    then show ?thesis using B(15) [OF that] A(15) [OF _ that(2)] by simp
  qed
  have us: "used_frames s'' = used_frames s - (?T - ?T'') - (D \<union> D')" unfolding B(7) A(7) using A(5,6) B(5,6) D' by blast
  have fs: "free_frames s'' = free_frames s \<union> (?T - ?T'') \<union> (D \<union> D')" unfolding B(8) A(8) using A(5) B(5) by blast
  have ho: "heap_objects s'' = {ob \<in> heap_objects s. fst ob \<notin> H \<union> H'}" unfolding B(14) A(14) by blast
  show ?thesis
    unfolding torn_def
    by (intro conjI allI impI ballI us fs ho) (use A(4-6,10-13,16) B(1-5,10-13,16) D' fr hp in \<open>auto simp del: in_rng\<close>)
qed

section \<open>Single steps\<close>

lemma set_mm_heap [simp]:
  fixes s :: "'a vmm_state_scheme"
  shows "heap_objects (set_mm p m s) = heap_objects s" "statics (set_mm p m s) = statics s"
  by (simp_all add: set_mm_def heap_objects_def heap_inv_def)

text \<open>A step that changes memory inside the frames only.\<close>

lemma phys_only_kernel:
  fixes s s' :: "'a vmm_state_scheme"
  assumes ok: "kernel_ok s" and ph: "phys_only s s'" and inv: "pmm_inv s'"
  shows "kernel_ok s'" "heap_objects s' = heap_objects s" "mms s' = mms s" "vmas s' = vmas s" "statics s' = statics s"
    and "(q, k) \<in> heap_objects s \<Longrightarrow> x \<in> rng q (unat k) \<Longrightarrow> mem s' x = mem s x"
proof -
  have f: "heap_base s' = heap_base s" "kernel_brk s' = kernel_brk s" and g: "mms s' = mms s" "vmas s' = vmas s" "statics s' = statics s"
    using ph by (auto simp: phys_only_def)
  show "kernel_ok s'" "heap_objects s' = heap_objects s"
    using kernel_ok_phys_change [OF ok inv phys_only_regions [OF ph] phys_only_mem [OF ph] f] by blast+
  show "mms s' = mms s" "vmas s' = vmas s" "statics s' = statics s" by (rule g)+
  have k: "regions_ok (active_regions s)" "regions_low (active_regions s)" "heap_ok s" using ok by (simp_all add: kernel_ok_def pmm_inv_def)
  show "mem s' x = mem s x" if "(q, k) \<in> heap_objects s" "x \<in> rng q (unat k)"
    using phys_only_mem [OF ph heap_span_not_phys [OF k(1,2) objects_in_span [OF k(3) that]]] .
qed

lemma unmap_torn:
  fixes s :: "'a vmm_state_scheme"
  assumes ok: "kernel_ok s" "mm_ok s (mms s mmp)" "mm_live (mem s) (mms s mmp)" and v: "mm_lookup (mem s) (mms s mmp) v \<noteq> 0"
  shows "\<exists>s'. unmap_page_at mmp v s = Inr s' \<and> torn mmp {page_no v} {} {} {} s s'"
proof -
  obtain t where t: "p4 (mms s mmp) \<noteq> 0" "walk (entry (mem s)) (p4 (mms s mmp)) [P4_NDX v, P3_NDX v, P2_NDX v] = Some t"
    using v by (auto simp: mm_lookup_def pt_lookup_def simp del: walk.simps split: if_splits option.splits)
  have "pt_inv s (p4 (mms s mmp))" using ok(2) t(1) by (simp add: mm_ok_def)
  from vmm_unmap_page_spec [OF this t] obtain mm' s1 where
    c: "vmm_unmap_page (mms s mmp) v s = Inr (mm', s1)" and un: "mm_unmapped v s (mms s mmp) s1 mm'" and lv: "mm_live (mem s1) mm'"
    using ok(3) by blast
  have ph: "phys_only s s1" and inv: "pmm_inv s1" using un by (simp_all add: mm_unmapped_def mm_ok_def)
  note k = phys_only_kernel [OF ok(1) ph inv]
  have "unmap_page_at mmp v s = Inr (set_mm mmp mm' s1)" by (simp add: unmap_page_at_def c)
  moreover have "torn mmp {page_no v} {} {} {} s (set_mm mmp mm' s1)"
    using un lv k(1-5) k(6) phys_only_regions [OF ph]
    by (auto simp: torn_def mm_unmapped_def simp del: in_rng)
  ultimately show ?thesis by blast
qed

lemma mm_tables_kept:
  assumes "mm_ok s mm" "pmm_inv s'" "mm_tables (mem s) mm \<subseteq> used_frames s'" "\<And>x. x \<in> frame_bytes (mm_tables (mem s) mm) \<Longrightarrow> mem s' x = mem s x"
  shows "mm_ok s' mm" "mm_lookup (mem s') mm w = mm_lookup (mem s) mm w" "mm_tables (mem s') mm = mm_tables (mem s) mm"
    "mm_live (mem s') mm = mm_live (mem s) mm"
proof -
  have inv: "pmm_inv s" using assms(1) by (simp add: mm_ok_def)
  have "entry (mem s') t j = entry (mem s) t j" if t: "t \<in> mm_tables (mem s) mm" "j < 512" for t j
    using used_frame_props [OF inv] mm_tables_used [OF assms(1)] t assms(4) in_frame_bytes [OF t(1)]
    by (intro entry_cong) blast+
  note s = mm_same_tables [OF assms(1-3) this]
  show "mm_ok s' mm" "mm_lookup (mem s') mm w = mm_lookup (mem s) mm w" "mm_tables (mem s') mm = mm_tables (mem s) mm"
    "mm_live (mem s') mm = mm_live (mem s) mm" using s by blast+
qed

lemma free_frame_torn:
  fixes s :: "'a vmm_state_scheme"
  assumes ok: "kernel_ok s" "mm_ok s (mms s mmp)" "mm_live (mem s) (mms s mmp)"
    and f: "f \<in> used_frames s - mm_tables (mem s) (mms s mmp)"
  shows "\<exists>s'. pmm_free f s = Inr s' \<and> torn mmp {} {f} {} {} s s'"
proof -
  have inv: "pmm_inv s" using ok(1) by (simp add: kernel_ok_def)
  have fu: "f \<in> used_frames s" using f by blast
  obtain s' where c: "pmm_free f s = Inr s'" using pmm.release_frame [OF inv fu] by blast
  note r = release_entry [OF inv fu c] and ph = phys_only_free [OF inv fu c]
  note k = phys_only_kernel [OF ok(1) ph r(1)]
  have T: "mm_tables (mem s) (mms s mmp) \<subseteq> used_frames s" by (rule mm_tables_used [OF ok(2)])
  have "mm_tables (mem s) (mms s mmp) \<subseteq> used_frames s'" using T f r(3) by blast
  note t = mm_tables_kept [OF ok(2) r(1) this r(5) [OF subsetD [OF frame_bytes_mono [OF T]]]]
  have "mem s' x = mem s x" if "x \<in> frame_bytes (used_frames s - mm_tables (mem s) (mms s mmp) - {f})" for x
    using r(5) frame_bytes_mono [of "used_frames s - mm_tables (mem s) (mms s mmp) - {f}" "used_frames s"] that by blast
  then have "torn mmp {} {f} {} {} s s'"
    using t ok(3) r(2,3) k f phys_only_regions [OF ph] by (auto simp: torn_def simp del: in_rng)
  then show ?thesis using c by blast
qed

text \<open>Giving back an object of the heap.\<close>

lemma free_object_torn:
  fixes s :: "'a vmm_state_scheme"
  assumes ok: "kernel_ok s" "mm_ok s (mms s mmp)" "mm_live (mem s) (mms s mmp)" and p: "p \<in> fst ` heap_objects s"
  shows "torn mmp {} {} {p} {} s (free p s)"
proof -
  obtain n where n: "(p, n) \<in> heap_objects s" using p by auto
  have hp: "heap_ok s" and inv: "pmm_inv s" "regions_low (active_regions s)" using ok(1) by (simp_all add: kernel_ok_def)
  note fo = free_object [OF hp n]
  obtain m where m: "free p s = s\<lparr>mem := m\<rparr>" by (rule that [OF fo(4)])
  have f: "mms (free p s) = mms s" "vmas (free p s) = vmas s" "statics (free p s) = statics s" "active_regions (free p s) = active_regions s"
    unfolding m by (simp_all add: active_regions_def)
  have "mem (free p s) x = mem s x" if "x \<notin> heap_span" for x using free_room [OF hp n, of "{x}" x] that by (simp add: room_def)
  then have out: "\<forall>x. x \<notin> heap_span \<longrightarrow> mem (free p s) x = mem s x" by blast
  note hc = heap_change [OF inv f(4) out]
  have k: "kernel_ok (free p s)" using hc(1) fo(1) inv(2) f(4) by (simp add: kernel_ok_def)
  have ob: "heap_objects (free p s) = {ob \<in> heap_objects s. fst ob \<notin> {p}}"
  proof (rule set_eqI)
    fix ob
    show "ob \<in> heap_objects (free p s) \<longleftrightarrow> ob \<in> {ob \<in> heap_objects s. fst ob \<notin> {p}}"
      unfolding fo(2) using kheap.objects_size [OF hp n, of "snd ob"] by (cases ob) auto
  qed
  have fr: "mem (free p s) x = mem s x" if "x \<in> frame_bytes (used_frames s - mm_tables (mem s) (mms s mmp))" for x
    using hc(7) [of x] frame_bytes_mono [of "used_frames s - mm_tables (mem s) (mms s mmp)" "used_frames s \<union> free_frames s"] that by blast
  have ct: "mem (free p s) x = mem s x" if "(q, j) \<in> heap_objects (free p s)" "x \<in> rng q (unat j)" for q j x
    using fo(3) [OF _ that(2)] that(1) fo(2) by blast
  have T: "mm_ok (free p s) (mms s mmp)" "\<And>w. mm_lookup (mem (free p s)) (mms s mmp) w = mm_lookup (mem s) (mms s mmp) w"
    "mm_tables (mem (free p s)) (mms s mmp) = mm_tables (mem s) (mms s mmp)" "mm_live (mem (free p s)) (mms s mmp)"
    using hc(4-6) [OF ok(2)] hc(8) [OF ok(2)] ok(3) by blast+
  show ?thesis
    unfolding torn_def f T(2,3)
    by (intro conjI allI impI ballI ob) (use k T(1,4) fr ct hc(2,3) in \<open>auto simp del: in_rng\<close>)
qed

section \<open>Areas\<close>

text \<open>The pages of an area, the frames that belong to it, and whether it is fit to be given back.\<close>

definition area_page_nos :: "vm_area \<Rightarrow> nat set" where
  "area_page_nos v = page_span (vm_start v) (unat (vm_pages v))"

definition area_frames :: "memory \<Rightarrow> mm \<Rightarrow> vm_area \<Rightarrow> u64 list" where
  "area_frames m mm v = (if vm_type v = VM_AREA_REG
     then map (\<lambda>k. page_base (mm_lookup m mm (vm_start v + of_nat (k * 4096)))) [0..<unat (vm_pages v)] else [])"

text \<open>
  One round of the loops of \<open>mm_free_reg_vma\<close> (with the frame given back) and of \<open>mm_unshare_vma\<close> (without).
\<close>

definition drop_page :: "bool \<Rightarrow> u64 \<Rightarrow> u64 \<Rightarrow> u64 \<Rightarrow> 'a vmm_state_scheme \<Rightarrow> 'a vmm_state_scheme res" where
  "drop_page reg mmp vma off s =
     (let phys = page_base (page_entry mmp (vm_start (vmas s vma) + off) s)
      in rbind (unmap_page_at mmp (vm_start (vmas s vma) + off) s) (\<lambda>s. if reg then pmm_free phys s else Inr s))"

lemma area_loops:
  fixes s :: "'a vmm_state_scheme"
  shows "vm_type (vmas s vma) = VM_AREA_REG \<Longrightarrow>
     mm_free_reg_vma mmp vma s = rbind (page_loop (drop_page True mmp vma) 0 (unat (vm_pages (vmas s vma))) s) (\<lambda>s. Inr (put_vma vma s))"
  "mm_unshare_vma mmp vma s = rbind (page_loop (drop_page False mmp vma) 0 (unat (vm_pages (vmas s vma))) s) (\<lambda>s. Inr (put_vma vma s))"
proof -
  have "drop_page True mmp vma = (\<lambda>off (s :: 'a vmm_state_scheme). let phys = page_base (page_entry mmp (vm_start (vmas s vma) + off) s)
      in rbind (unmap_page_at mmp (vm_start (vmas s vma) + off) s) (pmm_free phys))"
    by (intro ext) (simp add: drop_page_def Let_def)
  then show "vm_type (vmas s vma) = VM_AREA_REG \<Longrightarrow> mm_free_reg_vma mmp vma s =
      rbind (page_loop (drop_page True mmp vma) 0 (unat (vm_pages (vmas s vma))) s) (\<lambda>s. Inr (put_vma vma s))"
    by (simp add: mm_free_reg_vma_def)
  have "rbind r Inr = r" for r :: "'c res" by (cases r) simp_all
  then have "drop_page False mmp vma = (\<lambda>off (s :: 'a vmm_state_scheme). unmap_page_at mmp (vm_start (vmas s vma) + off) s)"
    by (intro ext) (simp add: drop_page_def Let_def)
  then show "mm_unshare_vma mmp vma s =
      rbind (page_loop (drop_page False mmp vma) 0 (unat (vm_pages (vmas s vma))) s) (\<lambda>s. Inr (put_vma vma s))"
    by (simp add: mm_unshare_vma_def)
qed

lemma drop_one:
  fixes s :: "'a vmm_state_scheme"
  assumes ok: "kernel_ok s" "mm_ok s (mms s mmp)" "mm_live (mem s) (mms s mmp)"
    and v: "mm_lookup (mem s) (mms s mmp) v \<noteq> 0" "v = vm_start (vmas s vma) + off" "f = page_base (mm_lookup (mem s) (mms s mmp) v)"
    and f: "reg \<Longrightarrow> f \<in> used_frames s - mm_tables (mem s) (mms s mmp)"
  shows "\<exists>s'. drop_page reg mmp vma off s = Inr s' \<and> torn mmp {page_no v} (if reg then {f} else {}) {} {} s s'"
proof -
  obtain s1 where s1: "unmap_page_at mmp v s = Inr s1" "torn mmp {page_no v} {} {} {} s s1" using unmap_torn [OF ok v(1)] by blast
  note t = tornD [OF s1(2)]
  have e: "page_base (page_entry mmp v s) = f" using page_entry_lookup [OF v(1)] v(3) by simp
  show ?thesis
  proof (cases reg)
    case True
    have "f \<in> used_frames s1 - mm_tables (mem s1) (mms s1 mmp)" using f [OF True] t(5,7) by blast
    from free_frame_torn [OF t(1-3) this] obtain s2 where "pmm_free f s1 = Inr s2" "torn mmp {} {f} {} {} s1 s2" by blast
    then show ?thesis using True s1 e torn_trans [OF s1(2), of "{}" "{f}" "{}" "{}" s2] by (simp add: drop_page_def v(2) Let_def)
  next
    case False
    then show ?thesis using s1 by (simp add: drop_page_def v(2) Let_def)
  qed
qed

text \<open>The whole loop.\<close>

lemma drop_pages:
  fixes s :: "'a vmm_state_scheme"
  assumes "kernel_ok s" "mm_ok s (mms s mmp)" "mm_live (mem s) (mms s mmp)" "pg + n \<le> 2 ^ 19"
    "aligned start" "vm_start (vmas s vma) = start"
    "fs = map (\<lambda>k. page_base (mm_lookup (mem s) (mms s mmp) (start + of_nat ((pg + k) * 4096)))) [0..<n]"
    "\<forall>k < n. mm_lookup (mem s) (mms s mmp) (start + of_nat ((pg + k) * 4096)) \<noteq> 0"
    "reg \<Longrightarrow> distinct fs \<and> set fs \<subseteq> used_frames s - mm_tables (mem s) (mms s mmp)"
  shows "\<exists>s'. page_loop (drop_page reg mmp vma) pg n s = Inr s' \<and>
    torn mmp ((\<lambda>k. page_no (start + of_nat ((pg + k) * 4096))) ` {..<n}) (if reg then set fs else {}) {} {} s s'"
  using assms
proof (induction n arbitrary: pg s fs)
  case 0
  then show ?case using torn_refl by simp
next
  case (Suc n)
  let ?p = "\<lambda>k. start + of_nat ((pg + k) * 4096)" and ?L = "\<lambda>s. mm_lookup (mem s) (mms s mmp)"
  define f where "f = page_base (?L s (?p 0))"
  define gs where "gs = map (\<lambda>k. page_base (?L s (?p (Suc k)))) [0..<n]"
  have fs: "fs = f # gs" unfolding Suc.prems(7) f_def gs_def by (simp only: map_upt_Suc)
  have "?L s (?p 0) \<noteq> 0" "?p 0 = vm_start (vmas s vma) + of_nat (pg * 4096)"
    using Suc.prems(6) Suc.prems(8) [rule_format, of 0] by simp_all
  from drop_one [OF Suc.prems(1-3) this f_def, of reg] Suc.prems(9) obtain s1 where
    s1: "drop_page reg mmp vma (of_nat (pg * 4096)) s = Inr s1" "torn mmp {page_no (?p 0)} (if reg then {f} else {}) {} {} s s1"
    unfolding fs by auto
  note t = tornD [OF s1(2)]
  have L: "?L s1 (?p (Suc k)) = ?L s (?p (Suc k))" if "k < n" for k
    using t(4) pages_distinct [OF Suc.prems(5), of "pg + 0" "pg + Suc k"] Suc.prems(4) that by simp
  have p: "start + of_nat ((Suc pg + k) * 4096) = ?p (Suc k)" for k by simp
  have "\<exists>s'. page_loop (drop_page reg mmp vma) (Suc pg) n s1 = Inr s' \<and>
      torn mmp ((\<lambda>k. page_no (start + of_nat ((Suc pg + k) * 4096))) ` {..<n}) (if reg then set gs else {}) {} {} s1 s'"
  proof (rule Suc.IH)
    show "gs = map (\<lambda>k. page_base (?L s1 (start + of_nat ((Suc pg + k) * 4096)))) [0..<n]" unfolding gs_def p using L by simp
    show "\<forall>k<n. ?L s1 (start + of_nat ((Suc pg + k) * 4096)) \<noteq> 0" 
      unfolding p using L Suc.prems(8) [rule_format, of "Suc k" for k] by simp
    show "distinct gs \<and> set gs \<subseteq> used_frames s1 - mm_tables (mem s1) (mms s1 mmp)" if reg
      using Suc.prems(9) [OF that] t(5,7) that unfolding fs by auto
  qed (use t(1-3,16) Suc.prems(4-6) in simp_all)
  then obtain s' where s': "page_loop (drop_page reg mmp vma) (Suc pg) n s1 = Inr s'"
    "torn mmp ((\<lambda>k. page_no (?p (Suc k))) ` {..<n}) (if reg then set gs else {}) {} {} s1 s'" unfolding p by blast
  have Q: "insert (page_no (?p 0)) ((\<lambda>k. page_no (?p (Suc k))) ` {..<n}) = (\<lambda>k. page_no (?p k)) ` {..<Suc n}"
    by (simp only: lessThan_Suc_eq_insert_0 image_insert image_image)
  have "torn mmp ((\<lambda>k. page_no (?p k)) ` {..<Suc n}) (if reg then set fs else {}) {} {} s s'"
    using torn_trans [OF s1(2) s'(2)] unfolding fs Q [symmetric] by (cases reg) simp_all
  moreover have "page_loop (drop_page reg mmp vma) pg (Suc n) s = Inr s'" using Suc.prems(4) s1(1) s'(1) by simp
  ultimately show ?case by blast
qed

text \<open>The heap object that goes with an area: its own, when this was the last user of it.\<close>

definition area_objects :: "vm_area \<Rightarrow> u64 \<Rightarrow> u64 set" where
  "area_objects v vma = (if refcnt v = 1 then {vma} else {})"

definition area_ok :: "u64 \<Rightarrow> 'a vmm_state_scheme \<Rightarrow> u64 \<Rightarrow> bool" where
  "area_ok mmp s vma \<longleftrightarrow> (let v = vmas s vma; fs = area_frames (mem s) (mms s mmp) v in
     aligned (vm_start v) \<and> unat (vm_pages v) \<le> 2 ^ 19
     \<and> (\<forall>k < unat (vm_pages v). mm_lookup (mem s) (mms s mmp) (vm_start v + of_nat (k * 4096)) \<noteq> 0)
     \<and> distinct fs \<and> set fs \<subseteq> used_frames s - mm_tables (mem s) (mms s mmp)
     \<and> area_objects v vma \<subseteq> fst ` heap_objects s)"

lemma put_vma_torn:
  fixes s :: "'a vmm_state_scheme"
  assumes ok: "kernel_ok s" "mm_ok s (mms s mmp)" "mm_live (mem s) (mms s mmp)" and ob: "area_objects (vmas s vma) vma \<subseteq> fst ` heap_objects s"
  shows "torn mmp {} {} (area_objects (vmas s vma) vma) {vma} s (put_vma vma s)"
proof -
  define s1 where "s1 = set_vma vma ((vmas s vma)\<lparr>refcnt := refcnt (vmas s vma) - 1\<rparr>) s"
  have st: "statics s1 = statics s" "used_frames s1 = used_frames s" "free_frames s1 = free_frames s" "mm_ok s1 mm = mm_ok s mm" for mm
    by (simp_all add: s1_def set_vma_def used_frames_def free_frames_def active_regions_def mm_ok_def pmm_inv_def pt_inv_def)
  have t1: "torn mmp {} {} {} {vma} s s1" using ok st by (simp add: torn_def s1_def split_beta)
  have e: "put_vma vma s = (if refcnt (vmas s1 vma) = 0 then free vma s1 else s1)" by (simp add: put_vma_def Let_def s1_def)
  have z: "refcnt (vmas s1 vma) = 0 \<longleftrightarrow> refcnt (vmas s vma) = 1" by (simp add: s1_def eq_iff_diff_eq_0 [symmetric])
  show ?thesis
  proof (cases "refcnt (vmas s vma) = 1")
    case True
    then have "vma \<in> fst ` heap_objects s1" using ob by (simp add: area_objects_def s1_def)
    from torn_trans [OF t1 free_object_torn [OF tornD(1-3) [OF t1] this]] show ?thesis
      using True z by (simp add: e area_objects_def)
  next
    case False
    then show ?thesis using t1 z by (simp add: e area_objects_def)
  qed
qed

text \<open>One area of either kind.\<close>

definition drop_area :: "u64 \<Rightarrow> u64 \<Rightarrow> 'a vmm_state_scheme \<Rightarrow> 'a vmm_state_scheme res" where
  "drop_area mmp vma s = (if vm_type (vmas s vma) = VM_AREA_REG then mm_free_reg_vma mmp vma s else mm_unshare_vma mmp vma s)"

lemma drop_area_torn:
  fixes s :: "'a vmm_state_scheme"
  assumes ok: "kernel_ok s" "mm_ok s (mms s mmp)" "mm_live (mem s) (mms s mmp)" and a: "area_ok mmp s vma"
  shows "\<exists>s'. drop_area mmp vma s = Inr s' \<and> torn mmp (area_page_nos (vmas s vma)) (set (area_frames (mem s) (mms s mmp) (vmas s vma)))
    (area_objects (vmas s vma) vma) {vma} s s'"
proof -
  define v reg where "v = vmas s vma" and "reg = (vm_type v = VM_AREA_REG)"
  let ?n = "unat (vm_pages v)" and ?L = "\<lambda>k. mm_lookup (mem s) (mms s mmp) (vm_start v + of_nat ((0 + k) * 4096))"
  have al: "aligned (vm_start v)" "0 + ?n \<le> 2 ^ 19" "\<forall>k < ?n. ?L k \<noteq> 0" and ob: "area_objects v vma \<subseteq> fst ` heap_objects s"
    and fr: "distinct (area_frames (mem s) (mms s mmp) v)" "set (area_frames (mem s) (mms s mmp) v) \<subseteq> used_frames s - mm_tables (mem s) (mms s mmp)"
    using a by (simp_all add: area_ok_def Let_def v_def)
  define fs where "fs = map (\<lambda>k. page_base (?L k)) [0..<?n]"
  have af: "area_frames (mem s) (mms s mmp) v = (if reg then fs else [])" by (simp add: area_frames_def reg_def fs_def)
  have vs: "vm_start (vmas s vma) = vm_start v" by (simp add: v_def)
  have d: "reg \<Longrightarrow> distinct fs \<and> set fs \<subseteq> used_frames s - mm_tables (mem s) (mms s mmp)" using fr af by simp
  from drop_pages [OF ok al(2,1) vs fs_def al(3) d] obtain s1 where
    s1: "page_loop (drop_page reg mmp vma) 0 ?n s = Inr s1"
    "torn mmp ((\<lambda>k. page_no (vm_start v + of_nat ((0 + k) * 4096))) ` {..<?n}) (if reg then set fs else {}) {} {} s s1"
    by blast
  have sp: "(\<lambda>k. page_no (vm_start v + of_nat ((0 + k) * 4096))) ` {..<?n} = area_page_nos v" by (simp only: area_page_nos_def page_span_def add_0)
  note t = tornD [OF s1(2)]
  have v1: "vmas s1 vma = v" using t(16) by (simp add: v_def)
  have "area_objects (vmas s1 vma) vma \<subseteq> fst ` heap_objects s1" using ob t(14) v1 by simp
  note p = torn_trans [OF s1(2) put_vma_torn [OF t(1-3) this]]
  have "drop_area mmp vma s = Inr (put_vma vma s1)"
    using s1(1) area_loops [where s = s and vma = vma and mmp = mmp] by (auto simp: drop_area_def reg_def v_def)
  moreover have "torn mmp (area_page_nos v) (set (area_frames (mem s) (mms s mmp) v)) (area_objects v vma) {vma} s (put_vma vma s1)"
    using p unfolding sp af v1 by (cases reg) simp_all
  ultimately show ?thesis by (auto simp: v_def)
qed

section \<open>The whole list\<close>

text \<open>What belongs to the areas of a list: their pages, their frames and the objects on the heap.\<close>

definition all_pages :: "(u64 \<times> u64) list \<Rightarrow> 'a vmm_state_scheme \<Rightarrow> nat set" where
  "all_pages lis s = (\<Union>(li, vma) \<in> set lis. area_page_nos (vmas s vma))"

definition all_frames :: "u64 \<Rightarrow> (u64 \<times> u64) list \<Rightarrow> 'a vmm_state_scheme \<Rightarrow> u64 set" where
  "all_frames mmp lis s = (\<Union>(li, vma) \<in> set lis. set (area_frames (mem s) (mms s mmp) (vmas s vma)))"

definition all_objects :: "(u64 \<times> u64) list \<Rightarrow> 'a vmm_state_scheme \<Rightarrow> u64 set" where
  "all_objects lis s = fst ` set lis \<union> (\<Union>(li, vma) \<in> set lis. area_objects (vmas s vma) vma)"

text \<open>No two areas share a page, a frame or an object.\<close>

definition areas_separate :: "mm \<Rightarrow> 'a vmm_state_scheme \<Rightarrow> u64 \<times> u64 \<Rightarrow> u64 \<times> u64 \<Rightarrow> bool" where
  "areas_separate mm s a b \<longleftrightarrow> area_page_nos (vmas s (snd a)) \<inter> area_page_nos (vmas s (snd b)) = {}
     \<and> set (area_frames (mem s) mm (vmas s (snd a))) \<inter> set (area_frames (mem s) mm (vmas s (snd b))) = {}"

definition areas_ok :: "u64 \<Rightarrow> (u64 \<times> u64) list \<Rightarrow> 'a vmm_state_scheme \<Rightarrow> bool" where
  "areas_ok mmp lis s \<longleftrightarrow> distinct (map fst lis @ map snd lis) \<and> fst ` set lis \<subseteq> fst ` heap_objects s
     \<and> (\<forall>(li, vma) \<in> set lis. area_ok mmp s vma) \<and> sorted_wrt (areas_separate (mms s mmp) s) lis"

lemma area_kept:
  assumes t: "torn mmp Q D H A s s'" and ok: "area_ok mmp s vma" and a: "vma \<notin> A" "area_objects (vmas s vma) vma \<inter> H = {}"
    and dj: "area_page_nos (vmas s vma) \<inter> Q = {}" "set (area_frames (mem s) (mms s mmp) (vmas s vma)) \<inter> D = {}"
  shows "vmas s' vma = vmas s vma" "area_frames (mem s') (mms s' mmp) (vmas s vma) = area_frames (mem s) (mms s mmp) (vmas s vma)"
    "area_ok mmp s' vma"
proof -
  note T = tornD [OF t]
  show v: "vmas s' vma = vmas s vma" by (rule T(16) [OF a(1)])
  have L: "mm_lookup (mem s') (mms s' mmp) (vm_start (vmas s vma) + of_nat (k * 4096)) = mm_lookup (mem s) (mms s mmp) (vm_start (vmas s vma) + of_nat (k * 4096))"
    if "k < unat (vm_pages (vmas s vma))" for k
  proof -
    have "page_no (vm_start (vmas s vma) + of_nat (k * 4096)) \<in> area_page_nos (vmas s vma)"
      unfolding area_page_nos_def page_span_def using that by blast
    then show ?thesis using T(4) dj(1) by auto
  qed
  show f: "area_frames (mem s') (mms s' mmp) (vmas s vma) = area_frames (mem s) (mms s mmp) (vmas s vma)"
    unfolding area_frames_def using L by (auto simp del: of_nat_mult)
  have "set (area_frames (mem s) (mms s mmp) (vmas s vma)) \<subseteq> used_frames s' - mm_tables (mem s') (mms s' mmp)"
    using ok T(5,7) dj(2) unfolding area_ok_def Let_def by blast
  moreover have "area_objects (vmas s vma) vma \<subseteq> fst ` heap_objects s'"
    using ok a(2) unfolding T(14) area_ok_def Let_def by force
  ultimately show "area_ok mmp s' vma" using ok L unfolding area_ok_def Let_def v f by simp
qed

lemma areas_kept:
  assumes t: "torn mmp Q D H A s s'" and ok: "areas_ok mmp lis s"
    and dj: "snd ` set lis \<inter> A = {}" "all_objects lis s \<inter> H = {}" "all_pages lis s \<inter> Q = {}" "all_frames mmp lis s \<inter> D = {}"
  shows "areas_ok mmp lis s'" "all_pages lis s' = all_pages lis s" "all_frames mmp lis s' = all_frames mmp lis s"
    "all_objects lis s' = all_objects lis s"
proof -
  have k: "vmas s' vma = vmas s vma" "area_frames (mem s') (mms s' mmp) (vmas s vma) = area_frames (mem s) (mms s mmp) (vmas s vma)"
    "area_ok mmp s' vma" if "(li, vma) \<in> set lis" for li vma
  proof -
    have "area_ok mmp s vma" using ok that by (auto simp: areas_ok_def)
    moreover have "vma \<notin> A" using dj(1) that by force
    moreover have "area_objects (vmas s vma) vma \<inter> H = {}" "area_page_nos (vmas s vma) \<inter> Q = {}"
      "set (area_frames (mem s) (mms s mmp) (vmas s vma)) \<inter> D = {}"
      using dj(2-4) that unfolding all_objects_def all_pages_def all_frames_def by blast+
    ultimately show "vmas s' vma = vmas s vma" "area_ok mmp s' vma"
      "area_frames (mem s') (mms s' mmp) (vmas s vma) = area_frames (mem s) (mms s mmp) (vmas s vma)"
      using area_kept [OF t] by blast+
  qed
  show "all_pages lis s' = all_pages lis s" "all_frames mmp lis s' = all_frames mmp lis s" "all_objects lis s' = all_objects lis s"
    unfolding all_pages_def all_frames_def all_objects_def by (intro SUP_cong arg_cong2 [of _ _ _ _ "(\<union>)"] refl; use k in auto)+
  have "sorted_wrt (areas_separate (mms s' mmp) s') lis"
    by (rule sorted_wrt_mono_rel [of _ "areas_separate (mms s mmp) s"]) (use k ok in \<open>auto simp: areas_separate_def areas_ok_def\<close>)
  moreover have "fst ` set lis \<subseteq> fst ` heap_objects s'"
  proof
    fix p assume p: "p \<in> fst ` set lis"
    then obtain n where "(p, n) \<in> heap_objects s" using ok unfolding areas_ok_def by force
    moreover have "p \<notin> H" using dj(2) p unfolding all_objects_def by blast
    ultimately show "p \<in> fst ` heap_objects s'" unfolding tornD(14) [OF t] by force
  qed
  ultimately show "areas_ok mmp lis s'" using ok k(3) unfolding areas_ok_def by auto
qed

lemma objects_at: "all_objects lis s \<subseteq> fst ` set lis \<union> snd ` set lis"
  by (force simp: all_objects_def area_objects_def split: if_splits)

lemma free_areas_Cons: "free_areas mmp ((li, vma) # lis) s = rbind (drop_area mmp vma s) (\<lambda>s. free_areas mmp lis (free li s))"
  by (simp add: drop_area_def split: vm_area_type.split)

lemma free_areas_torn:
  fixes s :: "'a vmm_state_scheme"
  assumes "kernel_ok s" "mm_ok s (mms s mmp)" "mm_live (mem s) (mms s mmp)" "areas_ok mmp lis s"
  shows "\<exists>s'. free_areas mmp lis s = Inr s' \<and> torn mmp (all_pages lis s) (all_frames mmp lis s) (all_objects lis s) (snd ` set lis) s s'"
  using assms
proof (induction lis arbitrary: s)
  case Nil
  then show ?case using torn_refl by (simp add: all_pages_def all_frames_def all_objects_def)
next
  case (Cons a lis)
  obtain li vma where a: "a = (li, vma)" by (cases a)
  have ok: "area_ok mmp s vma" "areas_ok mmp lis s" "li \<in> fst ` heap_objects s" "li \<noteq> vma"
    and out: "li \<notin> fst ` set lis" "li \<notin> snd ` set lis" "vma \<notin> fst ` set lis" "vma \<notin> snd ` set lis"
    and ap: "\<forall>b \<in> set lis. areas_separate (mms s mmp) s a b"
    using Cons.prems(4) by (auto simp: areas_ok_def a)
  have apart: "area_page_nos (vmas s vma) \<inter> area_page_nos (vmas s w) = {}"
    "set (area_frames (mem s) (mms s mmp) (vmas s vma)) \<inter> set (area_frames (mem s) (mms s mmp) (vmas s w)) = {}"
    if "(l, w) \<in> set lis" for l w using bspec [OF ap that] by (simp_all add: areas_separate_def a)
  from drop_area_torn [OF Cons.prems(1-3) ok(1)] obtain s1 where s1: "drop_area mmp vma s = Inr s1"
    "torn mmp (area_page_nos (vmas s vma)) (set (area_frames (mem s) (mms s mmp) (vmas s vma))) (area_objects (vmas s vma) vma) {vma} s s1" by blast
  have "li \<in> fst ` heap_objects s1" using ok(3,4) unfolding tornD(14) [OF s1(2)] by (force simp: area_objects_def)
  note t = torn_trans [OF s1(2) free_object_torn [OF tornD(1-3) [OF s1(2)] this]]
  have dj: "snd ` set lis \<inter> ({vma} \<union> {}) = {}" "all_objects lis s \<inter> (area_objects (vmas s vma) vma \<union> {li}) = {}"
    using out objects_at [of lis s] by (auto simp: area_objects_def split: if_splits)
  have dj': "all_pages lis s \<inter> (area_page_nos (vmas s vma) \<union> {}) = {}"
    "all_frames mmp lis s \<inter> (set (area_frames (mem s) (mms s mmp) (vmas s vma)) \<union> {}) = {}"
    unfolding all_pages_def all_frames_def using apart by blast+
  note k = areas_kept [OF t ok(2) dj dj']
  from Cons.IH [OF tornD(1-3) [OF t] k(1)] obtain s' where s': "free_areas mmp lis (free li s1) = Inr s'"
    "torn mmp (all_pages lis s) (all_frames mmp lis s) (all_objects lis s) (snd ` set lis) (free li s1) s'" unfolding k(2-4) by blast
  have "free_areas mmp (a # lis) s = Inr s'" unfolding a free_areas_Cons using s1(1) s'(1) by simp
  moreover have "all_objects (a # lis) s = (area_objects (vmas s vma) vma \<union> {li}) \<union> all_objects lis s"
    "all_pages (a # lis) s = (area_page_nos (vmas s vma) \<union> {}) \<union> all_pages lis s"
    "all_frames mmp (a # lis) s = (set (area_frames (mem s) (mms s mmp) (vmas s vma)) \<union> {}) \<union> all_frames mmp lis s"
    "snd ` set (a # lis) = ({vma} \<union> {}) \<union> snd ` set lis"
    by (auto simp: all_objects_def all_pages_def all_frames_def a)
  ultimately show ?case using torn_trans [OF t s'(2)] by (simp only:) blast
qed

section \<open>Room on the heap\<close>

text \<open>While the break is far from its limit, small objects can be allocated.\<close>

lemma kmalloc_succeeds:
  assumes "heap_ok s" "0 < unat n" "unat n \<le> 2 ^ 32" "unat (kernel_brk s) + 32 + unat n < unat BRK_LIMIT"
  obtains p s' where "kmalloc n s = Inr (p, s')" "unat (kernel_brk s') \<le> unat (kernel_brk s) + 32 + unat n"
proof -
  obtain bs where bs: "heap_inv s bs" using assms(1) by (auto simp: heap_ok_def)
  have n: "n \<noteq> 0" using assms(2) by auto
  note nw = request_nowrap [OF bs assms(3)]
  show thesis
  proof (cases "place n bs")
    case (Some r)
    then show ?thesis using kmalloc_place [OF bs n, of "fst r" "snd r"] nw that by fastforce
  next
    case None
    have "unat (kernel_brk s + 32 + n) \<le> unat (kernel_brk s) + 32 + unat n"
      by (simp add: unat_word_ariths mod_simps)
    then show ?thesis using kmalloc_grow [OF bs n None assms(4)] that by fastforce
  qed
qed

lemma kcalloc_succeeds:
  assumes "heap_ok s" "0 < unat (m * n)" "unat (m * n) \<le> 2 ^ 32" "unat (kernel_brk s) + 32 + unat (m * n) < unat BRK_LIMIT"
  obtains p s' where "kcalloc m n s = Inr (p, s')" "unat (kernel_brk s') \<le> unat (kernel_brk s) + 32 + unat (m * n)"
  using kmalloc_succeeds [OF assms] that by (fastforce simp: kcalloc_def Let_def)

lemma add_area_succeeds:
  fixes s :: "'a vmm_state_scheme"
  assumes ok: "kernel_ok s" and b: "unat (kernel_brk s) + 120 < unat BRK_LIMIT"
  shows "add_area mmp v s \<noteq> Inl e"
proof -
  have hp: "heap_ok s" using ok by (simp add: kernel_ok_def)
  have n: "0 < unat (1 * sizeof_vm_area)" "unat (1 * sizeof_vm_area) \<le> 2 ^ 32" "unat (1 * sizeof_vm_area) = 32" by (simp_all add: sizeof_vm_area_def)
  obtain vma s1 where s1: "kcalloc 1 sizeof_vm_area s = Inr (vma, s1)" "unat (kernel_brk s1) \<le> unat (kernel_brk s) + 32 + 32"
    by (rule kcalloc_succeeds [OF hp n(1,2)]) (use b n(3) in simp_all)
  have l: "0 < unat sizeof_vm_area_li" "unat sizeof_vm_area_li \<le> 2 ^ 32" "unat sizeof_vm_area_li = 24" by (simp_all add: sizeof_vm_area_li_def)
  let ?s = "set_vma vma v s1"
  have "heap_ok ?s" using kcalloc_kernel(1) [OF ok n(1,2) s1(1)] by (simp add: kernel_ok_def)
  then obtain li s2 where "kmalloc sizeof_vm_area_li ?s = Inr (li, s2)"
    by (rule kmalloc_succeeds [OF _ l(1,2)]) (use b s1(2) l(3) in \<open>simp_all add: set_vma_def\<close>)
  then show ?thesis by (simp add: add_area_def s1(1) mm_insert_vma_def Let_def)
qed

lemma anon_mmap_succeeds:
  fixes s :: "'a vmm_state_scheme"
  assumes ok: "kernel_ok s" "mm_ok s (mms s mmp)" and free: "5 * unat pages \<le> card (free_frames s)"
    and small: "unat pages \<le> 2 ^ 19" and al: "page_off start = 0" and b: "unat (kernel_brk s) + 120 < unat BRK_LIMIT"
  shows "anon_mmap mmp start pages prot user s \<noteq> Inl e"
proof -
  let ?fl = "vma_flags prot user"
  have al': "aligned start" using al by (simp add: aligned_iff_page_off)
  obtain s1 where s1: "page_loop (anon_page mmp start ?fl) 0 (unat pages) s = Inr s1" "mm_ok s1 (mms s1 mmp)"
    "mm_kept (mms s mmp) s (mms s1 mmp) s1" "objects_kept mmp s s1"
    using anon_pages [OF ok(2) free vma_flags_bound [of prot user], of 0 start, unfolded add_0, OF small al'] by blast
  have "kernel_ok s1" using kernel_ok_phys_change(1) [OF ok(1), of s1] s1(2-4) by (auto simp: mm_ok_def mm_kept_def objects_kept_def)
  note ne = add_area_succeeds [OF this, of mmp _ e]
  have "kernel_brk s1 = kernel_brk s" using s1(4) by (simp add: objects_kept_def)
  moreover have "(\<lambda>off s. case pmm_alloc s of (fr, s) \<Rightarrow> Inr (map_page_at mmp (start + off) fr ?fl s))
      = (anon_page mmp start ?fl :: u64 \<Rightarrow> 'a vmm_state_scheme \<Rightarrow> 'a vmm_state_scheme res)"
    by (intro ext) (simp add: anon_page_def)
  ultimately show ?thesis using al s1(1) ne b by (simp add: anon_mmap_def Let_def add_area_def)
qed

section \<open>A fresh address space\<close>

text \<open>
  A new address space with one anonymous mapping fulfils the conditions for being destroyed, and what would be
  given back is what was taken.
\<close>

definition destroyable :: "u64 \<Rightarrow> 'a vmm_state_scheme \<Rightarrow> bool" where
  "destroyable mmp s \<longleftrightarrow> (let lis = vm_areas (mms s mmp) in
     kernel_ok s \<and> mm_ok s (mms s mmp) \<and> mm_live (mem s) (mms s mmp) \<and> areas_ok mmp lis s
     \<and> (\<forall>w. mm_lookup (mem s) (mms s mmp) w \<noteq> 0 \<longrightarrow> page_no w \<in> all_pages lis s)
     \<and> mmp \<in> fst ` heap_objects s \<and> mmp \<notin> all_objects lis s)"

lemma mapped_area:
  fixes s s' :: "'a vmm_state_scheme"
  assumes fm: "frames_mapped mmp start fs flags s s'" "length fs = unat pages" "unat flags < 4096" "aligned start" "unat pages \<le> 2 ^ 19"
    and v: "vmas s' vma = \<lparr>refcnt = 1, vm_type = VM_AREA_REG, vm_start = start, vm_pages = pages, vm_user = user, vm_prot = prot\<rparr>"
    and ob: "vma \<in> fst ` heap_objects s'"
  shows "area_frames (mem s') (mms s' mmp) (vmas s' vma) = fs" "area_page_nos (vmas s' vma) = page_span start (length fs)" "area_ok mmp s' vma"
proof -
  have mt: "mapped_to mmp start fs flags s'" using fm(1,3,4) by (simp add: mapped_to_def frames_mapped_def)
  have L: "mm_lookup (mem s') (mms s' mmp) (start + of_nat (k * 4096)) = fs ! k OR flags" if "k < length fs" for k
    using fm(1) that unfolding frames_mapped_def by blast
  have "area_frames (mem s') (mms s' mmp) (vmas s' vma) = map (\<lambda>k. page_base (mm_lookup (mem s') (mms s' mmp) (start + of_nat (k * 4096)))) [0..<length fs]"
    by (simp add: area_frames_def v fm(2))
  also have "\<dots> = map (\<lambda>k. fs ! k) [0..<length fs]"
    by (rule map_cong [OF refl]) (use L mapped_to_frame(2) [OF mt] in simp)
  finally show f: "area_frames (mem s') (mms s' mmp) (vmas s' vma) = fs" by (simp add: map_nth)
  show "area_page_nos (vmas s' vma) = page_span start (length fs)" by (simp add: area_page_nos_def v fm(2))
  have "mm_lookup (mem s') (mms s' mmp) (start + of_nat (k * 4096)) \<noteq> 0" if "k < unat pages" for k
    using L mapped_to_frame(3) [OF mt] that fm(2) by metis
  then show "area_ok mmp s' vma"
    using fm(1,4,5) ob unfolding area_ok_def Let_def f by (simp add: v area_objects_def frames_mapped_def)
qed

lemma fresh_space:
  fixes s :: "'a vmm_state_scheme"
  assumes ok: "kernel_ok s" and free: "5 * unat pages \<le> card (free_frames s)" and small: "unat pages \<le> 2 ^ 19"
    and al: "page_off start = 0" and b: "unat (kernel_brk s) + 168 < unat BRK_LIMIT"
  obtains p s1 s2 where "kcalloc 1 sizeof_mm s = Inr (p, s1)" "anon_mmap p start pages prot user (set_mm p zero_mm s1) = Inr s2"
    "destroyable p s2" "active_regions s2 = active_regions s"
    "used_frames s \<subseteq> used_frames s2" "(mm_tables (mem s2) (mms s2 p) \<union> all_frames p (vm_areas (mms s2 p)) s2) \<inter> used_frames s = {}"
    "card (all_frames p (vm_areas (mms s2 p)) s2) = unat pages"
proof -
  have n: "0 < unat (1 * sizeof_mm)" "unat (1 * sizeof_mm) \<le> 2 ^ 32" "unat (1 * sizeof_mm) = 16" by (simp_all add: sizeof_mm_def)
  have k0: "heap_ok s" "pmm_inv s" "regions_low (active_regions s)" using ok by (simp_all add: kernel_ok_def)
  obtain p s1 where c: "kcalloc 1 sizeof_mm s = Inr (p, s1)" "unat (kernel_brk s1) \<le> unat (kernel_brk s) + 32 + 16"
    by (rule kcalloc_succeeds [OF k0(1) n(1,2)]) (use b n(3) in simp_all)
  note kc = kcalloc_kernel [OF ok n(1,2) c(1)]
  obtain i where i: "heap_objects s1 = insert (p, i) (heap_objects s)" using kc(5) by blast
  have out: "\<forall>x. x \<notin> heap_span \<longrightarrow> mem s1 x = mem s x" using kc(2) by blast
  note hc = heap_change [OF k0(2,3) kc(3) out]
  define t where "t = set_mm p zero_mm s1"
  have t: "kernel_ok t" "mm_ok t (mms t p)" "mms t p = zero_mm" "free_frames t = free_frames s" "used_frames t = used_frames s"
    "heap_objects t = heap_objects s1" "kernel_brk t = kernel_brk s1" "active_regions t = active_regions s"
    using kc(1,3) hc(1-3) by (simp_all add: t_def mm_ok_def zero_mm_def) (simp add: set_mm_def)
  have fr: "5 * unat pages \<le> card (free_frames t)" "unat (kernel_brk t) + 120 < unat BRK_LIMIT" using free c(2) b t(4,7) by simp_all
  have "anon_mmap p start pages prot user t \<noteq> Inl (Panic ''kernel heap exhausted'')"
    by (rule anon_mmap_succeeds [OF t(1,2) fr(1) small al fr(2)])
  with anon_mmap_spec [OF t(1,2) fr(1) small al, of prot user]
  obtain s2 fs li vma where sp: "anon_mmap p start pages prot user t = Inr s2" "kernel_ok s2" "length fs = unat pages"
    "frames_mapped p start fs (vma_flags prot user) t s2" "vm_areas (mms s2 p) = (li, vma) # vm_areas (mms t p)" "vma \<notin> fst ` heap_objects t"
    "vmas s2 = (vmas t)(vma := \<lparr>refcnt = 1, vm_type = VM_AREA_REG, vm_start = start, vm_pages = pages, vm_user = user, vm_prot = ucast prot\<rparr>)"
    "li \<notin> insert vma (fst ` heap_objects t)" "\<exists>j k. heap_objects s2 = insert (li, k) (insert (vma, j) (heap_objects t))" by blast
  have v: "vmas s2 vma = \<lparr>refcnt = 1, vm_type = VM_AREA_REG, vm_start = start, vm_pages = pages, vm_user = user, vm_prot = ucast prot\<rparr>"
    unfolding sp(7) by simp
  obtain j k where ho: "heap_objects s2 = insert (li, k) (insert (vma, j) (heap_objects t))" using sp(9) by blast
  note a = sp(1-6) v sp(8) ho
  have al': "aligned start" using al by (simp add: aligned_iff_page_off)
  have lis: "vm_areas (mms s2 p) = [(li, vma)]" using a(5) by (simp add: t(3) zero_mm_def)
  note ar = mapped_area [OF a(4,3) vma_flags_bound al' small a(7)]
  have A: "area_frames (mem s2) (mms s2 p) (vmas s2 vma) = fs" "area_page_nos (vmas s2 vma) = page_span start (length fs)" "area_ok p s2 vma"
    using ar a(9) by simp_all
  have all: "all_pages [(li, vma)] s2 = page_span start (length fs)" "all_frames p [(li, vma)] s2 = set fs" "all_objects [(li, vma)] s2 = {li, vma}"
    using A by (auto simp: all_pages_def all_frames_def all_objects_def area_objects_def a(7))
  have "page_no w \<in> page_span start (length fs)" if "mm_lookup (mem s2) (mms s2 p) w \<noteq> 0" for w
  proof (rule ccontr)
    assume "page_no w \<notin> page_span start (length fs)"
    then have "mm_lookup (mem s2) (mms s2 p) w = mm_lookup (mem t) (mms t p) w" using a(4) unfolding frames_mapped_def page_span_def by blast
    then show False using that by (simp add: t(3) mm_lookup_def zero_mm_def)
  qed
  moreover have "areas_ok p [(li, vma)] s2" using A(3) a(8,9) by (simp add: areas_ok_def)
  moreover have "mm_live (mem t) (mms t p)" by (simp add: t(3) mm_live_def zero_mm_def)
  moreover have "mm_ok s2 (mms s2 p)" "mm_live (mem t) (mms t p) \<longrightarrow> mm_live (mem s2) (mms s2 p)"
    using a(4) by (simp_all add: frames_mapped_def)
  moreover have "p \<in> fst ` heap_objects t" using i t(6) by force
  then have "p \<in> fst ` heap_objects s2" "p \<noteq> li" "p \<noteq> vma" using a(6,8,9) by auto
  ultimately have d: "destroyable p s2" using a(2) unfolding destroyable_def Let_def lis all by simp
  have sk: "space_kept (mms t p) t (mms s2 p) s2" and f: "set fs \<subseteq> free_frames t" "distinct fs" using a(4) by (simp_all add: frames_mapped_def)
  have "mm_tables (mem t) (mms t p) = {}" by (simp add: t(3) mm_tables_def zero_mm_def)
  then have "(mm_tables (mem s2) (mms s2 p) \<union> all_frames p (vm_areas (mms s2 p)) s2) \<inter> used_frames s = {}"
    using sk f used_free_frames_disjoint [OF k0(2)] unfolding lis all space_kept_def t(4,5) by blast
  then show thesis
    using that [OF c(1) a(1) [unfolded t_def] d] sk t(5,8) f(2) a(3) unfolding lis all by (simp add: space_kept_def distinct_card)
qed

section \<open>Property\<close>

text \<open>Without a region at address 0, releasing address 0 has no effect.\<close>

lemma pmm_free_zero:
  assumes "\<forall>r \<in> set (active_regions s). region_start r \<noteq> 0"
  shows "pmm_free 0 s = Inr s"
proof -
  have "fold (free_in_region 0) rs m = m" if "\<forall>r \<in> set rs. region_start r \<noteq> 0" for rs m
    using that by (induction rs arbitrary: m) (simp_all add: free_in_region_def word_gt_0)
  from this [OF assms, of "mem s"] show ?thesis by (simp add: pmm_free_def page_off_def)
qed

text \<open>
  C16. Destroying an address space gives everything back, exactly once. When its areas share no page, frame or
  object, every mapped page lies in one of them, and no table is superfluous, \<open>mm_free\<close> returns; the frames that
  become free are its page tables and the frames of its regular areas (the frames of shared areas stay in use),
  the heap loses the address space, its list and the areas that had no other user, and the contents of all
  other frames and objects, as well as all other address spaces, are unchanged. The last hypothesis excludes a
  memory region at address 0, whose first page the final \<open>pmm_free (p4 = 0)\<close> would release.
\<close>

theorem mm_free_correct:
  assumes "kernel_ok s" "mm_ok s (mms s mmp)" "mm_live (mem s) (mms s mmp)" and lis: "lis = vm_areas (mms s mmp)"
    and "areas_ok mmp lis s" "\<forall>w. mm_lookup (mem s) (mms s mmp) w \<noteq> 0 \<longrightarrow> page_no w \<in> all_pages lis s"
    and "mmp \<in> fst ` heap_objects s" "mmp \<notin> all_objects lis s"
    and "\<forall>r \<in> set (active_regions s). region_start r \<noteq> 0"
    and freed: "freed = mm_tables (mem s) (mms s mmp) \<union> all_frames mmp lis s"
  shows "\<exists>s'. mm_free mmp s = Inr s' \<and> kernel_ok s' \<and> used_frames s' = used_frames s - freed \<and> free_frames s' = free_frames s \<union> freed
    \<and> (\<forall>x \<in> frame_bytes (used_frames s'). mem s' x = mem s x)
    \<and> heap_objects s' = {ob \<in> heap_objects s. fst ob \<notin> insert mmp (all_objects lis s)}
    \<and> (\<forall>(q, k) \<in> heap_objects s'. \<forall>x \<in> rng q (unat k). mem s' x = mem s x)
    \<and> (\<forall>q. q \<noteq> mmp \<longrightarrow> mms s' q = mms s q)"
proof -
  obtain s1 where s1: "free_areas mmp lis s = Inr s1"
    and t1: "torn mmp (all_pages lis s) (all_frames mmp lis s) (all_objects lis s) (snd ` set lis) s s1"
    using free_areas_torn [OF assms(1-3,5)] by blast
  have "mm_lookup (mem s1) (mms s1 mmp) w = 0" for w using tornD(4) [OF t1, of w] assms(6) by auto
  note e = mm_live_empty [OF tornD(3) [OF t1] this]
  have "\<forall>r \<in> set (active_regions s1). region_start r \<noteq> 0" using assms(9) tornD(10) [OF t1] by simp
  note z = pmm_free_zero [OF this]
  have "mmp \<in> fst ` heap_objects s1" using assms(7,8) unfolding tornD(14) [OF t1] by force
  note t = torn_trans [OF t1 free_object_torn [OF tornD(1-3) [OF t1] this]]
  let ?s = "free mmp s1"
  note T = tornD [OF t] and T' = tornD [OF free_object_torn [OF tornD(1-3) [OF t1] \<open>mmp \<in> fst ` heap_objects s1\<close>]]
  have none: "mm_tables (mem ?s) (mms ?s mmp) = {}" using T'(5) e(2) by simp
  have free: "mm_free mmp s = Inr ?s" using s1 z e(1) by (simp add: mm_free_def lis)
  have us: "used_frames ?s = used_frames s - freed" using T(7) none freed by auto
  have fs: "free_frames ?s = free_frames s \<union> freed" using T(8) none freed by auto
  have "mem ?s x = mem s x" if "x \<in> frame_bytes (used_frames ?s)" for x
    using T(9) [of x] that unfolding us freed by (simp add: Diff_Un Diff_Diff_Int Diff_eq Int_assoc)
  moreover have "heap_objects ?s = {ob \<in> heap_objects s. fst ob \<notin> insert mmp (all_objects lis s)}" unfolding T(14) by blast
  ultimately show ?thesis using free T(1,12,15) us fs by (intro exI [of _ ?s]) auto
qed

theorem mm_free_correct_witness:
  "\<exists>p s1 s2 s3. kcalloc 1 sizeof_mm sample_kernel = Inr (p, s1) \<and> anon_mmap p 0x400000 2 1 True (set_mm p zero_mm s1) = Inr s2
    \<and> mm_free p s2 = Inr s3 \<and> used_frames s3 = used_frames s2 - (mm_tables (mem s2) (mms s2 p) \<union> all_frames p (vm_areas (mms s2 p)) s2)
    \<and> card (all_frames p (vm_areas (mms s2 p)) s2) = 2 \<and> used_frames sample_kernel \<subseteq> used_frames s3"
proof -
  have pg: "5 * unat (2 :: u64) \<le> card (free_frames sample_kernel)" "unat (2 :: u64) \<le> 2 ^ 19" "page_off 0x400000 = 0"
    using sample_kernel_facts(3) by (simp_all add: page_off_def)
  have b: "unat (kernel_brk sample_kernel) + 168 < unat BRK_LIMIT"
    unfolding sample_kernel_facts(6) by (simp add: KERNEL_BRK_START_def INIT_HEAP_SIZE_def BRK_LIMIT_def KERNEL_BRK_PAGES_def)
  from fresh_space [OF sample_kernel_facts(1) pg b, of 1 True] obtain p s1 s2 where
    s: "kcalloc 1 sizeof_mm sample_kernel = Inr (p, s1)" "anon_mmap p 0x400000 2 1 True (set_mm p zero_mm s1) = Inr s2"
      "destroyable p s2" "active_regions s2 = active_regions sample_kernel" "used_frames sample_kernel \<subseteq> used_frames s2"
      "(mm_tables (mem s2) (mms s2 p) \<union> all_frames p (vm_areas (mms s2 p)) s2) \<inter> used_frames sample_kernel = {}"
      "card (all_frames p (vm_areas (mms s2 p)) s2) = unat (2 :: u64)" by metis
  have "\<forall>r \<in> set (active_regions s2). region_start r \<noteq> 0"
    unfolding s(4) sample_kernel_facts(5) by (simp add: sample_region_def)
  from mm_free_correct [OF _ _ _ refl _ _ _ _ this refl, of p] s(3) obtain s3 where
    "mm_free p s2 = Inr s3" "used_frames s3 = used_frames s2 - (mm_tables (mem s2) (mms s2 p) \<union> all_frames p (vm_areas (mms s2 p)) s2)"
    unfolding destroyable_def Let_def by blast
  then show ?thesis using s by (intro exI [of _ p] exI [of _ s1] exI [of _ s2] exI [of _ s3]) auto
qed

end
