(* ===== verification/Spec2Isabelle.thy ===== *)
theory Spec2Isabelle
  imports Ext2_Read Sched_Steps Printf_Buffer Printf_Console Fork_Process Syscall_Spec Keyboard Teardown
begin

text \<open>
  Verification of blackcomb, a small 64-bit x86 kernel (\<^verbatim>\<open>src/src\<close>).

  \<^bold>\<open>The program.\<close> \<^verbatim>\<open>kernel_main\<close> (\<^verbatim>\<open>kernel/main.c\<close>) starts the components one after the other:
  the physical memory manager, the kernel's address space, the heap, the descriptor and interrupt tables,
  the keyboard and its terminal line, the file system on the first disk, and the first process, which it
  loads from a file.
  From then on the kernel runs through its two entries, interrupts (\<^verbatim>\<open>drivers/int.c\<close>) and system calls
  (\<^verbatim>\<open>kernel/sys.c\<close>). The physical memory manager (\<^verbatim>\<open>mm/pmm.c\<close>) hands out page frames; the virtual
  memory manager (\<^verbatim>\<open>mm/vmm.c\<close>) builds page tables from them; the heap (\<^verbatim>\<open>mm/kmalloc.c\<close>) grows into
  pages mapped by it. The disk driver (\<^verbatim>\<open>drivers/ata.c\<close>) and ext2 (\<^verbatim>\<open>fs/ext2.c\<close>) take their buffers
  from the heap. The scheduler (\<^verbatim>\<open>kernel/sched.c\<close>, \<^verbatim>\<open>kernel/fork.c\<close>, \<^verbatim>\<open>kernel/exit.c\<close>) keeps the
  runnable tasks in a ring; the keyboard (\<^verbatim>\<open>drivers/ps2.c\<close>) feeds the terminal line
  (\<^verbatim>\<open>kernel/tty.c\<close>), which wakes the task that reads from it.

  \<^bold>\<open>The model.\<close> Every C function is a function from its arguments and the kernel's state to a result and
  the new state. A function that can fail returns a \<open>kerror\<close> on the left of a sum: a call of
  \<^verbatim>\<open>panic\<close>, an access that C does not define, or a loop that never ends. There is one state, a chain of
  records that each layer extends with its own variables: \<open>pmm_state\<close>, \<open>heap_state\<close>, \<open>vmm_state\<close>,
  \<open>io_state\<close> (the devices), \<open>fs_state\<close>, \<open>proc_state\<close>, \<open>term_state\<close>, \<open>kernel_state\<close>. The operations
  of a layer work on every extension of its record, so a lemma of a lower layer applies unchanged in a
  higher one. Integers have the width of the C type and wrap around.

  Memory is one function from 64-bit addresses to bytes. Allocation bitmaps, page tables, heap
  headers, file-system structures, screen cells, descriptor tables, line buffers and stack frames all
  live in it, so the correctness theorems also say which bytes are left alone. Task structures, open
  files, address spaces and their areas are kept in one store per type, indexed by address; the heap
  still decides the address.

  \<^bold>\<open>Theories.\<close>
  \<^item> \<open>Prelude\<close>, \<open>Memory\<close>, \<open>Layout\<close>: integers, outcomes, the macros of \<^verbatim>\<open>defs.h\<close> and \<^verbatim>\<open>util.h\<close>;
    loads, stores and the ranges they touch; structures as lists of sized fields.
  \<^item> \<open>CString\<close> (\<^verbatim>\<open>lib/string.c\<close>): C21 and C23, each routine against lists of bytes.
  \<^item> \<open>Frame_Alloc\<close>, \<open>Pmm\<close> (\<^verbatim>\<open>mm/pmm.c\<close>, \<^verbatim>\<open>multiboot2.h\<close>): C1 to C6. The memory map becomes regions,
    each with a bitmap in its first pages. C1 establishes the invariant, C2 to C5 show that frames are
    handed out once and returned, C6 concerns the kernel image.
  \<^item> \<open>Paging\<close>, \<open>Vmm\<close> (\<^verbatim>\<open>mm/vmm.c\<close>): C9 to C11 for one page (map, look up, unmap, with the tables a
    tree of frames that unmapping leaves without an empty table), C18 and C19 for ranges and anonymous mappings.
  \<^item> \<open>Address_Space\<close>, \<open>Fork_Memory\<close>, \<open>New_Space\<close> (the copying and sharing routines of \<^verbatim>\<open>mm/vmm.c\<close>): the bytes a process sees
    through its page tables. C34 shows that \<^verbatim>\<open>mm_dupe\<close> makes an address space that shares the pages of the kernel and
    has copies of the others in frames of its own. The relation \<open>spread\<close> says what a growing address space leaves alone.
  \<^item> \<open>Teardown\<close> (\<^verbatim>\<open>mm_free\<close> and what it calls): C16, destroying an address space gives back exactly its page
    tables, the frames of its regular areas and its objects. Each step is an instance of one relation, \<open>torn\<close>,
    that says which pages, frames and objects are gone; the relation composes.
  \<^item> \<open>Heap_Alloc\<close>, \<open>Kmalloc\<close>, \<open>Heap_Client\<close> (\<^verbatim>\<open>mm/kmalloc.c\<close>): C12 to C15. The headers represent a
    list of blocks; allocation and release are first fit and coalescing on that list; objects are disjoint.
  \<^item> \<open>Ata\<close> (\<^verbatim>\<open>drivers/ata.c\<close>, \<^verbatim>\<open>io.h\<close>): C24, reading bytes from a drive.
  \<^item> \<open>Ext2\<close>, \<open>Ext2_Read\<close> (\<^verbatim>\<open>fs/ext2.c\<close>, \<^verbatim>\<open>ext2.h\<close>): C25, C27 to C29, block paths, inodes, whole files and
    directory search against the format on the disk.
  \<^item> \<open>Sched\<close>, \<open>Run_Queue\<close> (\<^verbatim>\<open>kernel/sched.c\<close>, \<^verbatim>\<open>kernel/exit.c\<close>): C30 to C33, the ring, round-robin
    scheduling, exit.
  \<^item> \<open>Descriptors\<close> (\<^verbatim>\<open>mm/gdt.c\<close>, \<^verbatim>\<open>drivers/int.c\<close>): C35 and C36, the tables as the processor decodes
    them.
  \<^item> \<open>Vgaterm\<close> (\<^verbatim>\<open>kernel/vgaterm.c\<close>, short forms of the formats the kernel prints): C37, the
    screen refines an ideal terminal.
  \<^item> \<open>Printf\<close>, \<open>Printf_Spec\<close>, \<open>Printf_Buffer\<close>, \<open>Printf_Console\<close> (\<^verbatim>\<open>lib/printf.c\<close>): the interpreter of formats and its
    conversions, with the output function a parameter. Printing to a buffer stays inside it (C7) and numbers
    read back (C8); printing to the screen ends and leaves the rest alone (C26), and agrees with the short forms (C17).
  \<^item> \<open>Tty\<close> (\<^verbatim>\<open>kernel/tty.c\<close>, \<^verbatim>\<open>drivers/ps2.c\<close>), \<open>Keyboard\<close>: C38, from the keys pressed, through one interrupt per
    scan code, to the line that the sleeping reader finds in its buffer when it runs again.
  \<^item> \<open>Process\<close>, \<open>Fork_Spec\<close>, \<open>Fork_Process\<close> (\<^verbatim>\<open>kernel/fork.c\<close>, \<^verbatim>\<open>fs/exec.c\<close>, \<^verbatim>\<open>fs/open.c\<close>, \<^verbatim>\<open>kernel/sys.c\<close>, the rest of
    \<^verbatim>\<open>kernel/sched.c\<close>): C39, the whole of a fork over both memory managers: it succeeds
    unless the heap is exhausted, and what it leaves to parent and child.
  \<^item> \<open>Exec_Spec\<close>: C22, loading the segments of a program. \<open>Syscall_Spec\<close>: C20, what every system call may do to the
    tables of open files.
  \<^item> \<open>Boot\<close> (\<^verbatim>\<open>kernel/main.c\<close>, interrupt dispatch).
  \<^item> \<open>Sched_Steps\<close>: C40, the processes as a transition system and the invariant of its reachable states.

  \<^bold>\<open>Interfaces.\<close> The locale \<open>frame_allocator\<close> is the contract between \<open>Pmm\<close> and the page tables, and
  \<open>heap_allocator\<close> the one between \<open>Kmalloc\<close> and its clients; they are interpreted on \<open>pmm_alloc\<close> and
  \<open>pmm_free\<close>, and on \<open>kmalloc\<close> and \<open>free\<close>. \<open>round_robin\<close> derives from one rotation of a queue that every
  task gets its turn, and is interpreted on \<open>schedule\<close>. \<open>char_device\<close> derives the effect of printing
  text from the effect of one character, and is interpreted on the screen. \<open>printer\<close> is the contract of an output function of \<open>printf\<close>; the totality
  of the format interpreter is proved once from it, and it is interpreted on the buffer (\<open>buf\<close>) and on the screen (\<open>con\<close>).

  \<^bold>\<open>Devices.\<close> The hardware behind the port instructions is a parameter: a state of any type and one function
  per instruction. Only four properties assume anything of it. For C24, C27 and C28 \<open>ata_drive\<close> states what the ATA
  documentation says of reading sectors, and a concrete drive satisfies it; for C38 \<open>ps2_keyboard\<close> states that
  reading the data port takes the next scan code, and a concrete keyboard satisfies it.

  \<^bold>\<open>Loops.\<close> A loop that may not end (the search for a zero byte, a heap block, a multiboot tag, a directory
  entry, a ready drive, the end of a format) is a partial function with \<open>None\<close> for not returning; the theorems show that it
  returns. Loops with a counter are terminating functions. The loop over the segments of an ELF file reads
  its bound again in every round; the bound is a 16-bit field, and \<open>load_segments_budget\<close> shows that a budget
  of two to the power of 16 rounds is never what ends it.

  \<^bold>\<open>Simplifications.\<close> User addresses are read and written in the same memory as kernel addresses, and the
  direct map of physical memory is always there. An object on the kernel stack has its address as an extra
  argument. A system call that sleeps returns, in the model, the point at which its task goes on; a context
  switch returns the state in which the next task continues. In \<open>Sched_Steps\<close> reaping a zombie is not a step
  (it leaves a dangling pointer in the list of children), a new task structure is at an unused address, and the
  counter of pids has not wrapped around.

  \<^bold>\<open>Not modelled.\<close> The assembly files (boot page tables, interrupt stubs, system-call entry) and the
  privileged instructions they or inline assembly execute (\<^verbatim>\<open>lgdt\<close>, \<^verbatim>\<open>lidt\<close>, loading \<^verbatim>\<open>cr3\<close>, the registers that
  enable system calls); of the context switch, its effect on the stack pointer. The floating-point and
  \<^verbatim>\<open>long long\<close> parts of \<^verbatim>\<open>lib/printf.c\<close>, which the build leaves out of the kernel. Constants of \<^verbatim>\<open>elf.h\<close> and
  \<^verbatim>\<open>multiboot2.h\<close> that no code uses. User programs.

  \<^bold>\<open>Modelled, with no theorem of correctness yet.\<close> Reaping a task and the start sequence.
\<close>

end
